(* ===== verification/Lamb_Prelude.thy ===== *)
theory Lamb_Prelude
  imports Main "HOL-Library.Word"
begin

text \<open>
  Shared vocabulary of the development: the machine integers of the C++ sources, the
  error values that stand for exceptions, failed \<open>LAMB_ASSERT\<close>s and undefined behaviour,
  the result monad that threads them, \<open>size_t\<close> subtraction, and the list and word lemmas
  the components share (block overwriting, blocks of equal length, bits of words).
\<close>

unbundle bit_operations_syntax

section \<open>Collections of rewrite rules\<close>

named_theorems res_simps \<open>facts on the result monad\<close>
named_theorems blit_simps \<open>facts on overwriting a range of a list\<close>
named_theorems word_bits \<open>bits of the words the codecs build\<close>

section \<open>Machine integers\<close>

type_synonym u8 = "8 word"
type_synonym u16 = "16 word"
type_synonym u32 = "32 word"
type_synonym u64 = "64 word"

text \<open>
  Sizes and offsets (\<open>size_t\<close>) are \<open>nat\<close>; only their subtraction can leave the range in
  the sources, and it wraps at \<open>2 ^ 64\<close>.
\<close>

definition size_sub :: "nat \<Rightarrow> nat \<Rightarrow> nat" where
  "size_sub a b = (if b \<le> a then a - b else 2 ^ 64 + a - b)"

lemma size_sub_le [simp]: "b \<le> a \<Longrightarrow> size_sub a b = a - b"
  by (simp add: size_sub_def)

section \<open>Errors and the result monad\<close>

datatype exn =
    Out_of_range string
  | Length_error string
  | Invalid_argument string
  | Logic_error string
  | Assertion string
  | Null_deref
  | Bad_access string
  | Undefined string

type_synonym 'a res = "exn + 'a"

fun bindR :: "'a res \<Rightarrow> ('a \<Rightarrow> 'b res) \<Rightarrow> 'b res" where
  "bindR (Inl e) f = Inl e"
| "bindR (Inr x) f = f x"

definition checkR :: "bool \<Rightarrow> exn \<Rightarrow> unit res" where
  "checkR b e = (if b then Inr () else Inl e)"

lemma bindR_cong [fundef_cong]:
  "m = m' \<Longrightarrow> (\<And>x. m' = Inr x \<Longrightarrow> f x = g x) \<Longrightarrow> bindR m f = bindR m' g"
  by (cases m') auto

lemma bindR_Inr_iff [res_simps]: "bindR m f = Inr y \<longleftrightarrow> (\<exists>x. m = Inr x \<and> f x = Inr y)"
  by (cases m) auto

lemma bindR_assoc [res_simps]: "bindR (bindR m f) g = bindR m (\<lambda>x. bindR (f x) g)"
  by (cases m) auto

lemma bindR_right_Inr [simp]: "bindR m Inr = m"
  by (cases m) auto

lemma checkR_simps [simp]:
  "checkR True e = Inr ()"
  "checkR False e = Inl e"
  by (simp_all add: checkR_def)

lemma checkR_Inr_iff [res_simps]: "checkR b e = Inr u \<longleftrightarrow> b"
  by (simp add: checkR_def)

section \<open>Overwriting a range of a list\<close>

text \<open>What \<open>memcpy (dst + off, src, length src)\<close> leaves in a buffer.\<close>

definition blit :: "nat \<Rightarrow> 'a list \<Rightarrow> 'a list \<Rightarrow> 'a list" where
  "blit off src dst = take off dst @ src @ drop (off + length src) dst"

lemma blit_Nil [simp]: "blit off [] dst = dst"
  by (simp add: blit_def)

lemma length_blit [simp]:
  "off + length src \<le> length dst \<Longrightarrow> length (blit off src dst) = length dst"
  by (simp add: blit_def)

lemma length_blit_grow:
  "off \<le> length dst \<Longrightarrow> length (blit off src dst) = max (length dst) (off + length src)"
  by (simp add: blit_def)

lemma take_blit_before [blit_simps]:
  "n \<le> off \<Longrightarrow> off \<le> length dst \<Longrightarrow> take n (blit off src dst) = take n dst"
  by (simp add: blit_def min_def)

lemma take_drop_blit [blit_simps]:
  "off \<le> length dst \<Longrightarrow> take (length src) (drop off (blit off src dst)) = src"
  by (simp add: blit_def)

lemma drop_blit [blit_simps]:
  "off \<le> length dst \<Longrightarrow>
    drop off (blit off src dst) = src @ drop (off + length src) dst"
  by (simp add: blit_def)

lemma drop_blit_after [blit_simps]:
  "off \<le> length dst \<Longrightarrow>
    drop (off + length src) (blit off src dst) = drop (off + length src) dst"
  by (simp add: blit_def)

lemma blit_blit_adjacent:
  assumes "off \<le> length dst"
  shows "blit (off + length a) b (blit off a dst) = blit off (a @ b) dst"
proof -
  have "take (off + length a) (blit off a dst) = take off dst @ a"
    using assms by (simp add: blit_def)
  moreover have "drop (off + length a + length b) (blit off a dst)
      = drop (off + length (a @ b)) dst"
    using assms by (simp add: blit_def algebra_simps)
  ultimately show ?thesis
    unfolding blit_def [of "off + length a"] by (simp add: blit_def)
qed

lemma blit_append:
  assumes "off + length src \<le> length xs"
  shows "blit off src (xs @ ys) = blit off src xs @ ys"
  using assms by (simp add: blit_def)

lemma blit_append_right:
  "blit (length xs + off) src (xs @ ys) = xs @ blit off src ys"
  by (simp add: blit_def add.assoc)

lemma take_blit_grow:
  assumes "off \<le> k" and "k \<le> length dst" and "off + length src \<le> length dst"
  shows "take (max k (off + length src)) (blit off src dst) = blit off src (take k dst)"
  using assms by (auto simp: blit_def max_def min_def take_drop)

section \<open>Lists of blocks of equal length\<close>

definition uniform :: "nat \<Rightarrow> 'a list list \<Rightarrow> bool" where
  "uniform b xss \<longleftrightarrow> list_all (\<lambda>xs. length xs = b) xss"

lemma uniform_simps [simp]:
  "uniform b []"
  "uniform b (xs # xss) \<longleftrightarrow> length xs = b \<and> uniform b xss"
  "uniform b (xss @ yss) \<longleftrightarrow> uniform b xss \<and> uniform b yss"
  by (auto simp: uniform_def)

lemma uniform_nth: "uniform b xss \<Longrightarrow> i < length xss \<Longrightarrow> length (xss ! i) = b"
  by (simp add: uniform_def list_all_length)

lemma length_concat_uniform: "uniform b xss \<Longrightarrow> length (concat xss) = length xss * b"
  by (induction xss) auto

lemma uniform_update: "uniform b xss \<Longrightarrow> length ys = b \<Longrightarrow> uniform b (xss[i := ys])"
  by (auto simp: uniform_def list_all_length) (metis length_list_update nth_list_update_eq nth_list_update_neq)

lemma concat_blit_block:
  assumes "uniform b xss" and "i < length xss" and "off + length src \<le> b"
  shows "concat (xss[i := blit off src (xss ! i)]) = blit (i * b + off) src (concat xss)"
  using assms
proof (induction xss arbitrary: i)
  case Nil
  then show ?case by simp
next
  case (Cons xs xss)
  show ?case
  proof (cases i)
    case 0
    with Cons.prems show ?thesis by (simp add: blit_append)
  next
    case (Suc k)
    with Cons have "concat (xss[k := blit off src (xss ! k)]) = blit (k * b + off) src (concat xss)"
      by simp
    with Suc Cons.prems blit_append_right [of xs "k * b + off" src "concat xss"] show ?thesis
      by (simp add: add.assoc)
  qed
qed

lemma take_drop_block:
  assumes "uniform b xss" and "i < length xss" and "off + n \<le> b"
  shows "take n (drop (i * b + off) (concat xss)) = take n (drop off (xss ! i))"
  using assms
proof (induction xss arbitrary: i)
  case Nil
  then show ?case by simp
next
  case (Cons xs xss)
  show ?case
  proof (cases i)
    case 0
    with Cons.prems show ?thesis by simp
  next
    case (Suc k)
    with Cons.prems have "drop (i * b + off) (concat (xs # xss)) = drop (k * b + off) (concat xss)"
      by (simp add: add.assoc)
    with Suc Cons show ?thesis by simp
  qed
qed

section \<open>Ceiling division\<close>

definition ceil_div :: "nat \<Rightarrow> nat \<Rightarrow> nat" where
  "ceil_div a b = (a + b - 1) div b"

lemma ceil_div_enough: "0 < b \<Longrightarrow> a \<le> ceil_div a b * b"
proof -
  assume b: "0 < b"
  have "a + b - 1 = ceil_div a b * b + (a + b - 1) mod b"
    by (simp add: ceil_div_def)
  moreover have "(a + b - 1) mod b < b"
    using b by simp
  ultimately show ?thesis
    by linarith
qed

lemma ceil_div_pos: "0 < b \<Longrightarrow> 0 < a \<Longrightarrow> 0 < ceil_div a b"
  using ceil_div_enough [of b a] by (cases "ceil_div a b") auto

end
