(* ===== verification/Lamb_ByteArray.thy ===== *)
theory Lamb_ByteArray
  imports Lamb_Prelude
begin

text \<open>
  \<open>lamb/bytearray.cc\<close>, the block-chained byte buffer. The chain \<open>m_root\<close> of \<open>Node\<close>s is a
  list of nodes; a \<open>Node*\<close> into the chain is its index, \<open>NULL\<close> is \<open>None\<close>. Every
  dereference of \<open>m_cur\<close>, every \<open>memcpy\<close> into a node and every conversion that can be
  undefined is checked in the model and fails with an error value, so that the lemmas
  below show that none of them fails on a well-formed buffer. The bytes a fresh node holds
  (\<open>new char[s]\<close> does not initialise) are the arbitrary function \<open>m_fill\<close>.

  The abstract view of a buffer is its content (the first \<open>m_size\<close> bytes) and its
  position; \<open>ba_inv\<close> is the well-formedness invariant, kept by every operation.
\<close>

section \<open>Data\<close>

datatype endian = LITTLE_ENDIAN | BIG_ENDIAN

record node =
  n_ptr :: "u8 list"
  n_size :: nat

record bytearray =
  m_baseSize :: nat
  m_position :: nat
  m_capacity :: nat
  m_size :: nat
  m_endian :: endian
  m_nodes :: "node list"
  m_cur :: "nat option"
  m_fill :: "nat \<Rightarrow> u8"

text \<open>An \<open>iovec\<close> into the chain: node, offset in the node, length.\<close>

record iovec =
  iov_node :: nat
  iov_off :: nat
  iov_len :: nat

definition newNode :: "(nat \<Rightarrow> u8) \<Rightarrow> nat \<Rightarrow> nat \<Rightarrow> node" where
  "newNode fill k s = \<lparr>n_ptr = map (\<lambda>j. fill (k * s + j)) [0..<s], n_size = s\<rparr>"

definition newByteArray :: "(nat \<Rightarrow> u8) \<Rightarrow> nat \<Rightarrow> bytearray" where
  "newByteArray fill base_size =
     \<lparr>m_baseSize = base_size, m_position = 0, m_capacity = base_size, m_size = 0,
      m_endian = BIG_ENDIAN, m_nodes = [newNode fill 0 base_size], m_cur = Some 0,
      m_fill = fill\<rparr>"

section \<open>Operations\<close>

definition isLittleEndian :: "bytearray \<Rightarrow> bool" where
  "isLittleEndian ba \<longleftrightarrow> m_endian ba = LITTLE_ENDIAN"

definition setIsLittleEndian :: "bytearray \<Rightarrow> bool \<Rightarrow> bytearray" where
  "setIsLittleEndian ba val =
     (if val then ba\<lparr>m_endian := LITTLE_ENDIAN\<rparr> else ba\<lparr>m_endian := BIG_ENDIAN\<rparr>)"

definition getReadSize :: "bytearray \<Rightarrow> nat" where
  "getReadSize ba = size_sub (m_size ba) (m_position ba)"

definition getCapacity :: "bytearray \<Rightarrow> nat" where
  "getCapacity ba = size_sub (m_capacity ba) (m_position ba)"

text \<open>\<open>p->next\<close> for a node of the chain, and the dereference of a node pointer.\<close>

definition node_next :: "node list \<Rightarrow> nat \<Rightarrow> nat option" where
  "node_next ns i = (if Suc i < length ns then Some (Suc i) else None)"

definition deref :: "node list \<Rightarrow> nat option \<Rightarrow> node res" where
  "deref ns p = (case p of None \<Rightarrow> Inl Null_deref
     | Some i \<Rightarrow> if i < length ns then Inr (ns ! i) else Inl (Bad_access ''node''))"

text \<open>\<open>memcpy (node->ptr + off, src, length src)\<close>.\<close>

definition memcpy_to :: "node list \<Rightarrow> nat \<Rightarrow> nat \<Rightarrow> u8 list \<Rightarrow> node list res" where
  "memcpy_to ns i off src =
     (if i < length ns \<and> off + length src \<le> length (n_ptr (ns ! i))
      then Inr (ns[i := (ns ! i)\<lparr>n_ptr := blit off src (n_ptr (ns ! i))\<rparr>])
      else Inl (Bad_access ''memcpy''))"

text \<open>\<open>memcpy (buf, node->ptr + off, n)\<close>.\<close>

definition memcpy_from :: "node list \<Rightarrow> nat \<Rightarrow> nat \<Rightarrow> nat \<Rightarrow> u8 list res" where
  "memcpy_from ns i off n =
     (if i < length ns \<and> off + n \<le> length (n_ptr (ns ! i))
      then Inr (take n (drop off (n_ptr (ns ! i))))
      else Inl (Bad_access ''memcpy''))"

primrec append_nodes :: "(nat \<Rightarrow> u8) \<Rightarrow> nat \<Rightarrow> nat \<Rightarrow> node list \<Rightarrow> node list" where
  "append_nodes fill base 0 ns = ns"
| "append_nodes fill base (Suc count) ns =
     append_nodes fill base count (ns @ [newNode fill (length ns) base])"

definition addCapacity :: "bytearray \<Rightarrow> nat \<Rightarrow> bytearray res" where
  "addCapacity ba sz =
     (if sz = 0 then Inr ba
      else let old_cap = getCapacity ba in
        if sz \<le> old_cap then Inr ba
        else if m_baseSize ba = 0 then Inl (Undefined ''size / 0'')
        else let count = ceil_div (sz - old_cap) (m_baseSize ba) in
          Inr (ba\<lparr>m_nodes := append_nodes (m_fill ba) (m_baseSize ba) count (m_nodes ba),
                  m_capacity := m_capacity ba + count * m_baseSize ba,
                  m_cur := (if old_cap = 0
                            then (if count = 0 then None else Some (length (m_nodes ba)))
                            else m_cur ba)\<rparr>))"

function write_loop ::
  "node list \<Rightarrow> nat option \<Rightarrow> nat \<Rightarrow> nat \<Rightarrow> nat \<Rightarrow> u8 list \<Rightarrow> (node list \<times> nat option \<times> nat) res" where
  "write_loop ns cur npos ncap pos buf =
     (if buf = [] then Inr (ns, cur, pos)
      else case cur of
        None \<Rightarrow> Inl Null_deref
      | Some i \<Rightarrow>
          if length buf \<le> ncap then
            bindR (memcpy_to ns i npos buf) (\<lambda>ns'.
              Inr (ns', (if n_size (ns ! i) = npos + length buf then node_next ns i else cur),
                   pos + length buf))
          else
            bindR (memcpy_to ns i npos (take ncap buf)) (\<lambda>ns'.
              case node_next ns' i of
                None \<Rightarrow> Inl Null_deref
              | Some j \<Rightarrow>
                  write_loop ns' (Some j) 0 (n_size (ns' ! j)) (pos + ncap) (drop ncap buf)))"
  by pat_completeness auto
termination
  by (relation "measure (\<lambda>(ns, cur, npos, ncap, pos, buf).
        case cur of None \<Rightarrow> 0 | Some i \<Rightarrow> length ns - i)")
     (auto simp: memcpy_to_def node_next_def split: if_splits)

declare write_loop.simps [simp del]

definition ba_write :: "bytearray \<Rightarrow> u8 list \<Rightarrow> bytearray res" where
  "ba_write ba buf =
     (if buf = [] then Inr ba
      else bindR (addCapacity ba (length buf)) (\<lambda>ba.
        if m_baseSize ba = 0 then Inl (Undefined ''mod 0'')
        else bindR (deref (m_nodes ba) (m_cur ba)) (\<lambda>c.
          let npos = m_position ba mod m_baseSize ba;
              ncap = size_sub (n_size c) npos in
          bindR (write_loop (m_nodes ba) (m_cur ba) npos ncap (m_position ba) buf)
            (\<lambda>(ns, cur, pos).
              Inr (ba\<lparr>m_nodes := ns, m_cur := cur, m_position := pos,
                      m_size := (if pos > m_size ba then pos else m_size ba)\<rparr>)))))"

function read_loop ::
  "node list \<Rightarrow> nat option \<Rightarrow> nat \<Rightarrow> nat \<Rightarrow> nat \<Rightarrow> nat \<Rightarrow> (u8 list \<times> nat option \<times> nat) res" where
  "read_loop ns cur npos ncap pos sz =
     (if sz = 0 then Inr ([], cur, pos)
      else case cur of
        None \<Rightarrow> Inl Null_deref
      | Some i \<Rightarrow>
          if sz \<le> ncap then
            bindR (memcpy_from ns i npos sz) (\<lambda>bs.
              Inr (bs, (if n_size (ns ! i) = npos + sz then node_next ns i else cur),
                   pos + sz))
          else
            bindR (memcpy_from ns i npos ncap) (\<lambda>bs.
              case node_next ns i of
                None \<Rightarrow> Inl Null_deref
              | Some j \<Rightarrow>
                  bindR (read_loop ns (Some j) 0 (n_size (ns ! j)) (pos + ncap) (sz - ncap))
                    (\<lambda>(bs', cur', pos'). Inr (bs @ bs', cur', pos'))))"
  by pat_completeness auto
termination
  by (relation "measure (\<lambda>(ns, cur, npos, ncap, pos, sz).
        case cur of None \<Rightarrow> 0 | Some i \<Rightarrow> length ns - i)")
     (auto simp: node_next_def memcpy_from_def split: if_splits)

declare read_loop.simps [simp del]

definition ba_read :: "bytearray \<Rightarrow> nat \<Rightarrow> (u8 list \<times> bytearray) res" where
  "ba_read ba sz =
     (if sz > getReadSize ba then Inl (Out_of_range ''not enough len'')
      else if m_baseSize ba = 0 then Inl (Undefined ''mod 0'')
      else bindR (deref (m_nodes ba) (m_cur ba)) (\<lambda>c.
        let npos = m_position ba mod m_baseSize ba;
            ncap = size_sub (n_size c) npos in
        bindR (read_loop (m_nodes ba) (m_cur ba) npos ncap (m_position ba) sz)
          (\<lambda>(bs, cur, pos). Inr (bs, ba\<lparr>m_cur := cur, m_position := pos\<rparr>))))"

text \<open>The \<open>const\<close> overload that reads at a given position; it starts at \<open>m_cur\<close>.\<close>

definition ba_read_at :: "bytearray \<Rightarrow> nat \<Rightarrow> nat \<Rightarrow> u8 list res" where
  "ba_read_at ba sz position =
     (if sz > size_sub (m_size ba) position then Inl (Out_of_range ''not enough len'')
      else if m_baseSize ba = 0 then Inl (Undefined ''mod 0'')
      else bindR (deref (m_nodes ba) (m_cur ba)) (\<lambda>c.
        let npos = position mod m_baseSize ba;
            ncap = size_sub (n_size c) npos in
        bindR (read_loop (m_nodes ba) (m_cur ba) npos ncap position sz)
          (\<lambda>(bs, cur, pos). Inr bs)))"

function setPosition_loop :: "node list \<Rightarrow> nat option \<Rightarrow> nat \<Rightarrow> nat option res" where
  "setPosition_loop ns cur v =
     bindR (deref ns cur) (\<lambda>c.
       if v > n_size c then
         (case cur of
            None \<Rightarrow> Inl Null_deref
          | Some i \<Rightarrow> setPosition_loop ns (node_next ns i) (v - n_size c))
       else if v = n_size c then
         (case cur of None \<Rightarrow> Inl Null_deref | Some i \<Rightarrow> Inr (node_next ns i))
       else Inr cur)"
  by pat_completeness auto
termination
  by (relation "measure (\<lambda>(ns, cur, v). case cur of None \<Rightarrow> 0 | Some i \<Rightarrow> length ns - i)")
     (auto simp: node_next_def deref_def split: if_splits option.splits)

declare setPosition_loop.simps [simp del]

definition setPosition :: "bytearray \<Rightarrow> nat \<Rightarrow> bytearray res" where
  "setPosition ba v =
     (if v > m_capacity ba then Inl (Out_of_range ''set_position out of range'')
      else bindR (setPosition_loop (m_nodes ba) (Some 0) v) (\<lambda>cur.
        Inr (ba\<lparr>m_position := v,
                m_size := (if v > m_size ba then v else m_size ba),
                m_cur := cur\<rparr>)))"

definition ba_clear :: "bytearray \<Rightarrow> bytearray" where
  "ba_clear ba =
     ba\<lparr>m_position := 0, m_size := 0, m_capacity := m_baseSize ba,
        m_nodes := take 1 (m_nodes ba), m_cur := Some 0\<rparr>"


text \<open>The loop that fills the \<open>iovec\<close> arrays.\<close>

function iov_loop :: "node list \<Rightarrow> nat option \<Rightarrow> nat \<Rightarrow> nat \<Rightarrow> nat \<Rightarrow> iovec list res" where
  "iov_loop ns cur npos ncap len =
     (if len = 0 then Inr []
      else case cur of
        None \<Rightarrow> Inl Null_deref
      | Some i \<Rightarrow>
          if len \<le> ncap then Inr [\<lparr>iov_node = i, iov_off = npos, iov_len = len\<rparr>]
          else
            (case node_next ns i of
               None \<Rightarrow> Inl Null_deref
             | Some j \<Rightarrow>
                 bindR (iov_loop ns (Some j) 0 (n_size (ns ! j)) (len - ncap)) (\<lambda>iovs.
                   Inr (\<lparr>iov_node = i, iov_off = npos, iov_len = ncap\<rparr> # iovs))))"
  by pat_completeness auto
termination
  by (relation "measure (\<lambda>(ns, cur, npos, ncap, len).
        case cur of None \<Rightarrow> 0 | Some i \<Rightarrow> length ns - i)")
     (auto simp: node_next_def split: if_splits)

declare iov_loop.simps [simp del]

definition getReadBuffers :: "bytearray \<Rightarrow> nat \<Rightarrow> (nat \<times> iovec list) res" where
  "getReadBuffers ba len0 =
     (let len = (if len0 > getReadSize ba then getReadSize ba else len0) in
      if len = 0 then Inr (0, [])
      else if m_baseSize ba = 0 then Inl (Undefined ''mod 0'')
      else bindR (deref (m_nodes ba) (m_cur ba)) (\<lambda>c.
        let npos = m_position ba mod m_baseSize ba;
            ncap = size_sub (n_size c) npos in
        bindR (iov_loop (m_nodes ba) (m_cur ba) npos ncap len) (\<lambda>iovs. Inr (len, iovs))))"

text \<open>\<open>while(count > 0) cur = cur->next\<close>.\<close>

primrec walk :: "node list \<Rightarrow> nat option \<Rightarrow> nat \<Rightarrow> nat option res" where
  "walk ns cur 0 = Inr cur"
| "walk ns cur (Suc count) =
     (case cur of None \<Rightarrow> Inl Null_deref | Some i \<Rightarrow> walk ns (node_next ns i) count)"

definition getReadBuffers_at :: "bytearray \<Rightarrow> nat \<Rightarrow> nat \<Rightarrow> (nat \<times> iovec list) res" where
  "getReadBuffers_at ba len0 position =
     (let len = (if len0 > getReadSize ba then getReadSize ba else len0) in
      if len = 0 then Inr (0, [])
      else if m_baseSize ba = 0 then Inl (Undefined ''mod 0'')
      else bindR (walk (m_nodes ba) (Some 0) (position div m_baseSize ba)) (\<lambda>cur.
        bindR (deref (m_nodes ba) cur) (\<lambda>c.
          let npos = position mod m_baseSize ba;
              ncap = size_sub (n_size c) npos in
          bindR (iov_loop (m_nodes ba) cur npos ncap len) (\<lambda>iovs. Inr (len, iovs)))))"

definition getWriteBuffers :: "bytearray \<Rightarrow> nat \<Rightarrow> (nat \<times> iovec list \<times> bytearray) res" where
  "getWriteBuffers ba len =
     (if len = 0 then Inr (0, [], ba)
      else bindR (addCapacity ba len) (\<lambda>ba.
        if m_baseSize ba = 0 then Inl (Undefined ''mod 0'')
        else bindR (deref (m_nodes ba) (m_cur ba)) (\<lambda>c.
          let npos = m_position ba mod m_baseSize ba;
              ncap = size_sub (n_size c) npos in
          bindR (iov_loop (m_nodes ba) (m_cur ba) npos ncap len) (\<lambda>iovs.
            Inr (len, iovs, ba)))))"

definition ba_toString :: "bytearray \<Rightarrow> u8 list res" where
  "ba_toString ba =
     (if getReadSize ba = 0 then Inr []
      else ba_read_at ba (getReadSize ba) (m_position ba))"

definition hex_digit :: "nat \<Rightarrow> char" where
  "hex_digit d = (''0123456789abcdef'' ! (d mod 16))"

definition hex_byte :: "u8 \<Rightarrow> string" where
  "hex_byte b = [hex_digit (unat b div 16), hex_digit (unat b), CHR '' '']"

fun hex_lines :: "nat \<Rightarrow> u8 list \<Rightarrow> string" where
  "hex_lines i [] = []"
| "hex_lines i (b # bs) =
     (if i > 0 \<and> i mod 32 = 0 then [CHR 0x0A] else []) @ hex_byte b @ hex_lines (Suc i) bs"

definition ba_toHexString :: "bytearray \<Rightarrow> string res" where
  "ba_toHexString ba = bindR (ba_toString ba) (\<lambda>str. Inr (hex_lines 0 str))"

text \<open>
  \<open>writeToFile\<close>: the bytes handed to \<open>ofs.write\<close>. The loop variables are signed, as in
  the source; a negative count given to \<open>ofs.write\<close> is an error value.
\<close>

function writeToFile_loop :: "nat \<Rightarrow> node list \<Rightarrow> nat option \<Rightarrow> int \<Rightarrow> int \<Rightarrow> u8 list res" where
  "writeToFile_loop base ns cur pos read_size =
     (if read_size \<le> 0 then Inr []
      else if base = 0 then Inl (Undefined ''mod 0'')
      else let diff = pos mod int base;
               len = (if read_size > int base then int base else read_size) - diff in
        (case cur of
           None \<Rightarrow> Inl Null_deref
         | Some i \<Rightarrow>
             if len < 0 then Inl (Undefined ''negative count'')
             else bindR (memcpy_from ns i (nat diff) (nat len)) (\<lambda>bs.
               bindR (writeToFile_loop base ns (node_next ns i) (pos + len) (read_size - len))
                 (\<lambda>bs'. Inr (bs @ bs')))))"
  by pat_completeness auto
termination
  by (relation "measure (\<lambda>(base, ns, cur, pos, read_size).
        case cur of None \<Rightarrow> 0 | Some i \<Rightarrow> length ns - i)")
     (auto simp: node_next_def memcpy_from_def split: if_splits option.splits)

declare writeToFile_loop.simps [simp del]

text \<open>\<open>opened\<close> is whether the stream opens; the result pairs the return value with the file.\<close>

definition writeToFile :: "bool \<Rightarrow> bytearray \<Rightarrow> (bool \<times> u8 list) res" where
  "writeToFile opened ba =
     (if \<not> opened then Inr (False, [])
      else bindR (writeToFile_loop (m_baseSize ba) (m_nodes ba) (m_cur ba)
                    (int (m_position ba)) (int (getReadSize ba)))
             (\<lambda>bs. Inr (True, bs)))"

function readFromFile_loop :: "nat \<Rightarrow> bytearray \<Rightarrow> u8 list \<Rightarrow> bytearray res" where
  "readFromFile_loop base ba file =
     bindR (ba_write ba (take base file)) (\<lambda>ba.
       if length file < base then Inr ba
       else if base = 0 then Inl (Undefined ''endless loop'')
       else readFromFile_loop base ba (drop base file))"
  by pat_completeness auto
termination
  by (relation "measure (\<lambda>(base, ba, bs). length bs)") auto

declare readFromFile_loop.simps [simp del]

definition readFromFile :: "bool \<Rightarrow> bytearray \<Rightarrow> u8 list \<Rightarrow> (bool \<times> bytearray) res" where
  "readFromFile opened ba file =
     (if \<not> opened then Inr (False, ba)
      else bindR (readFromFile_loop (m_baseSize ba) ba file) (\<lambda>ba. Inr (True, ba)))"

section \<open>Well-formed buffers and their content\<close>

definition wf_nodes :: "nat \<Rightarrow> node list \<Rightarrow> bool" where
  "wf_nodes b ns \<longleftrightarrow> list_all (\<lambda>n. n_size n = b \<and> length (n_ptr n) = b) ns"

definition ba_data :: "node list \<Rightarrow> u8 list" where
  "ba_data ns = concat (map n_ptr ns)"

definition cur_of :: "nat \<Rightarrow> nat \<Rightarrow> nat \<Rightarrow> nat option" where
  "cur_of b len p = (if p < len * b then Some (p div b) else None)"

definition ba_inv :: "bytearray \<Rightarrow> bool" where
  "ba_inv ba \<longleftrightarrow>
     0 < m_baseSize ba \<and> m_nodes ba \<noteq> [] \<and> wf_nodes (m_baseSize ba) (m_nodes ba) \<and>
     m_capacity ba = length (m_nodes ba) * m_baseSize ba \<and>
     m_position ba \<le> m_size ba \<and> m_size ba \<le> m_capacity ba \<and>
     m_cur ba = cur_of (m_baseSize ba) (length (m_nodes ba)) (m_position ba)"

definition ba_content :: "bytearray \<Rightarrow> u8 list" where
  "ba_content ba = take (m_size ba) (ba_data (m_nodes ba))"

definition ba_pending :: "bytearray \<Rightarrow> u8 list" where
  "ba_pending ba = drop (m_position ba) (ba_content ba)"

subsection \<open>Chains of nodes\<close>

lemma wf_nodes_simps [simp]:
  "wf_nodes b []"
  "wf_nodes b (n # ns) \<longleftrightarrow> n_size n = b \<and> length (n_ptr n) = b \<and> wf_nodes b ns"
  "wf_nodes b (ns @ ms) \<longleftrightarrow> wf_nodes b ns \<and> wf_nodes b ms"
  by (auto simp: wf_nodes_def)

lemma wf_nodes_nth:
  "wf_nodes b ns \<Longrightarrow> i < length ns \<Longrightarrow> n_size (ns ! i) = b \<and> length (n_ptr (ns ! i)) = b"
  by (simp add: wf_nodes_def list_all_length)

lemma wf_nodes_uniform: "wf_nodes b ns \<Longrightarrow> uniform b (map n_ptr ns)"
  by (simp add: wf_nodes_def uniform_def list_all_length)

lemma length_ba_data: "wf_nodes b ns \<Longrightarrow> length (ba_data ns) = length ns * b"
  using length_concat_uniform [OF wf_nodes_uniform, of b ns] by (simp add: ba_data_def)

lemma ba_data_append [simp]: "ba_data (ns @ ms) = ba_data ns @ ba_data ms"
  by (simp add: ba_data_def)

lemma wf_nodes_newNode [simp]: "wf_nodes b [newNode fill k b]"
  by (simp add: newNode_def)

lemma append_nodes_eq:
  "\<exists>ms. append_nodes fill b c ns = ns @ ms \<and> length ms = c \<and> wf_nodes b ms"
proof (induction c arbitrary: ns)
  case 0
  show ?case by simp
next
  case (Suc c)
  from Suc.IH [of "ns @ [newNode fill (length ns) b]"] obtain ms where
    "append_nodes fill b c (ns @ [newNode fill (length ns) b])
       = (ns @ [newNode fill (length ns) b]) @ ms" "length ms = c" "wf_nodes b ms"
    by blast
  then show ?case
    by (intro exI [of _ "newNode fill (length ns) b # ms"]) (simp add: newNode_def)
qed

lemma memcpy_to_ok:
  assumes "wf_nodes b ns" and "i < length ns" and "off + length src \<le> b"
  obtains ns' where "memcpy_to ns i off src = Inr ns'" and "wf_nodes b ns'"
    and "length ns' = length ns" and "ba_data ns' = blit (i * b + off) src (ba_data ns)"
proof
  let ?n = "(ns ! i)\<lparr>n_ptr := blit off src (n_ptr (ns ! i))\<rparr>"
  note nth = wf_nodes_nth [OF assms(1,2)]
  show "memcpy_to ns i off src = Inr (ns[i := ?n])"
    using assms nth by (simp add: memcpy_to_def)
  have "n_size ?n = b \<and> length (n_ptr ?n) = b"
    using nth assms(3) by simp
  with assms(1) show "wf_nodes b (ns[i := ?n])"
    unfolding wf_nodes_def list_all_length by (metis length_list_update nth_list_update_eq nth_list_update_neq)
  show "ba_data (ns[i := ?n]) = blit (i * b + off) src (ba_data ns)"
    using concat_blit_block [OF wf_nodes_uniform [OF assms(1)], of i off src] assms
    by (simp add: ba_data_def map_update)
qed simp

lemma memcpy_from_ok:
  assumes "wf_nodes b ns" and "i < length ns" and "off + n \<le> b"
  shows "memcpy_from ns i off n = Inr (take n (drop (i * b + off) (ba_data ns)))"
  using assms wf_nodes_nth [OF assms(1,2)]
    take_drop_block [OF wf_nodes_uniform [OF assms(1)], of i off n]
  by (simp add: memcpy_from_def ba_data_def)

subsection \<open>Node pointers and positions\<close>

lemma block_offset_less: "i < len \<Longrightarrow> off < b \<Longrightarrow> i * b + off < len * (b::nat)"
proof -
  assume "i < len" and "off < b"
  then have "i * b + off < Suc i * b" by simp
  also have "\<dots> \<le> len * b"
    using \<open>i < len\<close> by (intro mult_le_mono1) simp
  finally show ?thesis .
qed

lemma cur_of_inside [simp]: "i < len \<Longrightarrow> off < b \<Longrightarrow> cur_of b len (i * b + off) = Some i"
  by (simp add: cur_of_def block_offset_less)

lemma cur_of_next: "0 < b \<Longrightarrow> i < length ns \<Longrightarrow> node_next ns i = cur_of b (length ns) (i * b + b)"
proof -
  assume b: "0 < b" and i: "i < length ns"
  have eq: "i * b + b = Suc i * b" by simp
  show ?thesis
  proof (cases "Suc i < length ns")
    case True
    with b cur_of_inside [of "Suc i" "length ns" 0 b] show ?thesis
      unfolding eq by (simp add: node_next_def)
  next
    case False
    with i have "length ns = Suc i" by simp
    with b show ?thesis
      by (simp add: node_next_def cur_of_def)
  qed
qed

lemma cur_of_Some: "0 < b \<Longrightarrow> p < len * b \<Longrightarrow> cur_of b len p = Some (p div b) \<and> p div b < len"
  by (simp add: cur_of_def less_mult_imp_div_less)

lemma cur_of_at_end: "len * b \<le> p \<Longrightarrow> cur_of b len p = None"
  by (simp add: cur_of_def)

section \<open>The copy loops\<close>

lemma write_loop_ok:
  assumes "wf_nodes b ns" and "i < length ns" and "npos < b"
    and "i * b + npos + length buf \<le> length ns * b"
  shows "\<exists>ns'. write_loop ns (Some i) npos (b - npos) pos buf
            = Inr (ns', cur_of b (length ns) (i * b + npos + length buf), pos + length buf)
          \<and> wf_nodes b ns' \<and> length ns' = length ns
          \<and> ba_data ns' = blit (i * b + npos) buf (ba_data ns)"
  using assms
proof (induction buf arbitrary: ns i npos pos rule: length_induct)
  case (1 buf)
  note prems = 1(2-5)
  note size_i = wf_nodes_nth [OF prems(1,2), THEN conjunct1]
  consider "buf = []" | "buf \<noteq> []" "length buf \<le> b - npos" | "b - npos < length buf" by linarith
  then show ?case
  proof cases
    case 1
    with prems show ?thesis by (simp add: write_loop.simps)
  next
    case 2
    with prems(3) have fits: "npos + length buf \<le> b" by simp
    from memcpy_to_ok [OF prems(1,2) fits] obtain ns' where
      "memcpy_to ns i npos buf = Inr ns'" "wf_nodes b ns'" "length ns' = length ns"
      "ba_data ns' = blit (i * b + npos) buf (ba_data ns)" by blast
    moreover have "(if n_size (ns ! i) = npos + length buf then node_next ns i else Some i)
        = cur_of b (length ns) (i * b + npos + length buf)"
    proof (cases "npos + length buf = b")
      case True
      then show ?thesis
        using cur_of_next [of b i ns] prems size_i by (simp add: add.assoc)
    next
      case False
      then show ?thesis
        using fits prems size_i cur_of_inside [of i "length ns" "npos + length buf" b]
        by (simp add: add.assoc)
    qed
    ultimately show ?thesis
      using 2 by (subst write_loop.simps) simp
  next
    case 3
    let ?n = "b - npos"
    have n: "length (take ?n buf) = ?n" and "npos + length (take ?n buf) \<le> b"
      using 3 prems(3) by simp_all
    from memcpy_to_ok [OF prems(1,2) this(2)] obtain ns1 where ns1:
      "memcpy_to ns i npos (take ?n buf) = Inr ns1" "wf_nodes b ns1" "length ns1 = length ns"
      "ba_data ns1 = blit (i * b + npos) (take ?n buf) (ba_data ns)" by blast
    have "Suc i * b < length ns * b"
      using 3 prems(3,4) by simp
    then have next_i: "Suc i < length ns"
      by (metis mult_less_cancel2)
    have "length (drop ?n buf) < length buf"
      using 3 prems(3) by simp
    moreover have "Suc i * b + 0 + length (drop ?n buf) \<le> length ns1 * b"
      using 3 prems(3,4) ns1(3) by simp
    ultimately obtain ns2 where ns2:
      "write_loop ns1 (Some (Suc i)) 0 (b - 0) (pos + ?n) (drop ?n buf)
         = Inr (ns2, cur_of b (length ns1) (Suc i * b + 0 + length (drop ?n buf)),
                pos + ?n + length (drop ?n buf))"
      "wf_nodes b ns2" "length ns2 = length ns1"
      "ba_data ns2 = blit (Suc i * b + 0) (drop ?n buf) (ba_data ns1)"
      using 1(1) [rule_format, of "drop ?n buf" ns1 "Suc i" 0 "pos + ?n"] ns1 next_i prems(3)
      by auto
    have data: "ba_data ns2 = blit (i * b + npos) buf (ba_data ns)"
    proof -
      have "i * b + npos + length (take ?n buf) = Suc i * b + 0"
        using n prems(3) by simp
      with ns2(4) ns1(4) have "ba_data ns2
          = blit (i * b + npos) (take ?n buf @ drop ?n buf) (ba_data ns)"
        using blit_blit_adjacent [of "i * b + npos" "ba_data ns" "take ?n buf" "drop ?n buf"]
          block_offset_less [OF prems(2,3)] length_ba_data [OF prems(1)]
        by (simp add: add.commute)
      then show ?thesis by simp
    qed
    have pos_eq: "Suc i * b + 0 + length (drop ?n buf) = i * b + npos + length buf"
        "pos + ?n + length (drop ?n buf) = pos + length buf"
      using 3 prems(3) by simp_all
    have nxt: "node_next ns1 i = Some (Suc i)" and sz: "n_size (ns1 ! Suc i) = b"
      using ns1 next_i wf_nodes_nth [OF ns1(2), of "Suc i"] by (simp_all add: node_next_def)
    have "write_loop ns (Some i) npos ?n pos buf
        = write_loop ns1 (Some (Suc i)) 0 (b - 0) (pos + ?n) (drop ?n buf)"
      using 3 ns1(1) nxt sz by (subst write_loop.simps) auto
    also have "\<dots> = Inr (ns2, cur_of b (length ns) (i * b + npos + length buf), pos + length buf)"
      using ns2(1) unfolding pos_eq ns1(3) .
    finally show ?thesis
      using ns1(3) ns2(2,3) data by (intro exI [of _ ns2]) simp
  qed
qed

lemma read_loop_ok:
  assumes "wf_nodes b ns" and "i < length ns" and "npos < b"
    and "i * b + npos + sz \<le> length ns * b"
  shows "read_loop ns (Some i) npos (b - npos) pos sz
           = Inr (take sz (drop (i * b + npos) (ba_data ns)),
                  cur_of b (length ns) (i * b + npos + sz), pos + sz)"
  using assms
proof (induction sz arbitrary: i npos pos rule: less_induct)
  case (less sz)
  note prems = less.prems
  note size_i = wf_nodes_nth [OF prems(1,2), THEN conjunct1]
  consider "sz = 0" | "0 < sz" "sz \<le> b - npos" | "b - npos < sz" by linarith
  then show ?case
  proof cases
    case 1
    with prems show ?thesis by (simp add: read_loop.simps)
  next
    case 2
    with prems(3) have fits: "npos + sz \<le> b" by simp
    have "(if n_size (ns ! i) = npos + sz then node_next ns i else Some i)
        = cur_of b (length ns) (i * b + npos + sz)"
    proof (cases "npos + sz = b")
      case True
      then show ?thesis
        using cur_of_next [of b i ns] prems size_i by (simp add: add.assoc)
    next
      case False
      then show ?thesis
        using fits prems size_i cur_of_inside [of i "length ns" "npos + sz" b]
        by (simp add: add.assoc)
    qed
    then show ?thesis
      using 2 memcpy_from_ok [OF prems(1,2) fits] by (subst read_loop.simps) simp
  next
    case 3
    let ?n = "b - npos"
    have "Suc i * b < length ns * b"
      using 3 prems(3,4) by simp
    then have next_i: "Suc i < length ns"
      by (metis mult_less_cancel2)
    have "read_loop ns (Some (Suc i)) 0 (b - 0) (pos + ?n) (sz - ?n)
        = Inr (take (sz - ?n) (drop (Suc i * b + 0) (ba_data ns)),
               cur_of b (length ns) (Suc i * b + 0 + (sz - ?n)), pos + ?n + (sz - ?n))"
      using less.IH [of "sz - ?n" "Suc i" 0 "pos + ?n"] 3 prems next_i by simp
    moreover have "take ?n (drop (i * b + npos) (ba_data ns)) @ take (sz - ?n) (drop (Suc i * b) (ba_data ns))
        = take sz (drop (i * b + npos) (ba_data ns))"
      using 3 prems(3) take_add [of ?n "sz - ?n" "drop (i * b + npos) (ba_data ns)"]
      by (simp add: add.commute)
    moreover have "node_next ns i = Some (Suc i)" and "n_size (ns ! Suc i) = b"
      using next_i wf_nodes_nth [OF prems(1) next_i] by (simp_all add: node_next_def)
    moreover have "Suc i * b + 0 + (sz - ?n) = i * b + npos + sz"
      using 3 prems(3) by simp
    ultimately show ?thesis
      using 3 memcpy_from_ok [OF prems(1,2), of npos ?n] prems(3)
      by (subst read_loop.simps) (simp add: ac_simps)
  qed
qed


section \<open>The operations on well-formed buffers\<close>

lemma ba_inv_new: "0 < b \<Longrightarrow> ba_inv (newByteArray fill b)"
  by (simp add: ba_inv_def newByteArray_def cur_of_def newNode_def)

lemma ba_content_new: "ba_content (newByteArray fill b) = []"
  by (simp add: ba_content_def newByteArray_def)

lemma length_ba_content: "ba_inv ba \<Longrightarrow> length (ba_content ba) = m_size ba"
  by (simp add: ba_content_def ba_inv_def length_ba_data [of "m_baseSize ba"])

lemma length_ba_pending: "ba_inv ba \<Longrightarrow> length (ba_pending ba) = m_size ba - m_position ba"
  by (simp add: ba_pending_def length_ba_content)

lemma getReadSize_inv: "ba_inv ba \<Longrightarrow> getReadSize ba = length (ba_pending ba)"
  by (simp add: getReadSize_def length_ba_pending ba_inv_def)

lemma ba_inv_deref:
  assumes "ba_inv ba" and "m_position ba < m_capacity ba"
  shows "m_cur ba = Some (m_position ba div m_baseSize ba)"
    and "m_position ba div m_baseSize ba < length (m_nodes ba)"
    and "\<exists>c. deref (m_nodes ba) (m_cur ba) = Inr c \<and> n_size c = m_baseSize ba"
  using assms cur_of_Some [of "m_baseSize ba" "m_position ba" "length (m_nodes ba)"]
  by (auto simp: ba_inv_def deref_def wf_nodes_nth)

lemma ba_inv_deref_end:
  assumes "ba_inv ba" and "m_position ba = m_capacity ba"
  shows "deref (m_nodes ba) (m_cur ba) = Inl Null_deref"
  using assms by (simp add: ba_inv_def deref_def cur_of_at_end)

lemma addCapacity_ok:
  assumes inv: "ba_inv ba"
  obtains ba1 where "addCapacity ba n = Inr ba1" and "ba_inv ba1"
    and "ba_content ba1 = ba_content ba" and "m_position ba1 = m_position ba"
    and "m_size ba1 = m_size ba" and "m_endian ba1 = m_endian ba"
    and "m_baseSize ba1 = m_baseSize ba" and "m_position ba + n \<le> m_capacity ba1"
proof (cases "n = 0 \<or> n \<le> getCapacity ba")
  case True
  moreover have "m_position ba \<le> m_capacity ba"
    using inv by (simp add: ba_inv_def)
  ultimately show ?thesis
    using inv that [of ba] by (auto simp: addCapacity_def getCapacity_def)
next
  case False
  let ?b = "m_baseSize ba" and ?cap = "m_capacity ba - m_position ba"
  let ?c = "ceil_div (n - ?cap) ?b"
  have cap: "getCapacity ba = ?cap" and b: "0 < ?b" and le: "m_position ba \<le> m_capacity ba"
    and wf: "wf_nodes ?b (m_nodes ba)"
    using inv by (simp_all add: getCapacity_def ba_inv_def)
  from append_nodes_eq obtain ms where
    ms: "append_nodes (m_fill ba) ?b ?c (m_nodes ba) = m_nodes ba @ ms" "length ms = ?c" "wf_nodes ?b ms"
    by blast
  have c: "0 < ?c" and enough: "n - ?cap \<le> ?c * ?b"
    using False b ceil_div_pos [of ?b "n - ?cap"] ceil_div_enough by (simp_all add: cap)
  let ?ba1 = "ba\<lparr>m_nodes := m_nodes ba @ ms, m_capacity := m_capacity ba + ?c * ?b,
                 m_cur := (if ?cap = 0 then Some (length (m_nodes ba)) else m_cur ba)\<rparr>"
  have run: "addCapacity ba n = Inr ?ba1"
    using False b c ms(1) by (auto simp: addCapacity_def cap Let_def)
  have cur: "m_cur ?ba1 = cur_of ?b (length (m_nodes ba @ ms)) (m_position ba)"
  proof (cases "?cap = 0")
    case True
    with le inv have "m_position ba = length (m_nodes ba) * ?b"
      by (simp add: ba_inv_def)
    then show ?thesis
      using cur_of_inside [of "length (m_nodes ba)" "length (m_nodes ba @ ms)" 0 ?b] c ms(2) b True
      by simp
  next
    case False
    with inv ms(2) show ?thesis by (simp add: ba_inv_def cur_of_def add_mult_distrib)
  qed
  have content: "ba_content ?ba1 = ba_content ba"
    using inv length_ba_data [OF wf] by (simp add: ba_content_def ba_inv_def)
  have inv1: "ba_inv ?ba1"
    using inv ms(2,3) cur unfolding ba_inv_def by (simp add: add_mult_distrib)
  have room: "m_position ba + n \<le> m_capacity ?ba1"
    using enough le by simp
  show ?thesis
    by (rule that [OF run inv1 content]) (use room in simp_all)
qed

lemma ba_write_ok:
  assumes inv: "ba_inv ba"
  obtains ba' where "ba_write ba buf = Inr ba'" and "ba_inv ba'"
    and "ba_content ba' = blit (m_position ba) buf (ba_content ba)"
    and "m_position ba' = m_position ba + length buf"
    and "m_endian ba' = m_endian ba" and "m_baseSize ba' = m_baseSize ba"
proof (cases "buf = []")
  case True
  then show ?thesis using inv that [of ba] by (simp add: ba_write_def)
next
  case False
  from addCapacity_ok [OF inv, of "length buf"] obtain ba1 where
    ba1: "addCapacity ba (length buf) = Inr ba1" "ba_inv ba1" "ba_content ba1 = ba_content ba"
      "m_position ba1 = m_position ba" "m_size ba1 = m_size ba" "m_endian ba1 = m_endian ba"
      "m_baseSize ba1 = m_baseSize ba" "m_position ba + length buf \<le> m_capacity ba1"
    by metis
  let ?b = "m_baseSize ba1" and ?p = "m_position ba1" and ?ns = "m_nodes ba1"
  have room: "?p < m_capacity ba1"
    using False ba1 by (cases buf) auto
  note cur = ba_inv_deref [OF ba1(2) room]
  from cur(3) obtain c where c: "deref ?ns (m_cur ba1) = Inr c" "n_size c = ?b"
    by blast
  have b: "0 < ?b" and wf: "wf_nodes ?b ?ns" and cap: "m_capacity ba1 = length ?ns * ?b"
    and bounds: "?p \<le> m_size ba1" "m_size ba1 \<le> m_capacity ba1"
    using ba1(2) by (simp_all add: ba_inv_def)
  have split: "?p div ?b * ?b + ?p mod ?b = ?p" by simp
  have "?p div ?b * ?b + ?p mod ?b + length buf \<le> length ?ns * ?b"
    using ba1(4,8) cap by simp
  from write_loop_ok [OF wf cur(2) mod_less_divisor [OF b] this, of ?p]
  obtain ns' where ns': "write_loop ?ns (m_cur ba1) (?p mod ?b) (?b - ?p mod ?b) ?p buf
      = Inr (ns', cur_of ?b (length ?ns) (?p + length buf), ?p + length buf)"
    "wf_nodes ?b ns'" "length ns' = length ?ns" "ba_data ns' = blit ?p buf (ba_data ?ns)"
    unfolding cur(1) split by blast
  let ?ba' = "ba1\<lparr>m_nodes := ns', m_cur := cur_of ?b (length ?ns) (?p + length buf),
                 m_position := ?p + length buf, m_size := max (m_size ba1) (?p + length buf)\<rparr>"
  have "ba_write ba buf = Inr ?ba'"
    using False ba1(1) b c ns'(1) by (simp add: ba_write_def Let_def max_def less_imp_le)
  moreover have "ba_inv ?ba'"
    using ba1(2,4,8) ns'(2,3) by (auto simp: ba_inv_def)
  moreover have "ba_content ?ba' = blit ?p buf (ba_content ba1)"
    using take_blit_grow [of ?p "m_size ba1" "ba_data ?ns" buf] bounds ns'(4) ba1(4,8) cap
    by (simp add: ba_content_def length_ba_data [OF wf])
  ultimately show ?thesis
    using that [of ?ba'] ba1 by simp
qed

lemma ba_read_ok:
  assumes inv: "ba_inv ba" and n: "n \<le> length (ba_pending ba)"
    and cur: "m_position ba < m_capacity ba"
  obtains ba' where "ba_read ba n = Inr (take n (ba_pending ba), ba')" and "ba_inv ba'"
    and "ba_content ba' = ba_content ba" and "m_position ba' = m_position ba + n"
    and "m_endian ba' = m_endian ba"
proof -
  let ?b = "m_baseSize ba" and ?p = "m_position ba" and ?ns = "m_nodes ba"
  note cur = ba_inv_deref [OF inv cur]
  from cur(3) obtain c where c: "deref ?ns (m_cur ba) = Inr c" "n_size c = ?b"
    by blast
  have b: "0 < ?b" and wf: "wf_nodes ?b ?ns" and cap: "m_capacity ba = length ?ns * ?b"
    and bounds: "?p \<le> m_size ba" "m_size ba \<le> m_capacity ba"
    using inv by (simp_all add: ba_inv_def)
  have split: "?p div ?b * ?b + ?p mod ?b = ?p" by simp
  have "?p div ?b * ?b + ?p mod ?b + n \<le> length ?ns * ?b"
    using n bounds cap by (simp add: length_ba_pending [OF inv])
  from read_loop_ok [OF wf cur(2) mod_less_divisor [OF b] this, of ?p]
  have "read_loop ?ns (m_cur ba) (?p mod ?b) (?b - ?p mod ?b) ?p n
      = Inr (take n (drop ?p (ba_data ?ns)), cur_of ?b (length ?ns) (?p + n), ?p + n)"
    unfolding cur(1) split .
  moreover have "take n (drop ?p (ba_data ?ns)) = take n (ba_pending ba)"
    using n by (simp add: length_ba_pending [OF inv] ba_pending_def ba_content_def drop_take min_absorb1)
  moreover have "\<not> getReadSize ba < n"
    using n by (simp add: getReadSize_inv [OF inv])
  ultimately have "ba_read ba n = Inr (take n (ba_pending ba),
      ba\<lparr>m_cur := cur_of ?b (length ?ns) (?p + n), m_position := ?p + n\<rparr>)"
    using b c by (simp add: ba_read_def Let_def less_imp_le)
  moreover have "?p + n \<le> m_size ba"
    using n bounds by (simp add: length_ba_pending [OF inv])
  ultimately show ?thesis
    using that [of "ba\<lparr>m_cur := cur_of ?b (length ?ns) (?p + n), m_position := ?p + n\<rparr>"] inv
    by (auto simp: ba_inv_def ba_content_def)
qed

lemma ba_read_short:
  "ba_inv ba \<Longrightarrow> length (ba_pending ba) < n \<Longrightarrow>
    ba_read ba n = Inl (Out_of_range ''not enough len'')"
  by (simp add: ba_read_def getReadSize_inv)

lemma setPosition_loop_ok:
  assumes "wf_nodes b ns" and "0 < b" and "i < length ns" and "i * b + v \<le> length ns * b"
  shows "setPosition_loop ns (Some i) v = Inr (cur_of b (length ns) (i * b + v))"
  using assms
proof (induction v arbitrary: i rule: less_induct)
  case (less v)
  note size_i = wf_nodes_nth [OF less.prems(1,3), THEN conjunct1]
  consider "v < b" | "v = b" | "b < v" by linarith
  then show ?case
  proof cases
    case 1
    with less.prems size_i show ?thesis
      by (subst setPosition_loop.simps) (simp add: deref_def)
  next
    case 2
    with less.prems size_i cur_of_next [of b i ns] show ?thesis
      by (subst setPosition_loop.simps) (simp add: deref_def)
  next
    case 3
    with less.prems have "Suc i * b < length ns * b" by simp
    then have next_i: "Suc i < length ns" by (metis mult_less_cancel2)
    have "setPosition_loop ns (Some (Suc i)) (v - b) = Inr (cur_of b (length ns) (Suc i * b + (v - b)))"
      using less.IH [of "v - b" "Suc i"] less.prems 3 next_i by simp
    with 3 less.prems size_i next_i show ?thesis
      by (subst setPosition_loop.simps) (simp add: deref_def node_next_def ac_simps)
  qed
qed

lemma setPosition_ok:
  assumes inv: "ba_inv ba" and v: "v \<le> m_capacity ba"
  obtains ba' where "setPosition ba v = Inr ba'" and "ba_inv ba'"
    and "m_position ba' = v" and "m_size ba' = max (m_size ba) v"
    and "m_nodes ba' = m_nodes ba" and "m_endian ba' = m_endian ba"
proof -
  have "setPosition_loop (m_nodes ba) (Some 0) v
      = Inr (cur_of (m_baseSize ba) (length (m_nodes ba)) (0 * m_baseSize ba + v))"
    using inv v by (intro setPosition_loop_ok) (auto simp: ba_inv_def)
  then show ?thesis
    using that [of "ba\<lparr>m_position := v, m_size := max (m_size ba) v,
        m_cur := cur_of (m_baseSize ba) (length (m_nodes ba)) v\<rparr>"] inv v
    by (auto simp: setPosition_def ba_inv_def max_def)
qed

lemma setPosition_content:
  assumes inv: "ba_inv ba" and v: "v \<le> length (ba_content ba)"
  obtains ba' where "setPosition ba v = Inr ba'" and "ba_inv ba'"
    and "m_position ba' = v" and "ba_content ba' = ba_content ba" and "m_endian ba' = m_endian ba"
proof -
  have le: "v \<le> m_size ba" and cap: "v \<le> m_capacity ba"
    using v inv by (simp_all add: length_ba_content ba_inv_def)
  from setPosition_ok [OF inv cap] obtain ba' where "setPosition ba v = Inr ba'" "ba_inv ba'"
    "m_position ba' = v" "m_size ba' = max (m_size ba) v" "m_nodes ba' = m_nodes ba"
    "m_endian ba' = m_endian ba" by metis
  with le show ?thesis
    using that [of ba'] by (simp add: ba_content_def max_def)
qed

lemma setPosition_beyond:
  "m_capacity ba < v \<Longrightarrow> setPosition ba v = Inl (Out_of_range ''set_position out of range'')"
  by (simp add: setPosition_def)

lemma ba_clear_ok:
  assumes "ba_inv ba"
  shows "ba_inv (ba_clear ba)" and "ba_content (ba_clear ba) = []"
  using assms by (cases "m_nodes ba"; auto simp: ba_inv_def ba_clear_def cur_of_def ba_content_def)+

section \<open>Scatter and gather\<close>

text \<open>
  The bytes that a gathering write (\<open>sendmsg\<close>) takes from an \<open>iovec\<close> array, and the chain after
  a scattering read (\<open>recvmsg\<close>) has put \<open>bs\<close> into one.
\<close>

definition gather :: "node list \<Rightarrow> iovec list \<Rightarrow> u8 list" where
  "gather ns iovs =
     concat (map (\<lambda>v. take (iov_len v) (drop (iov_off v) (n_ptr (ns ! iov_node v)))) iovs)"

primrec scatter :: "node list \<Rightarrow> iovec list \<Rightarrow> u8 list \<Rightarrow> node list res" where
  "scatter ns [] bs = Inr ns"
| "scatter ns (v # iovs) bs =
     bindR (memcpy_to ns (iov_node v) (iov_off v) (take (iov_len v) bs))
       (\<lambda>ns. scatter ns iovs (drop (iov_len v) bs))"

lemma iov_loop_step:
  assumes wf: "wf_nodes b ns" and i: "i < length ns" and npos: "npos < b"
    and room: "i * b + npos + len \<le> length ns * b" and len: "b - npos < len"
  shows "Suc i < length ns"
    and "iov_loop ns (Some i) npos (b - npos) len =
      bindR (iov_loop ns (Some (Suc i)) 0 (b - 0) (len - (b - npos)))
        (\<lambda>iovs. Inr (\<lparr>iov_node = i, iov_off = npos, iov_len = b - npos\<rparr> # iovs))"
proof -
  have "Suc i * b < length ns * b"
    using npos room len by simp
  then show next_i: "Suc i < length ns"
    by (metis mult_less_cancel2)
  show "iov_loop ns (Some i) npos (b - npos) len =
      bindR (iov_loop ns (Some (Suc i)) 0 (b - 0) (len - (b - npos)))
        (\<lambda>iovs. Inr (\<lparr>iov_node = i, iov_off = npos, iov_len = b - npos\<rparr> # iovs))"
    using len next_i wf_nodes_nth [OF wf next_i]
    by (subst iov_loop.simps) (simp add: node_next_def)
qed

lemma iov_loop_gather:
  assumes "wf_nodes b ns" and "i < length ns" and "npos < b"
    and "i * b + npos + len \<le> length ns * b"
  shows "\<exists>iovs. iov_loop ns (Some i) npos (b - npos) len = Inr iovs \<and>
           gather ns iovs = take len (drop (i * b + npos) (ba_data ns)) \<and>
           sum_list (map iov_len iovs) = len"
  using assms
proof (induction len arbitrary: i npos rule: less_induct)
  case (less len)
  note prems = less.prems
  consider "len = 0" | "0 < len" "len \<le> b - npos" | "b - npos < len" by linarith
  then show ?case
  proof cases
    case 1
    then show ?thesis by (simp add: iov_loop.simps gather_def)
  next
    case 2
    with prems(3) have "npos + len \<le> b" by simp
    with 2 take_drop_block [OF wf_nodes_uniform [OF prems(1)], of i npos len] prems(2)
    show ?thesis
      by (subst iov_loop.simps) (simp add: gather_def ba_data_def)
  next
    case 3
    let ?n = "b - npos"
    note step = iov_loop_step [OF prems 3]
    have rest: "len - ?n < len" "0 < b" "Suc i * b + 0 + (len - ?n) \<le> length ns * b"
      using 3 prems(3,4) by simp_all
    from less.IH [OF rest(1) prems(1) step(1) rest(2,3)] obtain iovs where iovs:
      "iov_loop ns (Some (Suc i)) 0 (b - 0) (len - ?n) = Inr iovs"
      "gather ns iovs = take (len - ?n) (drop (Suc i * b + 0) (ba_data ns))"
      "sum_list (map iov_len iovs) = len - ?n" by blast
    have "take ?n (drop npos (n_ptr (ns ! i))) = take ?n (drop (i * b + npos) (ba_data ns))"
      using take_drop_block [OF wf_nodes_uniform [OF prems(1)], of i npos ?n] prems(2,3)
      by (simp add: ba_data_def)
    moreover have "take len (drop (i * b + npos) (ba_data ns)) =
        take ?n (drop (i * b + npos) (ba_data ns)) @ take (len - ?n) (drop (Suc i * b) (ba_data ns))"
      using 3 prems(3) take_add [of ?n "len - ?n" "drop (i * b + npos) (ba_data ns)"]
      by (simp add: add.commute)
    ultimately show ?thesis
      using 3 iovs unfolding step(2) by (simp add: gather_def)
  qed
qed

lemma iov_loop_scatter:
  assumes "wf_nodes b ns" and "wf_nodes b ns0" and "length ns0 = length ns"
    and "i < length ns" and "npos < b" and "i * b + npos + len \<le> length ns * b"
    and "iov_loop ns0 (Some i) npos (b - npos) len = Inr iovs" and "length bs \<le> len"
  shows "\<exists>ns'. scatter ns iovs bs = Inr ns' \<and> wf_nodes b ns' \<and> length ns' = length ns \<and>
           ba_data ns' = blit (i * b + npos) bs (ba_data ns)"
  using assms
proof (induction len arbitrary: i npos ns iovs bs rule: less_induct)
  case (less len)
  note prems = less.prems
  consider "len = 0" | "0 < len" "len \<le> b - npos" | "b - npos < len" by linarith
  then show ?case
  proof cases
    case 1
    with prems show ?thesis by (simp add: iov_loop.simps)
  next
    case 2
    with prems(5,8) have "npos + length bs \<le> b" by simp
    from memcpy_to_ok [OF prems(1,4) this] obtain ns' where
      "memcpy_to ns i npos bs = Inr ns'" "wf_nodes b ns'" "length ns' = length ns"
      "ba_data ns' = blit (i * b + npos) bs (ba_data ns)" by blast
    moreover from 2 prems(7) have "iovs = [\<lparr>iov_node = i, iov_off = npos, iov_len = len\<rparr>]"
      by (subst (asm) iov_loop.simps) simp
    ultimately show ?thesis
      using prems(8) by simp
  next
    case 3
    let ?n = "b - npos"
    have i0: "i < length ns0" and room0: "i * b + npos + len \<le> length ns0 * b"
      using prems(3,4,6) by simp_all
    note step = iov_loop_step [OF prems(2) i0 prems(5) room0 3]
    from prems(7) obtain iovs' where
      iovs: "iovs = \<lparr>iov_node = i, iov_off = npos, iov_len = ?n\<rparr> # iovs'"
        "iov_loop ns0 (Some (Suc i)) 0 (b - 0) (len - ?n) = Inr iovs'"
      unfolding step(2) by (auto simp: bindR_Inr_iff)
    have "npos + length (take ?n bs) \<le> b"
      using prems(5) by simp
    from memcpy_to_ok [OF prems(1,4) this] obtain ns1 where ns1:
      "memcpy_to ns i npos (take ?n bs) = Inr ns1" "wf_nodes b ns1" "length ns1 = length ns"
      "ba_data ns1 = blit (i * b + npos) (take ?n bs) (ba_data ns)" by blast
    have "\<exists>ns'. scatter ns1 iovs' (drop ?n bs) = Inr ns' \<and> wf_nodes b ns' \<and>
        length ns' = length ns1 \<and> ba_data ns' = blit (Suc i * b + 0) (drop ?n bs) (ba_data ns1)"
      using less.IH [OF _ ns1(2) prems(2) _ _ _ _ iovs(2)] 3 ns1(3) step(1) prems(3,5,6,8) by simp
    then obtain ns' where ns': "scatter ns1 iovs' (drop ?n bs) = Inr ns'" "wf_nodes b ns'"
      "length ns' = length ns1" "ba_data ns' = blit (Suc i * b) (drop ?n bs) (ba_data ns1)"
      by auto
    have "blit (Suc i * b) (drop ?n bs) (ba_data ns1) = blit (i * b + npos) bs (ba_data ns)"
    proof (cases "length bs \<le> ?n")
      case True
      then show ?thesis by (simp add: ns1(4))
    next
      case False
      then have "Suc i * b = i * b + npos + length (take ?n bs)"
        using prems(5) by simp
      with blit_blit_adjacent [of "i * b + npos" "ba_data ns" "take ?n bs" "drop ?n bs"]
        block_offset_less [OF prems(4,5)] length_ba_data [OF prems(1)]
      show ?thesis unfolding ns1(4) by (simp only: append_take_drop_id less_imp_le)
    qed
    with ns' ns1 show ?thesis
      by (simp add: iovs(1))
  qed
qed

lemma pending_range:
  "ba_inv ba \<Longrightarrow> n \<le> length (ba_pending ba) \<Longrightarrow>
    take n (drop (m_position ba) (ba_data (m_nodes ba))) = take n (ba_pending ba)"
  by (simp add: length_ba_pending ba_pending_def ba_content_def drop_take min_absorb1)

lemma getReadBuffers_ok:
  assumes inv: "ba_inv ba"
  shows "\<exists>iovs. getReadBuffers ba len = Inr (min len (length (ba_pending ba)), iovs) \<and>
           gather (m_nodes ba) iovs = take len (ba_pending ba) \<and>
           sum_list (map iov_len iovs) = min len (length (ba_pending ba))"
proof (cases "len = 0 \<or> ba_pending ba = []")
  case True
  then show ?thesis
    by (auto simp: getReadBuffers_def getReadSize_inv [OF inv] gather_def)
next
  case False
  let ?b = "m_baseSize ba" and ?p = "m_position ba" and ?ns = "m_nodes ba"
    and ?n = "min len (length (ba_pending ba))"
  have n: "0 < ?n" "?n \<le> length (ba_pending ba)"
    using False by auto
  have b: "0 < ?b" and wf: "wf_nodes ?b ?ns" and cap: "m_capacity ba = length ?ns * ?b"
    and end_le: "?p + ?n \<le> m_capacity ba"
    using inv n(2) by (auto simp: ba_inv_def length_ba_pending [OF inv])
  with n(1) have "?p < m_capacity ba" by linarith
  note cur = ba_inv_deref [OF inv this]
  from cur(3) obtain c where c: "deref ?ns (m_cur ba) = Inr c" "n_size c = ?b"
    by blast
  have split: "?p div ?b * ?b + ?p mod ?b = ?p" by simp
  have "?p div ?b * ?b + ?p mod ?b + ?n \<le> length ?ns * ?b"
    using end_le cap by simp
  from iov_loop_gather [OF wf cur(2) mod_less_divisor [OF b] this] obtain iovs where
    "iov_loop ?ns (m_cur ba) (?p mod ?b) (?b - ?p mod ?b) ?n = Inr iovs"
    "gather ?ns iovs = take ?n (drop ?p (ba_data ?ns))" "sum_list (map iov_len iovs) = ?n"
    unfolding cur(1) split by blast
  moreover have "(if len > getReadSize ba then getReadSize ba else len) = ?n"
    by (simp add: getReadSize_inv [OF inv] min_def)
  moreover have "take ?n (ba_pending ba) = take len (ba_pending ba)"
    by (simp add: min_def)
  ultimately show ?thesis
    using n(1) b c pending_range [OF inv n(2)]
    by (intro exI [of _ iovs]) (simp add: getReadBuffers_def Let_def less_imp_le del: min_less_iff_conj)
qed

lemma getWriteBuffers_ok:
  assumes inv: "ba_inv ba"
  shows "\<exists>iovs ba1. getWriteBuffers ba len = Inr (len, iovs, ba1) \<and> ba_inv ba1 \<and>
           ba_content ba1 = ba_content ba \<and> m_position ba1 = m_position ba \<and>
           m_endian ba1 = m_endian ba \<and>
           (\<forall>bs. length bs \<le> len \<longrightarrow> (\<exists>ns ba2. scatter (m_nodes ba1) iovs bs = Inr ns \<and>
              setPosition (ba1\<lparr>m_nodes := ns\<rparr>) (m_position ba + length bs) = Inr ba2 \<and>
              ba_inv ba2 \<and> ba_content ba2 = blit (m_position ba) bs (ba_content ba) \<and>
              m_position ba2 = m_position ba + length bs \<and> m_endian ba2 = m_endian ba))"
proof (cases "len = 0")
  case True
  have "m_position ba \<le> length (ba_content ba)"
    using inv by (simp add: length_ba_content ba_inv_def)
  from setPosition_content [OF inv this] obtain ba2 where "setPosition ba (m_position ba) = Inr ba2"
    "ba_inv ba2" "m_position ba2 = m_position ba" "ba_content ba2 = ba_content ba"
    "m_endian ba2 = m_endian ba" by metis
  with True inv show ?thesis
    by (intro exI [of _ "[]"] exI [of _ ba]) (simp add: getWriteBuffers_def)
next
  case False
  from addCapacity_ok [OF inv, of len] obtain ba1 where
    ba1: "addCapacity ba len = Inr ba1" "ba_inv ba1" "ba_content ba1 = ba_content ba"
      "m_position ba1 = m_position ba" "m_size ba1 = m_size ba" "m_endian ba1 = m_endian ba"
      "m_baseSize ba1 = m_baseSize ba" "m_position ba + len \<le> m_capacity ba1"
    by metis
  let ?b = "m_baseSize ba1" and ?p = "m_position ba1" and ?ns = "m_nodes ba1"
  have "?p < m_capacity ba1"
    using False ba1 by simp
  note cur = ba_inv_deref [OF ba1(2) this]
  from cur(3) obtain c where c: "deref ?ns (m_cur ba1) = Inr c" "n_size c = ?b"
    by blast
  have b: "0 < ?b" and wf: "wf_nodes ?b ?ns" and cap: "m_capacity ba1 = length ?ns * ?b"
    and bounds: "?p \<le> m_size ba1" "m_size ba1 \<le> m_capacity ba1"
    using ba1(2) by (simp_all add: ba_inv_def)
  have split: "?p div ?b * ?b + ?p mod ?b = ?p" by simp
  have room: "?p div ?b * ?b + ?p mod ?b + len \<le> length ?ns * ?b"
    using ba1(4,8) cap by simp
  from iov_loop_gather [OF wf cur(2) mod_less_divisor [OF b] room] obtain iovs where
    iovs: "iov_loop ?ns (Some (?p div ?b)) (?p mod ?b) (?b - ?p mod ?b) len = Inr iovs"
    by blast
  have "\<exists>ns ba2. scatter ?ns iovs bs = Inr ns \<and>
      setPosition (ba1\<lparr>m_nodes := ns\<rparr>) (?p + length bs) = Inr ba2 \<and> ba_inv ba2 \<and>
      ba_content ba2 = blit ?p bs (ba_content ba1) \<and> m_position ba2 = ?p + length bs \<and>
      m_endian ba2 = m_endian ba1" if bs: "length bs \<le> len" for bs
  proof -
    from iov_loop_scatter [OF wf wf refl cur(2) mod_less_divisor [OF b] room iovs bs]
    obtain ns where ns: "scatter ?ns iovs bs = Inr ns" "wf_nodes ?b ns" "length ns = length ?ns"
      "ba_data ns = blit ?p bs (ba_data ?ns)" unfolding split by blast
    have "ba_inv (ba1\<lparr>m_nodes := ns\<rparr>)" and "?p + length bs \<le> m_capacity (ba1\<lparr>m_nodes := ns\<rparr>)"
      using ba1(2,4,8) bs ns(2,3) by (auto simp: ba_inv_def)
    from setPosition_ok [OF this] obtain ba2 where
      "setPosition (ba1\<lparr>m_nodes := ns\<rparr>) (?p + length bs) = Inr ba2" "ba_inv ba2"
      "m_position ba2 = ?p + length bs" "m_size ba2 = max (m_size ba1) (?p + length bs)"
      "m_nodes ba2 = ns" "m_endian ba2 = m_endian ba1" by auto
    moreover from this have "ba_content ba2 = blit ?p bs (ba_content ba1)"
      using take_blit_grow [of ?p "m_size ba1" "ba_data ?ns" bs] bounds ns(4) ba1(4,8) cap bs
      by (simp add: ba_content_def length_ba_data [OF wf])
    ultimately show ?thesis
      using ns(1) by blast
  qed
  moreover have "getWriteBuffers ba len = Inr (len, iovs, ba1)"
    using False ba1(1) b c iovs cur(1) by (simp add: getWriteBuffers_def Let_def less_imp_le)
  ultimately show ?thesis
    using ba1(2,3,4,6) by (intro exI [of _ iovs] exI [of _ ba1]) simp
qed

lemma ba_toString_ok: "ba_inv ba \<Longrightarrow> ba_toString ba = Inr (ba_pending ba)"
proof (cases "ba_pending ba = []")
  case True
  moreover assume "ba_inv ba"
  ultimately show ?thesis by (simp add: ba_toString_def getReadSize_inv)
next
  case False
  assume inv: "ba_inv ba"
  let ?n = "length (ba_pending ba)"
  have room: "m_position ba < m_capacity ba" and size: "m_size ba - m_position ba = ?n"
    and le: "m_position ba \<le> m_size ba"
    using inv length_greater_0_conv [THEN iffD2, OF False] length_ba_pending [OF inv]
    by (auto simp: ba_inv_def)
  from ba_read_ok [OF inv le_refl room] obtain ba' where
    "ba_read ba ?n = Inr (take ?n (ba_pending ba), ba')" by metis
  then show ?thesis
    using False le size
    by (auto simp: ba_toString_def ba_read_at_def ba_read_def getReadSize_inv [OF inv]
        bindR_Inr_iff Let_def split: if_splits)
qed

section \<open>The interface of a byte buffer\<close>

text \<open>
  What the codecs, the streams and the WebSocket frames rely on: a buffer has a content and
  a position, \<open>put\<close> overwrites at the position and moves it, \<open>get\<close> returns the bytes at the
  position and moves it, \<open>seek\<close> moves it. Nothing is promised of a \<open>get\<close> of zero bytes.
  \<open>encodes\<close> and \<open>decodes\<close> are the contracts of a writer and of a reader of one encoded
  value; writers and readers of compound values compose by \<open>encodes_then\<close> and \<open>decodes_then\<close>.
\<close>

locale byte_buffer =
  fixes inv :: "'b \<Rightarrow> bool" and content :: "'b \<Rightarrow> 'a list" and pos :: "'b \<Rightarrow> nat"
    and put :: "'b \<Rightarrow> 'a list \<Rightarrow> 'b res" and get :: "'b \<Rightarrow> nat \<Rightarrow> ('a list \<times> 'b) res"
    and seek :: "'b \<Rightarrow> nat \<Rightarrow> 'b res" and cfg :: "'b \<Rightarrow> 'c"
  assumes pos_le: "inv b \<Longrightarrow> pos b \<le> length (content b)"
    and put_ok: "inv b \<Longrightarrow> \<exists>b'. put b bs = Inr b' \<and> inv b' \<and>
          content b' = blit (pos b) bs (content b) \<and> pos b' = pos b + length bs \<and> cfg b' = cfg b"
    and get_ok: "inv b \<Longrightarrow> 0 < n \<Longrightarrow> pos b + n \<le> length (content b) \<Longrightarrow>
          \<exists>b'. get b n = Inr (take n (drop (pos b) (content b)), b') \<and> inv b' \<and>
            content b' = content b \<and> pos b' = pos b + n \<and> cfg b' = cfg b"
    and get_short: "inv b \<Longrightarrow> length (content b) < pos b + n \<Longrightarrow>
          get b n = Inl (Out_of_range ''not enough len'')"
    and seek_ok: "inv b \<Longrightarrow> v \<le> length (content b) \<Longrightarrow>
          \<exists>b'. seek b v = Inr b' \<and> inv b' \<and> content b' = content b \<and> pos b' = v \<and> cfg b' = cfg b"
begin

definition encodes :: "'c \<Rightarrow> ('b \<Rightarrow> 'b res) \<Rightarrow> 'a list \<Rightarrow> bool" where
  "encodes c enc bs \<longleftrightarrow> (\<forall>b. inv b \<and> cfg b = c \<longrightarrow>
     (\<exists>b'. enc b = Inr b' \<and> inv b' \<and> content b' = blit (pos b) bs (content b) \<and>
       pos b' = pos b + length bs \<and> cfg b' = c))"

definition at_pos :: "'b \<Rightarrow> 'a list \<Rightarrow> bool" where
  "at_pos b bs \<longleftrightarrow> take (length bs) (drop (pos b) (content b)) = bs"

definition decodes :: "'c \<Rightarrow> ('b \<Rightarrow> ('v \<times> 'b) res) \<Rightarrow> 'a list \<Rightarrow> 'v \<Rightarrow> bool" where
  "decodes c dec bs v \<longleftrightarrow> (\<forall>b. inv b \<and> cfg b = c \<and> at_pos b bs \<longrightarrow>
     (\<exists>b'. dec b = Inr (v, b') \<and> inv b' \<and> content b' = content b \<and>
       pos b' = pos b + length bs \<and> cfg b' = c))"

lemma encodesD:
  assumes "encodes c enc bs" and "inv b" and "cfg b = c"
  obtains b' where "enc b = Inr b'" and "inv b'" and "content b' = blit (pos b) bs (content b)"
    and "pos b' = pos b + length bs" and "cfg b' = c"
  using assms unfolding encodes_def by blast

lemma decodesD:
  assumes "decodes c dec bs v" and "inv b" and "cfg b = c" and "at_pos b bs"
  obtains b' where "dec b = Inr (v, b')" and "inv b'" and "content b' = content b"
    and "pos b' = pos b + length bs" and "cfg b' = c"
  using assms unfolding decodes_def by blast

lemma at_pos_le: "inv b \<Longrightarrow> at_pos b bs \<Longrightarrow> pos b + length bs \<le> length (content b)"
  using pos_le [of b] unfolding at_pos_def
  by (metis length_drop length_take min.cobounded1 le_diff_conv2 add.commute)

lemma at_pos_append:
  "at_pos b (bs @ cs) \<longleftrightarrow>
    at_pos b bs \<and> take (length cs) (drop (pos b + length bs) (content b)) = cs"
proof -
  let ?x = "take (length bs) (drop (pos b) (content b))"
    and ?y = "take (length cs) (drop (pos b + length bs) (content b))"
  have "at_pos b (bs @ cs) \<longleftrightarrow> ?x @ ?y = bs @ cs"
    by (simp add: at_pos_def take_add add.commute)
  moreover have "?x @ ?y = bs @ cs \<Longrightarrow> length ?x = length bs"
    by (drule arg_cong [where f = length]) (simp add: min_def split: if_splits)
  ultimately show ?thesis
    by (auto simp: at_pos_def)
qed

lemma encodes_put: "encodes c (\<lambda>b. put b bs) bs"
  unfolding encodes_def using put_ok by metis

lemma encodes_then:
  assumes "encodes c enc bs" and "encodes c enc' cs"
  shows "encodes c (\<lambda>b. bindR (enc b) enc') (bs @ cs)"
  unfolding encodes_def
proof (intro allI impI)
  fix b assume b: "inv b \<and> cfg b = c"
  then obtain b1 where b1: "enc b = Inr b1" "inv b1" "content b1 = blit (pos b) bs (content b)"
    "pos b1 = pos b + length bs" "cfg b1 = c"
    using assms(1) encodesD by blast
  from encodesD [OF assms(2) b1(2,5)] obtain b2 where b2: "enc' b1 = Inr b2" "inv b2"
    "content b2 = blit (pos b1) cs (content b1)" "pos b2 = pos b1 + length cs" "cfg b2 = c" .
  then show "\<exists>b'. bindR (enc b) enc' = Inr b' \<and> inv b' \<and>
      content b' = blit (pos b) (bs @ cs) (content b) \<and>
      pos b' = pos b + length (bs @ cs) \<and> cfg b' = c"
    using b1 b blit_blit_adjacent [of "pos b" "content b" bs cs] pos_le [of b] by simp
qed

lemma decodes_then:
  assumes "decodes c dec bs v" and "decodes c (k v) cs w"
  shows "decodes c (\<lambda>b. bindR (dec b) (\<lambda>(v, b). k v b)) (bs @ cs) w"
  unfolding decodes_def
proof (intro allI impI)
  fix b assume b: "inv b \<and> cfg b = c \<and> at_pos b (bs @ cs)"
  then have b': "inv b" "cfg b = c" "at_pos b bs"
    "take (length cs) (drop (pos b + length bs) (content b)) = cs"
    by (simp_all only: at_pos_append)
  from decodesD [OF assms(1) b'(1-3)] obtain b1 where b1: "dec b = Inr (v, b1)" "inv b1"
    "content b1 = content b" "pos b1 = pos b + length bs" "cfg b1 = c" .
  with b'(4) have "at_pos b1 cs"
    by (simp add: at_pos_def)
  from decodesD [OF assms(2) b1(2,5) this] obtain b2 where "k v b1 = Inr (w, b2)" "inv b2"
    "content b2 = content b1" "pos b2 = pos b1 + length cs" "cfg b2 = c" .
  then show "\<exists>b'. bindR (dec b) (\<lambda>(v, b). k v b) = Inr (w, b') \<and> inv b' \<and>
      content b' = content b \<and> pos b' = pos b + length (bs @ cs) \<and> cfg b' = c"
    using b1 by simp
qed

lemma decodes_return: "decodes c (\<lambda>b. Inr (v, b)) [] v"
  by (simp add: decodes_def)

lemma decodes_get: "bs \<noteq> [] \<Longrightarrow> decodes c (\<lambda>b. get b (length bs)) bs bs"
  unfolding decodes_def
proof (intro allI impI)
  fix b assume "bs \<noteq> []" and b: "inv b \<and> cfg b = c \<and> at_pos b bs"
  then show "\<exists>b'. get b (length bs) = Inr (bs, b') \<and> inv b' \<and> content b' = content b \<and>
      pos b' = pos b + length bs \<and> cfg b' = c"
    using get_ok [of b "length bs"] at_pos_le [of b bs] by (auto simp: at_pos_def)
qed

lemma decodes_map:
  assumes "decodes c dec bs v"
  shows "decodes c (\<lambda>b. bindR (dec b) (\<lambda>(v, b). Inr (f v, b))) bs (f v)"
  using decodes_then [where k = "\<lambda>v b. Inr (f v, b)", OF assms decodes_return] by simp

theorem write_seek_read:
  assumes enc: "encodes c enc bs" and dec: "decodes c dec bs v" and b: "inv b" "cfg b = c"
  shows "\<exists>b1 b2 b3. enc b = Inr b1 \<and> seek b1 (pos b) = Inr b2 \<and> dec b2 = Inr (v, b3) \<and>
           inv b3 \<and> content b3 = content b1 \<and> pos b3 = pos b1"
proof -
  from encodesD [OF enc b] obtain b1 where b1: "enc b = Inr b1" "inv b1"
    "content b1 = blit (pos b) bs (content b)" "pos b1 = pos b + length bs" "cfg b1 = c" .
  have "pos b \<le> length (content b1)"
    using pos_le [OF b1(2)] b1(4) by simp
  from seek_ok [OF b1(2) this] obtain b2 where b2: "seek b1 (pos b) = Inr b2" "inv b2"
    "content b2 = content b1" "pos b2 = pos b" "cfg b2 = cfg b1" by blast
  have "at_pos b2 bs"
    using b1(3) b2(3,4) pos_le [OF b(1)] by (simp add: at_pos_def take_drop_blit)
  from decodesD [OF dec b2(2) _ this] b1(5) b2(5) obtain b3 where "dec b2 = Inr (v, b3)"
    "inv b3" "content b3 = content b2" "pos b3 = pos b2 + length bs" by metis
  with b1 b2 show ?thesis by auto
qed

end

lemma ba_get_ok:
  assumes "ba_inv ba" and "0 < n" and "m_position ba + n \<le> length (ba_content ba)"
  shows "\<exists>ba'. ba_read ba n = Inr (take n (drop (m_position ba) (ba_content ba)), ba') \<and>
           ba_inv ba' \<and> ba_content ba' = ba_content ba \<and> m_position ba' = m_position ba + n \<and>
           m_endian ba' = m_endian ba"
proof -
  have "m_position ba < m_capacity ba" and "n \<le> length (ba_pending ba)"
    using assms by (auto simp: length_ba_content length_ba_pending ba_inv_def)
  from ba_read_ok [OF assms(1) this(2,1)] show ?thesis
    by (metis ba_pending_def)
qed

interpretation bab: byte_buffer ba_inv ba_content m_position ba_write ba_read setPosition m_endian
proof unfold_locales
  fix ba :: bytearray and bs :: "u8 list" and n v :: nat
  assume inv: "ba_inv ba"
  show "m_position ba \<le> length (ba_content ba)"
    using inv by (simp add: length_ba_content ba_inv_def)
  show "\<exists>ba'. ba_write ba bs = Inr ba' \<and> ba_inv ba' \<and>
      ba_content ba' = blit (m_position ba) bs (ba_content ba) \<and>
      m_position ba' = m_position ba + length bs \<and> m_endian ba' = m_endian ba"
    using ba_write_ok [OF inv, of bs] by metis
  show "v \<le> length (ba_content ba) \<Longrightarrow> \<exists>ba'. setPosition ba v = Inr ba' \<and> ba_inv ba' \<and>
      ba_content ba' = ba_content ba \<and> m_position ba' = v \<and> m_endian ba' = m_endian ba"
    using setPosition_content [OF inv, of v] by metis
  show "length (ba_content ba) < m_position ba + n \<Longrightarrow>
      ba_read ba n = Inl (Out_of_range ''not enough len'')"
    using inv by (intro ba_read_short) (auto simp: length_ba_content length_ba_pending ba_inv_def)
  show "0 < n \<Longrightarrow> m_position ba + n \<le> length (ba_content ba) \<Longrightarrow>
      \<exists>ba'. ba_read ba n = Inr (take n (drop (m_position ba) (ba_content ba)), ba') \<and>
        ba_inv ba' \<and> ba_content ba' = ba_content ba \<and> m_position ba' = m_position ba + n \<and>
        m_endian ba' = m_endian ba"
    by (rule ba_get_ok [OF inv])
qed

section \<open>Saving to and loading from a file\<close>

lemma writeToFile_loop_done [simp]: "r \<le> 0 \<Longrightarrow> writeToFile_loop b ns cur p r = Inr []"
  by (simp add: writeToFile_loop.simps)

lemma writeToFile_loop_block:
  assumes "0 < b" and "b \<le> n"
  shows "writeToFile_loop b ns (Some i) (int p) (int n) =
    bindR (memcpy_from ns i (p mod b) (b - p mod b)) (\<lambda>bs.
      bindR (writeToFile_loop b ns (node_next ns i) (int (p + (b - p mod b))) (int (n - (b - p mod b))))
        (\<lambda>bs'. Inr (bs @ bs')))"
proof -
  have d: "p mod b < b" using assms(1) by simp
  then have len: "int b - int (p mod b) = int (b - p mod b)"
    by (simp only: of_nat_diff less_imp_le)
  have diff: "int p mod int b = int (p mod b)"
    by (simp only: zmod_int)
  have min: "(if int b < int n then int b else int n) = int b" and "\<not> int n \<le> 0"
    using assms by auto
  moreover have "int p + int (b - p mod b) = int (p + (b - p mod b))"
    and "int n - int (b - p mod b) = int (n - (b - p mod b))"
    using assms(2) by (simp_all only: of_nat_add of_nat_diff diff_le_self le_trans)
  ultimately show ?thesis
    using assms(1) d
    by (subst writeToFile_loop.simps)
       (simp only: Let_def diff len min option.simps nat_int if_False of_nat_less_0_iff
          neq0_conv [symmetric] simp_thms)
qed

lemma writeToFile_loop_aligned:
  assumes "wf_nodes b ns" and "0 < b" and "i * b + n \<le> length ns * b"
    and "cur = cur_of b (length ns) (i * b)"
  shows "writeToFile_loop b ns cur (int (i * b)) (int n) = Inr (take n (drop (i * b) (ba_data ns)))"
  using assms
proof (induction n arbitrary: i cur rule: less_induct)
  case (less n)
  note prems = less.prems
  show ?case
  proof (cases "n = 0")
    case True
    then show ?thesis by simp
  next
    case False
    with prems(3) have "i * b < length ns * b" by linarith
    then have i: "i < length ns" by (metis mult_less_cancel2)
    with prems(2,4) cur_of_inside [of i "length ns" 0 b] have cur: "cur = Some i" by simp
    show ?thesis
    proof (cases "n < b")
      case True
      with False prems(1,2) i cur memcpy_from_ok [of b ns i 0 n] show ?thesis
        by (subst writeToFile_loop.simps) (simp add: Let_def)
    next
      case big: False
      have "Suc i * b + (n - b) \<le> length ns * b"
        using prems(3) big by simp
      then have "writeToFile_loop b ns (node_next ns i) (int (Suc i * b)) (int (n - b))
          = Inr (take (n - b) (drop (Suc i * b) (ba_data ns)))"
        using False prems(1,2) big cur_of_next [OF prems(2) i]
        by (intro less.IH) (simp_all add: add.commute)
      moreover have "take n (drop (i * b) (ba_data ns))
          = take b (drop (i * b) (ba_data ns)) @ take (n - b) (drop (Suc i * b) (ba_data ns))"
        using big take_add [of b "n - b" "drop (i * b) (ba_data ns)"] by (simp add: add.commute)
      ultimately show ?thesis
        using big writeToFile_loop_block [OF prems(2), of n ns i "i * b"]
          memcpy_from_ok [OF prems(1) i, of 0 b] cur by (simp add: add.commute)
    qed
  qed
qed

lemma writeToFile_loop_first:
  assumes "wf_nodes b ns" and "0 < b" and "b \<le> n" and "p + n \<le> length ns * b"
  shows "writeToFile_loop b ns (Some (p div b)) (int p) (int n) = Inr (take n (drop p (ba_data ns)))"
proof -
  let ?d = "p mod b" and ?i = "p div b"
  have p: "?i * b + ?d = p" and d: "?d < b"
    using assms(2) by simp_all
  have "?i * b < length ns * b"
    using assms(2-4) p by linarith
  then have i: "?i < length ns" by (metis mult_less_cancel2)
  have nxt: "p + (b - ?d) = Suc ?i * b"
    using p d unfolding mult_Suc by linarith
  have "Suc ?i * b + (n - (b - ?d)) \<le> length ns * b"
    using assms(3,4) nxt by simp
  then have "writeToFile_loop b ns (node_next ns ?i) (int (p + (b - ?d))) (int (n - (b - ?d)))
      = Inr (take (n - (b - ?d)) (drop (p + (b - ?d)) (ba_data ns)))"
    using cur_of_next [OF assms(2) i] unfolding nxt
    by (intro writeToFile_loop_aligned [OF assms(1,2)]) (simp_all add: add.commute)
  moreover have "take n (drop p (ba_data ns))
      = take (b - ?d) (drop p (ba_data ns)) @ take (n - (b - ?d)) (drop (p + (b - ?d)) (ba_data ns))"
    using assms(3) take_add [of "b - ?d" "n - (b - ?d)" "drop p (ba_data ns)"]
    by (simp add: add.commute)
  ultimately show ?thesis
    using writeToFile_loop_block [OF assms(2,3), of ns ?i p]
      memcpy_from_ok [OF assms(1) i, of ?d "b - ?d"] d p by simp
qed

lemma readFromFile_loop_ok:
  assumes "ba_inv ba" and "m_baseSize ba = b"
  shows "\<exists>ba'. readFromFile_loop b ba bs = Inr ba' \<and> ba_inv ba' \<and>
           ba_content ba' = blit (m_position ba) bs (ba_content ba) \<and>
           m_position ba' = m_position ba + length bs"
  using assms
proof (induction bs arbitrary: ba rule: length_induct)
  case (1 bs)
  from ba_write_ok [OF 1(2), of "take b bs"] obtain ba1 where
    ba1: "ba_write ba (take b bs) = Inr ba1" "ba_inv ba1"
      "ba_content ba1 = blit (m_position ba) (take b bs) (ba_content ba)"
      "m_position ba1 = m_position ba + length (take b bs)" "m_baseSize ba1 = b"
    using 1(3) by metis
  have b: "0 < b" and le: "m_position ba \<le> length (ba_content ba)"
    using 1(2,3) by (auto simp: length_ba_content ba_inv_def)
  show ?case
  proof (cases "length bs < b")
    case True
    with ba1 show ?thesis by (subst readFromFile_loop.simps) simp
  next
    case False
    with b have "length (drop b bs) < length bs" by (cases bs) auto
    with 1(1) ba1(2,5) obtain ba2 where "readFromFile_loop b ba1 (drop b bs) = Inr ba2"
      "ba_inv ba2" "ba_content ba2 = blit (m_position ba1) (drop b bs) (ba_content ba1)"
      "m_position ba2 = m_position ba1 + length (drop b bs)" by metis
    with False b ba1 blit_blit_adjacent [OF le, of "take b bs" "drop b bs"] show ?thesis
      by (subst readFromFile_loop.simps) simp
  qed
qed

lemma writeToFile_loop_negative:
  "0 < n \<Longrightarrow> n < b \<Longrightarrow> n < p mod b \<Longrightarrow> \<exists>e. writeToFile_loop b ns cur (int p) (int n) = Inl e"
  by (cases cur; subst writeToFile_loop.simps) (simp_all add: Let_def flip: zmod_int)

lemma writeToFile_loop_stuck:
  "0 < n \<Longrightarrow> n < b \<Longrightarrow> n = p mod b \<Longrightarrow> \<exists>e. writeToFile_loop b ns cur (int p) (int n) = Inl e"
proof (induction "case cur of None \<Rightarrow> 0 | Some i \<Rightarrow> Suc (length ns) - i" arbitrary: cur rule: less_induct)
  case less
  have diff: "int p mod int b = int n"
    using less.prems(3) by (simp only: flip: zmod_int)
  show ?case
  proof (cases cur)
    case None
    then show ?thesis
      using less.prems diff by (subst writeToFile_loop.simps) (simp add: Let_def)
  next
    case (Some i)
    have loop: "writeToFile_loop b ns cur (int p) (int n) =
        bindR (memcpy_from ns i n 0) (\<lambda>bs.
          bindR (writeToFile_loop b ns (node_next ns i) (int p) (int n)) (\<lambda>bs'. Inr (bs @ bs')))"
      using less.prems diff Some by (subst writeToFile_loop.simps) (simp add: Let_def)
    show ?thesis
    proof (cases "i < length ns")
      case True
      then have "\<exists>e. writeToFile_loop b ns (node_next ns i) (int p) (int n) = Inl e"
        using less.hyps [OF _ less.prems, of "node_next ns i"] Some
        by (auto simp: node_next_def split: option.splits)
      then show ?thesis
        unfolding loop by (auto simp: memcpy_from_def)
    next
      case False
      then show ?thesis
        unfolding loop by (simp add: memcpy_from_def)
    qed
  qed
qed

lemma writeToFile_loop_unaligned:
  assumes "0 < n" and "n < b" and "0 < p mod b"
  shows "\<exists>e. writeToFile_loop b ns (Some i) (int p) (int n) = Inl e"
proof -
  let ?d = "p mod b"
  consider "n < ?d" | "n = ?d" | "?d < n" by linarith
  then show ?thesis
  proof cases
    case 3
    have "p + (n - ?d) = p div b * b + n"
      using 3 div_mult_mod_eq [of p b] by linarith
    then have "(p + (n - ?d)) mod b = n"
      using assms(2) by simp
    then have "\<exists>e. writeToFile_loop b ns (node_next ns i) (int (p + (n - ?d))) (int ?d) = Inl e"
      using writeToFile_loop_negative [of ?d b "p + (n - ?d)"] assms 3 by simp
    moreover have "writeToFile_loop b ns (Some i) (int p) (int n) =
        bindR (memcpy_from ns i ?d (n - ?d)) (\<lambda>bs.
          bindR (writeToFile_loop b ns (node_next ns i) (int (p + (n - ?d))) (int ?d))
            (\<lambda>bs'. Inr (bs @ bs')))"
      using assms 3 by (subst writeToFile_loop.simps) (simp add: Let_def of_nat_diff nat_diff_distrib' add_diff_eq flip: zmod_int)
    ultimately show ?thesis
      by (cases "memcpy_from ns i ?d (n - ?d)") auto
  qed (use assms writeToFile_loop_negative writeToFile_loop_stuck in auto)
qed

section \<open>The abstract buffer\<close>

text \<open>
  The specification of a \<open>ByteArray\<close>: a content, a position in it and a byte order.
  \<open>spec_step\<close> is \<open>None\<close> where the buffer promises nothing: a read of zero bytes, and a
  \<open>setPosition\<close> beyond the content.
\<close>

datatype ba_op =
    Op_write "u8 list"
  | Op_read nat
  | Op_setPosition nat
  | Op_clear
  | Op_setIsLittleEndian bool

type_synonym ba_spec = "u8 list \<times> nat \<times> endian"

definition ba_abs :: "bytearray \<Rightarrow> ba_spec" where
  "ba_abs ba = (ba_content ba, m_position ba, m_endian ba)"

fun spec_step :: "ba_spec \<Rightarrow> ba_op \<Rightarrow> (u8 list res \<times> ba_spec) option" where
  "spec_step (c, p, e) (Op_write bs) = Some (Inr [], (blit p bs c, p + length bs, e))"
| "spec_step (c, p, e) (Op_read n) =
     (if length c < p + n then Some (Inl (Out_of_range ''not enough len''), (c, p, e))
      else if n = 0 then None
      else Some (Inr (take n (drop p c)), (c, p + n, e)))"
| "spec_step (c, p, e) (Op_setPosition v) =
     (if v \<le> length c then Some (Inr [], (c, v, e)) else None)"
| "spec_step (c, p, e) Op_clear = Some (Inr [], ([], 0, e))"
| "spec_step (c, p, e) (Op_setIsLittleEndian val) =
     Some (Inr [], (c, p, if val then LITTLE_ENDIAN else BIG_ENDIAN))"

text \<open>One call on the implementation; a call that throws leaves the object as it was.\<close>

fun ba_step :: "bytearray \<Rightarrow> ba_op \<Rightarrow> u8 list res \<times> bytearray" where
  "ba_step ba (Op_write bs) =
     (case ba_write ba bs of Inl e \<Rightarrow> (Inl e, ba) | Inr ba' \<Rightarrow> (Inr [], ba'))"
| "ba_step ba (Op_read n) =
     (case ba_read ba n of Inl e \<Rightarrow> (Inl e, ba) | Inr (bs, ba') \<Rightarrow> (Inr bs, ba'))"
| "ba_step ba (Op_setPosition v) =
     (case setPosition ba v of Inl e \<Rightarrow> (Inl e, ba) | Inr ba' \<Rightarrow> (Inr [], ba'))"
| "ba_step ba Op_clear = (Inr [], ba_clear ba)"
| "ba_step ba (Op_setIsLittleEndian val) = (Inr [], setIsLittleEndian ba val)"

fun spec_run :: "ba_spec \<Rightarrow> ba_op list \<Rightarrow> (u8 list res list \<times> ba_spec) option" where
  "spec_run a [] = Some ([], a)"
| "spec_run a (op # ops) =
     (case spec_step a op of
        None \<Rightarrow> None
      | Some (out, a') \<Rightarrow>
          (case spec_run a' ops of None \<Rightarrow> None | Some (outs, a'') \<Rightarrow> Some (out # outs, a'')))"

fun ba_run :: "bytearray \<Rightarrow> ba_op list \<Rightarrow> u8 list res list \<times> bytearray" where
  "ba_run ba [] = ([], ba)"
| "ba_run ba (op # ops) =
     (let (out, ba') = ba_step ba op; (outs, ba'') = ba_run ba' ops in (out # outs, ba''))"

lemma ba_step_refines:
  assumes inv: "ba_inv ba" and spec: "spec_step (ba_abs ba) op = Some (out, a)"
  shows "\<exists>ba'. ba_step ba op = (out, ba') \<and> ba_inv ba' \<and> ba_abs ba' = a"
proof (cases op)
  case (Op_write bs)
  with spec bab.put_ok [OF inv, of bs] show ?thesis
    by (auto simp: ba_abs_def)
next
  case (Op_read n)
  with spec inv bab.get_ok [OF inv, of n] bab.get_short [OF inv, of n] show ?thesis
    by (auto simp: ba_abs_def not_less split: if_splits)
next
  case (Op_setPosition v)
  with spec bab.seek_ok [OF inv, of v] show ?thesis
    by (auto simp: ba_abs_def split: if_splits)
next
  case Op_clear
  with spec ba_clear_ok [OF inv] show ?thesis
    by (auto simp: ba_abs_def ba_clear_def)
next
  case (Op_setIsLittleEndian val)
  with spec inv show ?thesis
    by (auto simp: ba_abs_def setIsLittleEndian_def ba_inv_def ba_content_def)
qed

text \<open>A concrete buffer: \<open>1 2 3\<close> written into nodes of two bytes.\<close>

definition sample_ba :: bytearray where
  "sample_ba =
     \<lparr>m_baseSize = 2, m_position = 3, m_capacity = 4, m_size = 3, m_endian = BIG_ENDIAN,
      m_nodes = [\<lparr>n_ptr = [1, 2], n_size = 2\<rparr>, \<lparr>n_ptr = [3, 0], n_size = 2\<rparr>],
      m_cur = Some 1, m_fill = \<lambda>_. 0\<rparr>"

lemma sample_ba_write: "ba_write (newByteArray (\<lambda>_. 0) 2) [1, 2, 3] = Inr sample_ba"
  by (simp add: ba_write_def newByteArray_def newNode_def addCapacity_def getCapacity_def
      ceil_div_def deref_def memcpy_to_def node_next_def blit_def write_loop.simps Let_def
      upt_rec numeral_2_eq_2 sample_ba_def)

lemma ba_inv_sample: "ba_inv sample_ba"
  by (simp add: ba_inv_def sample_ba_def cur_of_def)

section \<open>Properties\<close>



text \<open>The \<open>iovec\<close> array of \<open>getReadBuffers\<close> lists exactly the next \<open>len\<close> readable bytes (all of
  them when fewer are readable), in order, and its lengths add up to the returned size.\<close>

theorem getReadBuffers_gathers:
  assumes "ba_inv ba"
  shows "\<exists>iovs. getReadBuffers ba len = Inr (min len (getReadSize ba), iovs) \<and>
           gather (m_nodes ba) iovs = take len (ba_pending ba) \<and>
           sum_list (map iov_len iovs) = min len (getReadSize ba)"
  using getReadBuffers_ok [OF assms] by (simp add: getReadSize_inv [OF assms])

theorem getReadBuffers_gathers_witness:
  "\<exists>iovs. getReadBuffers (newByteArray (\<lambda>_. 0) 4) 3
       = Inr (min 3 (getReadSize (newByteArray (\<lambda>_. 0) 4)), iovs) \<and>
     gather (m_nodes (newByteArray (\<lambda>_. 0) 4)) iovs = take 3 (ba_pending (newByteArray (\<lambda>_. 0) 4)) \<and>
     sum_list (map iov_len iovs) = min 3 (getReadSize (newByteArray (\<lambda>_. 0) 4))"
  by (rule getReadBuffers_gathers) (simp add: ba_inv_new)

text \<open>Receiving \<open>bs\<close> into the \<open>iovec\<close> array of \<open>getWriteBuffers (len)\<close> (at most \<open>len\<close> bytes,
  as \<open>recvmsg\<close> does) and moving the position past them, as \<open>SocketStream\<close> does, has the effect
  of \<open>write (bs)\<close>; \<open>getWriteBuffers\<close> itself changes neither content nor position.\<close>

theorem getWriteBuffers_scatters:
  assumes "ba_inv ba" and "length bs \<le> len"
  shows "\<exists>iovs ba1 ns ba2. getWriteBuffers ba len = Inr (len, iovs, ba1) \<and>
           ba_abs ba1 = ba_abs ba \<and> scatter (m_nodes ba1) iovs bs = Inr ns \<and>
           setPosition (ba1\<lparr>m_nodes := ns\<rparr>) (m_position ba + length bs) = Inr ba2 \<and>
           ba_inv ba2 \<and> spec_step (ba_abs ba) (Op_write bs) = Some (Inr [], ba_abs ba2)"
proof -
  from getWriteBuffers_ok [OF assms(1), of len] obtain iovs ba1 where
    ba1: "getWriteBuffers ba len = Inr (len, iovs, ba1)" "ba_abs ba1 = ba_abs ba" and
    sc: "\<forall>bs. length bs \<le> len \<longrightarrow> (\<exists>ns ba2. scatter (m_nodes ba1) iovs bs = Inr ns \<and>
          setPosition (ba1\<lparr>m_nodes := ns\<rparr>) (m_position ba + length bs) = Inr ba2 \<and>
          ba_inv ba2 \<and> ba_content ba2 = blit (m_position ba) bs (ba_content ba) \<and>
          m_position ba2 = m_position ba + length bs \<and> m_endian ba2 = m_endian ba)"
    unfolding ba_abs_def by (metis (no_types))
  from sc assms(2) obtain ns ba2 where "scatter (m_nodes ba1) iovs bs = Inr ns"
    "setPosition (ba1\<lparr>m_nodes := ns\<rparr>) (m_position ba + length bs) = Inr ba2" "ba_inv ba2"
    "ba_content ba2 = blit (m_position ba) bs (ba_content ba)"
    "m_position ba2 = m_position ba + length bs" "m_endian ba2 = m_endian ba" by blast
  with ba1 show ?thesis
    by (intro exI [of _ iovs] exI [of _ ba1] exI [of _ ns] exI [of _ ba2]) (simp add: ba_abs_def)
qed

theorem getWriteBuffers_scatters_witness:
  "\<exists>iovs ba1 ns ba2. getWriteBuffers (newByteArray (\<lambda>_. 0) 2) 5 = Inr (5, iovs, ba1) \<and>
     ba_abs ba1 = ba_abs (newByteArray (\<lambda>_. 0) 2) \<and>
     scatter (m_nodes ba1) iovs [1, 2, 3] = Inr ns \<and>
     setPosition (ba1\<lparr>m_nodes := ns\<rparr>) (m_position (newByteArray (\<lambda>_. 0) 2) + length [1, 2, 3 :: u8])
       = Inr ba2 \<and>
     ba_inv ba2 \<and> spec_step (ba_abs (newByteArray (\<lambda>_. 0) 2)) (Op_write [1, 2, 3])
       = Some (Inr [], ba_abs ba2)"
  by (rule getWriteBuffers_scatters) (simp_all add: ba_inv_new)

text \<open>\<open>writeToFile\<close> saves exactly the readable bytes when the position is at the start of a
  node or at least a node's worth of bytes is readable; in every other case (position inside a
  node, fewer than \<open>m_baseSize\<close> bytes readable, at least one) it never saves the readable
  bytes: it computes a negative count or runs off the chain.\<close>

theorem writeToFile_exact:
  assumes "ba_inv ba"
  shows "if m_position ba mod m_baseSize ba = 0 \<or> m_baseSize ba \<le> getReadSize ba \<or> getReadSize ba = 0
         then writeToFile True ba = Inr (True, ba_pending ba)
         else \<exists>e. writeToFile True ba = Inl e"
proof -
  let ?b = "m_baseSize ba" and ?p = "m_position ba" and ?ns = "m_nodes ba" and ?n = "getReadSize ba"
  have b: "0 < ?b" and wf: "wf_nodes ?b ?ns" and cur: "m_cur ba = cur_of ?b (length ?ns) ?p"
    and room: "?p + ?n \<le> length ?ns * ?b"
    using assms by (auto simp: ba_inv_def getReadSize_def)
  have pend: "take ?n (drop ?p (ba_data ?ns)) = ba_pending ba"
    using pending_range [OF assms le_refl] by (simp add: getReadSize_inv [OF assms])
  have curp: "m_cur ba = Some (?p div ?b)" if "0 < ?n"
    using cur_of_Some [OF b, of ?p "length ?ns"] room that cur by simp
  consider "?n = 0" | "0 < ?n" "?p mod ?b = 0" | "?b \<le> ?n"
    | "0 < ?n" "?n < ?b" "0 < ?p mod ?b" by linarith
  then show ?thesis
  proof cases
    case 1
    with pend show ?thesis by (simp add: writeToFile_def)
  next
    case 2
    then have "?p div ?b * ?b = ?p" using div_mult_mod_eq [of ?p ?b] by simp
    with 2 writeToFile_loop_aligned [OF wf b, of "?p div ?b" ?n] cur room pend show ?thesis
      by (simp add: writeToFile_def)
  next
    case 3
    with b curp writeToFile_loop_first [OF wf b, of ?n ?p] room pend show ?thesis
      by (simp add: writeToFile_def)
  next
    case 4
    with writeToFile_loop_unaligned [OF 4, of ?ns "?p div ?b"] obtain e where
      "writeToFile_loop ?b ?ns (Some (?p div ?b)) (int ?p) (int ?n) = Inl e" by blast
    with 4 curp show ?thesis
      by (simp add: writeToFile_def)
  qed
qed

theorem writeToFile_exact_witness:
  "if m_position (newByteArray (\<lambda>_. 0) 4) mod m_baseSize (newByteArray (\<lambda>_. 0) 4) = 0 \<or>
      m_baseSize (newByteArray (\<lambda>_. 0) 4) \<le> getReadSize (newByteArray (\<lambda>_. 0) 4) \<or>
      getReadSize (newByteArray (\<lambda>_. 0) 4) = 0
   then writeToFile True (newByteArray (\<lambda>_. 0) 4)
          = Inr (True, ba_pending (newByteArray (\<lambda>_. 0) 4))
   else \<exists>e. writeToFile True (newByteArray (\<lambda>_. 0) 4) = Inl e"
  by (rule writeToFile_exact) (simp add: ba_inv_new)

text \<open>\<open>readFromFile\<close> writes the whole file at the position, in pieces of \<open>m_baseSize\<close> bytes,
  and terminates for every file.\<close>

theorem readFromFile_writes_file:
  assumes "ba_inv ba"
  shows "\<exists>ba'. readFromFile True ba bs = Inr (True, ba') \<and> ba_inv ba' \<and>
           ba_content ba' = blit (m_position ba) bs (ba_content ba) \<and>
           m_position ba' = m_position ba + length bs"
  using readFromFile_loop_ok [OF assms refl, of bs] by (auto simp: readFromFile_def)

theorem readFromFile_writes_file_witness:
  "\<exists>ba'. readFromFile True (newByteArray (\<lambda>_. 0) 2) [7, 8, 9] = Inr (True, ba') \<and> ba_inv ba' \<and>
     ba_content ba' = blit (m_position (newByteArray (\<lambda>_. 0) 2)) [7, 8, 9]
       (ba_content (newByteArray (\<lambda>_. 0) 2)) \<and>
     m_position ba' = m_position (newByteArray (\<lambda>_. 0) 2) + length [7, 8, 9 :: u8]"
  by (rule readFromFile_writes_file) (simp add: ba_inv_new)

text \<open>\<open>read (buf, size, position)\<close> returns the bytes at \<open>position\<close> whenever \<open>position\<close> lies in
  the node of the current position (as in \<open>toString\<close>), at least one byte being left there.\<close>

theorem ba_read_at_current_node:
  assumes inv: "ba_inv ba" and le: "position + n \<le> m_size ba"
    and node: "position div m_baseSize ba = m_position ba div m_baseSize ba"
    and inside: "m_position ba < m_capacity ba"
  shows "ba_read_at ba n position = Inr (take n (drop position (ba_content ba)))"
proof -
  let ?b = "m_baseSize ba" and ?ns = "m_nodes ba"
  note cur = ba_inv_deref [OF inv inside]
  from cur(3) obtain c where c: "deref ?ns (m_cur ba) = Inr c" "n_size c = ?b" by blast
  have b: "0 < ?b" and wf: "wf_nodes ?b ?ns" and size: "m_size ba \<le> length ?ns * ?b"
    using inv by (simp_all add: ba_inv_def)
  have split: "position div ?b * ?b + position mod ?b = position" by simp
  have "position div ?b * ?b + position mod ?b + n \<le> length ?ns * ?b"
    using le size by simp
  from read_loop_ok [OF wf cur(2) [folded node] mod_less_divisor [OF b] this, of position]
  have "read_loop ?ns (m_cur ba) (position mod ?b) (?b - position mod ?b) position n
      = Inr (take n (drop position (ba_data ?ns)), cur_of ?b (length ?ns) (position + n), position + n)"
    unfolding cur(1) node [symmetric] split .
  moreover have "take n (drop position (ba_content ba)) = take n (drop position (ba_data ?ns))"
    using le by (simp add: ba_content_def drop_take min_def)
  ultimately show ?thesis
    using b c le by (simp add: ba_read_at_def Let_def less_imp_le)
qed

theorem ba_read_at_current_node_witness:
  "ba_read_at sample_ba 1 2 = Inr (take 1 (drop 2 (ba_content sample_ba)))"
  by (rule ba_read_at_current_node) (simp_all add: ba_inv_sample, simp_all add: sample_ba_def)

text \<open>Outside the current node \<open>read (buf, size, position)\<close> is wrong: after writing
  \<open>1 2 3\<close> into nodes of two bytes, reading one byte at position 0 gives 3, not 1.\<close>

theorem ba_read_at_other_node:
  "bindR (ba_write (newByteArray (\<lambda>_. 0) 2) [1, 2, 3]) (\<lambda>ba. ba_read_at ba 1 0) = Inr [3]"
  unfolding sample_ba_write
  by (simp add: sample_ba_def ba_read_at_def deref_def read_loop.simps memcpy_from_def Let_def numeral_2_eq_2)

text \<open>A read of zero bytes dereferences \<open>NULL\<close> exactly when the position is at the end of the
  capacity, and otherwise returns no bytes and leaves the buffer as it was; this is the last
  step of reading an empty string.\<close>

theorem ba_read_zero:
  assumes "ba_inv ba"
  shows "ba_read ba 0 = (if m_position ba = m_capacity ba then Inl Null_deref else Inr ([], ba))"
proof (cases "m_position ba = m_capacity ba")
  case True
  with assms show ?thesis
    using ba_inv_deref_end [OF assms True] by (simp add: ba_read_def ba_inv_def)
next
  case False
  with assms have lt: "m_position ba < m_capacity ba" by (simp add: ba_inv_def)
  from ba_inv_deref(3) [OF assms lt] obtain c where "deref (m_nodes ba) (m_cur ba) = Inr c" by blast
  with False assms show ?thesis
    by (simp add: ba_read_def ba_inv_def read_loop.simps Let_def)
qed

theorem ba_read_zero_witness:
  "ba_read (newByteArray (\<lambda>_. 0) 2) 0 = Inr ([], newByteArray (\<lambda>_. 0) 2)"
  using ba_read_zero [of "newByteArray (\<lambda>_. 0) 2"]
  by (simp add: ba_inv_new) (simp add: newByteArray_def)

end
