(* ===== verification/Lamb_Codec.thy ===== *)
theory Lamb_Codec
  imports Lamb_ByteArray
begin

text \<open>
  The typed reads and writes of \<open>lamb/bytearray.cc\<close> on top of the raw buffer: fixed-width
  integers in the buffer's byte order, base-128 integers, zigzag, floats by bit pattern and
  length-prefixed strings. \<open>int32_t\<close> and \<open>uint32_t\<close> are both \<open>32 word\<close> (\<open>sint\<close> reads the
  signed value). The compile-time constant \<open>lamb_BYTE_ORDER\<close> is the parameter \<open>host\<close>, and
  \<open>std::string::max_size ()\<close> is the parameter \<open>max_size\<close>.
\<close>

section \<open>Integers in memory\<close>

definition sizeof :: "'a::len word itself \<Rightarrow> nat" where
  "sizeof T = LENGTH('a) div 8"

definition le_bytes :: "'a::len word \<Rightarrow> u8 list" where
  "le_bytes w = map (\<lambda>i. ucast (drop_bit (8 * i) w)) [0..<sizeof TYPE('a word)]"

fun le_word :: "u8 list \<Rightarrow> 'a::len word" where
  "le_word [] = 0"
| "le_word (b # bs) = ucast b OR push_bit 8 (le_word bs)"

text \<open>What \<open>memcpy\<close> sees of an integer, and the integer it leaves, on a host of either order.\<close>

definition mem_bytes :: "endian \<Rightarrow> 'a::len word \<Rightarrow> u8 list" where
  "mem_bytes host w = (case host of LITTLE_ENDIAN \<Rightarrow> le_bytes w | BIG_ENDIAN \<Rightarrow> rev (le_bytes w))"

definition mem_word :: "endian \<Rightarrow> u8 list \<Rightarrow> 'a::len word" where
  "mem_word host bs = (case host of LITTLE_ENDIAN \<Rightarrow> le_word bs | BIG_ENDIAN \<Rightarrow> le_word (rev bs))"

definition byteswap :: "'a::len word \<Rightarrow> 'a word" where
  "byteswap w = le_word (rev (le_bytes w))"

definition byteswapOnLittleEndian :: "endian \<Rightarrow> 'a::len word \<Rightarrow> 'a word" where
  "byteswapOnLittleEndian host t = (if host = BIG_ENDIAN then t else byteswap t)"

definition byteswapOnBigEndian :: "endian \<Rightarrow> 'a::len word \<Rightarrow> 'a word" where
  "byteswapOnBigEndian host t = (if host = BIG_ENDIAN then byteswap t else t)"

section \<open>Fixed-width integers\<close>

text \<open>The common body of \<open>writeFint16\<close> to \<open>writeFuint64\<close>, and of the macro \<open>XX\<close> of the readers.\<close>

definition writeF :: "endian \<Rightarrow> bytearray \<Rightarrow> 'a::len word \<Rightarrow> bytearray res" where
  "writeF host ba value =
     (let value = (if m_endian ba \<noteq> host then byteswap value else value) in
      ba_write ba (mem_bytes host value))"

definition readF :: "endian \<Rightarrow> bytearray \<Rightarrow> ('a::len word \<times> bytearray) res" where
  "readF host ba =
     bindR (ba_read ba (sizeof TYPE('a word))) (\<lambda>(bs, ba).
       let v = mem_word host bs in
       Inr (if m_endian ba = host then v else byteswap v, ba))"

definition writeFint8 :: "bytearray \<Rightarrow> u8 \<Rightarrow> bytearray res" where
  "writeFint8 ba value = ba_write ba [value]"

definition writeFuint8 :: "bytearray \<Rightarrow> u8 \<Rightarrow> bytearray res" where
  "writeFuint8 ba value = ba_write ba [value]"

definition writeFint16 :: "endian \<Rightarrow> bytearray \<Rightarrow> u16 \<Rightarrow> bytearray res" where
  "writeFint16 host ba value = writeF host ba value"

definition writeFuint16 :: "endian \<Rightarrow> bytearray \<Rightarrow> u16 \<Rightarrow> bytearray res" where
  "writeFuint16 host ba value = writeF host ba value"

definition writeFint32 :: "endian \<Rightarrow> bytearray \<Rightarrow> u32 \<Rightarrow> bytearray res" where
  "writeFint32 host ba value = writeF host ba value"

definition writeFuint32 :: "endian \<Rightarrow> bytearray \<Rightarrow> u32 \<Rightarrow> bytearray res" where
  "writeFuint32 host ba value = writeF host ba value"

definition writeFint64 :: "endian \<Rightarrow> bytearray \<Rightarrow> u64 \<Rightarrow> bytearray res" where
  "writeFint64 host ba value = writeF host ba value"

definition writeFuint64 :: "endian \<Rightarrow> bytearray \<Rightarrow> u64 \<Rightarrow> bytearray res" where
  "writeFuint64 host ba value = writeF host ba value"

definition readFint8 :: "bytearray \<Rightarrow> (u8 \<times> bytearray) res" where
  "readFint8 ba = bindR (ba_read ba 1) (\<lambda>(bs, ba). Inr (hd bs, ba))"

definition readFuint8 :: "bytearray \<Rightarrow> (u8 \<times> bytearray) res" where
  "readFuint8 ba = bindR (ba_read ba 1) (\<lambda>(bs, ba). Inr (hd bs, ba))"

definition readFint16 :: "endian \<Rightarrow> bytearray \<Rightarrow> (u16 \<times> bytearray) res" where
  "readFint16 host ba = readF host ba"

definition readFuint16 :: "endian \<Rightarrow> bytearray \<Rightarrow> (u16 \<times> bytearray) res" where
  "readFuint16 host ba = readF host ba"

definition readFint32 :: "endian \<Rightarrow> bytearray \<Rightarrow> (u32 \<times> bytearray) res" where
  "readFint32 host ba = readF host ba"

definition readFuint32 :: "endian \<Rightarrow> bytearray \<Rightarrow> (u32 \<times> bytearray) res" where
  "readFuint32 host ba = readF host ba"

definition readFint64 :: "endian \<Rightarrow> bytearray \<Rightarrow> (u64 \<times> bytearray) res" where
  "readFint64 host ba = readF host ba"

definition readFuint64 :: "endian \<Rightarrow> bytearray \<Rightarrow> (u64 \<times> bytearray) res" where
  "readFuint64 host ba = readF host ba"

section \<open>Zigzag\<close>

text \<open>
  The negation and the doubling are on \<open>int\<close>: they are undefined on \<open>INT_MIN\<close> and on values
  from \<open>2 ^ 30\<close> (\<open>2 ^ 62\<close>) on.
\<close>

definition EncodeZigzag32 :: "u32 \<Rightarrow> u32 res" where
  "EncodeZigzag32 v =
     (if sint v < 0
      then bindR (checkR (- sint v < 2 ^ 31) (Undefined ''signed overflow'')) (\<lambda>_.
             Inr ((- v) * 2 - 1))
      else bindR (checkR (sint v * 2 < 2 ^ 31) (Undefined ''signed overflow'')) (\<lambda>_.
             Inr (v * 2)))"

definition EncodeZigzag64 :: "u64 \<Rightarrow> u64 res" where
  "EncodeZigzag64 v =
     (if sint v < 0
      then bindR (checkR (- sint v < 2 ^ 63) (Undefined ''signed overflow'')) (\<lambda>_.
             Inr ((- v) * 2 - 1))
      else bindR (checkR (sint v * 2 < 2 ^ 63) (Undefined ''signed overflow'')) (\<lambda>_.
             Inr (v * 2)))"

definition DecodeZigzag32 :: "u32 \<Rightarrow> u32" where
  "DecodeZigzag32 v = (drop_bit 1 v) XOR (- (v AND 1))"

definition DecodeZigzag64 :: "u64 \<Rightarrow> u64" where
  "DecodeZigzag64 v = (drop_bit 1 v) XOR (- (v AND 1))"

section \<open>Base-128 integers\<close>

text \<open>\<open>varint_loop cap value tmp\<close>: the loop that fills \<open>uint8_t tmp[cap]\<close>.\<close>

function varint_loop :: "nat \<Rightarrow> 'a::len word \<Rightarrow> u8 list \<Rightarrow> u8 list res" where
  "varint_loop cap value tmp =
     (if \<not> length tmp < cap then Inl (Bad_access ''tmp'')
      else if 0x80 \<le> value
      then varint_loop cap (drop_bit 7 value) (tmp @ [ucast (value AND 0x7F) OR 0x80])
      else Inr (tmp @ [ucast value]))"
  by pat_completeness auto
termination
  by (relation "measure (\<lambda>(cap, value, tmp). cap - length tmp)") auto

declare varint_loop.simps [simp del]

definition writeUint32 :: "bytearray \<Rightarrow> u32 \<Rightarrow> bytearray res" where
  "writeUint32 ba value = bindR (varint_loop 5 value []) (ba_write ba)"

definition writeUint64 :: "bytearray \<Rightarrow> u64 \<Rightarrow> bytearray res" where
  "writeUint64 ba value = bindR (varint_loop 10 value []) (ba_write ba)"

definition writeInt32 :: "bytearray \<Rightarrow> u32 \<Rightarrow> bytearray res" where
  "writeInt32 ba value = bindR (EncodeZigzag32 value) (writeUint32 ba)"

definition writeInt64 :: "bytearray \<Rightarrow> u64 \<Rightarrow> bytearray res" where
  "writeInt64 ba value = bindR (EncodeZigzag64 value) (writeUint64 ba)"

text \<open>\<open>for (int i = 0; i < bits; i += 7)\<close>.\<close>

function readVarint_loop :: "nat \<Rightarrow> 'a::len word \<Rightarrow> bytearray \<Rightarrow> ('a word \<times> bytearray) res" where
  "readVarint_loop i result ba =
     (if i < LENGTH('a)
      then bindR (readFuint8 ba) (\<lambda>(b, ba).
        if b < 0x80 then Inr (result OR push_bit i (ucast b), ba)
        else readVarint_loop (i + 7) (result OR push_bit i (ucast (b AND 0x7F))) ba)
      else Inr (result, ba))"
  by pat_completeness auto
termination
  by (relation "measure (\<lambda>(i, result :: 'a word, ba). LENGTH('a) - i)") auto

declare readVarint_loop.simps [simp del]

definition readUint32 :: "bytearray \<Rightarrow> (u32 \<times> bytearray) res" where
  "readUint32 ba = readVarint_loop 0 0 ba"

definition readUint64 :: "bytearray \<Rightarrow> (u64 \<times> bytearray) res" where
  "readUint64 ba = readVarint_loop 0 0 ba"

definition readInt32 :: "bytearray \<Rightarrow> (u32 \<times> bytearray) res" where
  "readInt32 ba = bindR (readUint32 ba) (\<lambda>(v, ba). Inr (DecodeZigzag32 v, ba))"

definition readInt64 :: "bytearray \<Rightarrow> (u64 \<times> bytearray) res" where
  "readInt64 ba = bindR (readUint64 ba) (\<lambda>(v, ba). Inr (DecodeZigzag64 v, ba))"

section \<open>Floats, by bit pattern\<close>

definition writeFloat :: "endian \<Rightarrow> bytearray \<Rightarrow> u32 \<Rightarrow> bytearray res" where
  "writeFloat host ba v = writeFuint32 host ba v"

definition writeDouble :: "endian \<Rightarrow> bytearray \<Rightarrow> u64 \<Rightarrow> bytearray res" where
  "writeDouble host ba v = writeFuint64 host ba v"

definition readFloat :: "endian \<Rightarrow> bytearray \<Rightarrow> (u32 \<times> bytearray) res" where
  "readFloat host ba = readFuint32 host ba"

definition readDouble :: "endian \<Rightarrow> bytearray \<Rightarrow> (u64 \<times> bytearray) res" where
  "readDouble host ba = readFuint64 host ba"

section \<open>Strings\<close>

definition writeStringF16 :: "endian \<Rightarrow> bytearray \<Rightarrow> u8 list \<Rightarrow> bytearray res" where
  "writeStringF16 host ba value =
     bindR (writeFuint16 host ba (of_nat (length value))) (\<lambda>ba. ba_write ba value)"

definition writeStringF32 :: "endian \<Rightarrow> bytearray \<Rightarrow> u8 list \<Rightarrow> bytearray res" where
  "writeStringF32 host ba value =
     bindR (writeFuint32 host ba (of_nat (length value))) (\<lambda>ba. ba_write ba value)"

definition writeStringF64 :: "endian \<Rightarrow> bytearray \<Rightarrow> u8 list \<Rightarrow> bytearray res" where
  "writeStringF64 host ba value =
     bindR (writeFuint64 host ba (of_nat (length value))) (\<lambda>ba. ba_write ba value)"

definition writeStringVint :: "bytearray \<Rightarrow> u8 list \<Rightarrow> bytearray res" where
  "writeStringVint ba value =
     bindR (writeUint64 ba (of_nat (length value))) (\<lambda>ba. ba_write ba value)"

definition writeStringWithoutLength :: "bytearray \<Rightarrow> u8 list \<Rightarrow> bytearray res" where
  "writeStringWithoutLength ba value = ba_write ba value"

text \<open>\<open>buff.resize (len); read (&buff[0], len)\<close>.\<close>

definition readString :: "nat \<Rightarrow> 'a::len word \<Rightarrow> bytearray \<Rightarrow> (u8 list \<times> bytearray) res" where
  "readString max_size len ba =
     bindR (checkR (unat len \<le> max_size) (Length_error ''basic_string'')) (\<lambda>_.
       ba_read ba (unat len))"

definition readStringF16 :: "nat \<Rightarrow> endian \<Rightarrow> bytearray \<Rightarrow> (u8 list \<times> bytearray) res" where
  "readStringF16 max_size host ba =
     bindR (readFuint16 host ba) (\<lambda>(len, ba). readString max_size len ba)"

definition readStringF32 :: "nat \<Rightarrow> endian \<Rightarrow> bytearray \<Rightarrow> (u8 list \<times> bytearray) res" where
  "readStringF32 max_size host ba =
     bindR (readFuint32 host ba) (\<lambda>(len, ba). readString max_size len ba)"

definition readStringF64 :: "nat \<Rightarrow> endian \<Rightarrow> bytearray \<Rightarrow> (u8 list \<times> bytearray) res" where
  "readStringF64 max_size host ba =
     bindR (readFuint64 host ba) (\<lambda>(len, ba). readString max_size len ba)"

definition readStringVint :: "nat \<Rightarrow> bytearray \<Rightarrow> (u8 list \<times> bytearray) res" where
  "readStringVint max_size ba =
     bindR (readUint64 ba) (\<lambda>(len, ba). readString max_size len ba)"

section \<open>Bytes of words\<close>

lemma bit_le_word [word_bits]:
  "bit (le_word bs :: 'a::len word) k \<longleftrightarrow>
     k < LENGTH('a) \<and> k < 8 * length bs \<and> bit (bs ! (k div 8)) (k mod 8)"
proof (induction bs arbitrary: k)
  case Nil
  then show ?case by simp
next
  case (Cons b bs)
  show ?case
  proof (cases "k < 8")
    case True
    then show ?thesis
      by (auto simp: bit_simps Cons.IH bit_imp_le_length)
  next
    case False
    then have "k div 8 = Suc ((k - 8) div 8)" and "(k - 8) mod 8 = k mod 8"
      by (simp_all add: le_div_geq le_mod_geq)
    with False show ?thesis
      by (auto simp: bit_simps Cons.IH dest: bit_imp_le_length)
  qed
qed

lemma length_le_bytes [simp]: "length (le_bytes (w :: 'a::len word)) = sizeof TYPE('a word)"
  by (simp add: le_bytes_def)

lemma sizeof_simps [simp]:
  "sizeof TYPE(8 word) = 1" "sizeof TYPE(16 word) = 2"
  "sizeof TYPE(32 word) = 4" "sizeof TYPE(64 word) = 8"
  by (simp_all add: sizeof_def)

lemma le_word_le_bytes:
  assumes "8 dvd LENGTH('a)"
  shows "le_word (le_bytes w) = (w :: 'a::len word)"
proof (rule bit_word_eqI)
  fix k assume k: "k < LENGTH('a)"
  with assms have "k div 8 < sizeof TYPE('a word)"
    by (auto simp: sizeof_def elim!: dvdE)
  with k show "bit (le_word (le_bytes w) :: 'a word) k = bit w k"
    by (auto simp: bit_le_word le_bytes_def bit_simps)
qed

lemma le_bytes_le_word:
  assumes "length bs = sizeof TYPE('a::len word)"
  shows "le_bytes (le_word bs :: 'a word) = bs"
proof (rule nth_equalityI)
  fix i assume "i < length (le_bytes (le_word bs :: 'a word))"
  then have i: "i < sizeof TYPE('a word)" by simp
  then have "8 * i + 8 \<le> LENGTH('a)"
    by (simp add: sizeof_def)
  with i assms show "le_bytes (le_word bs :: 'a word) ! i = bs ! i"
    by (intro bit_word_eqI) (auto simp: le_bytes_def bit_simps bit_le_word)
qed (simp add: assms)

definition endian_bytes :: "endian \<Rightarrow> 'a::len word \<Rightarrow> u8 list" where
  "endian_bytes e w = (case e of LITTLE_ENDIAN \<Rightarrow> le_bytes w | BIG_ENDIAN \<Rightarrow> rev (le_bytes w))"

lemma length_endian_bytes [simp]:
  "length (endian_bytes e (w :: 'a::len word)) = sizeof TYPE('a word)"
  by (simp add: endian_bytes_def split: endian.split)

lemma le_bytes_byteswap [simp]: "le_bytes (byteswap w) = rev (le_bytes w)"
  by (simp add: byteswap_def le_bytes_le_word)

lemma mem_bytes_swapped:
  "mem_bytes host (if e \<noteq> host then byteswap w else w) = endian_bytes e w"
  by (cases host; cases e) (simp_all add: mem_bytes_def endian_bytes_def)

lemma byteswap_byteswap:
  assumes "8 dvd LENGTH('a)"
  shows "byteswap (byteswap w) = (w :: 'a::len word)"
  by (simp add: byteswap_def [of "byteswap w"] le_word_le_bytes [OF assms])

lemma mem_word_endian_bytes:
  assumes "8 dvd LENGTH('a)"
  shows "(if e = host then mem_word host (endian_bytes e w)
          else byteswap (mem_word host (endian_bytes e w))) = (w :: 'a::len word)"
  using le_word_le_bytes [OF assms] byteswap_byteswap [OF assms]
  by (cases host; cases e) (simp_all add: mem_word_def endian_bytes_def flip: byteswap_def)

section \<open>Readers and writers of fixed-width integers\<close>

lemma encodes_writeF: "bab.encodes e (\<lambda>ba. writeF host ba w) (endian_bytes e w)"
  using bab.encodes_put [of e "endian_bytes e w"]
  by (simp add: bab.encodes_def writeF_def Let_def mem_bytes_swapped)

lemma decodes_readF:
  assumes "8 dvd LENGTH('a)"
  shows "bab.decodes e (readF host) (endian_bytes e w) (w :: 'a::len word)"
proof -
  have pos: "0 < sizeof TYPE('a word)"
    using assms len_gt_0 [where 'a = 'a] by (auto simp: sizeof_def simp del: len_gt_0 elim!: dvdE)
  then have "endian_bytes e w \<noteq> []"
    by (metis length_endian_bytes length_greater_0_conv)
  from bab.decodes_get [OF this] have
    "bab.decodes e (\<lambda>ba. ba_read ba (sizeof TYPE('a word))) (endian_bytes e w) (endian_bytes e w)"
    by simp
  then show ?thesis
    using mem_word_endian_bytes [OF assms, of e host w]
    unfolding bab.decodes_def readF_def Let_def by fastforce
qed

lemma encodes_writeFuint8: "bab.encodes e (\<lambda>ba. writeFuint8 ba b) [b]"
  unfolding writeFuint8_def by (rule bab.encodes_put)

lemma decodes_readFuint8: "bab.decodes e readFuint8 [b] b"
proof -
  have "bab.decodes e (\<lambda>ba. ba_read ba 1) [b] [b]"
    using bab.decodes_get [of "[b]"] by simp
  from bab.decodes_map [OF this, of hd] show ?thesis
    by (simp add: bab.decodes_def readFuint8_def)
qed

lemmas fixed_defs =
  writeFint16_def writeFuint16_def writeFint32_def writeFuint32_def writeFint64_def writeFuint64_def
  readFint16_def readFuint16_def readFint32_def readFuint32_def readFint64_def readFuint64_def
  writeFloat_def writeDouble_def readFloat_def readDouble_def

section \<open>Zigzag\<close>

lemma zigzag_nonneg:
  fixes v :: "'a::len word"
  assumes "\<not> bit v (LENGTH('a) - 1)"
  shows "drop_bit 1 (v * 2) XOR (- ((v * 2) AND 1)) = v"
proof -
  have v2: "v * 2 = 2 * v" by simp
  have "drop_bit 1 (2 * v) = v"
  proof (rule bit_word_eqI)
    fix n assume "n < LENGTH('a)"
    with assms show "bit (drop_bit 1 (2 * v)) n = bit v n"
      by (cases "n = LENGTH('a) - 1")
         (auto simp: bit_drop_bit_eq bit_double_iff dest: bit_imp_le_length)
  qed
  moreover have "2 * v AND 1 = 0"
    by (rule bit_word_eqI) (auto simp: bit_and_iff bit_double_iff bit_1_iff)
  ultimately show ?thesis
    unfolding v2 by simp
qed

lemma zigzag_neg:
  fixes v :: "'a::len word"
  assumes "bit v (LENGTH('a) - 1)"
  shows "drop_bit 1 ((- v) * 2 - 1) XOR (- (((- v) * 2 - 1) AND 1)) = v"
proof -
  have "(- v) * 2 - 1 = 2 * NOT v + 1"
    by (simp add: not_eq_complement algebra_simps)
  also have "\<dots> = 2 * NOT v OR 1"
    by (rule disjunctive_add) (auto simp: bit_double_iff bit_1_iff)
  finally have enc: "(- v) * 2 - 1 = 2 * NOT v OR 1" .
  have low: "(2 * NOT v OR 1) AND 1 = 1"
    by (rule bit_word_eqI) (auto simp: bit_and_iff bit_or_iff bit_1_iff)
  have "drop_bit 1 (2 * NOT v OR 1) = NOT v"
  proof (rule bit_word_eqI)
    fix n assume "n < LENGTH('a)"
    with assms show "bit (drop_bit 1 (2 * NOT v OR 1)) n = bit (NOT v) n"
      by (cases "n = LENGTH('a) - 1")
         (auto simp: bit_drop_bit_eq bit_or_iff bit_double_iff bit_1_iff bit_not_iff
            dest: bit_imp_le_length)
  qed
  then show ?thesis
    unfolding enc low by simp
qed

lemma zigzag32:
  assumes "- (2 ^ 31) < sint v" and "sint v < 2 ^ 30"
  shows "\<exists>z. EncodeZigzag32 v = Inr z \<and> DecodeZigzag32 z = v"
  using assms zigzag_neg [of v] zigzag_nonneg [of v] bit_last_iff [of v]
  by (simp add: EncodeZigzag32_def DecodeZigzag32_def checkR_def)

lemma zigzag64:
  assumes "- (2 ^ 63) < sint v" and "sint v < 2 ^ 62"
  shows "\<exists>z. EncodeZigzag64 v = Inr z \<and> DecodeZigzag64 z = v"
  using assms zigzag_neg [of v] zigzag_nonneg [of v] bit_last_iff [of v]
  by (simp add: EncodeZigzag64_def DecodeZigzag64_def checkR_def)

section \<open>Base-128 integers\<close>

fun varint_bytes :: "nat \<Rightarrow> u8 list" where
  "varint_bytes n =
     (if n < 128 then [of_nat n] else of_nat (n mod 128 + 128) # varint_bytes (n div 128))"

declare varint_bytes.simps [simp del]

lemma length_varint_bytes: "n < 128 ^ Suc k \<Longrightarrow> length (varint_bytes n) \<le> Suc k"
proof (induction k arbitrary: n)
  case 0
  then show ?case by (simp add: varint_bytes.simps)
next
  case (Suc k)
  then have "n div 128 < 128 ^ Suc k"
    by (simp add: less_mult_imp_div_less)
  with Suc.IH show ?case by (subst varint_bytes.simps) simp
qed

lemma varint_bytes_not_Nil [simp]: "varint_bytes n \<noteq> []"
  by (simp add: varint_bytes.simps)

lemma and_7F: "v AND 0x7F = take_bit 7 (v :: 'a::len word)"
  by (simp add: take_bit_eq_mask mask_numeral)

lemma unat_drop_bit_7: "unat (drop_bit 7 v) = unat (v :: 'a::len word) div 128"
  by (simp only: unsigned_drop_bit_eq) (simp add: drop_bit_eq_div take_bit_nat_eq_self)

lemma varint_head: "ucast (v AND 0x7F) OR 0x80 = (of_nat (unat (v :: 'a::len word) mod 128 + 128) :: u8)"
proof -
  let ?w = "ucast (take_bit 7 v) :: u8"
  have "unat ?w = take_bit 7 (unat v)"
    by (simp add: unsigned_ucast_eq unsigned_take_bit_eq)
  then have "unat ?w = unat v mod 128"
    by (simp add: take_bit_eq_mod)
  then have w: "?w = of_nat (unat v mod 128)"
    by (metis of_nat_unat ucast_id)
  have "bit (0x80 :: u8) n \<longleftrightarrow> n = 7" for n
    using bit_exp_iff [of 7 n, where 'a = u8] by auto
  then have "?w + 0x80 = ?w OR 0x80"
    by (intro disjunctive_add) (auto simp: bit_simps)
  then show ?thesis
    by (simp add: and_7F w)
qed

lemma varint_loop_ok:
  fixes v :: "'a::len word"
  assumes "7 < LENGTH('a)" and "length tmp + length (varint_bytes (unat v)) \<le> cap"
  shows "varint_loop cap v tmp = Inr (tmp @ varint_bytes (unat v))"
  using assms
proof (induction "unat v" arbitrary: v tmp rule: less_induct)
  case less
  have "unat (0x80 :: 'a word) = 128"
    using power_strict_increasing [OF less.prems(1), of "2 :: nat"]
    by (simp add: unat_numeral take_bit_nat_eq_self_iff)
  then have ge: "0x80 \<le> v \<longleftrightarrow> 128 \<le> unat v"
    by (simp add: word_le_nat_alt)
  have short: "length tmp < cap"
    using less.prems(2) varint_bytes_not_Nil [of "unat v"] by (cases "varint_bytes (unat v)") auto
  note div = unat_drop_bit_7 [of v]
  show ?case
  proof (cases "128 \<le> unat v")
    case True
    then have "varint_bytes (unat v)
        = (ucast (v AND 0x7F) OR 0x80) # varint_bytes (unat (drop_bit 7 v))"
      using varint_head [of v] by (subst varint_bytes.simps) (simp add: div)
    with True ge short less.prems less.hyps [of "drop_bit 7 v" "tmp @ [ucast (v AND 0x7F) OR 0x80]"]
    show ?thesis
      by (subst varint_loop.simps) (simp add: div)
  next
    case False
    with ge short show ?thesis
      by (subst varint_loop.simps, subst varint_bytes.simps) simp
  qed
qed

lemma varint_join:
  fixes r v :: "'a::len word"
  shows "(r OR push_bit i (take_bit 7 v)) OR push_bit (i + 7) (drop_bit 7 v) = r OR push_bit i v"
proof (rule bit_word_eqI)
  fix n assume "n < LENGTH('a)"
  then show "bit ((r OR push_bit i (take_bit 7 v)) OR push_bit (i + 7) (drop_bit 7 v)) n
      = bit (r OR push_bit i v) n"
    by (cases "n < i + 7") (auto simp: bit_simps)
qed

lemma varint_room:
  fixes v :: "'a::len word"
  assumes "unat v < 2 ^ (LENGTH('a) - i)" and "\<not> unat v < 128"
  shows "i + 7 < LENGTH('a)" and "unat v div 128 < 2 ^ (LENGTH('a) - (i + 7))"
proof -
  have "(2 :: nat) ^ 7 < 2 ^ (LENGTH('a) - i)"
    using assms by simp
  then show "i + 7 < LENGTH('a)"
    by (subst (asm) power_strict_increasing_iff) simp_all
  then have "LENGTH('a) - i = LENGTH('a) - (i + 7) + 7" by simp
  then have "(2 :: nat) ^ (LENGTH('a) - i) = 2 ^ (LENGTH('a) - (i + 7)) * 128"
    by (simp only: power_add) simp
  with assms(1) show "unat v div 128 < 2 ^ (LENGTH('a) - (i + 7))"
    by (simp add: less_mult_imp_div_less)
qed

lemma decodes_readVarint_loop:
  fixes v r :: "'a::len word"
  assumes "8 \<le> LENGTH('a)" and "i < LENGTH('a)" and "unat v < 2 ^ (LENGTH('a) - i)"
  shows "bab.decodes e (readVarint_loop i r) (varint_bytes (unat v)) (r OR push_bit i v)"
  using assms
proof (induction "unat v" arbitrary: v r i rule: less_induct)
  case less
  note div = unat_drop_bit_7 [of v]
  let ?k = "\<lambda>b ba. if b < 0x80 then Inr (r OR push_bit i (ucast b), ba)
      else readVarint_loop (i + 7) (r OR push_bit i (ucast (b AND 0x7F))) ba"
  have step: "readVarint_loop i r = (\<lambda>ba. bindR (readFuint8 ba) (\<lambda>(b, ba). ?k b ba))"
    using less.prems(2) by (intro ext) (subst readVarint_loop.simps, simp)
  show ?case
  proof (cases "unat v < 128")
    case True
    let ?b = "of_nat (unat v) :: u8"
    have "unat (ucast v :: u8) = unat v"
      using True by (simp add: unsigned_ucast_eq take_bit_nat_eq_self)
    moreover have "take_bit 8 v = v"
      using True by (intro unsigned_word_eqI [where 'a = nat])
        (simp add: unsigned_take_bit_eq take_bit_nat_eq_self)
    moreover have "ucast (ucast v :: u8) = take_bit 8 v"
      by (rule bit_word_eqI) (auto simp: bit_simps)
    ultimately have "?b < 0x80" and "ucast ?b = v"
      using True by (simp_all add: word_less_nat_alt)
    then have "bab.decodes e (?k ?b) [] (r OR push_bit i v)"
      using bab.decodes_return by simp
    from bab.decodes_then [where k = ?k, OF decodes_readFuint8 this] True show ?thesis
      unfolding step by (simp add: varint_bytes.simps [of "unat v"])
  next
    case False
    let ?b = "of_nat (unat v mod 128 + 128) :: u8"
    have head: "?b = ucast (take_bit 7 v) OR 0x80"
      using varint_head [of v] by (simp add: and_7F)
    have "unat ?b = unat v mod 128 + 128"
      by (simp only: unat_of_nat take_bit_eq_mod) simp
    then have b: "\<not> ?b < 0x80"
      by (simp only: word_less_nat_alt) simp
    have b7: "ucast (?b AND 0x7F) = take_bit 7 v"
      unfolding head and_7F using less.prems(1)
      by (intro bit_word_eqI) (auto simp: bit_simps)
    have "bab.decodes e (readVarint_loop (i + 7) (r OR push_bit i (take_bit 7 v)))
        (varint_bytes (unat (drop_bit 7 v)))
        ((r OR push_bit i (take_bit 7 v)) OR push_bit (i + 7) (drop_bit 7 v))"
      using False less.prems varint_room [of v i]
      by (intro less.hyps) (simp_all add: div)
    with b b7 have "bab.decodes e (?k ?b) (varint_bytes (unat v div 128)) (r OR push_bit i v)"
      unfolding varint_join div by simp
    from bab.decodes_then [where k = ?k, OF decodes_readFuint8 this] False show ?thesis
      unfolding step by (simp add: varint_bytes.simps [of "unat v"])
  qed
qed

lemma encodes_writeUint32: "bab.encodes e (\<lambda>ba. writeUint32 ba v) (varint_bytes (unat v))"
proof -
  have "length (varint_bytes (unat v)) \<le> Suc 4"
    using unsigned_less [of v, where 'a = nat] by (intro length_varint_bytes) simp
  then show ?thesis
    using bab.encodes_put by (simp add: writeUint32_def varint_loop_ok)
qed

lemma encodes_writeUint64: "bab.encodes e (\<lambda>ba. writeUint64 ba v) (varint_bytes (unat v))"
proof -
  have "length (varint_bytes (unat v)) \<le> Suc 9"
    using unsigned_less [of v, where 'a = nat] by (intro length_varint_bytes) simp
  then show ?thesis
    using bab.encodes_put by (simp add: writeUint64_def varint_loop_ok)
qed

lemma decodes_readUint32: "bab.decodes e readUint32 (varint_bytes (unat v)) v"
  using decodes_readVarint_loop [of 0 v e 0] unsigned_less [of v, where 'a = nat]
  by (simp add: bab.decodes_def readUint32_def)

lemma decodes_readUint64: "bab.decodes e readUint64 (varint_bytes (unat v)) v"
  using decodes_readVarint_loop [of 0 v e 0] unsigned_less [of v, where 'a = nat]
  by (simp add: bab.decodes_def readUint64_def)

section \<open>Strings\<close>

lemma decodes_readString:
  assumes "value \<noteq> []" and "unat len = length value" and "length value \<le> max_size"
  shows "bab.decodes e (readString max_size len) value value"
  using bab.decodes_get [OF assms(1)] assms(2,3) by (simp add: bab.decodes_def readString_def)

lemma string_roundtrip:
  assumes enc: "\<And>len. bab.encodes e (\<lambda>ba. wr ba len) (bytes len)"
    and dec: "\<And>len. bab.decodes e rd (bytes len) len"
    and len: "unat len = length value" and "value \<noteq> []" and "length value \<le> max_size"
    and "ba_inv ba" and "m_endian ba = e"
  shows "\<exists>ba1 ba2 ba3. bindR (wr ba len) (\<lambda>ba. ba_write ba value) = Inr ba1 \<and>
           setPosition ba1 (m_position ba) = Inr ba2 \<and>
           bindR (rd ba2) (\<lambda>(len, ba). readString max_size len ba) = Inr (value, ba3) \<and>
           ba_inv ba3 \<and> ba_content ba3 = ba_content ba1 \<and> m_position ba3 = m_position ba1"
  by (rule bab.write_seek_read [OF bab.encodes_then [OF enc bab.encodes_put]
        bab.decodes_then [OF dec decodes_readString]]) (use assms in auto)

section \<open>Properties\<close>

text \<open>C9: on a host of either byte order, every fixed-width integer written is stored in the
  buffer's byte order (big endian unless \<open>setIsLittleEndian\<close>) and read back unchanged, for
  the 16, 32 and 64 bit integers, signed and unsigned, and the bit patterns of \<open>float\<close> and
  \<open>double\<close>; the reader ends where the writer ended.\<close>

theorem fixed_width_roundtrip:
  fixes w :: "'a::len word"
  assumes "8 dvd LENGTH('a)" and "ba_inv ba"
  shows "\<exists>ba1 ba2 ba3. writeF host ba w = Inr ba1 \<and>
           ba_content ba1 = blit (m_position ba) (endian_bytes (m_endian ba) w) (ba_content ba) \<and>
           setPosition ba1 (m_position ba) = Inr ba2 \<and> readF host ba2 = Inr (w, ba3) \<and>
           ba_inv ba3 \<and> ba_content ba3 = ba_content ba1 \<and> m_position ba3 = m_position ba1"
  using bab.write_seek_read [OF encodes_writeF decodes_readF [OF assms(1)] assms(2) refl, of host w host]
    bab.encodesD [OF encodes_writeF assms(2) refl, of host w]
  by (metis Inr_inject)

theorem fixed_width_roundtrip_witness:
  "\<exists>ba1 ba2 ba3. writeF LITTLE_ENDIAN (newByteArray (\<lambda>_. 0) 3) (0xA1B2C3D4 :: u32) = Inr ba1 \<and>
     ba_content ba1 = blit (m_position (newByteArray (\<lambda>_. 0) 3))
       (endian_bytes (m_endian (newByteArray (\<lambda>_. 0) 3)) (0xA1B2C3D4 :: u32))
       (ba_content (newByteArray (\<lambda>_. 0) 3)) \<and>
     setPosition ba1 (m_position (newByteArray (\<lambda>_. 0) 3)) = Inr ba2 \<and>
     readF LITTLE_ENDIAN ba2 = Inr (0xA1B2C3D4 :: u32, ba3) \<and>
     ba_inv ba3 \<and> ba_content ba3 = ba_content ba1 \<and> m_position ba3 = m_position ba1"
  by (rule fixed_width_roundtrip) (simp_all add: ba_inv_new)

text \<open>C8: every \<open>uint32_t\<close> written by \<open>writeUint32\<close> fits the five bytes of its scratch array (no
  access beyond it) and is read back unchanged by \<open>readUint32\<close>, and likewise every
  \<open>uint64_t\<close> with ten bytes.\<close>

theorem varint_roundtrip:
  assumes "ba_inv ba"
  shows "(\<exists>ba1 ba2 ba3. writeUint32 ba v = Inr ba1 \<and> m_position ba1 \<le> m_position ba + 5 \<and>
            setPosition ba1 (m_position ba) = Inr ba2 \<and> readUint32 ba2 = Inr (v, ba3) \<and>
            m_position ba3 = m_position ba1) \<and>
         (\<exists>ba1 ba2 ba3. writeUint64 ba w = Inr ba1 \<and> m_position ba1 \<le> m_position ba + 10 \<and>
            setPosition ba1 (m_position ba) = Inr ba2 \<and> readUint64 ba2 = Inr (w, ba3) \<and>
            m_position ba3 = m_position ba1)"
proof
  have "length (varint_bytes (unat v)) \<le> Suc 4"
    using unsigned_less [of v, where 'a = nat] by (intro length_varint_bytes) simp
  then show "\<exists>ba1 ba2 ba3. writeUint32 ba v = Inr ba1 \<and> m_position ba1 \<le> m_position ba + 5 \<and>
      setPosition ba1 (m_position ba) = Inr ba2 \<and> readUint32 ba2 = Inr (v, ba3) \<and>
      m_position ba3 = m_position ba1"
    using bab.write_seek_read [OF encodes_writeUint32 decodes_readUint32 assms refl, of v]
      bab.encodesD [OF encodes_writeUint32 assms refl, of v] by fastforce
next
  have "length (varint_bytes (unat w)) \<le> Suc 9"
    using unsigned_less [of w, where 'a = nat] by (intro length_varint_bytes) simp
  then show "\<exists>ba1 ba2 ba3. writeUint64 ba w = Inr ba1 \<and> m_position ba1 \<le> m_position ba + 10 \<and>
      setPosition ba1 (m_position ba) = Inr ba2 \<and> readUint64 ba2 = Inr (w, ba3) \<and>
      m_position ba3 = m_position ba1"
    using bab.write_seek_read [OF encodes_writeUint64 decodes_readUint64 assms refl, of w]
      bab.encodesD [OF encodes_writeUint64 assms refl, of w] by fastforce
qed

theorem varint_roundtrip_witness:
  "(\<exists>ba1 ba2 ba3. writeUint32 sample_ba 300 = Inr ba1 \<and> m_position ba1 \<le> m_position sample_ba + 5 \<and>
      setPosition ba1 (m_position sample_ba) = Inr ba2 \<and> readUint32 ba2 = Inr (300, ba3) \<and>
      m_position ba3 = m_position ba1) \<and>
   (\<exists>ba1 ba2 ba3. writeUint64 sample_ba (2 ^ 63) = Inr ba1 \<and>
      m_position ba1 \<le> m_position sample_ba + 10 \<and>
      setPosition ba1 (m_position sample_ba) = Inr ba2 \<and> readUint64 ba2 = Inr (2 ^ 63, ba3) \<and>
      m_position ba3 = m_position ba1)"
  by (rule varint_roundtrip) (rule ba_inv_sample)

text \<open>C10: Signed integers written by \<open>writeInt32\<close> and \<open>writeInt64\<close> (zigzag, then base 128) are read
  back unchanged, for every value on which the encoder has no signed overflow
  (\<open>- 2 ^ 31 < v < 2 ^ 30\<close>, \<open>- 2 ^ 63 < w < 2 ^ 62\<close>).\<close>

theorem zigzag_varint_roundtrip:
  assumes "ba_inv ba" and "- (2 ^ 31) < sint v" and "sint v < 2 ^ 30"
    and "- (2 ^ 63) < sint w" and "sint w < 2 ^ 62"
  shows "(\<exists>ba1 ba2 ba3. writeInt32 ba v = Inr ba1 \<and> setPosition ba1 (m_position ba) = Inr ba2 \<and>
            readInt32 ba2 = Inr (v, ba3) \<and> m_position ba3 = m_position ba1) \<and>
         (\<exists>ba1 ba2 ba3. writeInt64 ba w = Inr ba1 \<and> setPosition ba1 (m_position ba) = Inr ba2 \<and>
            readInt64 ba2 = Inr (w, ba3) \<and> m_position ba3 = m_position ba1)"
proof
  from zigzag32 [OF assms(2,3)] obtain z where z: "EncodeZigzag32 v = Inr z" "DecodeZigzag32 z = v"
    by blast
  show "\<exists>ba1 ba2 ba3. writeInt32 ba v = Inr ba1 \<and> setPosition ba1 (m_position ba) = Inr ba2 \<and>
      readInt32 ba2 = Inr (v, ba3) \<and> m_position ba3 = m_position ba1"
    using bab.write_seek_read [OF encodes_writeUint32 decodes_readUint32 assms(1) refl, of z]
    by (auto simp: writeInt32_def readInt32_def z)
next
  from zigzag64 [OF assms(4,5)] obtain z where z: "EncodeZigzag64 w = Inr z" "DecodeZigzag64 z = w"
    by blast
  show "\<exists>ba1 ba2 ba3. writeInt64 ba w = Inr ba1 \<and> setPosition ba1 (m_position ba) = Inr ba2 \<and>
      readInt64 ba2 = Inr (w, ba3) \<and> m_position ba3 = m_position ba1"
    using bab.write_seek_read [OF encodes_writeUint64 decodes_readUint64 assms(1) refl, of z]
    by (auto simp: writeInt64_def readInt64_def z)
qed

theorem zigzag_varint_roundtrip_witness:
  "(\<exists>ba1 ba2 ba3. writeInt32 sample_ba (- 300) = Inr ba1 \<and>
      setPosition ba1 (m_position sample_ba) = Inr ba2 \<and>
      readInt32 ba2 = Inr (- 300, ba3) \<and> m_position ba3 = m_position ba1) \<and>
   (\<exists>ba1 ba2 ba3. writeInt64 sample_ba 70000 = Inr ba1 \<and>
      setPosition ba1 (m_position sample_ba) = Inr ba2 \<and>
      readInt64 ba2 = Inr (70000, ba3) \<and> m_position ba3 = m_position ba1)"
  by (rule zigzag_varint_roundtrip) (simp_all add: ba_inv_sample)

text \<open>A non-empty string of at most \<open>max_size\<close> bytes written by \<open>writeStringF16\<close> (if shorter than
  \<open>2 ^ 16\<close>), \<open>writeStringF32\<close> (\<open>2 ^ 32\<close>), \<open>writeStringF64\<close> or \<open>writeStringVint\<close> (\<open>2 ^ 64\<close>) is
  read back unchanged by the matching reader, which ends where the writer ended.\<close>

theorem string_roundtrips:
  assumes "ba_inv ba" and "value \<noteq> []" and "length value \<le> max_size" and "length value < 2 ^ 64"
    and "wr = (\<lambda>ba. writeStringF16 host ba value) \<and> rd = readStringF16 max_size host \<and>
           length value < 2 ^ 16 \<or>
         wr = (\<lambda>ba. writeStringF32 host ba value) \<and> rd = readStringF32 max_size host \<and>
           length value < 2 ^ 32 \<or>
         wr = (\<lambda>ba. writeStringF64 host ba value) \<and> rd = readStringF64 max_size host \<or>
         wr = (\<lambda>ba. writeStringVint ba value) \<and> rd = readStringVint max_size"
  shows "\<exists>ba1 ba2 ba3. wr ba = Inr ba1 \<and> setPosition ba1 (m_position ba) = Inr ba2 \<and>
           rd ba2 = Inr (value, ba3) \<and> ba_inv ba3 \<and> ba_content ba3 = ba_content ba1 \<and>
           m_position ba3 = m_position ba1"
  using assms(5)
proof (elim disjE conjE)
  assume "wr = (\<lambda>ba. writeStringF16 host ba value)" "rd = readStringF16 max_size host"
    "length value < 2 ^ 16"
  then show ?thesis
    using string_roundtrip [where wr = "writeF host" and rd = "readF host" and len = "of_nat (length value) :: u16",
        OF encodes_writeF decodes_readF _ assms(2,3,1) refl]
    by (simp add: writeStringF16_def readStringF16_def fixed_defs unat_of_nat take_bit_nat_eq_self)
next
  assume "wr = (\<lambda>ba. writeStringF32 host ba value)" "rd = readStringF32 max_size host"
    "length value < 2 ^ 32"
  then show ?thesis
    using string_roundtrip [where wr = "writeF host" and rd = "readF host" and len = "of_nat (length value) :: u32",
        OF encodes_writeF decodes_readF _ assms(2,3,1) refl]
    by (simp add: writeStringF32_def readStringF32_def fixed_defs unat_of_nat take_bit_nat_eq_self)
next
  assume "wr = (\<lambda>ba. writeStringF64 host ba value)" "rd = readStringF64 max_size host"
  then show ?thesis
    using assms(4) string_roundtrip [where wr = "writeF host" and rd = "readF host" and len = "of_nat (length value) :: u64",
        OF encodes_writeF decodes_readF _ assms(2,3,1) refl]
    by (simp add: writeStringF64_def readStringF64_def fixed_defs unat_of_nat take_bit_nat_eq_self)
next
  assume "wr = (\<lambda>ba. writeStringVint ba value)" "rd = readStringVint max_size"
  then show ?thesis
    using assms(4) string_roundtrip [where len = "of_nat (length value)",
        OF encodes_writeUint64 decodes_readUint64 _ assms(2,3,1) refl]
    by (simp add: writeStringVint_def readStringVint_def unat_of_nat take_bit_nat_eq_self)
qed

theorem string_roundtrips_witness:
  "\<exists>ba1 ba2 ba3. writeStringF16 LITTLE_ENDIAN sample_ba [104, 105] = Inr ba1 \<and>
     setPosition ba1 (m_position sample_ba) = Inr ba2 \<and>
     readStringF16 1000 LITTLE_ENDIAN ba2 = Inr ([104, 105], ba3) \<and> ba_inv ba3 \<and>
     ba_content ba3 = ba_content ba1 \<and> m_position ba3 = m_position ba1"
  using string_roundtrips [of sample_ba "[104, 105]" 1000
      "\<lambda>ba. writeStringF16 LITTLE_ENDIAN ba [104, 105]" LITTLE_ENDIAN "readStringF16 1000 LITTLE_ENDIAN"]
  by (simp add: ba_inv_sample)

end
