(* ===== verification/Lamb_Fiber.thy ===== *)
theory Lamb_Fiber
  imports Lamb_Prelude
begin

text \<open>
  \<open>lamb/fiber.cc\<close>: the fibers of one thread. Fibers live in a table by address; the
  thread-local variables \<open>t_fiber\<close>, \<open>t_thread_fiber\<close> and (of \<open>scheduler.cc\<close>)
  \<open>t_scheduler_fiber\<close> are fields of the state. \<open>swapcontext\<close> is the change of \<open>on_cpu\<close>, the
  fiber whose context executes; its first argument is the context saved into, and saving into
  a context other than that of the fiber on the processor is an error of the model, as is
  switching through a null fiber. Failed \<open>LAMB_ASSERT\<close>s are error values.
\<close>

section \<open>Data\<close>

datatype fstate = READY | RUNNING | FTERM

record 'cb fiber =
  fb_id :: nat
  fb_stacksize :: nat
  fb_state :: fstate
  fb_stack :: bool
  fb_cb :: "'cb option"
  fb_runInScheduler :: bool

record 'cb fthread =
  fibers :: "nat \<Rightarrow> 'cb fiber option"
  t_fiber :: "nat option"
  t_thread_fiber :: "nat option"
  t_scheduler_fiber :: "nat option"
  s_fiber_id :: nat
  s_fiber_count :: nat
  on_cpu :: "nat option"

section \<open>Operations\<close>

definition get_fiber :: "'cb fthread \<Rightarrow> nat option \<Rightarrow> 'cb fiber res" where
  "get_fiber w p = (case p of None \<Rightarrow> Inl Null_deref
     | Some a \<Rightarrow> (case fibers w a of None \<Rightarrow> Inl (Bad_access ''fiber'') | Some f \<Rightarrow> Inr f))"

definition SetThis :: "'cb fthread \<Rightarrow> nat option \<Rightarrow> 'cb fthread" where
  "SetThis w f = w\<lparr>t_fiber := f\<rparr>"

definition GetFiberId :: "'cb fthread \<Rightarrow> nat res" where
  "GetFiberId w = (case t_fiber w of None \<Rightarrow> Inr 0
     | Some a \<Rightarrow> bindR (get_fiber w (Some a)) (\<lambda>f. Inr (fb_id f)))"

text \<open>The private constructor: the main fiber of the thread, on the context that runs.\<close>

definition newMainFiber :: "'cb fthread \<Rightarrow> nat \<Rightarrow> 'cb fthread" where
  "newMainFiber w a =
     (SetThis w (Some a))\<lparr>fibers := (fibers w)(a \<mapsto>
         \<lparr>fb_id = s_fiber_id w, fb_stacksize = 0, fb_state = RUNNING, fb_stack = False,
          fb_cb = None, fb_runInScheduler = False\<rparr>),
       s_fiber_count := s_fiber_count w + 1, s_fiber_id := s_fiber_id w + 1, on_cpu := Some a\<rparr>"

definition GetThis :: "'cb fthread \<Rightarrow> nat \<Rightarrow> (nat \<times> 'cb fthread) res" where
  "GetThis w a =
     (case t_fiber w of
        Some f \<Rightarrow> bindR (get_fiber w (Some f)) (\<lambda>_. Inr (f, w))
      | None \<Rightarrow>
          let w = newMainFiber w a in
          bindR (checkR (t_fiber w = Some a) (Assertion ''t_fiber == main_fiber.get()'')) (\<lambda>_.
            Inr (a, w\<lparr>t_thread_fiber := Some a\<rparr>)))"

text \<open>\<open>dflt\<close> is the configured stack size \<open>g_fiber_stack_size\<close>.\<close>

definition newFiber :: "nat \<Rightarrow> 'cb fthread \<Rightarrow> nat \<Rightarrow> 'cb option \<Rightarrow> nat \<Rightarrow> bool \<Rightarrow> 'cb fthread" where
  "newFiber dflt w a cb stacksize run_in_scheduler =
     w\<lparr>fibers := (fibers w)(a \<mapsto>
         \<lparr>fb_id = s_fiber_id w, fb_stacksize = (if stacksize \<noteq> 0 then stacksize else dflt),
          fb_state = READY, fb_stack = True, fb_cb = cb, fb_runInScheduler = run_in_scheduler\<rparr>),
       s_fiber_id := s_fiber_id w + 1, s_fiber_count := s_fiber_count w + 1\<rparr>"

definition set_state :: "'cb fthread \<Rightarrow> nat \<Rightarrow> fstate \<Rightarrow> 'cb fthread" where
  "set_state w a st = w\<lparr>fibers := (fibers w)(a := map_option (\<lambda>f. f\<lparr>fb_state := st\<rparr>) (fibers w a))\<rparr>"

definition fiber_delete :: "'cb fthread \<Rightarrow> nat \<Rightarrow> 'cb fthread res" where
  "fiber_delete w a =
     bindR (get_fiber w (Some a)) (\<lambda>f.
     let w = w\<lparr>s_fiber_count := s_fiber_count w - 1\<rparr> in
     bindR (if fb_stack f then checkR (fb_state f = FTERM) (Assertion ''m_state == TERM'')
            else bindR (checkR (fb_cb f = None) (Assertion ''!m_cb'')) (\<lambda>_.
                   checkR (fb_state f = RUNNING) (Assertion ''m_state == RUNNING''))) (\<lambda>_.
     let w = (if t_fiber w = Some a then SetThis w None else w) in
     Inr (w\<lparr>fibers := (fibers w)(a := None)\<rparr>)))"

text \<open>\<open>swapcontext (&from->m_ctx, &to->m_ctx)\<close>.\<close>

definition swapcontext :: "'cb fthread \<Rightarrow> nat option \<Rightarrow> nat option \<Rightarrow> 'cb fthread res" where
  "swapcontext w src dst =
     bindR (get_fiber w src) (\<lambda>_. bindR (get_fiber w dst) (\<lambda>_.
       if on_cpu w = src then Inr (w\<lparr>on_cpu := dst\<rparr>) else Inl (Undefined ''saved context lost'')))"

definition fiber_resume :: "'cb fthread \<Rightarrow> nat \<Rightarrow> 'cb fthread res" where
  "fiber_resume w a =
     bindR (get_fiber w (Some a)) (\<lambda>f.
     bindR (checkR (fb_state f \<noteq> FTERM \<and> fb_state f \<noteq> RUNNING)
              (Assertion ''m_state != TERM && m_state != RUNNING'')) (\<lambda>_.
     let w = set_state (SetThis w (Some a)) a RUNNING in
     if fb_runInScheduler f then swapcontext w (t_scheduler_fiber w) (Some a)
     else swapcontext w (t_thread_fiber w) (Some a)))"

definition fiber_yield :: "'cb fthread \<Rightarrow> nat \<Rightarrow> 'cb fthread res" where
  "fiber_yield w a =
     bindR (get_fiber w (Some a)) (\<lambda>f.
     bindR (checkR (fb_state f = RUNNING \<or> fb_state f = FTERM)
              (Assertion ''m_state == RUNNING || m_state == TERM'')) (\<lambda>_.
     let w = SetThis w (t_thread_fiber w);
         w = (if fb_state f \<noteq> FTERM then set_state w a READY else w) in
     if fb_runInScheduler f then swapcontext w (Some a) (t_scheduler_fiber w)
     else swapcontext w (Some a) (t_thread_fiber w)))"

text \<open>
  \<open>MainFunc\<close> in two parts, around the call of \<open>m_cb\<close> (which may itself resume and yield): the
  entry finds the callback of the current fiber, the exit marks the fiber finished and yields.
\<close>

definition MainFunc_enter :: "'cb fthread \<Rightarrow> ('cb \<times> nat) res" where
  "MainFunc_enter w =
     bindR (GetThis w 0) (\<lambda>(cur, w).
     bindR (get_fiber w (Some cur)) (\<lambda>f.
       case fb_cb f of None \<Rightarrow> Inl (Bad_access ''bad_function_call'') | Some cb \<Rightarrow> Inr (cb, cur)))"

definition MainFunc_exit :: "'cb fthread \<Rightarrow> nat \<Rightarrow> 'cb fthread res" where
  "MainFunc_exit w cur =
     bindR (get_fiber w (Some cur)) (\<lambda>f.
       fiber_yield (w\<lparr>fibers := (fibers w)(cur \<mapsto> f\<lparr>fb_cb := None, fb_state := FTERM\<rparr>)\<rparr>) cur)"

definition fiber_reset :: "'cb fthread \<Rightarrow> nat \<Rightarrow> 'cb option \<Rightarrow> 'cb fthread res" where
  "fiber_reset w a cb =
     bindR (get_fiber w (Some a)) (\<lambda>f.
     bindR (checkR (fb_stack f) (Assertion ''m_stack'')) (\<lambda>_.
     bindR (checkR (fb_state f = FTERM) (Assertion ''m_state == TERM'')) (\<lambda>_.
       Inr (w\<lparr>fibers := (fibers w)(a \<mapsto> f\<lparr>fb_cb := cb, fb_state := READY\<rparr>)\<rparr>))))"

section \<open>The fibers of a scheduling thread\<close>

text \<open>
  The two situations of \<open>Scheduler::run\<close>: on a worker thread the scheduling fiber is the
  thread's main fiber; on the caller's thread it is \<open>m_rootFiber\<close>, resumed from the main fiber.
  In both, the scheduling fiber is on the processor when it resumes a task.
\<close>

definition fstate_of :: "'cb fthread \<Rightarrow> nat \<Rightarrow> fstate option" where
  "fstate_of w a = map_option fb_state (fibers w a)"

definition sched_ready :: "'cb fthread \<Rightarrow> bool" where
  "sched_ready w \<longleftrightarrow>
     (\<exists>s m. t_scheduler_fiber w = Some s \<and> t_thread_fiber w = Some m \<and> on_cpu w = Some s \<and>
       fstate_of w s = Some RUNNING \<and> fibers w m \<noteq> None)"

lemma get_fiber_Some [simp]:
  "get_fiber w (Some a) = (case fibers w a of None \<Rightarrow> Inl (Bad_access ''fiber'') | Some f \<Rightarrow> Inr f)"
  by (simp add: get_fiber_def)

lemma fiber_resume_ok:
  assumes "sched_ready w" and "fibers w a = Some f" and "fb_state f = READY" and "fb_runInScheduler f"
  shows "\<exists>w'. fiber_resume w a = Inr w' \<and> on_cpu w' = Some a \<and> t_fiber w' = Some a \<and>
           fibers w' = (fibers w)(a \<mapsto> f\<lparr>fb_state := RUNNING\<rparr>) \<and>
           t_scheduler_fiber w' = t_scheduler_fiber w \<and> t_thread_fiber w' = t_thread_fiber w \<and>
           s_fiber_id w' = s_fiber_id w \<and> s_fiber_count w' = s_fiber_count w"
  using assms
  by (auto simp: sched_ready_def fstate_of_def fiber_resume_def swapcontext_def set_state_def
      SetThis_def Let_def checkR_def fun_upd_def)

lemma fiber_yield_ok:
  assumes "on_cpu w = Some a" and "fibers w a = Some f" and "fb_state f = RUNNING \<or> fb_state f = FTERM"
    and "fb_runInScheduler f" and "t_scheduler_fiber w = Some s" and "fibers w s \<noteq> None"
  shows "\<exists>w'. fiber_yield w a = Inr w' \<and> on_cpu w' = Some s \<and> t_fiber w' = t_thread_fiber w \<and>
           fibers w' = (fibers w)(a \<mapsto> f\<lparr>fb_state := (if fb_state f = FTERM then FTERM else READY)\<rparr>) \<and>
           t_scheduler_fiber w' = t_scheduler_fiber w \<and> t_thread_fiber w' = t_thread_fiber w \<and>
           s_fiber_id w' = s_fiber_id w \<and> s_fiber_count w' = s_fiber_count w"
  using assms
  by (auto simp: fiber_yield_def swapcontext_def set_state_def SetThis_def Let_def checkR_def
      fun_upd_def fun_eq_iff)

section \<open>Properties\<close>

text \<open>C39: resuming a ready fiber from the scheduling fiber and letting it yield gives the processor
  back to the scheduling fiber, leaves the fiber ready again and changes no other fiber; if the
  fiber's function returned before, it ends in \<open>TERM\<close> without a callback instead. A fiber that
  is running or finished cannot be resumed.\<close>

theorem fiber_slice:
  assumes "sched_ready w" and "fibers w a = Some f" and "fb_state f = READY" and "fb_runInScheduler f"
    and "t_scheduler_fiber w = Some s"
  shows "\<exists>w1. fiber_resume w a = Inr w1 \<and> on_cpu w1 = Some a \<and> fstate_of w1 a = Some RUNNING \<and>
           fiber_resume w1 a = Inl (Assertion ''m_state != TERM && m_state != RUNNING'') \<and>
           (\<exists>w2. fiber_yield w1 a = Inr w2 \<and> on_cpu w2 = Some s \<and> fibers w2 = fibers w) \<and>
           (\<exists>w3. MainFunc_exit w1 a = Inr w3 \<and> on_cpu w3 = Some s \<and>
              fibers w3 = (fibers w)(a \<mapsto> f\<lparr>fb_cb := None, fb_state := FTERM\<rparr>) \<and>
              fiber_resume w3 a = Inl (Assertion ''m_state != TERM && m_state != RUNNING''))"
proof -
  from fiber_resume_ok [OF assms(1-4)] obtain w1 where w1: "fiber_resume w a = Inr w1"
    "on_cpu w1 = Some a" "fibers w1 = (fibers w)(a \<mapsto> f\<lparr>fb_state := RUNNING\<rparr>)"
    "t_scheduler_fiber w1 = Some s" "t_thread_fiber w1 = t_thread_fiber w"
    using assms(5) by auto
  have "s \<noteq> a" and "fibers w s \<noteq> None"
    using assms(1,2,3,5) by (auto simp: sched_ready_def fstate_of_def)
  then have s: "fibers w1 s \<noteq> None" using w1(3) by simp
  have fa: "fibers w1 a = Some (f\<lparr>fb_state := RUNNING\<rparr>)" using w1(3) by simp
  have "\<exists>w2. fiber_yield w1 a = Inr w2 \<and> on_cpu w2 = Some s \<and> fibers w2 = fibers w"
    using fiber_yield_ok [OF w1(2) fa _ _ w1(4) s] assms(2-4) w1(3)
    by (auto simp: fun_upd_idem)
  moreover
  let ?f = "f\<lparr>fb_cb := None, fb_state := FTERM\<rparr>"
  let ?w = "w1\<lparr>fibers := (fibers w1)(a \<mapsto> ?f)\<rparr>"
  have "on_cpu ?w = Some a" "fibers ?w a = Some ?f" "fb_state ?f = RUNNING \<or> fb_state ?f = FTERM"
    "fb_runInScheduler ?f" "t_scheduler_fiber ?w = Some s" "fibers ?w s \<noteq> None"
    using w1 assms(4) s \<open>s \<noteq> a\<close> by simp_all
  from fiber_yield_ok [OF this] obtain w3 where w3: "fiber_yield ?w a = Inr w3" "on_cpu w3 = Some s"
    "fibers w3 = (fibers ?w)(a \<mapsto> ?f\<lparr>fb_state := (if fb_state ?f = FTERM then FTERM else READY)\<rparr>)"
    by blast
  then have "MainFunc_exit w1 a = Inr w3" and "fibers w3 = (fibers w)(a \<mapsto> ?f)"
    using fa w1(3) by (simp_all add: MainFunc_exit_def)
  moreover have "fiber_resume w3 a = Inl (Assertion ''m_state != TERM && m_state != RUNNING'')"
    using w3(3) by (simp add: fiber_resume_def)
  moreover have "fiber_resume w1 a = Inl (Assertion ''m_state != TERM && m_state != RUNNING'')"
    using fa by (simp add: fiber_resume_def)
  ultimately show ?thesis
    using w1 w3(2) fa by (auto simp: fstate_of_def)
qed

text \<open>A worker thread: its main fiber schedules, fiber 1 is a ready task.\<close>

definition sample_ft :: "nat fthread" where
  "sample_ft =
     \<lparr>fibers = (\<lambda>_. None)
        (0 \<mapsto> \<lparr>fb_id = 0, fb_stacksize = 0, fb_state = RUNNING, fb_stack = False, fb_cb = None,
              fb_runInScheduler = False\<rparr>,
         1 \<mapsto> \<lparr>fb_id = 1, fb_stacksize = 4096, fb_state = READY, fb_stack = True, fb_cb = Some 5,
              fb_runInScheduler = True\<rparr>),
      t_fiber = Some 0, t_thread_fiber = Some 0, t_scheduler_fiber = Some 0,
      s_fiber_id = 2, s_fiber_count = 2, on_cpu = Some 0\<rparr>"

theorem fiber_slice_witness:
  "\<exists>w1. fiber_resume sample_ft 1 = Inr w1 \<and> on_cpu w1 = Some 1 \<and>
     (\<exists>w2. fiber_yield w1 1 = Inr w2 \<and> on_cpu w2 = Some 0 \<and> fibers w2 = fibers sample_ft)"
proof -
  have "sched_ready sample_ft" "t_scheduler_fiber sample_ft = Some 0"
    "fibers sample_ft 1 = Some \<lparr>fb_id = 1, fb_stacksize = 4096, fb_state = READY, fb_stack = True,
       fb_cb = Some 5, fb_runInScheduler = True\<rparr>"
    by (simp_all add: sched_ready_def sample_ft_def fstate_of_def)
  from fiber_slice [OF this(1,3) _ _ this(2)] show ?thesis by auto
qed

end
