(* ===== verification/Lamb_Scheduler.thy ===== *)
theory Lamb_Scheduler
  imports Lamb_Fiber "HOL-Library.Multiset"
begin

text \<open>
  \<open>lamb/scheduler.cc\<close> and \<open>scheduler.h\<close>. The operations on the task queue are functions; the
  threads that execute \<open>Scheduler::run\<close> are a step relation in which every critical section,
  every \<open>resume\<close>, every return of a fiber and every change of an atomic counter is a step of
  its own, so that the steps of different threads interleave as they can in the program.
  \<open>sc_scheduled\<close> and \<open>sc_done\<close> are history variables: the tasks ever accepted by the queue and
  the tasks a thread has finished with. A failed \<open>LAMB_ASSERT\<close> is recorded in \<open>sc_failed\<close>
  and stops the system. \<open>tickle\<close> is the one of \<open>IOManager\<close>: a byte for the pipe that
  \<open>epoll_wait\<close> watches, unless no thread is idle.
\<close>

section \<open>Tasks\<close>

record 'cb ScheduleTask =
  st_fiber :: "nat option"
  st_cb :: "'cb option"
  st_thread :: int

definition task_reset :: "'cb ScheduleTask" where
  "task_reset = \<lparr>st_fiber = None, st_cb = None, st_thread = - 1\<rparr>"

definition task_of_fiber :: "nat option \<Rightarrow> int \<Rightarrow> 'cb ScheduleTask" where
  "task_of_fiber f thr = \<lparr>st_fiber = f, st_cb = None, st_thread = thr\<rparr>"

definition task_of_cb :: "'cb option \<Rightarrow> int \<Rightarrow> 'cb ScheduleTask" where
  "task_of_cb f thr = \<lparr>st_fiber = None, st_cb = f, st_thread = thr\<rparr>"

definition task_live :: "'cb ScheduleTask \<Rightarrow> bool" where
  "task_live t \<longleftrightarrow> st_fiber t \<noteq> None \<or> st_cb t \<noteq> None"

text \<open>The result pairs \<open>need_tickle\<close> with the queue.\<close>

definition scheduleNoLock ::
  "'cb ScheduleTask list \<Rightarrow> 'cb ScheduleTask \<Rightarrow> bool \<times> 'cb ScheduleTask list" where
  "scheduleNoLock tasks task = (tasks = [], if task_live task then tasks @ [task] else tasks)"

text \<open>
  The locked search of \<open>run\<close> on thread \<open>tid\<close>: the task taken, the queue left and \<open>tickle_me\<close>.
\<close>

fun find_task ::
  "(nat \<Rightarrow> fstate) \<Rightarrow> int \<Rightarrow> 'cb ScheduleTask list \<Rightarrow>
    ('cb ScheduleTask option \<times> 'cb ScheduleTask list \<times> bool) res" where
  "find_task st tid [] = Inr (None, [], False)"
| "find_task st tid (t # ts) =
     (if st_thread t \<noteq> - 1 \<and> st_thread t \<noteq> tid
      then bindR (find_task st tid ts) (\<lambda>(p, rest, _). Inr (p, t # rest, True))
      else if \<not> task_live t then Inl (Assertion ''it->fiber || it->cb'')
      else case st_fiber t of
             Some f \<Rightarrow> if st f = READY then Inr (Some t, ts, ts \<noteq> [])
                       else Inl (Assertion ''it->fiber->getState() == Fiber::READY'')
           | None \<Rightarrow> Inr (Some t, ts, ts \<noteq> []))"

section \<open>Threads\<close>

text \<open>
  Where a thread stands in \<open>run\<close>: before the search; after it; before \<open>resume\<close>; while the task
  runs; after the task gave the processor back; before and inside \<open>idle\<close>; after the loop.
\<close>

datatype 'cb pc =
    Pick
  | Picked "'cb ScheduleTask option" bool
  | Exec "'cb ScheduleTask"
  | Running "'cb ScheduleTask"
  | Returning "'cb ScheduleTask"
  | To_idle
  | Idle
  | Exit

record 'cb sched =
  sc_tasks :: "'cb ScheduleTask list"
  sc_active :: nat
  sc_idle :: nat
  sc_stopping :: bool
  sc_threads :: "int set"
  sc_pc :: "int \<Rightarrow> 'cb pc"
  sc_idle_term :: "int \<Rightarrow> bool"
  sc_fib :: "nat \<Rightarrow> fstate"
  sc_pipe :: nat
  sc_failed :: "exn option"
  sc_scheduled :: "'cb ScheduleTask multiset"
  sc_done :: "'cb ScheduleTask multiset"

definition newScheduler :: "int set \<Rightarrow> (nat \<Rightarrow> fstate) \<Rightarrow> 'cb sched" where
  "newScheduler threads fib =
     \<lparr>sc_tasks = [], sc_active = 0, sc_idle = 0, sc_stopping = False, sc_threads = threads,
      sc_pc = (\<lambda>_. Pick), sc_idle_term = (\<lambda>_. False), sc_fib = fib, sc_pipe = 0,
      sc_failed = None, sc_scheduled = {#}, sc_done = {#}\<rparr>"

definition hasIdleThreads :: "'cb sched \<Rightarrow> bool" where
  "hasIdleThreads s \<longleftrightarrow> sc_idle s > 0"

definition tickle :: "'cb sched \<Rightarrow> 'cb sched" where
  "tickle s = (if hasIdleThreads s then s\<lparr>sc_pipe := sc_pipe s + 1\<rparr> else s)"

definition sched_stopping :: "'cb sched \<Rightarrow> bool" where
  "sched_stopping s \<longleftrightarrow> sc_stopping s \<and> sc_tasks s = [] \<and> sc_active s = 0"

definition schedule_push :: "'cb sched \<Rightarrow> 'cb ScheduleTask \<Rightarrow> 'cb sched" where
  "schedule_push s t =
     s\<lparr>sc_tasks := snd (scheduleNoLock (sc_tasks s) t),
       sc_scheduled := (if task_live t then add_mset t (sc_scheduled s) else sc_scheduled s)\<rparr>"

definition set_pc :: "'cb sched \<Rightarrow> int \<Rightarrow> 'cb pc \<Rightarrow> 'cb sched" where
  "set_pc s i p = s\<lparr>sc_pc := (sc_pc s)(i := p)\<rparr>"

definition run_pick :: "'cb sched \<Rightarrow> int \<Rightarrow> 'cb sched" where
  "run_pick s i =
     (case find_task (sc_fib s) i (sc_tasks s) of
        Inl e \<Rightarrow> s\<lparr>sc_failed := Some e\<rparr>
      | Inr (p, rest, tickle_me) \<Rightarrow>
          (set_pc s i (Picked p tickle_me))
            \<lparr>sc_tasks := rest, sc_active := (if p = None then sc_active s else sc_active s + 1)\<rparr>)"

definition run_dispatch :: "'cb sched \<Rightarrow> int \<Rightarrow> 'cb ScheduleTask option \<Rightarrow> bool \<Rightarrow> 'cb sched" where
  "run_dispatch s i p tickle_me =
     (let s = (if tickle_me then tickle s else s) in
      set_pc s i (case p of Some t \<Rightarrow> Exec t
                  | None \<Rightarrow> if sc_idle_term s i then Exit else To_idle))"

text \<open>\<open>resume\<close> of the task's fiber, or of a new fiber for the callback.\<close>

definition run_resume :: "'cb sched \<Rightarrow> int \<Rightarrow> 'cb ScheduleTask \<Rightarrow> 'cb sched" where
  "run_resume s i t =
     (case st_fiber t of
        Some f \<Rightarrow>
          if sc_fib s f \<noteq> FTERM \<and> sc_fib s f \<noteq> RUNNING
          then (set_pc s i (Running t))\<lparr>sc_fib := (sc_fib s)(f := RUNNING)\<rparr>
          else s\<lparr>sc_failed := Some (Assertion ''m_state != TERM && m_state != RUNNING'')\<rparr>
      | None \<Rightarrow> set_pc s i (Running t))"

text \<open>The task's fiber yields (\<open>READY\<close>) or finishes (\<open>TERM\<close>).\<close>

definition run_give_back :: "'cb sched \<Rightarrow> int \<Rightarrow> 'cb ScheduleTask \<Rightarrow> bool \<Rightarrow> 'cb sched" where
  "run_give_back s i t finished =
     (case st_fiber t of
        Some f \<Rightarrow> (set_pc s i (Returning t))
                     \<lparr>sc_fib := (sc_fib s)(f := (if finished then FTERM else READY))\<rparr>
      | None \<Rightarrow> set_pc s i (Returning t))"

definition run_return :: "'cb sched \<Rightarrow> int \<Rightarrow> 'cb ScheduleTask \<Rightarrow> 'cb sched" where
  "run_return s i t =
     (set_pc s i Pick)\<lparr>sc_active := sc_active s - 1, sc_done := add_mset t (sc_done s)\<rparr>"

definition idle_enter :: "'cb sched \<Rightarrow> int \<Rightarrow> 'cb sched" where
  "idle_enter s i = (set_pc s i Idle)\<lparr>sc_idle := sc_idle s + 1\<rparr>"

text \<open>\<open>idle\<close> yields, or returns when \<open>stopping ()\<close>.\<close>

definition idle_leave :: "'cb sched \<Rightarrow> int \<Rightarrow> bool \<Rightarrow> 'cb sched" where
  "idle_leave s i term =
     (set_pc s i Pick)\<lparr>sc_idle := sc_idle s - 1,
        sc_idle_term := (if term then (sc_idle_term s)(i := True) else sc_idle_term s)\<rparr>"

definition sched_stop :: "'cb sched \<Rightarrow> 'cb sched" where
  "sched_stop s = (if sched_stopping s then s else s\<lparr>sc_stopping := True\<rparr>)"

text \<open>
  \<open>schedule\<close> may be called at any time, by fibers and by other threads; the parameter \<open>ok\<close>
  restricts which tasks they hand in (\<open>\<lambda>_ _. True\<close> for arbitrary callers).
\<close>

inductive sched_step ::
  "('cb sched \<Rightarrow> 'cb ScheduleTask \<Rightarrow> bool) \<Rightarrow> 'cb sched \<Rightarrow> 'cb sched \<Rightarrow> bool" for ok where
  step_schedule: "sc_failed s = None \<Longrightarrow> ok s t \<Longrightarrow> sched_step ok s (schedule_push s t)"
| step_tickle: "sc_failed s = None \<Longrightarrow> sched_step ok s (tickle s)"
| step_stop: "sc_failed s = None \<Longrightarrow> sched_step ok s (sched_stop s)"
| step_pick: "sc_failed s = None \<Longrightarrow> i \<in> sc_threads s \<Longrightarrow> sc_pc s i = Pick \<Longrightarrow>
    sched_step ok s (run_pick s i)"
| step_dispatch: "sc_failed s = None \<Longrightarrow> i \<in> sc_threads s \<Longrightarrow> sc_pc s i = Picked p tm \<Longrightarrow>
    sched_step ok s (run_dispatch s i p tm)"
| step_resume: "sc_failed s = None \<Longrightarrow> i \<in> sc_threads s \<Longrightarrow> sc_pc s i = Exec t \<Longrightarrow>
    sched_step ok s (run_resume s i t)"
| step_give_back: "sc_failed s = None \<Longrightarrow> i \<in> sc_threads s \<Longrightarrow> sc_pc s i = Running t \<Longrightarrow>
    sched_step ok s (run_give_back s i t finished)"
| step_return: "sc_failed s = None \<Longrightarrow> i \<in> sc_threads s \<Longrightarrow> sc_pc s i = Returning t \<Longrightarrow>
    sched_step ok s (run_return s i t)"
| step_idle: "sc_failed s = None \<Longrightarrow> i \<in> sc_threads s \<Longrightarrow> sc_pc s i = To_idle \<Longrightarrow>
    sched_step ok s (idle_enter s i)"
| step_idle_yield: "sc_failed s = None \<Longrightarrow> i \<in> sc_threads s \<Longrightarrow> sc_pc s i = Idle \<Longrightarrow>
    \<not> sched_stopping s \<Longrightarrow> sched_step ok s (idle_leave s i False)"
| step_idle_exit: "sc_failed s = None \<Longrightarrow> i \<in> sc_threads s \<Longrightarrow> sc_pc s i = Idle \<Longrightarrow>
    sched_stopping s \<Longrightarrow> sched_step ok s (idle_leave s i True)"

section \<open>The search for a task\<close>

definition eligible :: "int \<Rightarrow> 'cb ScheduleTask \<Rightarrow> bool" where
  "eligible tid t \<longleftrightarrow> st_thread t = - 1 \<or> st_thread t = tid"

lemma find_task_None:
  assumes "find_task st tid ts = Inr (None, rest, tm)"
  shows "rest = ts" and "\<forall>t \<in> set ts. \<not> eligible tid t" and "tm \<longleftrightarrow> ts \<noteq> []"
  using assms
  by (induction ts arbitrary: rest tm)
     (auto simp: bindR_Inr_iff eligible_def split: if_splits option.splits)

lemma find_task_Some:
  assumes "find_task st tid ts = Inr (Some t, rest, tm)"
  shows "\<exists>pre suf. ts = pre @ t # suf \<and> rest = pre @ suf \<and> eligible tid t \<and> task_live t \<and>
           (\<forall>u \<in> set pre. \<not> eligible tid u) \<and> (\<forall>f. st_fiber t = Some f \<longrightarrow> st f = READY) \<and>
           (tm \<longleftrightarrow> rest \<noteq> [])"
  using assms
proof (induction ts arbitrary: rest tm)
  case Nil
  then show ?case by simp
next
  case (Cons u ts)
  show ?case
  proof (cases "st_thread u \<noteq> - 1 \<and> st_thread u \<noteq> tid")
    case True
    with Cons.prems obtain rest' tm' where r: "find_task st tid ts = Inr (Some t, rest', tm')"
      "rest = u # rest'" "tm"
      by (auto simp: bindR_Inr_iff)
    from Cons.IH [OF r(1)] obtain pre suf where "ts = pre @ t # suf" "rest' = pre @ suf"
      "eligible tid t" "task_live t" "\<forall>u \<in> set pre. \<not> eligible tid u"
      "\<forall>f. st_fiber t = Some f \<longrightarrow> st f = READY" by blast
    with True r(2,3) show ?thesis
      by (intro exI [of _ "u # pre"] exI [of _ suf]) (auto simp: eligible_def)
  next
    case False
    with Cons.prems show ?thesis
      by (intro exI [of _ "[]"] exI [of _ ts])
         (auto simp: eligible_def split: if_splits option.splits)
  qed
qed

section \<open>Counting over threads\<close>

lemma sum_fun_upd:
  fixes g :: "'p \<Rightarrow> 'm::comm_monoid_add"
  assumes "finite A" and "i \<in> A"
  shows "(\<Sum>j\<in>A. g ((f(i := y)) j)) + g (f i) = (\<Sum>j\<in>A. g (f j)) + g y"
proof -
  have "(\<Sum>j\<in>A. g ((f(i := y)) j)) = g y + (\<Sum>j\<in>A - {i}. g (f j))"
    using assms by (simp add: sum.remove [of A i])
  moreover have "(\<Sum>j\<in>A. g (f j)) = g (f i) + (\<Sum>j\<in>A - {i}. g (f j))"
    using assms by (simp add: sum.remove [of A i])
  ultimately show ?thesis by (simp add: ac_simps)
qed

fun held :: "'cb pc \<Rightarrow> 'cb ScheduleTask multiset" where
  "held (Picked (Some t) tm) = {#t#}"
| "held (Exec t) = {#t#}"
| "held (Running t) = {#t#}"
| "held (Returning t) = {#t#}"
| "held p = {#}"

definition idling :: "'cb pc \<Rightarrow> nat" where
  "idling p = (case p of Idle \<Rightarrow> 1 | _ \<Rightarrow> 0)"

definition in_flight :: "'cb sched \<Rightarrow> 'cb ScheduleTask multiset" where
  "in_flight s = (\<Sum>i\<in>sc_threads s. held (sc_pc s i))"

definition sched_inv :: "'cb sched \<Rightarrow> bool" where
  "sched_inv s \<longleftrightarrow> finite (sc_threads s) \<and>
     sc_active s = size (in_flight s) \<and>
     sc_idle s = (\<Sum>i\<in>sc_threads s. idling (sc_pc s i)) \<and>
     sc_scheduled s = mset (sc_tasks s) + in_flight s + sc_done s \<and>
     (\<forall>i. \<forall>t \<in># held (sc_pc s i). eligible i t) \<and>
     (\<forall>t \<in># sc_scheduled s. task_live t)"

lemma pc_update_sums:
  assumes "finite (sc_threads s)" and "i \<in> sc_threads s"
    and "sc_threads s' = sc_threads s" and "sc_pc s' = (sc_pc s)(i := p)"
  shows "in_flight s' + held (sc_pc s i) = in_flight s + held p"
    and "(\<Sum>j\<in>sc_threads s'. idling (sc_pc s' j)) + idling (sc_pc s i)
       = (\<Sum>j\<in>sc_threads s. idling (sc_pc s j)) + idling p"
  unfolding in_flight_def assms(3,4) by (rule sum_fun_upd [OF assms(1,2)])+

text \<open>A step that moves one thread and keeps the accounts balanced keeps the invariant.\<close>

lemma sched_inv_move:
  assumes inv: "sched_inv s" and i: "i \<in> sc_threads s"
    and "sc_threads s' = sc_threads s" and "sc_pc s' = (sc_pc s)(i := p)"
    and active: "sc_active s' + size (held (sc_pc s i)) = sc_active s + size (held p)"
    and idle: "sc_idle s' + idling (sc_pc s i) = sc_idle s + idling p"
    and bal: "mset (sc_tasks s') + held p + sc_done s' = mset (sc_tasks s) + held (sc_pc s i) + sc_done s"
    and same: "sc_scheduled s' = sc_scheduled s"
    and elig: "\<forall>t \<in># held p. eligible i t"
  shows "sched_inv s'"
proof -
  have fin: "finite (sc_threads s)" using inv by (simp add: sched_inv_def)
  note sums = pc_update_sums [OF fin i assms(3,4)]
  have size: "size (in_flight s') + size (held (sc_pc s i)) = size (in_flight s) + size (held p)"
    using arg_cong [OF sums(1), of size] by simp
  have fin': "finite (sc_threads s')" using fin assms(3) by simp
  have act: "sc_active s' = size (in_flight s')"
    using inv active size by (simp add: sched_inv_def)
  have idl: "sc_idle s' = (\<Sum>j\<in>sc_threads s'. idling (sc_pc s' j))"
    using inv idle sums(2) by (simp add: sched_inv_def)
  have conserve: "sc_scheduled s' = mset (sc_tasks s') + in_flight s' + sc_done s'"
  proof -
    have "sc_scheduled s' + held p = mset (sc_tasks s) + sc_done s + (in_flight s + held p)"
      using inv same by (simp add: sched_inv_def ac_simps)
    also have "\<dots> = (mset (sc_tasks s) + held (sc_pc s i) + sc_done s) + in_flight s'"
      unfolding sums(1) [symmetric] by (simp add: ac_simps)
    also have "\<dots> = mset (sc_tasks s') + in_flight s' + sc_done s' + held p"
      unfolding bal [symmetric] by (simp add: ac_simps)
    finally show ?thesis by simp
  qed
  have el: "\<forall>j. \<forall>t \<in># held (sc_pc s' j). eligible j t"
    using inv elig assms(4) by (simp add: sched_inv_def)
  have live: "\<forall>t \<in># sc_scheduled s'. task_live t"
    using inv unfolding same sched_inv_def by blast
  from fin' act idl conserve el live show ?thesis
    unfolding sched_inv_def by blast
qed

lemma sched_inv_frame:
  assumes "sched_inv s" and "sc_threads s' = sc_threads s" and "sc_pc s' = sc_pc s"
    and "sc_tasks s' = sc_tasks s" and "sc_active s' = sc_active s" and "sc_idle s' = sc_idle s"
    and "sc_scheduled s' = sc_scheduled s" and "sc_done s' = sc_done s"
  shows "sched_inv s'"
  using assms by (simp add: sched_inv_def in_flight_def)

lemma set_pc_simps [simp]:
  "sc_tasks (set_pc s i p) = sc_tasks s" "sc_active (set_pc s i p) = sc_active s"
  "sc_idle (set_pc s i p) = sc_idle s" "sc_threads (set_pc s i p) = sc_threads s"
  "sc_pc (set_pc s i p) = (sc_pc s)(i := p)" "sc_scheduled (set_pc s i p) = sc_scheduled s"
  "sc_done (set_pc s i p) = sc_done s" "sc_fib (set_pc s i p) = sc_fib s"
  "sc_failed (set_pc s i p) = sc_failed s" "sc_stopping (set_pc s i p) = sc_stopping s"
  "sc_pipe (set_pc s i p) = sc_pipe s" "sc_idle_term (set_pc s i p) = sc_idle_term s"
  by (simp_all add: set_pc_def)

lemma tickle_simps [simp]:
  "sc_tasks (tickle s) = sc_tasks s" "sc_active (tickle s) = sc_active s"
  "sc_idle (tickle s) = sc_idle s" "sc_threads (tickle s) = sc_threads s"
  "sc_pc (tickle s) = sc_pc s" "sc_scheduled (tickle s) = sc_scheduled s"
  "sc_done (tickle s) = sc_done s" "sc_fib (tickle s) = sc_fib s"
  "sc_failed (tickle s) = sc_failed s" "sc_stopping (tickle s) = sc_stopping s"
  "sc_idle_term (tickle s) = sc_idle_term s"
  by (simp_all add: tickle_def)

lemma idling_simps [simp]:
  "idling Idle = 1" "idling Pick = 0" "idling (Picked q tm) = 0" "idling (Exec t) = 0"
  "idling (Running t) = 0" "idling (Returning t) = 0" "idling To_idle = 0" "idling Exit = 0"
  by (simp_all add: idling_def)

lemma sched_inv_held:
  assumes "sched_inv s" and "i \<in> sc_threads s"
  shows "size (held (sc_pc s i)) \<le> sc_active s" and "idling (sc_pc s i) \<le> sc_idle s"
    and "\<forall>t \<in># held (sc_pc s i). eligible i t"
proof -
  have fin: "finite (sc_threads s)" using assms(1) by (simp add: sched_inv_def)
  have "held (sc_pc s i) \<subseteq># in_flight s"
    unfolding in_flight_def using fin assms(2) by (simp add: sum.remove [of _ i])
  then show "size (held (sc_pc s i)) \<le> sc_active s"
    using assms(1) by (simp add: sched_inv_def size_mset_mono)
  show "idling (sc_pc s i) \<le> sc_idle s"
    using assms member_le_sum [of i "sc_threads s" "\<lambda>j. idling (sc_pc s j)"] fin
    by (simp add: sched_inv_def)
  show "\<forall>t \<in># held (sc_pc s i). eligible i t"
    using assms(1) by (simp add: sched_inv_def)
qed

lemma sched_inv_new: "finite threads \<Longrightarrow> sched_inv (newScheduler threads fib)"
  by (simp add: sched_inv_def newScheduler_def in_flight_def)

lemma sched_inv_step: "sched_step ok s s' \<Longrightarrow> sched_inv s \<Longrightarrow> sched_inv s'"
proof (induction rule: sched_step.induct)
  case (step_schedule s t)
  then show ?case
    by (auto simp: sched_inv_def schedule_push_def scheduleNoLock_def in_flight_def)
next
  case (step_tickle s)
  then show ?case by (auto intro: sched_inv_frame)
next
  case (step_stop s)
  then show ?case by (auto simp: sched_stop_def intro: sched_inv_frame)
next
  case (step_pick s i)
  show ?case
  proof (cases "find_task (sc_fib s) i (sc_tasks s)")
    case (Inl e)
    with step_pick show ?thesis by (auto simp: run_pick_def intro: sched_inv_frame)
  next
    case (Inr r)
    obtain q rest tm where r: "r = (q, rest, tm)" by (cases r)
    show ?thesis
    proof (cases q)
      case None
      with Inr r find_task_None(1) [of "sc_fib s" i "sc_tasks s" rest tm] step_pick show ?thesis
        by (intro sched_inv_move [OF step_pick.prems step_pick.hyps(2), where p = "Picked None tm"])
           (simp_all add: run_pick_def)
    next
      case (Some t)
      from find_task_Some [of "sc_fib s" i "sc_tasks s" t rest tm] Inr r Some obtain pre suf where
        split: "sc_tasks s = pre @ t # suf" "rest = pre @ suf" and el: "eligible i t" by auto
      have run: "run_pick s i = (set_pc s i (Picked (Some t) tm))
          \<lparr>sc_tasks := pre @ suf, sc_active := sc_active s + 1\<rparr>"
        by (simp add: run_pick_def Inr r Some split(2))
      show ?thesis
        unfolding run using el
        by (intro sched_inv_move [OF step_pick.prems step_pick.hyps(2), where p = "Picked (Some t) tm"])
           (simp_all add: step_pick.hyps(3) split(1))
    qed
  qed
next
  case (step_dispatch s i q tm)
  define p where "p = (case q of Some t \<Rightarrow> Exec t | None \<Rightarrow> if sc_idle_term s i then Exit else To_idle)"
  have run: "run_dispatch s i q tm = set_pc (if tm then tickle s else s) i p"
    by (simp add: run_dispatch_def Let_def p_def split: option.split)
  have p: "held p = held (Picked q tm)" "idling p = 0"
    by (auto simp: p_def split: option.split)
  have "\<forall>t \<in># held (Picked q tm). eligible i t"
    using sched_inv_held(3) [OF step_dispatch.prems step_dispatch.hyps(2)]
    unfolding step_dispatch.hyps(3) .
  then show ?case
    unfolding run
    by (intro sched_inv_move [OF step_dispatch.prems step_dispatch.hyps(2), where p = p])
       (simp_all add: step_dispatch.hyps(3) p)
next
  case (step_resume s i t)
  show ?case
  proof (cases "sc_failed (run_resume s i t) = sc_failed s")
    case True
    with step_resume sched_inv_held(3) [of s i] show ?thesis
      by (intro sched_inv_move [OF step_resume.prems step_resume.hyps(2), where p = "Running t"])
         (auto simp: run_resume_def split: option.splits if_splits)
  next
    case False
    with step_resume show ?thesis
      by (intro sched_inv_frame [OF step_resume.prems])
         (auto simp: run_resume_def split: option.splits if_splits)
  qed
next
  case (step_give_back s i t finished)
  with sched_inv_held(3) [of s i] show ?case
    by (intro sched_inv_move [OF step_give_back.prems step_give_back.hyps(2), where p = "Returning t"])
       (simp_all add: run_give_back_def split: option.splits)
next
  case (step_return s i t)
  with sched_inv_held(1) [of s i] show ?case
    by (intro sched_inv_move [OF step_return.prems step_return.hyps(2), where p = Pick]) (simp_all add: run_return_def)
next
  case (step_idle s i)
  then show ?case
    by (intro sched_inv_move [OF step_idle.prems step_idle.hyps(2), where p = Idle]) (simp_all add: idle_enter_def)
next
  case (step_idle_yield s i)
  with sched_inv_held(2) [of s i] show ?case
    by (intro sched_inv_move [OF step_idle_yield.prems step_idle_yield.hyps(2), where p = Pick]) (simp_all add: idle_leave_def)
next
  case (step_idle_exit s i)
  with sched_inv_held(2) [of s i] show ?case
    by (intro sched_inv_move [OF step_idle_exit.prems step_idle_exit.hyps(2), where p = Pick]) (simp_all add: idle_leave_def)
qed

lemma sched_reach_inv:
  "(sched_step ok)\<^sup>*\<^sup>* s s' \<Longrightarrow> sched_inv s \<Longrightarrow> sched_inv s'"
  by (induction rule: rtranclp_induct) (auto intro: sched_inv_step)

section \<open>Fibers scheduled one at a time\<close>

text \<open>
  The discipline under which the assertions of \<open>run\<close> and \<open>resume\<close> hold: a fiber is handed to
  \<open>schedule\<close> only while it is \<open>READY\<close>, not in the queue and in no thread's hands.
\<close>

definition queued_fibers :: "'cb sched \<Rightarrow> nat list" where
  "queued_fibers s = List.map_filter st_fiber (sc_tasks s)"

fun held_fiber :: "'cb pc \<Rightarrow> nat option" where
  "held_fiber (Picked (Some t) tm) = st_fiber t"
| "held_fiber (Exec t) = st_fiber t"
| "held_fiber (Running t) = st_fiber t"
| "held_fiber (Returning t) = st_fiber t"
| "held_fiber p = None"

fun expected :: "'cb pc \<Rightarrow> fstate option" where
  "expected (Picked (Some t) tm) = Some READY"
| "expected (Exec t) = Some READY"
| "expected (Running t) = Some RUNNING"
| "expected p = None"

definition disciplined :: "'cb sched \<Rightarrow> 'cb ScheduleTask \<Rightarrow> bool" where
  "disciplined s t \<longleftrightarrow> (\<forall>f. st_fiber t = Some f \<longrightarrow> sc_fib s f = READY \<and>
     f \<notin> set (queued_fibers s) \<and> (\<forall>i \<in> sc_threads s. held_fiber (sc_pc s i) \<noteq> Some f))"

definition disc_inv :: "'cb sched \<Rightarrow> bool" where
  "disc_inv s \<longleftrightarrow> sc_failed s = None \<and> (\<forall>t \<in> set (sc_tasks s). task_live t) \<and>
     distinct (queued_fibers s) \<and> (\<forall>f \<in> set (queued_fibers s). sc_fib s f = READY) \<and>
     (\<forall>i \<in> sc_threads s. \<forall>f. held_fiber (sc_pc s i) = Some f \<longrightarrow>
        f \<notin> set (queued_fibers s) \<and>
        (\<forall>j \<in> sc_threads s. held_fiber (sc_pc s j) = Some f \<longrightarrow> j = i) \<and>
        (\<forall>st. expected (sc_pc s i) = Some st \<longrightarrow> sc_fib s f = st))"

lemma map_filter_append_simp [simp]:
  "List.map_filter g (xs @ ys) = List.map_filter g xs @ List.map_filter g ys"
  by (simp add: List.map_filter_def)

lemma disc_find_task:
  assumes "disc_inv s"
  shows "\<exists>r. find_task (sc_fib s) i (sc_tasks s) = Inr r"
proof -
  have "\<forall>t \<in> set ts. task_live t \<and> (\<forall>f. st_fiber t = Some f \<longrightarrow> sc_fib s f = READY) \<Longrightarrow>
      \<exists>r. find_task (sc_fib s) i ts = Inr r" for ts
    by (induction ts) (auto split: option.split)
  moreover have "\<forall>t \<in> set (sc_tasks s). task_live t \<and> (\<forall>f. st_fiber t = Some f \<longrightarrow> sc_fib s f = READY)"
    using assms by (force simp: disc_inv_def queued_fibers_def List.map_filter_def)
  ultimately show ?thesis by blast
qed

lemma disc_inv_pcD:
  assumes "disc_inv s" and "i \<in> sc_threads s" and "held_fiber (sc_pc s i) = Some f"
  shows "f \<notin> set (queued_fibers s)"
    and "j \<in> sc_threads s \<Longrightarrow> held_fiber (sc_pc s j) = Some f \<Longrightarrow> j = i"
    and "expected (sc_pc s i) = Some st \<Longrightarrow> sc_fib s f = st"
  using assms unfolding disc_inv_def by blast+

text \<open>A thread moves on with the fiber it holds, whose state changes as expected.\<close>

lemma disc_inv_move:
  assumes inv: "disc_inv s" and i: "i \<in> sc_threads s"
    and frame: "sc_threads s' = sc_threads s" "sc_tasks s' = sc_tasks s" "sc_failed s' = None"
    and pc: "sc_pc s' = (sc_pc s)(i := p)"
    and held: "held_fiber p = None \<or> held_fiber p = held_fiber (sc_pc s i)"
    and fib: "\<And>f. held_fiber (sc_pc s i) \<noteq> Some f \<Longrightarrow> sc_fib s' f = sc_fib s f"
    and exp: "\<And>f st. held_fiber p = Some f \<Longrightarrow> expected p = Some st \<Longrightarrow> sc_fib s' f = st"
  shows "disc_inv s'"
proof -
  have q: "queued_fibers s' = queued_fibers s" by (simp add: queued_fibers_def frame)
  have "sc_fib s' f = READY" if "f \<in> set (queued_fibers s)" for f
  proof -
    have "held_fiber (sc_pc s i) \<noteq> Some f" using disc_inv_pcD(1) [OF inv i] that by blast
    with fib have "sc_fib s' f = sc_fib s f" by blast
    with that inv show ?thesis by (simp add: disc_inv_def)
  qed
  moreover have "f \<notin> set (queued_fibers s) \<and>
      (\<forall>k \<in> sc_threads s. held_fiber (sc_pc s' k) = Some f \<longrightarrow> k = j) \<and>
      (\<forall>st. expected (sc_pc s' j) = Some st \<longrightarrow> sc_fib s' f = st)"
    if j: "j \<in> sc_threads s" and f: "held_fiber (sc_pc s' j) = Some f" for j f
  proof -
    have f': "held_fiber (sc_pc s j) = Some f"
      using f held by (auto simp: pc split: if_splits)
    have other: "held_fiber (sc_pc s k) = Some f" if "held_fiber (sc_pc s' k) = Some f" for k
      using that held by (auto simp: pc split: if_splits)
    have "sc_fib s' f = st" if st: "expected (sc_pc s' j) = Some st" for st
    proof (cases "j = i")
      case True
      with f st exp show ?thesis by (simp add: pc)
    next
      case False
      then have "held_fiber (sc_pc s i) \<noteq> Some f"
        using disc_inv_pcD(2) [OF inv j f', of i] i by blast
      with fib False st disc_inv_pcD(3) [OF inv j f'] show ?thesis by (simp add: pc)
    qed
    with disc_inv_pcD(1,2) [OF inv j f'] other show ?thesis by blast
  qed
  ultimately show ?thesis
    using inv frame unfolding disc_inv_def q by auto
qed

lemma disc_inv_pick:
  assumes inv: "disc_inv s" and i: "i \<in> sc_threads s" and pc: "sc_pc s i = Pick"
  shows "disc_inv (run_pick s i)"
proof -
  from disc_find_task [OF inv] obtain q rest tm where
    r: "find_task (sc_fib s) i (sc_tasks s) = Inr (q, rest, tm)" by (metis prod.collapse)
  show ?thesis
  proof (cases q)
    case None
    with r find_task_None(1) have "rest = sc_tasks s" by blast
    with r None inv pc show ?thesis
      by (intro disc_inv_move [OF inv i, where p = "Picked None tm"])
         (simp_all add: run_pick_def disc_inv_def)
  next
    case (Some t)
    with find_task_Some [of "sc_fib s" i "sc_tasks s" t rest tm] r obtain pre suf where
      split: "sc_tasks s = pre @ t # suf" "rest = pre @ suf" by blast
    let ?s' = "run_pick s i"
    have run: "?s' = (set_pc s i (Picked (Some t) tm))\<lparr>sc_tasks := pre @ suf, sc_active := sc_active s + 1\<rparr>"
      by (simp add: run_pick_def r Some split(2))
    have q: "set (queued_fibers s) = set (queued_fibers ?s') \<union> set_option (st_fiber t)"
      "distinct (queued_fibers ?s')" "set (queued_fibers ?s') \<inter> set_option (st_fiber t) = {}"
      using inv by (cases "st_fiber t"; auto simp: disc_inv_def queued_fibers_def split run List.map_filter_simps)+
    have held: "held_fiber (sc_pc ?s' j) = (if j = i then st_fiber t else held_fiber (sc_pc s j))" for j
      by (simp add: run)
    have "f \<notin> set (queued_fibers ?s') \<and>
        (\<forall>k \<in> sc_threads s. held_fiber (sc_pc ?s' k) = Some f \<longrightarrow> k = j) \<and>
        (\<forall>st. expected (sc_pc ?s' j) = Some st \<longrightarrow> sc_fib s f = st)"
      if j: "j \<in> sc_threads s" and f: "held_fiber (sc_pc ?s' j) = Some f" for j f
    proof (cases "j = i")
      case True
      with f have t: "st_fiber t = Some f" by (simp add: held)
      with q have "f \<in> set (queued_fibers s)" by simp
      then have "sc_fib s f = READY" "\<forall>k \<in> sc_threads s. held_fiber (sc_pc s k) \<noteq> Some f"
        using inv disc_inv_pcD(1) [OF inv] by (auto simp: disc_inv_def)
      with True t q(3) show ?thesis by (auto simp: held run)
    next
      case False
      with f have f': "held_fiber (sc_pc s j) = Some f" by (simp add: held)
      from disc_inv_pcD(1) [OF inv j f'] q have "f \<notin> set (queued_fibers ?s')" "st_fiber t \<noteq> Some f" by auto
      with False disc_inv_pcD(2,3) [OF inv j f'] show ?thesis by (auto simp: held run)
    qed
    then show ?thesis
      using inv q unfolding disc_inv_def by (auto simp: run split(1))
  qed
qed

lemma disc_inv_schedule:
  assumes inv: "disc_inv s" and ok: "disciplined s t"
  shows "disc_inv (schedule_push s t)"
proof (cases "task_live t")
  case True
  let ?s' = "schedule_push s t"
  have q: "queued_fibers ?s' = queued_fibers s @ (case st_fiber t of None \<Rightarrow> [] | Some f \<Rightarrow> [f])"
    using True by (simp add: queued_fibers_def schedule_push_def scheduleNoLock_def
        List.map_filter_def split: option.split)
  have same: "sc_pc ?s' = sc_pc s" "sc_threads ?s' = sc_threads s" "sc_fib ?s' = sc_fib s"
    "sc_failed ?s' = sc_failed s" "sc_tasks ?s' = sc_tasks s @ [t]"
    using True by (simp_all add: schedule_push_def scheduleNoLock_def)
  show ?thesis
    using inv ok True unfolding disc_inv_def disciplined_def same q
    by (auto split: option.splits)
next
  case False
  then have "schedule_push s t = s"
    by (simp add: schedule_push_def scheduleNoLock_def)
  with inv show ?thesis by simp
qed

lemma disc_inv_frame:
  assumes "disc_inv s" and "sc_threads s' = sc_threads s" and "sc_pc s' = sc_pc s"
    and "sc_tasks s' = sc_tasks s" and "sc_fib s' = sc_fib s" and "sc_failed s' = sc_failed s"
  shows "disc_inv s'"
  using assms by (simp add: disc_inv_def queued_fibers_def)

lemma disc_inv_step: "sched_step disciplined s s' \<Longrightarrow> disc_inv s \<Longrightarrow> disc_inv s'"
proof (induction rule: sched_step.induct)
  case (step_schedule s t)
  then show ?case by (simp add: disc_inv_schedule)
next
  case (step_tickle s)
  then show ?case by (auto intro: disc_inv_frame)
next
  case (step_stop s)
  then show ?case by (auto simp: sched_stop_def intro: disc_inv_frame)
next
  case (step_pick s i)
  then show ?case by (simp add: disc_inv_pick)
next
  case (step_dispatch s i q tm)
  define p where "p = (case q of Some t \<Rightarrow> Exec t | None \<Rightarrow> if sc_idle_term s i then Exit else To_idle)"
  have run: "run_dispatch s i q tm = set_pc (if tm then tickle s else s) i p"
    by (simp add: run_dispatch_def Let_def p_def split: option.split)
  have p: "held_fiber p = held_fiber (Picked q tm)" "expected p = expected (Picked q tm)"
    by (auto simp: p_def split: option.split)
  show ?case
    unfolding run using disc_inv_pcD(3) [OF step_dispatch.prems step_dispatch.hyps(2)]
    by (intro disc_inv_move [OF step_dispatch.prems step_dispatch.hyps(2), where p = p])
       (simp_all add: step_dispatch.hyps p)
next
  case (step_resume s i t)
  note pcD = disc_inv_pcD [OF step_resume.prems step_resume.hyps(2)]
  have ready: "sc_fib s f = READY" if "st_fiber t = Some f" for f
    using pcD(3) [of f READY] that step_resume.hyps(3) by simp
  show ?case
    using step_resume.hyps ready
    by (intro disc_inv_move [OF step_resume.prems step_resume.hyps(2), where p = "Running t"])
       (auto simp: run_resume_def split: option.split)
next
  case (step_give_back s i t finished)
  then show ?case
    by (intro disc_inv_move [OF step_give_back.prems step_give_back.hyps(2), where p = "Returning t"])
       (auto simp: run_give_back_def split: option.split)
next
  case (step_return s i t)
  then show ?case
    by (intro disc_inv_move [OF step_return.prems step_return.hyps(2), where p = Pick])
       (auto simp: run_return_def)
next
  case (step_idle s i)
  then show ?case
    by (intro disc_inv_move [OF step_idle.prems step_idle.hyps(2), where p = Idle])
       (auto simp: idle_enter_def)
next
  case (step_idle_yield s i)
  then show ?case
    by (intro disc_inv_move [OF step_idle_yield.prems step_idle_yield.hyps(2), where p = Pick])
       (auto simp: idle_leave_def)
next
  case (step_idle_exit s i)
  then show ?case
    by (intro disc_inv_move [OF step_idle_exit.prems step_idle_exit.hyps(2), where p = Pick])
       (auto simp: idle_leave_def)
qed

lemma disc_inv_new: "disc_inv (newScheduler threads fib)"
  by (simp add: disc_inv_def newScheduler_def queued_fibers_def List.map_filter_def)

lemma disc_reach: "(sched_step disciplined)\<^sup>*\<^sup>* s s' \<Longrightarrow> disc_inv s \<Longrightarrow> disc_inv s'"
  by (induction rule: rtranclp_induct) (auto intro: disc_inv_step)

section \<open>Leaving the loop\<close>

lemma exit_step:
  assumes "sched_step ok s s'" and "\<forall>i. sc_pc s i = Exit \<longrightarrow> sc_idle_term s i"
    and "\<forall>i. sc_idle_term s i \<longrightarrow> sc_stopping s"
  shows "(\<forall>i. sc_pc s' i = Exit \<longrightarrow> sc_idle_term s' i) \<and> (\<forall>i. sc_idle_term s' i \<longrightarrow> sc_stopping s')"
  using assms
  by (induction rule: sched_step.induct)
     (auto simp: schedule_push_def sched_stop_def run_pick_def run_dispatch_def run_resume_def
        run_give_back_def run_return_def idle_enter_def idle_leave_def sched_stopping_def Let_def
        split: sum.splits option.splits if_splits)

lemma exit_reach:
  "(sched_step ok)\<^sup>*\<^sup>* (newScheduler threads fib) s \<Longrightarrow>
    (\<forall>i. sc_pc s i = Exit \<longrightarrow> sc_idle_term s i) \<and> (\<forall>i. sc_idle_term s i \<longrightarrow> sc_stopping s)"
proof (induction rule: rtranclp_induct)
  case base
  show ?case by (simp add: newScheduler_def)
next
  case (step s s')
  with exit_step show ?case by blast
qed

section \<open>Properties\<close>

text \<open>C2: whatever tasks are scheduled and however the threads interleave, no task is lost or run
  twice: the accepted tasks are exactly those queued, in a thread's hands or finished;
  \<open>m_activeThreadCount\<close> is the number of tasks in hand and \<open>m_idleThreadCount\<close> the number of
  threads inside \<open>idle\<close>; and a thread only has tasks in hand that are for any thread or for it.\<close>

theorem sched_conserves_tasks:
  assumes "(sched_step ok)\<^sup>*\<^sup>* (newScheduler threads fib) s" and "finite threads"
  shows "sc_scheduled s = mset (sc_tasks s) + (\<Sum>i\<in>sc_threads s. held (sc_pc s i)) + sc_done s \<and>
         sc_active s = size (\<Sum>i\<in>sc_threads s. held (sc_pc s i)) \<and>
         sc_idle s = (\<Sum>i\<in>sc_threads s. idling (sc_pc s i)) \<and>
         (\<forall>i. \<forall>t \<in># held (sc_pc s i). st_thread t = - 1 \<or> st_thread t = i)"
  using sched_reach_inv [OF assms(1) sched_inv_new [OF assms(2)]]
  by (simp add: sched_inv_def in_flight_def eligible_def)

text \<open>A run: one callback is scheduled and thread 1 takes it.\<close>

definition cb_task :: "nat ScheduleTask" where
  "cb_task = task_of_cb (Some 3) (- 1)"

lemma run_one_pick:
  "(sched_step (\<lambda>_ _. True))\<^sup>*\<^sup>* (newScheduler {1} (\<lambda>_. READY))
     (run_pick (schedule_push (newScheduler {1} (\<lambda>_. READY)) cb_task) 1)"
proof -
  let ?s0 = "newScheduler {1} (\<lambda>_. READY) :: nat sched"
  have "sched_step (\<lambda>_ _. True) ?s0 (schedule_push ?s0 cb_task)"
    by (rule step_schedule) (simp_all add: newScheduler_def)
  moreover have "sched_step (\<lambda>_ _. True) (schedule_push ?s0 cb_task)
      (run_pick (schedule_push ?s0 cb_task) 1)"
    by (rule step_pick) (simp_all add: newScheduler_def schedule_push_def)
  ultimately show ?thesis by (meson rtranclp.rtrancl_into_rtrancl rtranclp.rtrancl_refl)
qed

theorem sched_conserves_tasks_witness:
  "let s = run_pick (schedule_push (newScheduler {1} (\<lambda>_. READY)) cb_task) 1 in
   sc_scheduled s = {#cb_task#} \<and> sc_active s = 1 \<and>
   sc_scheduled s = mset (sc_tasks s) + (\<Sum>i\<in>sc_threads s. held (sc_pc s i)) + sc_done s"
  using sched_conserves_tasks [OF run_one_pick]
  by (simp add: Let_def newScheduler_def schedule_push_def scheduleNoLock_def run_pick_def cb_task_def
      task_of_cb_def task_live_def)



text \<open>Without that discipline the assertion on the state of a queued fiber can fail: if a running
  fiber is scheduled before it has yielded (as \<open>addEvent\<close> followed by an event on another thread
  does), a second thread takes it and aborts.\<close>

theorem sched_running_fiber_aborts:
  "\<exists>s :: nat sched. (sched_step (\<lambda>_ _. True))\<^sup>*\<^sup>* (newScheduler {1, 2} (\<lambda>_. READY)) s \<and>
     sc_failed s = Some (Assertion ''it->fiber->getState() == Fiber::READY'')"
proof -
  let ?R = "sched_step (\<lambda>_ _. True) :: nat sched \<Rightarrow> nat sched \<Rightarrow> bool"
  define t :: "nat ScheduleTask" where "t = task_of_fiber (Some 7) (- 1)"
  define s0 :: "nat sched" where "s0 = newScheduler {1, 2} (\<lambda>_. READY)"
  define s1 where "s1 = schedule_push s0 t"
  define s2 where "s2 = run_pick s1 1"
  define s3 where "s3 = run_dispatch s2 1 (Some t) False"
  define s4 where "s4 = run_resume s3 1 t"
  define s5 where "s5 = schedule_push s4 t"
  define s6 where "s6 = run_pick s5 2"
  note defs = t_def s0_def s1_def s2_def s3_def s4_def s5_def s6_def newScheduler_def schedule_push_def
    scheduleNoLock_def task_of_fiber_def task_live_def run_pick_def run_dispatch_def run_resume_def
  have "?R s0 s1" unfolding s1_def by (rule step_schedule) (simp_all add: defs)
  moreover have "?R s1 s2" unfolding s2_def by (rule step_pick) (simp_all add: defs)
  moreover have "?R s2 s3" unfolding s3_def by (rule step_dispatch) (simp_all add: defs)
  moreover have "?R s3 s4" unfolding s4_def by (rule step_resume) (simp_all add: defs)
  moreover have "?R s4 s5" unfolding s5_def by (rule step_schedule) (simp_all add: defs)
  moreover have "?R s5 s6" unfolding s6_def by (rule step_pick) (simp_all add: defs)
  ultimately have "?R\<^sup>*\<^sup>* s0 s6" by (meson rtranclp.rtrancl_into_rtrancl rtranclp.rtrancl_refl)
  moreover have "sc_failed s6 = Some (Assertion ''it->fiber->getState() == Fiber::READY'')"
    by (simp add: defs)
  ultimately show ?thesis unfolding s0_def by blast
qed


text \<open>A thread takes the first queued task that is for any thread or for it, passing over tasks
  for other threads, takes none only if there is no such task, keeps the others in order, and
  asks for another wake-up exactly when tasks are left.\<close>

theorem find_task_first_eligible:
  assumes "find_task st tid ts = Inr (p, rest, tickle_me)"
  shows "case p of
           None \<Rightarrow> rest = ts \<and> (\<forall>t \<in> set ts. \<not> eligible tid t) \<and> tickle_me = (rest \<noteq> [])
         | Some t \<Rightarrow> (\<exists>pre suf. ts = pre @ t # suf \<and> rest = pre @ suf \<and> eligible tid t \<and>
             (\<forall>u \<in> set pre. \<not> eligible tid u) \<and> tickle_me = (rest \<noteq> []))"
proof (cases p)
  case None
  with find_task_None [of st tid ts rest tickle_me] assms show ?thesis by simp
next
  case (Some t)
  with find_task_Some [of st tid ts t rest tickle_me] assms show ?thesis by auto
qed

theorem find_task_first_eligible_witness:
  "case Some cb_task of
     None \<Rightarrow> [] = [cb_task] \<and> (\<forall>t \<in> set [cb_task]. \<not> eligible 4 t) \<and> False = ([] \<noteq> ([] :: nat ScheduleTask list))
   | Some t \<Rightarrow> (\<exists>pre suf. [cb_task] = pre @ t # suf \<and> [] = pre @ suf \<and> eligible 4 t \<and>
       (\<forall>u \<in> set pre. \<not> eligible 4 u) \<and> False = ([] \<noteq> ([] :: nat ScheduleTask list)))"
  by (rule find_task_first_eligible [of "\<lambda>_. READY"])
     (simp add: cb_task_def task_of_cb_def task_live_def)

text \<open>No thread leaves \<open>run\<close> before \<open>stop\<close> was called.\<close>

theorem sched_exit_after_stop:
  assumes "(sched_step ok)\<^sup>*\<^sup>* (newScheduler threads fib) s" and "sc_pc s i = Exit"
  shows "sc_stopping s"
  using exit_reach [OF assms(1)] assms(2) by blast

theorem sched_exit_after_stop_witness:
  "\<exists>s :: nat sched. (sched_step (\<lambda>_ _. True))\<^sup>*\<^sup>* (newScheduler {1} (\<lambda>_. READY)) s \<and>
     sc_pc s 1 = Exit \<and> sc_stopping s"
proof -
  let ?R = "sched_step (\<lambda>_ _. True) :: nat sched \<Rightarrow> nat sched \<Rightarrow> bool"
  define s0 :: "nat sched" where "s0 = newScheduler {1} (\<lambda>_. READY)"
  define s1 where "s1 = s0\<lparr>sc_stopping := True\<rparr>"
  define s2 where "s2 = run_pick s1 1"
  define s3 where "s3 = run_dispatch s2 1 None False"
  define s4 where "s4 = idle_enter s3 1"
  define s5 where "s5 = idle_leave s4 1 True"
  define s6 where "s6 = run_pick s5 1"
  define s7 where "s7 = run_dispatch s6 1 None False"
  note defs = s0_def s1_def s2_def s3_def s4_def s5_def s6_def s7_def newScheduler_def run_pick_def
    run_dispatch_def idle_enter_def idle_leave_def sched_stopping_def sched_stop_def
  have "sched_stop s0 = s1" by (simp add: defs)
  then have "?R s0 s1" using step_stop [of s0] by (simp add: s0_def newScheduler_def)
  moreover have "?R s1 s2" unfolding s2_def by (rule step_pick) (simp_all add: defs)
  moreover have "?R s2 s3" unfolding s3_def by (rule step_dispatch) (simp_all add: defs)
  moreover have "?R s3 s4" unfolding s4_def by (rule step_idle) (simp_all add: defs)
  moreover have "?R s4 s5" unfolding s5_def by (rule step_idle_exit) (simp_all add: defs)
  moreover have "?R s5 s6" unfolding s6_def by (rule step_pick) (simp_all add: defs)
  moreover have "?R s6 s7" unfolding s7_def by (rule step_dispatch) (simp_all add: defs)
  ultimately have reach: "?R\<^sup>*\<^sup>* s0 s7" by (meson rtranclp.rtrancl_into_rtrancl rtranclp.rtrancl_refl)
  have "sc_pc s7 1 = Exit" by (simp add: defs)
  with sched_exit_after_stop [OF reach [unfolded s0_def]] reach show ?thesis unfolding s0_def by blast
qed

end
