(* ===== verification/Lamb_Timer.thy ===== *)
theory Lamb_Timer
  imports Lamb_Prelude
begin

text \<open>
  \<open>lamb/timer.cc\<close>. A \<open>Timer::ptr\<close> is the address of a timer (\<open>None\<close> for a null pointer) and the
  timers live in a heap; the \<open>std::set\<close> ordered by \<open>Timer::Comparator\<close> is the list of its
  elements in iteration order. \<open>GetElapsedMS ()\<close> is the argument \<open>now\<close> of the operations that
  read the clock, and the address \<open>new Timer\<close> returns is an argument too. Deadlines are
  64-bit words, so their arithmetic wraps as in the source.

  The operations of an ordered set are generic in the comparison; the locale \<open>total_cmp\<close>
  proves their laws for every strict total order and is interpreted on the comparator.
\<close>

section \<open>Ordered sets\<close>

definition set_lower_bound :: "('a \<Rightarrow> 'a \<Rightarrow> bool) \<Rightarrow> 'a list \<Rightarrow> 'a \<Rightarrow> 'a list" where
  "set_lower_bound lt xs x = dropWhile (\<lambda>e. lt e x) xs"

definition set_find :: "('a \<Rightarrow> 'a \<Rightarrow> bool) \<Rightarrow> 'a list \<Rightarrow> 'a \<Rightarrow> 'a option" where
  "set_find lt xs x =
     (case set_lower_bound lt xs x of [] \<Rightarrow> None | e # _ \<Rightarrow> if lt x e then None else Some e)"

definition set_insert :: "('a \<Rightarrow> 'a \<Rightarrow> bool) \<Rightarrow> 'a \<Rightarrow> 'a list \<Rightarrow> 'a list" where
  "set_insert lt x xs =
     (if set_find lt xs x = None
      then takeWhile (\<lambda>e. lt e x) xs @ x # set_lower_bound lt xs x else xs)"

locale total_cmp =
  fixes lt :: "'a \<Rightarrow> 'a \<Rightarrow> bool"
  assumes lt_irrefl: "\<not> lt x x"
    and lt_trans: "lt x y \<Longrightarrow> lt y z \<Longrightarrow> lt x z"
    and lt_total: "lt x y \<or> x = y \<or> lt y x"
begin

lemma lt_asym: "lt x y \<Longrightarrow> \<not> lt y x"
  using lt_irrefl lt_trans by blast

lemma sorted_distinct: "sorted_wrt lt xs \<Longrightarrow> distinct xs"
  by (induction xs) (auto simp: lt_irrefl)

lemma dropWhile_down:
  assumes "sorted_wrt lt xs" and "\<forall>x \<in> set xs. \<forall>y \<in> set xs. lt x y \<longrightarrow> P y \<longrightarrow> P x"
  shows "dropWhile P xs = filter (\<lambda>x. \<not> P x) xs" and "takeWhile P xs = filter P xs"
  using assms by (induction xs) (auto simp: filter_id_conv filter_empty_conv)

lemma takeWhile_below: "sorted_wrt lt xs \<Longrightarrow> takeWhile (\<lambda>e. lt e x) xs = filter (\<lambda>e. lt e x) xs"
  using lt_trans by (intro dropWhile_down) auto

lemma lower_bound_above:
  "sorted_wrt lt xs \<Longrightarrow> set_lower_bound lt xs x = filter (\<lambda>e. \<not> lt e x) xs"
  unfolding set_lower_bound_def using lt_trans by (intro dropWhile_down) auto

lemma find_iff:
  assumes "sorted_wrt lt xs"
  shows "set_find lt xs x = (if x \<in> set xs then Some x else None)"
proof (cases "set_lower_bound lt xs x")
  case Nil
  then have "x \<notin> set xs"
    unfolding lower_bound_above [OF assms] by (auto simp: filter_empty_conv lt_irrefl)
  with Nil show ?thesis by (simp add: set_find_def)
next
  case (Cons e es)
  have "sorted_wrt lt (e # es)"
    using sorted_wrt_filter [OF assms] Cons unfolding lower_bound_above [OF assms] by metis
  then have above: "\<And>y. y \<in> set es \<Longrightarrow> lt e y" by simp
  have set: "set (e # es) = {y \<in> set xs. \<not> lt y x}"
    using Cons unfolding lower_bound_above [OF assms] by (metis set_filter)
  then have e: "e \<in> set xs" "\<not> lt e x" by auto
  show ?thesis
  proof (cases "lt x e")
    case True
    have "x \<notin> set xs"
    proof
      assume "x \<in> set xs"
      with set lt_irrefl have "x \<in> set (e # es)" by auto
      with above True lt_asym lt_irrefl show False by auto
    qed
    with Cons True show ?thesis by (simp add: set_find_def)
  next
    case False
    with e lt_total have "e = x" by blast
    with Cons False e show ?thesis by (simp add: set_find_def)
  qed
qed

lemma set_insert_set:
  assumes "sorted_wrt lt xs"
  shows "set (set_insert lt x xs) = insert x (set xs)"
  using find_iff [OF assms, of x] takeWhile_below [OF assms, of x] lower_bound_above [OF assms, of x]
  by (auto simp: set_insert_def)

lemma set_insert_sorted:
  assumes "sorted_wrt lt xs"
  shows "sorted_wrt lt (set_insert lt x xs)"
proof (cases "x \<in> set xs")
  case True
  with assms show ?thesis by (simp add: set_insert_def find_iff)
next
  case False
  then have ins: "set_insert lt x xs
      = filter (\<lambda>e. lt e x) xs @ x # filter (\<lambda>e. \<not> lt e x) xs"
    by (simp add: set_insert_def find_iff [OF assms] takeWhile_below [OF assms] lower_bound_above [OF assms])
  have "lt x e" if "e \<in> set xs" "\<not> lt e x" for e
    using lt_total [of x e] that False by blast
  then show ?thesis
    unfolding ins sorted_wrt_append using assms lt_trans
    by (auto simp: sorted_wrt_filter)
qed

lemma insert_front:
  assumes "sorted_wrt lt xs"
  shows "hd (set_insert lt x xs) = x \<longleftrightarrow> (\<forall>y \<in> set xs. y = x \<or> lt x y)"
proof -
  let ?ys = "set_insert lt x xs"
  note s = set_insert_sorted [OF assms, of x] and mem = set_insert_set [OF assms, of x]
  have "?ys \<noteq> []" using mem by auto
  then obtain y ys where ys: "?ys = y # ys" by (cases ?ys) auto
  have above: "\<And>z. z \<in> set ys \<Longrightarrow> lt y z" using s ys by simp
  show ?thesis
  proof
    assume "hd ?ys = x"
    with ys above mem show "\<forall>y \<in> set xs. y = x \<or> lt x y" by auto
  next
    assume least: "\<forall>y \<in> set xs. y = x \<or> lt x y"
    show "hd ?ys = x"
    proof (rule ccontr)
      assume "hd ?ys \<noteq> x"
      with ys mem have "x \<in> set ys" and "y \<in> set xs" by auto
      then have "lt y x" and "y = x \<or> lt x y"
        using above least by auto
      then show False
        using lt_asym lt_irrefl by auto
    qed
  qed
qed

end

section \<open>Data\<close>

text \<open>
  A callback is the closure given by the user, or \<open>std::bind (&OnTimer, weak_cond, cb)\<close> of a
  condition timer. An empty \<open>std::function\<close> is \<open>None\<close>.
\<close>

datatype 'cb timer_cb = Plain 'cb | OnTimer nat 'cb

record 'cb timer =
  t_recurring :: bool
  t_ms :: u64
  t_next :: u64
  t_cb :: "'cb timer_cb option"

type_synonym 'cb theap = "nat \<Rightarrow> 'cb timer option"

record 'cb timer_manager =
  tm_heap :: "'cb theap"
  tm_timers :: "nat list"
  tm_tickled :: bool
  tm_previouseTime :: u64

definition next_of :: "'cb theap \<Rightarrow> nat \<Rightarrow> u64" where
  "next_of h a = (case h a of None \<Rightarrow> 0 | Some t \<Rightarrow> t_next t)"

definition Comparator :: "'cb theap \<Rightarrow> nat option \<Rightarrow> nat option \<Rightarrow> bool" where
  "Comparator h lhs rhs =
     (case lhs of
        None \<Rightarrow> (case rhs of None \<Rightarrow> False | Some _ \<Rightarrow> True)
      | Some l \<Rightarrow>
          (case rhs of
             None \<Rightarrow> False
           | Some r \<Rightarrow>
               if next_of h l < next_of h r then True
               else if next_of h r < next_of h l then False
               else l < r))"

definition tless :: "'cb theap \<Rightarrow> nat \<Rightarrow> nat \<Rightarrow> bool" where
  "tless h a b = Comparator h (Some a) (Some b)"

section \<open>Operations\<close>

definition newTimerManager :: "u64 \<Rightarrow> 'cb timer_manager" where
  "newTimerManager now =
     \<lparr>tm_heap = (\<lambda>_. None), tm_timers = [], tm_tickled = False, tm_previouseTime = now\<rparr>"

text \<open>\<open>addTimer (val, lock)\<close>; the flag is whether \<open>onTimerInsertedAtFront\<close> is called.\<close>

definition addTimer_locked :: "'cb timer_manager \<Rightarrow> nat \<Rightarrow> bool \<times> 'cb timer_manager" where
  "addTimer_locked m v =
     (let timers = set_insert (tless (tm_heap m)) v (tm_timers m);
          at_front = (hd timers = v \<and> \<not> tm_tickled m) in
      (at_front, m\<lparr>tm_timers := timers, tm_tickled := (if at_front then True else tm_tickled m)\<rparr>))"

definition addTimer ::
  "u64 \<Rightarrow> nat \<Rightarrow> 'cb timer_manager \<Rightarrow> u64 \<Rightarrow> 'cb timer_cb option \<Rightarrow> bool \<Rightarrow> bool \<times> 'cb timer_manager" where
  "addTimer now addr m ms cb recurring =
     addTimer_locked
       (m\<lparr>tm_heap := (tm_heap m)(addr \<mapsto>
            \<lparr>t_recurring = recurring, t_ms = ms, t_next = now + ms, t_cb = cb\<rparr>)\<rparr>) addr"

definition addConditionTimer ::
  "u64 \<Rightarrow> nat \<Rightarrow> 'cb timer_manager \<Rightarrow> u64 \<Rightarrow> 'cb \<Rightarrow> nat \<Rightarrow> bool \<Rightarrow> bool \<times> 'cb timer_manager" where
  "addConditionTimer now addr m ms cb weak_cond recurring =
     addTimer now addr m ms (Some (OnTimer weak_cond cb)) recurring"

text \<open>What running a callback calls: \<open>OnTimer\<close> first locks its weak pointer.\<close>

fun run_timer_cb :: "(nat \<Rightarrow> bool) \<Rightarrow> 'cb timer_cb \<Rightarrow> 'cb option" where
  "run_timer_cb alive (Plain cb) = Some cb"
| "run_timer_cb alive (OnTimer weak_cond cb) = (if alive weak_cond then Some cb else None)"

definition the_timer :: "'cb timer_manager \<Rightarrow> nat \<Rightarrow> 'cb timer res" where
  "the_timer m a = (case tm_heap m a of None \<Rightarrow> Inl (Bad_access ''timer'') | Some t \<Rightarrow> Inr t)"

text \<open>\<open>erase\<close> of \<open>end ()\<close> is undefined.\<close>

definition timer_cancel :: "'cb timer_manager \<Rightarrow> nat \<Rightarrow> (bool \<times> 'cb timer_manager) res" where
  "timer_cancel m a =
     bindR (the_timer m a) (\<lambda>t.
       if t_cb t \<noteq> None then
         let h = (tm_heap m)(a \<mapsto> t\<lparr>t_cb := None\<rparr>) in
         (case set_find (tless h) (tm_timers m) a of
            None \<Rightarrow> Inl (Undefined ''erase of end'')
          | Some e \<Rightarrow> Inr (True, m\<lparr>tm_heap := h, tm_timers := remove1 e (tm_timers m)\<rparr>))
       else Inr (False, m))"

definition timer_refresh :: "u64 \<Rightarrow> 'cb timer_manager \<Rightarrow> nat \<Rightarrow> (bool \<times> 'cb timer_manager) res" where
  "timer_refresh now m a =
     bindR (the_timer m a) (\<lambda>t.
       if t_cb t = None then Inr (False, m)
       else case set_find (tless (tm_heap m)) (tm_timers m) a of
         None \<Rightarrow> Inr (False, m)
       | Some e \<Rightarrow>
           let h = (tm_heap m)(a \<mapsto> t\<lparr>t_next := now + t_ms t\<rparr>) in
           Inr (True, m\<lparr>tm_heap := h,
                        tm_timers := set_insert (tless h) a (remove1 e (tm_timers m))\<rparr>))"

definition timer_reset ::
  "u64 \<Rightarrow> 'cb timer_manager \<Rightarrow> nat \<Rightarrow> u64 \<Rightarrow> bool \<Rightarrow> (bool \<times> bool \<times> 'cb timer_manager) res" where
  "timer_reset now m a ms from_now =
     bindR (the_timer m a) (\<lambda>t.
       if ms = t_ms t \<and> \<not> from_now then Inr (True, False, m)
       else if t_cb t = None then Inr (False, False, m)
       else case set_find (tless (tm_heap m)) (tm_timers m) a of
         None \<Rightarrow> Inr (False, False, m)
       | Some e \<Rightarrow>
           let start = (if from_now then now else t_next t - t_ms t);
               h = (tm_heap m)(a \<mapsto> t\<lparr>t_ms := ms, t_next := ms + start\<rparr>);
               (front, m') = addTimer_locked
                  (m\<lparr>tm_heap := h, tm_timers := remove1 e (tm_timers m)\<rparr>) a in
           Inr (True, front, m'))"

definition getNextTimer :: "u64 \<Rightarrow> 'cb timer_manager \<Rightarrow> u64 \<times> 'cb timer_manager" where
  "getNextTimer now m =
     (let m = m\<lparr>tm_tickled := False\<rparr> in
      case tm_timers m of
        [] \<Rightarrow> (NOT 0, m)
      | a # _ \<Rightarrow> if next_of (tm_heap m) a \<le> now then (0, m) else (next_of (tm_heap m) a - now, m))"

definition hasTimer :: "'cb timer_manager \<Rightarrow> bool" where
  "hasTimer m \<longleftrightarrow> tm_timers m \<noteq> []"

definition detectClockRollover :: "u64 \<Rightarrow> 'cb timer_manager \<Rightarrow> bool \<times> 'cb timer_manager" where
  "detectClockRollover now m =
     (now < tm_previouseTime m \<and> now < tm_previouseTime m - 60 * 60 * 1000,
      m\<lparr>tm_previouseTime := now\<rparr>)"

text \<open>The final loop of \<open>listExpiredCb\<close> over the expired timers.\<close>

fun rearm :: "u64 \<Rightarrow> 'cb timer_manager \<Rightarrow> nat list \<Rightarrow> 'cb timer_cb option list \<times> 'cb timer_manager" where
  "rearm now m [] = ([], m)"
| "rearm now m (a # as) =
     (case tm_heap m a of
        None \<Rightarrow> rearm now m as
      | Some t \<Rightarrow>
          let m' = (if t_recurring t
                    then let h = (tm_heap m)(a \<mapsto> t\<lparr>t_next := now + t_ms t\<rparr>) in
                         m\<lparr>tm_heap := h, tm_timers := set_insert (tless h) a (tm_timers m)\<rparr>
                    else m\<lparr>tm_heap := (tm_heap m)(a \<mapsto> t\<lparr>t_cb := None\<rparr>)\<rparr>);
              (cbs, m'') = rearm now m' as in
          (t_cb t # cbs, m''))"

text \<open>\<open>now_timer\<close> is the address of the temporary timer that stands for the current time.\<close>

definition expired_split :: "u64 \<Rightarrow> nat \<Rightarrow> 'cb theap \<Rightarrow> nat list \<Rightarrow> bool \<Rightarrow> nat list \<times> nat list" where
  "expired_split now now_timer h timers rollover =
     (let h' = h(now_timer \<mapsto> \<lparr>t_recurring = False, t_ms = 0, t_next = now, t_cb = None\<rparr>);
          it = (if rollover then [] else set_lower_bound (tless h') timers now_timer);
          rest = dropWhile (\<lambda>e. next_of h e = now) it in
      (take (length timers - length rest) timers, rest))"

definition listExpiredCb ::
  "u64 \<Rightarrow> nat \<Rightarrow> 'cb timer_manager \<Rightarrow> 'cb timer_cb option list \<times> 'cb timer_manager" where
  "listExpiredCb now now_timer m =
     (case tm_timers m of
        [] \<Rightarrow> ([], m)
      | first # _ \<Rightarrow>
          let (rollover, m) = detectClockRollover now m in
          if \<not> rollover \<and> now < next_of (tm_heap m) first then ([], m)
          else let (expired, rest) = expired_split now now_timer (tm_heap m) (tm_timers m) rollover in
            rearm now (m\<lparr>tm_timers := rest\<rparr>) expired)"

section \<open>The comparator is a strict total order\<close>

lemma tless_eq:
  "tless h a b \<longleftrightarrow> next_of h a < next_of h b \<or> next_of h a = next_of h b \<and> a < b"
  by (auto simp: tless_def Comparator_def)

interpretation tmo: total_cmp "tless h" for h :: "'cb theap"
  by unfold_locales (auto simp: tless_eq)

lemma Comparator_simps [simp]:
  "Comparator h None (Some b)"
  "\<not> Comparator h x None"
  "Comparator h (Some a) (Some b) \<longleftrightarrow> tless h a b"
  by (auto simp: Comparator_def tless_def split: option.splits)

interpretation cmpo: total_cmp "Comparator h" for h :: "'cb theap"
proof unfold_locales
  fix x y z :: "nat option"
  show "\<not> Comparator h x x"
    by (cases x) (simp_all add: tmo.lt_irrefl)
  show "Comparator h x y \<or> x = y \<or> Comparator h y x"
    using tmo.lt_total by (cases x; cases y) auto
  show "Comparator h x y \<Longrightarrow> Comparator h y z \<Longrightarrow> Comparator h x z"
    using tmo.lt_trans by (cases x; cases y; cases z) auto
qed

section \<open>The invariant of a timer manager\<close>

text \<open>
  The set is ordered by the comparator, its elements are live timers, and every timer that
  still has a callback is in the set.
\<close>

definition tm_inv :: "'cb timer_manager \<Rightarrow> bool" where
  "tm_inv m \<longleftrightarrow>
     sorted_wrt (tless (tm_heap m)) (tm_timers m) \<and> set (tm_timers m) \<subseteq> dom (tm_heap m) \<and>
     (\<forall>a t. tm_heap m a = Some t \<longrightarrow> t_cb t \<noteq> None \<longrightarrow> a \<in> set (tm_timers m))"

lemma next_of_upd_other [simp]: "a \<noteq> b \<Longrightarrow> next_of (h(a \<mapsto> t)) b = next_of h b"
  by (simp add: next_of_def)

lemma next_of_upd_same [simp]: "next_of (h(a \<mapsto> t)) a = t_next t"
  by (simp add: next_of_def)

lemma sorted_tless_cong:
  assumes "\<And>a. a \<in> set xs \<Longrightarrow> next_of h a = next_of h' a"
  shows "sorted_wrt (tless h) xs \<longleftrightarrow> sorted_wrt (tless h') xs"
  using assms by (induction xs) (auto simp: tless_eq)

lemma sorted_tless_upd:
  "a \<notin> set xs \<or> t_next t = next_of h a \<Longrightarrow>
    sorted_wrt (tless (h(a \<mapsto> t))) xs \<longleftrightarrow> sorted_wrt (tless h) xs"
  by (rule sorted_tless_cong) (auto simp: next_of_def)

lemma sorted_remove1: "sorted_wrt lt xs \<Longrightarrow> sorted_wrt lt (remove1 a xs)"
  by (induction xs) (auto dest: notin_set_remove1)

lemma set_remove1_sorted: "sorted_wrt (tless h) xs \<Longrightarrow> set (remove1 a xs) = set xs - {a}"
  by (simp add: set_remove1_eq tmo.sorted_distinct)

lemma tm_inv_new: "tm_inv (newTimerManager now)"
  by (simp add: tm_inv_def newTimerManager_def)

text \<open>Putting a timer (back) into the set after its fields changed.\<close>

lemma tm_inv_put:
  assumes "sorted_wrt (tless h) xs" and "set xs \<subseteq> dom h" and "a \<notin> set xs"
    and "\<forall>b t. h b = Some t \<longrightarrow> t_cb t \<noteq> None \<longrightarrow> b = a \<or> b \<in> set xs"
    and heap: "tm_heap m = h(a \<mapsto> t)" and timers: "tm_timers m = set_insert (tless (h(a \<mapsto> t))) a xs"
  shows "tm_inv m" and "set (tm_timers m) = insert a (set xs)"
proof -
  have sorted: "sorted_wrt (tless (h(a \<mapsto> t))) xs"
    using assms(1,3) by (simp add: sorted_tless_upd)
  show mem: "set (tm_timers m) = insert a (set xs)"
    unfolding timers by (rule tmo.set_insert_set [OF sorted])
  have "sorted_wrt (tless (tm_heap m)) (tm_timers m)"
    unfolding heap timers by (rule tmo.set_insert_sorted [OF sorted])
  moreover have "set (tm_timers m) \<subseteq> dom (tm_heap m)"
    using assms(2) by (auto simp: mem heap)
  moreover have "\<forall>b t. tm_heap m b = Some t \<longrightarrow> t_cb t \<noteq> None \<longrightarrow> b \<in> set (tm_timers m)"
    using assms(4) by (auto simp: mem heap)
  ultimately show "tm_inv m"
    by (simp add: tm_inv_def)
qed

lemma tm_inv_remove:
  assumes "tm_inv m"
  shows "sorted_wrt (tless (tm_heap m)) (remove1 a (tm_timers m))"
    and "set (remove1 a (tm_timers m)) \<subseteq> dom (tm_heap m)"
    and "a \<notin> set (remove1 a (tm_timers m))"
    and "\<forall>b t. tm_heap m b = Some t \<longrightarrow> t_cb t \<noteq> None \<longrightarrow> b = a \<or> b \<in> set (remove1 a (tm_timers m))"
  using assms sorted_remove1 [of "tless (tm_heap m)" "tm_timers m" a]
    set_remove1_sorted [of "tm_heap m" "tm_timers m" a]
  by (auto simp: tm_inv_def)

lemma addTimer_inv:
  assumes "tm_inv m" and "tm_heap m addr = None" and "addTimer now addr m ms cb recurring = (front, m')"
  shows "tm_inv m'" and "set (tm_timers m') = insert addr (set (tm_timers m))"
    and "front \<longleftrightarrow> \<not> tm_tickled m \<and> (\<forall>b \<in> set (tm_timers m). now + ms < next_of (tm_heap m) b \<or>
            now + ms = next_of (tm_heap m) b \<and> addr < b)"
    and "tm_tickled m' \<longleftrightarrow> tm_tickled m \<or> front"
proof -
  let ?t = "\<lparr>t_recurring = recurring, t_ms = ms, t_next = now + ms, t_cb = cb\<rparr>"
  let ?h = "(tm_heap m)(addr \<mapsto> ?t)"
  have fresh: "addr \<notin> set (tm_timers m)" and s: "sorted_wrt (tless (tm_heap m)) (tm_timers m)"
    and dom: "set (tm_timers m) \<subseteq> dom (tm_heap m)"
    and cb: "\<forall>b t. tm_heap m b = Some t \<longrightarrow> t_cb t \<noteq> None \<longrightarrow> b = addr \<or> b \<in> set (tm_timers m)"
    using assms(1,2) by (auto simp: tm_inv_def)
  have m': "tm_heap m' = ?h" "tm_timers m' = set_insert (tless ?h) addr (tm_timers m)"
    "tm_tickled m' \<longleftrightarrow> tm_tickled m \<or> front"
    and front: "front \<longleftrightarrow> hd (set_insert (tless ?h) addr (tm_timers m)) = addr \<and> \<not> tm_tickled m"
    using assms(3) by (auto simp: addTimer_def addTimer_locked_def Let_def)
  show "tm_inv m'" and "set (tm_timers m') = insert addr (set (tm_timers m))"
    and "tm_tickled m' \<longleftrightarrow> tm_tickled m \<or> front"
    using tm_inv_put [OF s dom fresh cb m'(1,2)] m'(3) by simp_all
  have "sorted_wrt (tless ?h) (tm_timers m)"
    using s fresh by (simp add: sorted_tless_upd)
  note tmo.insert_front [OF this, of addr]
  moreover have "b = addr \<or> tless ?h addr b \<longleftrightarrow>
      now + ms < next_of (tm_heap m) b \<or> now + ms = next_of (tm_heap m) b \<and> addr < b"
    if "b \<in> set (tm_timers m)" for b
    using that fresh by (cases "b = addr") (simp_all add: tless_eq)
  ultimately show "front \<longleftrightarrow> \<not> tm_tickled m \<and> (\<forall>b \<in> set (tm_timers m).
      now + ms < next_of (tm_heap m) b \<or> now + ms = next_of (tm_heap m) b \<and> addr < b)"
    unfolding front by blast
qed

lemma timer_cancel_ok:
  assumes inv: "tm_inv m" and t: "tm_heap m a = Some t"
  shows "\<exists>m'. timer_cancel m a = Inr (t_cb t \<noteq> None, m') \<and> tm_inv m' \<and>
           tm_heap m' = (tm_heap m)(a \<mapsto> t\<lparr>t_cb := None\<rparr>) \<and>
           set (tm_timers m') = (if t_cb t = None then set (tm_timers m) else set (tm_timers m) - {a})"
proof (cases "t_cb t = None")
  case True
  then have "t\<lparr>t_cb := None\<rparr> = t" by simp
  with True t inv show ?thesis
    by (auto simp: timer_cancel_def the_timer_def fun_upd_idem)
next
  case False
  let ?h = "(tm_heap m)(a \<mapsto> t\<lparr>t_cb := None\<rparr>)"
  have mem: "a \<in> set (tm_timers m)" and s: "sorted_wrt (tless (tm_heap m)) (tm_timers m)"
    using inv False t by (auto simp: tm_inv_def)
  have s': "sorted_wrt (tless ?h) (tm_timers m)"
    using s t by (subst sorted_tless_upd) (simp_all add: next_of_def)
  have run: "timer_cancel m a
      = Inr (True, m\<lparr>tm_heap := ?h, tm_timers := remove1 a (tm_timers m)\<rparr>)"
    using False t mem by (simp add: timer_cancel_def the_timer_def Let_def tmo.find_iff [OF s'])
  have "tm_inv (m\<lparr>tm_heap := ?h, tm_timers := remove1 a (tm_timers m)\<rparr>)"
    using inv sorted_remove1 [OF s', of a] set_remove1_sorted [OF s, of a]
    by (auto simp: tm_inv_def)
  moreover from False obtain y where "t_cb t = Some y" by blast
  ultimately show ?thesis
    using run set_remove1_sorted [OF s, of a] by simp
qed

lemma timer_refresh_ok:
  assumes inv: "tm_inv m" and t: "tm_heap m a = Some t"
  shows "\<exists>m'. timer_refresh now m a = Inr (t_cb t \<noteq> None, m') \<and> tm_inv m' \<and>
           tm_heap m' = (if t_cb t = None then tm_heap m
                         else (tm_heap m)(a \<mapsto> t\<lparr>t_next := now + t_ms t\<rparr>)) \<and>
           set (tm_timers m') = set (tm_timers m)"
proof (cases "t_cb t = None")
  case True
  with t inv show ?thesis
    by (simp add: timer_refresh_def the_timer_def)
next
  case False
  let ?h = "(tm_heap m)(a \<mapsto> t\<lparr>t_next := now + t_ms t\<rparr>)"
  let ?m' = "m\<lparr>tm_heap := ?h, tm_timers := set_insert (tless ?h) a (remove1 a (tm_timers m))\<rparr>"
  have mem: "a \<in> set (tm_timers m)" and s: "sorted_wrt (tless (tm_heap m)) (tm_timers m)"
    using inv False t by (auto simp: tm_inv_def)
  have "tm_heap ?m' = ?h" "tm_timers ?m' = set_insert (tless ?h) a (remove1 a (tm_timers m))"
    by simp_all
  note put = tm_inv_put [OF tm_inv_remove [OF inv] this]
  have "timer_refresh now m a = Inr (True, ?m')"
    using False t mem by (simp add: timer_refresh_def the_timer_def Let_def tmo.find_iff [OF s])
  with put False mem set_remove1_sorted [OF s, of a] show ?thesis
    by auto
qed

lemma timer_reset_ok:
  assumes inv: "tm_inv m" and t: "tm_heap m a = Some t"
    and change: "ms \<noteq> t_ms t \<or> from_now"
  shows "\<exists>front m'. timer_reset now m a ms from_now = Inr (t_cb t \<noteq> None, front, m') \<and> tm_inv m' \<and>
           tm_heap m' = (if t_cb t = None then tm_heap m else (tm_heap m)(a \<mapsto>
             t\<lparr>t_ms := ms, t_next := ms + (if from_now then now else t_next t - t_ms t)\<rparr>)) \<and>
           set (tm_timers m') = set (tm_timers m)"
proof (cases "t_cb t = None")
  case True
  with t inv change show ?thesis
    by (auto simp: timer_reset_def the_timer_def)
next
  case False
  let ?t = "t\<lparr>t_ms := ms, t_next := ms + (if from_now then now else t_next t - t_ms t)\<rparr>"
  let ?h = "(tm_heap m)(a \<mapsto> ?t)"
  have mem: "a \<in> set (tm_timers m)" and s: "sorted_wrt (tless (tm_heap m)) (tm_timers m)"
    using inv False t by (auto simp: tm_inv_def)
  obtain front m' where loc: "addTimer_locked
      (m\<lparr>tm_heap := ?h, tm_timers := remove1 a (tm_timers m)\<rparr>) a = (front, m')" by fastforce
  then have "tm_heap m' = ?h" "tm_timers m' = set_insert (tless ?h) a (remove1 a (tm_timers m))"
    by (auto simp: addTimer_locked_def Let_def)
  note put = tm_inv_put [OF tm_inv_remove [OF inv] this] this(1)
  have "timer_reset now m a ms from_now = Inr (True, front, m')"
    using False t mem change loc
    by (simp only: timer_reset_def the_timer_def Let_def tmo.find_iff [OF s] option.simps bindR.simps)
       auto
  with put False mem set_remove1_sorted [OF s, of a] show ?thesis
    by auto
qed

section \<open>Expired timers\<close>

lemma dropWhile_suffix_take:
  "take (length xs - length (filter (\<lambda>x. \<not> P x) xs)) xs = filter P xs"
  if "xs = filter P xs @ filter (\<lambda>x. \<not> P x) xs"
  using that by (metis append_eq_conv_conj length_append add_diff_cancel_right')

lemma expired_split_eq:
  assumes s: "sorted_wrt (tless h) xs" and fresh: "nt \<notin> set xs"
  shows "expired_split now nt h xs False
           = (filter (\<lambda>a. next_of h a \<le> now) xs, filter (\<lambda>a. \<not> next_of h a \<le> now) xs)"
    and "expired_split now nt h xs True = (xs, [])"
proof -
  let ?h = "h(nt \<mapsto> \<lparr>t_recurring = False, t_ms = 0, t_next = now, t_cb = None\<rparr>)"
  have s': "sorted_wrt (tless ?h) xs"
    using s fresh by (simp add: sorted_tless_upd)
  have same: "next_of ?h a = next_of h a" if "a \<in> set xs" for a
    using that fresh by (cases "a = nt") simp_all
  let ?it = "set_lower_bound (tless ?h) xs nt"
  have it: "?it = filter (\<lambda>a. now < next_of h a \<or> now = next_of h a \<and> nt < a) xs"
    unfolding tmo.lower_bound_above [OF s']
  proof (rule filter_cong [OF refl])
    fix x assume x: "x \<in> set xs"
    with fresh have "x \<noteq> nt" by auto
    with same [OF x] show "(\<not> tless ?h x nt) = (now < next_of h x \<or> now = next_of h x \<and> nt < x)"
      by (auto simp: tless_eq)
  qed
  have "sorted_wrt (tless h) ?it"
    unfolding it using s by (rule sorted_wrt_filter)
  then have "dropWhile (\<lambda>e. next_of h e = now) ?it = filter (\<lambda>e. next_of h e \<noteq> now) ?it"
    by (rule tmo.dropWhile_down) (auto simp: it tless_eq)
  then have rest: "dropWhile (\<lambda>e. next_of h e = now) ?it = filter (\<lambda>a. \<not> next_of h a \<le> now) xs"
    unfolding it by (auto simp: not_le intro!: filter_cong)
  have "takeWhile (\<lambda>a. next_of h a \<le> now) xs = filter (\<lambda>a. next_of h a \<le> now) xs"
    and "dropWhile (\<lambda>a. next_of h a \<le> now) xs = filter (\<lambda>a. \<not> next_of h a \<le> now) xs"
    using s by (rule tmo.dropWhile_down; auto simp: tless_eq)+
  then have "xs = filter (\<lambda>a. next_of h a \<le> now) xs @ filter (\<lambda>a. \<not> next_of h a \<le> now) xs"
    by (metis takeWhile_dropWhile_id)
  from dropWhile_suffix_take [OF this] rest
  show "expired_split now nt h xs False
      = (filter (\<lambda>a. next_of h a \<le> now) xs, filter (\<lambda>a. \<not> next_of h a \<le> now) xs)"
    by (simp add: expired_split_def Let_def)
  show "expired_split now nt h xs True = (xs, [])"
    by (simp add: expired_split_def)
qed

text \<open>What becomes of a timer that has fired.\<close>

definition fired :: "u64 \<Rightarrow> 'cb timer \<Rightarrow> 'cb timer" where
  "fired now t = (if t_recurring t then t\<lparr>t_next := now + t_ms t\<rparr> else t\<lparr>t_cb := None\<rparr>)"

definition recurs :: "'cb theap \<Rightarrow> nat \<Rightarrow> bool" where
  "recurs h a \<longleftrightarrow> (case h a of None \<Rightarrow> False | Some t \<Rightarrow> t_recurring t)"

definition cb_of :: "'cb theap \<Rightarrow> nat \<Rightarrow> 'cb timer_cb option" where
  "cb_of h a = (case h a of None \<Rightarrow> None | Some t \<Rightarrow> t_cb t)"

lemma rearm_ok:
  assumes "sorted_wrt (tless (tm_heap m)) (tm_timers m)" and "set (tm_timers m) \<subseteq> dom (tm_heap m)"
    and "distinct as" and "set as \<subseteq> dom (tm_heap m)" and "set as \<inter> set (tm_timers m) = {}"
    and "\<forall>b t. tm_heap m b = Some t \<longrightarrow> t_cb t \<noteq> None \<longrightarrow> b \<in> set as \<union> set (tm_timers m)"
  shows "\<exists>m'. rearm now m as = (map (cb_of (tm_heap m)) as, m') \<and> tm_inv m' \<and>
           tm_heap m' = (\<lambda>a. if a \<in> set as then map_option (fired now) (tm_heap m a) else tm_heap m a) \<and>
           set (tm_timers m') = set (tm_timers m) \<union> {a \<in> set as. recurs (tm_heap m) a} \<and>
           tm_tickled m' = tm_tickled m \<and> tm_previouseTime m' = tm_previouseTime m"
  using assms
proof (induction as arbitrary: m)
  case Nil
  then show ?case by (simp add: tm_inv_def)
next
  case (Cons a as)
  from Cons.prems(4) obtain t where t: "tm_heap m a = Some t" by auto
  have a: "a \<notin> set as" "a \<notin> set (tm_timers m)" using Cons.prems(3,5) by auto
  define h where "h = (tm_heap m)(a \<mapsto> fired now t)"
  define m1 where "m1 = (if t_recurring t
      then m\<lparr>tm_heap := h, tm_timers := set_insert (tless h) a (tm_timers m)\<rparr> else m\<lparr>tm_heap := h\<rparr>)"
  have s: "sorted_wrt (tless h) (tm_timers m)"
    unfolding h_def using Cons.prems(1) a by (simp add: sorted_tless_upd)
  have heap1: "tm_heap m1 = h" and flags: "tm_tickled m1 = tm_tickled m"
      "tm_previouseTime m1 = tm_previouseTime m"
    by (simp_all add: m1_def)
  have set1: "set (tm_timers m1) = set (tm_timers m) \<union> (if t_recurring t then {a} else {})"
    using tmo.set_insert_set [OF s] by (simp add: m1_def)
  have s1: "sorted_wrt (tless (tm_heap m1)) (tm_timers m1)"
    using s tmo.set_insert_sorted [OF s] by (simp add: m1_def)
  have other: "tm_heap m1 b = tm_heap m b" if "b \<in> set as" for b
    using that a by (auto simp: heap1 h_def)
  have "\<exists>m'. rearm now m1 as = (map (cb_of (tm_heap m1)) as, m') \<and> tm_inv m' \<and>
      tm_heap m' = (\<lambda>b. if b \<in> set as then map_option (fired now) (tm_heap m1 b) else tm_heap m1 b) \<and>
      set (tm_timers m') = set (tm_timers m1) \<union> {b \<in> set as. recurs (tm_heap m1) b} \<and>
      tm_tickled m' = tm_tickled m1 \<and> tm_previouseTime m' = tm_previouseTime m1"
  proof (rule Cons.IH [OF s1])
    show "\<forall>b t. tm_heap m1 b = Some t \<longrightarrow> t_cb t \<noteq> None \<longrightarrow> b \<in> set as \<union> set (tm_timers m1)"
      using Cons.prems(6) by (auto simp: heap1 h_def set1 fired_def split: if_splits)
  qed (use Cons.prems a in \<open>auto simp: set1 heap1 h_def\<close>)
  then obtain m' where m': "rearm now m1 as = (map (cb_of (tm_heap m1)) as, m')" "tm_inv m'"
    "tm_heap m' = (\<lambda>b. if b \<in> set as then map_option (fired now) (tm_heap m1 b) else tm_heap m1 b)"
    "set (tm_timers m') = set (tm_timers m1) \<union> {b \<in> set as. recurs (tm_heap m1) b}"
    "tm_tickled m' = tm_tickled m1" "tm_previouseTime m' = tm_previouseTime m1" by blast
  have "rearm now m (a # as) = (t_cb t # map (cb_of (tm_heap m1)) as, m')"
    using t m'(1) by (cases "t_recurring t") (simp_all add: m1_def h_def fired_def Let_def)
  moreover have "map (cb_of (tm_heap m1)) as = map (cb_of (tm_heap m)) as"
    using other by (simp add: cb_of_def)
  moreover have "tm_heap m' = (\<lambda>b. if b \<in> set (a # as) then map_option (fired now) (tm_heap m b) else tm_heap m b)"
    using t a m'(3) by (intro ext) (simp add: heap1 h_def)
  moreover have "set (tm_timers m') = set (tm_timers m) \<union> {b \<in> set (a # as). recurs (tm_heap m) b}"
    using t other m'(4) by (auto simp: set1 recurs_def)
  ultimately show ?case
    using m'(2,5,6) t by (intro exI [of _ m']) (simp add: cb_of_def flags)
qed

lemma listExpiredCb_ok:
  assumes inv: "tm_inv m" and fresh: "nt \<notin> set (tm_timers m)"
    and roll: "fst (detectClockRollover now m) = rollover" and ne: "tm_timers m \<noteq> []"
  shows "\<exists>m'. listExpiredCb now nt m =
             (map (cb_of (tm_heap m)) (filter (\<lambda>a. rollover \<or> next_of (tm_heap m) a \<le> now) (tm_timers m)), m') \<and>
           tm_inv m' \<and>
           tm_heap m' = (\<lambda>a. if a \<in> set (tm_timers m) \<and> (rollover \<or> next_of (tm_heap m) a \<le> now)
                            then map_option (fired now) (tm_heap m a) else tm_heap m a) \<and>
           set (tm_timers m') = {a \<in> set (tm_timers m).
             (rollover \<or> next_of (tm_heap m) a \<le> now) \<longrightarrow> recurs (tm_heap m) a} \<and>
           tm_tickled m' = tm_tickled m \<and> tm_previouseTime m' = now"
proof -
  let ?h = "tm_heap m" and ?xs = "tm_timers m"
  let ?due = "\<lambda>a. rollover \<or> next_of ?h a \<le> now"
  let ?m0 = "m\<lparr>tm_previouseTime := now, tm_timers := filter (\<lambda>a. \<not> ?due a) ?xs\<rparr>"
  have s: "sorted_wrt (tless ?h) ?xs" using inv by (simp add: tm_inv_def)
  have det: "detectClockRollover now m = (rollover, m\<lparr>tm_previouseTime := now\<rparr>)"
    using roll by (auto simp: detectClockRollover_def)
  have split: "expired_split now nt ?h ?xs rollover = (filter ?due ?xs, filter (\<lambda>a. \<not> ?due a) ?xs)"
    using expired_split_eq [OF s fresh] by (cases rollover) simp_all
  from ne obtain x xs where xs: "?xs = x # xs" by (cases ?xs) auto
  have dom: "set ?xs \<subseteq> dom ?h"
    and cb: "\<And>b t. ?h b = Some t \<Longrightarrow> t_cb t \<noteq> None \<Longrightarrow> b \<in> set ?xs"
    using inv by (auto simp: tm_inv_def)
  have h0: "tm_heap ?m0 = ?h" and x0: "tm_timers ?m0 = filter (\<lambda>a. \<not> ?due a) ?xs" by simp_all
  have "sorted_wrt (tless (tm_heap ?m0)) (tm_timers ?m0)"
    unfolding h0 x0 by (rule sorted_wrt_filter [OF s])
  moreover have "set (tm_timers ?m0) \<subseteq> dom (tm_heap ?m0)" "set (filter ?due ?xs) \<subseteq> dom (tm_heap ?m0)"
    "set (filter ?due ?xs) \<inter> set (tm_timers ?m0) = {}"
    unfolding h0 x0 using dom by auto
  moreover have "distinct (filter ?due ?xs)"
    using tmo.sorted_distinct [OF s] by simp
  moreover have "\<forall>b t. tm_heap ?m0 b = Some t \<longrightarrow> t_cb t \<noteq> None \<longrightarrow>
      b \<in> set (filter ?due ?xs) \<union> set (tm_timers ?m0)"
    unfolding h0 x0 using cb by auto
  ultimately have "\<exists>m'. rearm now ?m0 (filter ?due ?xs) = (map (cb_of ?h) (filter ?due ?xs), m') \<and> tm_inv m' \<and>
      tm_heap m' = (\<lambda>a. if a \<in> set (filter ?due ?xs) then map_option (fired now) (?h a) else ?h a) \<and>
      set (tm_timers m') = set (tm_timers ?m0) \<union> {a \<in> set (filter ?due ?xs). recurs ?h a} \<and>
      tm_tickled m' = tm_tickled ?m0 \<and> tm_previouseTime m' = tm_previouseTime ?m0"
    using rearm_ok [of ?m0 "filter ?due ?xs" now] unfolding h0 by blast
  then obtain m' where m': "rearm now ?m0 (filter ?due ?xs) = (map (cb_of ?h) (filter ?due ?xs), m')"
    "tm_inv m'"
    "tm_heap m' = (\<lambda>a. if a \<in> set (filter ?due ?xs) then map_option (fired now) (?h a) else ?h a)"
    "set (tm_timers m') = set (tm_timers ?m0) \<union> {a \<in> set (filter ?due ?xs). recurs ?h a}"
    "tm_tickled m' = tm_tickled ?m0" "tm_previouseTime m' = tm_previouseTime ?m0" by blast
  have "listExpiredCb now nt m = (map (cb_of ?h) (filter ?due ?xs), m')"
  proof (cases "\<not> rollover \<and> now < next_of ?h x")
    case True
    have none: "\<not> ?due a" if "a \<in> set ?xs" for a
      using that s True unfolding xs by (auto simp: tless_eq not_le)
    then have due: "filter ?due ?xs = []" "filter (\<lambda>a. \<not> ?due a) ?xs = ?xs"
      by (simp_all add: filter_empty_conv filter_id_conv)
    from m'(1) have "m' = m\<lparr>tm_previouseTime := now\<rparr>"
      unfolding due by simp
    with True due show ?thesis
      unfolding listExpiredCb_def det by (simp add: xs)
  next
    case False
    then show ?thesis
      using m'(1) split unfolding listExpiredCb_def det by (simp add: xs) (use False in auto)
  qed
  with m' show ?thesis
    by (intro exI [of _ m']) auto
qed

lemma getNextTimer_min:
  assumes inv: "tm_inv m"
  shows "fst (getNextTimer now m) =
           (if tm_timers m = [] then NOT 0
            else let d = Min (next_of (tm_heap m) ` set (tm_timers m)) in if d \<le> now then 0 else d - now)"
    and "tm_inv (snd (getNextTimer now m))" and "\<not> tm_tickled (snd (getNextTimer now m))"
    and "tm_timers (snd (getNextTimer now m)) = tm_timers m"
    and "tm_heap (snd (getNextTimer now m)) = tm_heap m"
proof -
  show "tm_inv (snd (getNextTimer now m))" "\<not> tm_tickled (snd (getNextTimer now m))"
    "tm_timers (snd (getNextTimer now m)) = tm_timers m"
    "tm_heap (snd (getNextTimer now m)) = tm_heap m"
    using inv by (auto simp: getNextTimer_def tm_inv_def Let_def split: list.split)
  show "fst (getNextTimer now m) =
      (if tm_timers m = [] then NOT 0
       else let d = Min (next_of (tm_heap m) ` set (tm_timers m)) in if d \<le> now then 0 else d - now)"
  proof (cases "tm_timers m")
    case Nil
    then show ?thesis by (simp add: getNextTimer_def)
  next
    case (Cons a as)
    have "next_of (tm_heap m) a \<le> next_of (tm_heap m) b" if "b \<in> set as" for b
      using inv that unfolding tm_inv_def Cons by (auto simp: tless_eq)
    then have "Min (next_of (tm_heap m) ` set (tm_timers m)) = next_of (tm_heap m) a"
      unfolding Cons by (intro Min_eqI) auto
    with Cons show ?thesis by (simp add: getNextTimer_def Let_def)
  qed
qed

section \<open>Histories of a timer manager\<close>

text \<open>Every state reached by calls of the public operations, at any times.\<close>

inductive tm_reachable :: "'cb timer_manager \<Rightarrow> bool" where
  tm_init: "tm_reachable (newTimerManager now)"
| tm_add: "tm_reachable m \<Longrightarrow> tm_heap m addr = None \<Longrightarrow>
     tm_reachable (snd (addTimer now addr m ms cb recurring))"
| tm_cancel: "tm_reachable m \<Longrightarrow> timer_cancel m a = Inr (r, m') \<Longrightarrow> tm_reachable m'"
| tm_refresh: "tm_reachable m \<Longrightarrow> timer_refresh now m a = Inr (r, m') \<Longrightarrow> tm_reachable m'"
| tm_reset: "tm_reachable m \<Longrightarrow> timer_reset now m a ms from_now = Inr (r, front, m') \<Longrightarrow> tm_reachable m'"
| tm_next: "tm_reachable m \<Longrightarrow> tm_reachable (snd (getNextTimer now m))"
| tm_expire: "tm_reachable m \<Longrightarrow> tm_heap m nt = None \<Longrightarrow> tm_reachable (snd (listExpiredCb now nt m))"

lemma the_timer_Inr: "the_timer m a = Inr t \<longleftrightarrow> tm_heap m a = Some t"
  by (simp add: the_timer_def split: option.splits)

lemma tm_reachable_tm_inv: "tm_reachable m \<Longrightarrow> tm_inv m"
proof (induction rule: tm_reachable.induct)
  case (tm_init now)
  then show ?case by (rule tm_inv_new)
next
  case (tm_add m addr now ms cb recurring)
  then show ?case using addTimer_inv(1) by (metis prod.collapse)
next
  case (tm_cancel m a r m')
  then obtain t where "tm_heap m a = Some t"
    by (auto simp: timer_cancel_def bindR_Inr_iff the_timer_Inr)
  with tm_cancel timer_cancel_ok [of m a t] show ?case by auto
next
  case (tm_refresh m now a r m')
  then obtain t where "tm_heap m a = Some t"
    by (auto simp: timer_refresh_def bindR_Inr_iff the_timer_Inr)
  with tm_refresh timer_refresh_ok [of m a t now] show ?case by auto
next
  case (tm_reset m now a ms from_now r front m')
  then obtain t where t: "tm_heap m a = Some t"
    by (auto simp: timer_reset_def bindR_Inr_iff the_timer_Inr)
  show ?case
  proof (cases "ms \<noteq> t_ms t \<or> from_now")
    case True
    with t tm_reset timer_reset_ok [of m a t ms from_now now] show ?thesis by auto
  next
    case False
    with t tm_reset show ?thesis by (simp add: timer_reset_def the_timer_def)
  qed
next
  case (tm_next m now)
  then show ?case by (simp add: getNextTimer_min)
next
  case (tm_expire m nt now)
  show ?case
  proof (cases "tm_timers m = []")
    case True
    with tm_expire show ?thesis by (simp add: listExpiredCb_def)
  next
    case False
    from tm_expire have "nt \<notin> set (tm_timers m)" by (auto simp: tm_inv_def)
    from listExpiredCb_ok [OF tm_expire.IH this refl False, of now] obtain cbs m' where
      "listExpiredCb now nt m = (cbs, m')" "tm_inv m'" by blast
    then show ?thesis by simp
  qed
qed

section \<open>Properties\<close>

text \<open>A manager with a recurring and a one-shot timer, both added at time 5.\<close>

definition sample_tm :: "nat timer_manager" where
  "sample_tm =
     \<lparr>tm_heap = (\<lambda>_. None)
        (1 \<mapsto> \<lparr>t_recurring = True, t_ms = 10, t_next = 15, t_cb = Some (Plain 7)\<rparr>,
         2 \<mapsto> \<lparr>t_recurring = False, t_ms = 3, t_next = 8, t_cb = Some (Plain 9)\<rparr>),
      tm_timers = [2, 1], tm_tickled = True, tm_previouseTime = 5\<rparr>"

lemma tm_inv_sample: "tm_inv sample_tm"
  by (auto simp: tm_inv_def sample_tm_def tless_eq next_of_def)

text \<open>C38: in every state reachable by the public operations the timer set is ordered by the
  comparator, holds only live timers and holds every timer that still has a callback;
  consequently \<open>cancel\<close> of a live timer always finds the timer it erases (no \<open>erase (end ())\<close>),
  reports whether there was a callback, clears it and takes the timer out of the set.\<close>

theorem timer_reachable_cancel:
  assumes "tm_reachable m" and "tm_heap m a = Some t"
  shows "tm_inv m \<and> (\<exists>m'. timer_cancel m a = Inr (t_cb t \<noteq> None, m') \<and>
           tm_heap m' = (tm_heap m)(a \<mapsto> t\<lparr>t_cb := None\<rparr>) \<and>
           (t_cb t \<noteq> None \<longrightarrow> set (tm_timers m') = set (tm_timers m) - {a}))"
  using timer_cancel_ok [OF tm_reachable_tm_inv [OF assms(1)] assms(2)]
    tm_reachable_tm_inv [OF assms(1)] by auto

definition one_timer :: "nat timer_manager" where
  "one_timer = snd (addTimer 5 1 (newTimerManager 0) 10 (Some (Plain 7)) True)"

lemma one_timer_facts:
  "tm_reachable one_timer"
  "tm_heap one_timer 1 = Some \<lparr>t_recurring = True, t_ms = 10, t_next = 15, t_cb = Some (Plain 7)\<rparr>"
proof -
  show "tm_reachable one_timer"
    unfolding one_timer_def by (intro tm_reachable.intros) (simp add: newTimerManager_def)
  show "tm_heap one_timer 1 = Some \<lparr>t_recurring = True, t_ms = 10, t_next = 15, t_cb = Some (Plain 7)\<rparr>"
    by (simp add: one_timer_def addTimer_def addTimer_locked_def Let_def)
qed

theorem timer_reachable_cancel_witness:
  "tm_inv one_timer \<and> (\<exists>m'. timer_cancel one_timer 1 = Inr (True, m'))"
  using timer_reachable_cancel [OF one_timer_facts] by auto

text \<open>C6: \<open>listExpiredCb\<close> hands out the callbacks of exactly the timers whose deadline has passed,
  in the order of the set (by deadline), whatever the address of the temporary timer used for
  the search; of these, one-shot timers leave the set and lose their callback, recurring ones
  stay with the deadline \<open>now + m_ms\<close>; every other timer is unchanged. When the clock went
  back by more than an hour all timers count as expired.\<close>

theorem listExpiredCb_exact:
  assumes "tm_inv m" and "nt \<notin> set (tm_timers m)" and "tm_timers m \<noteq> []"
    and "due = (\<lambda>a. fst (detectClockRollover now m) \<or> next_of (tm_heap m) a \<le> now)"
  shows "\<exists>m'. listExpiredCb now nt m = (map (cb_of (tm_heap m)) (filter due (tm_timers m)), m') \<and>
           tm_inv m' \<and>
           tm_heap m' = (\<lambda>a. if a \<in> set (tm_timers m) \<and> due a
                            then map_option (fired now) (tm_heap m a) else tm_heap m a) \<and>
           set (tm_timers m') = {a \<in> set (tm_timers m). due a \<longrightarrow> recurs (tm_heap m) a}"
  using listExpiredCb_ok [OF assms(1,2) refl assms(3), of now] unfolding assms(4) by blast

theorem listExpiredCb_exact_witness:
  "\<exists>m'. listExpiredCb 9 0 sample_tm = ([Some (Plain 9)], m') \<and> tm_inv m' \<and> set (tm_timers m') = {1}"
  using listExpiredCb_exact [OF tm_inv_sample, of 0 _ 9, OF _ _ refl]
  by (auto simp: sample_tm_def detectClockRollover_def next_of_def cb_of_def recurs_def)

text \<open>\<open>getNextTimer\<close> returns all ones without timers, 0 when some timer is due, and otherwise
  the distance to the earliest deadline; it clears the tickle flag and nothing else.\<close>

theorem getNextTimer_exact:
  assumes "tm_inv m"
  shows "fst (getNextTimer now m) =
           (if tm_timers m = [] then NOT 0
            else let d = Min (next_of (tm_heap m) ` set (tm_timers m)) in if d \<le> now then 0 else d - now)
         \<and> snd (getNextTimer now m) = m\<lparr>tm_tickled := False\<rparr>"
proof -
  have "snd (getNextTimer now m) = m\<lparr>tm_tickled := False\<rparr>"
    by (simp add: getNextTimer_def Let_def split: list.split)
  with getNextTimer_min(1) [OF assms] show ?thesis by simp
qed

theorem getNextTimer_exact_witness:
  "fst (getNextTimer 6 sample_tm) = 2 \<and> snd (getNextTimer 6 sample_tm) = sample_tm\<lparr>tm_tickled := False\<rparr>"
  using getNextTimer_exact [OF tm_inv_sample, of 6]
  by (simp add: sample_tm_def next_of_def min_def)

text \<open>\<open>addTimer\<close> keeps the invariant, adds exactly the new timer, and calls
  \<open>onTimerInsertedAtFront\<close> (which interrupts the idle wait) exactly when the new timer comes
  before all others in the set and no such call is pending since the last \<open>getNextTimer\<close>; so
  a timer that shortens the wait computed by \<open>getNextTimer\<close> always interrupts it.\<close>

theorem addTimer_notifies:
  assumes "tm_inv m" and "tm_heap m addr = None" and "addTimer now addr m ms cb recurring = (front, m')"
  shows "tm_inv m' \<and> set (tm_timers m') = insert addr (set (tm_timers m)) \<and>
         (front \<longleftrightarrow> \<not> tm_tickled m \<and> (\<forall>b \<in> set (tm_timers m).
            now + ms < next_of (tm_heap m) b \<or> now + ms = next_of (tm_heap m) b \<and> addr < b)) \<and>
         (tm_tickled m' \<longleftrightarrow> tm_tickled m \<or> front)"
  using addTimer_inv [OF assms] by blast

theorem addTimer_notifies_witness:
  "tm_inv (snd (addTimer 5 3 sample_tm 1 None False)) \<and> \<not> fst (addTimer 5 3 sample_tm 1 None False)"
  using addTimer_notifies [OF tm_inv_sample, of 3 5 1 None False
      "fst (addTimer 5 3 sample_tm 1 None False)" "snd (addTimer 5 3 sample_tm 1 None False)"]
  by (simp add: sample_tm_def)

text \<open>\<open>refresh\<close> and \<open>reset\<close> of a live timer with a callback move its deadline (to
  \<open>now + m_ms\<close>; to \<open>start + ms\<close>, where \<open>start\<close> is now or the previous start) and keep the set
  of timers and the invariant; without a callback they change nothing and return false.\<close>

theorem refresh_reset_deadline:
  assumes "tm_inv m" and "tm_heap m a = Some t" and "ms \<noteq> t_ms t \<or> from_now"
  shows "(\<exists>m'. timer_refresh now m a = Inr (t_cb t \<noteq> None, m') \<and> tm_inv m' \<and>
            set (tm_timers m') = set (tm_timers m) \<and>
            tm_heap m' = (if t_cb t = None then tm_heap m
              else (tm_heap m)(a \<mapsto> t\<lparr>t_next := now + t_ms t\<rparr>))) \<and>
         (\<exists>front m'. timer_reset now m a ms from_now = Inr (t_cb t \<noteq> None, front, m') \<and> tm_inv m' \<and>
            set (tm_timers m') = set (tm_timers m) \<and>
            tm_heap m' = (if t_cb t = None then tm_heap m else (tm_heap m)(a \<mapsto>
              t\<lparr>t_ms := ms, t_next := ms + (if from_now then now else t_next t - t_ms t)\<rparr>)))"
  using timer_refresh_ok [OF assms(1,2), of now] timer_reset_ok [OF assms, of now] by blast

theorem refresh_reset_deadline_witness:
  "(\<exists>m'. timer_refresh 20 sample_tm 2 = Inr (True, m') \<and> tm_inv m' \<and> set (tm_timers m') = {1, 2}) \<and>
   (\<exists>front m'. timer_reset 20 sample_tm 2 30 True = Inr (True, front, m') \<and> tm_inv m' \<and>
     set (tm_timers m') = {1, 2})"
  using refresh_reset_deadline [OF tm_inv_sample, of 2
      "\<lparr>t_recurring = False, t_ms = 3, t_next = 8, t_cb = Some (Plain 9)\<rparr>" 30 True 20]
  by (auto simp: sample_tm_def)

end
