(* ===== verification/Lamb_IOManager.thy ===== *)
theory Lamb_IOManager
  imports Lamb_Scheduler Lamb_Timer
begin

text \<open>
  \<open>lamb/iomanager.cc\<close>: the table of file-descriptor contexts, registration, cancellation and
  triggering of read and write events, and the event loop \<open>idle\<close>. \<open>Event\<close> values are 32-bit
  words and the bit operations are those of the source. A \<open>Scheduler*\<close> is a number; the queue
  of each scheduler is \<open>io_tasks\<close>, changed by \<open>scheduleNoLock\<close>. The kernel is seen through the
  return value \<open>rt\<close> of \<open>epoll_ctl\<close>, an argument of the operations, and \<open>io_interest\<close>, the
  event mask of the last successful \<open>epoll_ctl\<close> on each descriptor (\<open>None\<close> after a deletion).
\<close>

section \<open>Data\<close>

type_synonym Event = u32

definition NONE :: Event where "NONE = 0"
definition READ :: Event where "READ = 1"
definition WRITE :: Event where "WRITE = 4"
definition EPOLLIN :: u32 where "EPOLLIN = 0x001"
definition EPOLLOUT :: u32 where "EPOLLOUT = 0x004"
definition EPOLLERR :: u32 where "EPOLLERR = 0x008"
definition EPOLLHUP :: u32 where "EPOLLHUP = 0x010"
definition EPOLLET :: u32 where "EPOLLET = 0x80000000"

lemmas event_consts = NONE_def READ_def WRITE_def EPOLLIN_def EPOLLOUT_def EPOLLERR_def
  EPOLLHUP_def EPOLLET_def

record 'cb EventContext =
  ec_scheduler :: "nat option"
  ec_fiber :: "nat option"
  ec_cb :: "'cb option"

record 'cb FdContext =
  fc_read :: "'cb EventContext"
  fc_write :: "'cb EventContext"
  fc_fd :: nat
  fc_events :: Event

record 'cb iomanager =
  io_fdContexts :: "'cb FdContext list"
  io_pendingEventCount :: nat
  io_interest :: "nat \<Rightarrow> u32 option"
  io_tasks :: "nat \<Rightarrow> 'cb ScheduleTask list"

definition noEventContext :: "'cb EventContext" where
  "noEventContext = \<lparr>ec_scheduler = None, ec_fiber = None, ec_cb = None\<rparr>"

definition newFdContext :: "nat \<Rightarrow> 'cb FdContext" where
  "newFdContext i = \<lparr>fc_read = noEventContext, fc_write = noEventContext, fc_fd = i, fc_events = NONE\<rparr>"

section \<open>Contexts\<close>

definition getEventContext :: "'cb FdContext \<Rightarrow> Event \<Rightarrow> 'cb EventContext res" where
  "getEventContext ctx event =
     (if event = READ then Inr (fc_read ctx)
      else if event = WRITE then Inr (fc_write ctx)
      else Inl (Assertion ''getContext''))"

definition setEventContext :: "'cb FdContext \<Rightarrow> Event \<Rightarrow> 'cb EventContext \<Rightarrow> 'cb FdContext" where
  "setEventContext ctx event ec =
     (if event = READ then ctx\<lparr>fc_read := ec\<rparr> else if event = WRITE then ctx\<lparr>fc_write := ec\<rparr> else ctx)"

definition resetEventContext :: "'cb EventContext \<Rightarrow> 'cb EventContext" where
  "resetEventContext ec = ec\<lparr>ec_scheduler := None, ec_fiber := None, ec_cb := None\<rparr>"

text \<open>The task of \<open>schedule (ctx.cb)\<close> or \<open>schedule (ctx.fiber)\<close>.\<close>

definition waiting_task :: "'cb EventContext \<Rightarrow> 'cb ScheduleTask" where
  "waiting_task ec = (if ec_cb ec \<noteq> None then task_of_cb (ec_cb ec) (- 1)
                      else task_of_fiber (ec_fiber ec) (- 1))"

definition triggerEvent ::
  "'cb FdContext \<Rightarrow> (nat \<Rightarrow> 'cb ScheduleTask list) \<Rightarrow> Event \<Rightarrow>
    ('cb FdContext \<times> (nat \<Rightarrow> 'cb ScheduleTask list)) res" where
  "triggerEvent ctx tasks event =
     bindR (checkR (fc_events ctx AND event \<noteq> 0) (Assertion ''events & event'')) (\<lambda>_.
     let ctx = ctx\<lparr>fc_events := fc_events ctx AND (NOT event)\<rparr> in
     bindR (getEventContext ctx event) (\<lambda>ec.
       case ec_scheduler ec of
         None \<Rightarrow> Inl Null_deref
       | Some s \<Rightarrow>
           Inr (setEventContext ctx event (resetEventContext ec),
                tasks(s := snd (scheduleNoLock (tasks s) (waiting_task ec))))))"

definition contextResize :: "'cb FdContext list \<Rightarrow> nat \<Rightarrow> 'cb FdContext list" where
  "contextResize ctxs n = take n ctxs @ map newFdContext [length ctxs..<n]"

definition newIOManager :: "'cb iomanager" where
  "newIOManager =
     \<lparr>io_fdContexts = contextResize [] 32, io_pendingEventCount = 0, io_interest = (\<lambda>_. None),
      io_tasks = (\<lambda>_. [])\<rparr>"

section \<open>Operations\<close>

datatype EpollCtlOp = EPOLL_CTL_ADD | EPOLL_CTL_MOD | EPOLL_CTL_DEL

definition epoll_update ::
  "(nat \<Rightarrow> u32 option) \<Rightarrow> EpollCtlOp \<Rightarrow> nat \<Rightarrow> u32 \<Rightarrow> (nat \<Rightarrow> u32 option)" where
  "epoll_update k op fd ev = (case op of EPOLL_CTL_DEL \<Rightarrow> k(fd := None) | _ \<Rightarrow> k(fd \<mapsto> ev))"

text \<open>
  \<open>addEvent\<close>. \<open>this_sched\<close> is \<open>Scheduler::GetThis ()\<close>, \<open>this_fiber\<close> and \<open>fiber_state\<close> are
  \<open>Fiber::GetThis ()\<close> and its state.
\<close>

definition addEvent ::
  "int \<Rightarrow> nat option \<Rightarrow> nat \<Rightarrow> fstate \<Rightarrow> 'cb iomanager \<Rightarrow> int \<Rightarrow> Event \<Rightarrow> 'cb option \<Rightarrow>
    (int \<times> 'cb iomanager) res" where
  "addEvent rt this_sched this_fiber fiber_state m fd event cb =
     (let m = (if int (length (io_fdContexts m)) > fd then m
               else m\<lparr>io_fdContexts := contextResize (io_fdContexts m) (nat (fd * 3 div 2))\<rparr>) in
      if fd < 0 \<or> length (io_fdContexts m) \<le> nat fd then Inl (Bad_access ''m_fdContexts'')
      else let i = nat fd; ctx = io_fdContexts m ! i in
      bindR (checkR (fc_events ctx AND event = 0) (Assertion ''!(fd_ctx->events & event)'')) (\<lambda>_.
      let op = (if fc_events ctx \<noteq> 0 then EPOLL_CTL_MOD else EPOLL_CTL_ADD);
          ev = EPOLLET OR fc_events ctx OR event in
      if rt \<noteq> 0 then Inr (- 1, m)
      else
        let ctx = ctx\<lparr>fc_events := fc_events ctx OR event\<rparr> in
        bindR (getEventContext ctx event) (\<lambda>ec.
        bindR (checkR (ec_scheduler ec = None \<and> ec_fiber ec = None \<and> ec_cb ec = None)
                 (Assertion ''!event_ctx.scheduler && !event_ctx.fiber && !event_ctx.cb'')) (\<lambda>_.
        bindR (checkR (cb \<noteq> None \<or> fiber_state = RUNNING) (Assertion ''state=RUNNING'')) (\<lambda>_.
        let ec = \<lparr>ec_scheduler = this_sched, ec_fiber = (if cb = None then Some this_fiber else None),
                  ec_cb = cb\<rparr> in
        Inr (0, m\<lparr>io_fdContexts := (io_fdContexts m)[i := setEventContext ctx event ec],
                  io_pendingEventCount := io_pendingEventCount m + 1,
                  io_interest := epoll_update (io_interest m) op i ev\<rparr>))))))"

text \<open>The common start of \<open>delEvent\<close>, \<open>cancelEvent\<close> and \<open>cancelAll\<close>: the context of \<open>fd\<close>, if any.\<close>

definition find_ctx :: "'cb iomanager \<Rightarrow> int \<Rightarrow> 'cb FdContext option res" where
  "find_ctx m fd =
     (if int (length (io_fdContexts m)) \<le> fd then Inr None
      else if fd < 0 then Inl (Bad_access ''m_fdContexts'')
      else Inr (Some (io_fdContexts m ! nat fd)))"

definition delEvent :: "int \<Rightarrow> 'cb iomanager \<Rightarrow> int \<Rightarrow> Event \<Rightarrow> (bool \<times> 'cb iomanager) res" where
  "delEvent rt m fd event =
     bindR (find_ctx m fd) (\<lambda>r. case r of
       None \<Rightarrow> Inr (False, m)
     | Some ctx \<Rightarrow>
         if fc_events ctx AND event = 0 then Inr (False, m)
         else
           let new_events = fc_events ctx AND (NOT event);
               op = (if new_events \<noteq> 0 then EPOLL_CTL_MOD else EPOLL_CTL_DEL) in
           if rt \<noteq> 0 then Inr (False, m)
           else
             let ctx = ctx\<lparr>fc_events := new_events\<rparr> in
             bindR (getEventContext ctx event) (\<lambda>ec.
               Inr (True, m\<lparr>io_fdContexts := (io_fdContexts m)[nat fd :=
                              setEventContext ctx event (resetEventContext ec)],
                            io_pendingEventCount := size_sub (io_pendingEventCount m) 1,
                            io_interest := epoll_update (io_interest m) op (nat fd)
                              (EPOLLET OR new_events)\<rparr>)))"

definition cancelEvent :: "int \<Rightarrow> 'cb iomanager \<Rightarrow> int \<Rightarrow> Event \<Rightarrow> (bool \<times> 'cb iomanager) res" where
  "cancelEvent rt m fd event =
     bindR (find_ctx m fd) (\<lambda>r. case r of
       None \<Rightarrow> Inr (False, m)
     | Some ctx \<Rightarrow>
         if fc_events ctx AND event = 0 then Inr (False, m)
         else
           let new_events = fc_events ctx AND (NOT event);
               op = (if new_events \<noteq> 0 then EPOLL_CTL_MOD else EPOLL_CTL_DEL) in
           if rt \<noteq> 0 then Inr (False, m)
           else bindR (triggerEvent ctx (io_tasks m) event) (\<lambda>(ctx, tasks).
             Inr (True, m\<lparr>io_fdContexts := (io_fdContexts m)[nat fd := ctx],
                          io_pendingEventCount := size_sub (io_pendingEventCount m) 1,
                          io_interest := epoll_update (io_interest m) op (nat fd)
                            (EPOLLET OR new_events),
                          io_tasks := tasks\<rparr>)))"

text \<open>\<open>if (cond) { triggerEvent (event); --m_pendingEventCount; }\<close>, on context, queues and count.\<close>

definition trigger_if ::
  "bool \<Rightarrow> Event \<Rightarrow> 'cb FdContext \<times> (nat \<Rightarrow> 'cb ScheduleTask list) \<times> nat \<Rightarrow>
    ('cb FdContext \<times> (nat \<Rightarrow> 'cb ScheduleTask list) \<times> nat) res" where
  "trigger_if c event = (\<lambda>(ctx, tasks, pending).
     if c then bindR (triggerEvent ctx tasks event) (\<lambda>(ctx, tasks).
                 Inr (ctx, tasks, size_sub pending 1))
     else Inr (ctx, tasks, pending))"

definition cancelAll :: "int \<Rightarrow> 'cb iomanager \<Rightarrow> int \<Rightarrow> (bool \<times> 'cb iomanager) res" where
  "cancelAll rt m fd =
     bindR (find_ctx m fd) (\<lambda>r. case r of
       None \<Rightarrow> Inr (False, m)
     | Some ctx \<Rightarrow>
         if fc_events ctx = 0 then Inr (False, m)
         else if rt \<noteq> 0 then Inr (False, m)
         else
           bindR (trigger_if (fc_events ctx AND READ \<noteq> 0) READ
                    (ctx, io_tasks m, io_pendingEventCount m)) (\<lambda>(ctx, tasks, pending).
           bindR (trigger_if (fc_events ctx AND WRITE \<noteq> 0) WRITE (ctx, tasks, pending))
             (\<lambda>(ctx, tasks, pending).
           bindR (checkR (fc_events ctx = 0) (Assertion ''fd_ctx->events == 0'')) (\<lambda>_.
             Inr (True, m\<lparr>io_fdContexts := (io_fdContexts m)[nat fd := ctx],
                          io_pendingEventCount := pending,
                          io_interest := epoll_update (io_interest m) EPOLL_CTL_DEL (nat fd) 0,
                          io_tasks := tasks\<rparr>)))))"

section \<open>The event loop\<close>

text \<open>The events of \<open>event.events\<close> that count, given the registered ones.\<close>

definition real_events :: "Event \<Rightarrow> u32 \<Rightarrow> Event" where
  "real_events registered evs =
     (let evs = (if evs AND (EPOLLERR OR EPOLLHUP) \<noteq> 0
                 then evs OR ((EPOLLIN OR EPOLLOUT) AND registered) else evs) in
      (if evs AND EPOLLIN \<noteq> 0 then READ else NONE) OR (if evs AND EPOLLOUT \<noteq> 0 then WRITE else NONE))"

text \<open>The body of the \<open>for\<close> loop for an event on the context of descriptor \<open>i\<close>.\<close>

definition idle_event :: "int \<Rightarrow> 'cb iomanager \<Rightarrow> nat \<Rightarrow> u32 \<Rightarrow> 'cb iomanager res" where
  "idle_event rt2 m i evs =
     (if length (io_fdContexts m) \<le> i then Inl (Bad_access ''fd_ctx'')
      else let ctx = io_fdContexts m ! i; re = real_events (fc_events ctx) evs in
      if fc_events ctx AND re = NONE then Inr m
      else
        let left_events = fc_events ctx AND (NOT re);
            op = (if left_events \<noteq> 0 then EPOLL_CTL_MOD else EPOLL_CTL_DEL) in
        if rt2 \<noteq> 0 then Inr m
        else
          bindR (trigger_if (re AND WRITE \<noteq> 0) WRITE (ctx, io_tasks m, io_pendingEventCount m))
            (\<lambda>(ctx, tasks, pending).
          bindR (trigger_if (re AND READ \<noteq> 0) READ (ctx, tasks, pending)) (\<lambda>(ctx, tasks, pending).
            Inr (m\<lparr>io_fdContexts := (io_fdContexts m)[i := ctx], io_pendingEventCount := pending,
                   io_interest := epoll_update (io_interest m) op i (EPOLLET OR left_events),
                   io_tasks := tasks\<rparr>))))"

text \<open>The events \<open>epoll_wait\<close> returned, each with the result of its \<open>epoll_ctl\<close>.\<close>

fun idle_events :: "'cb iomanager \<Rightarrow> (int \<times> nat \<times> u32) list \<Rightarrow> 'cb iomanager res" where
  "idle_events m [] = Inr m"
| "idle_events m ((rt2, i, evs) # es) = bindR (idle_event rt2 m i evs) (\<lambda>m. idle_events m es)"

text \<open>The callbacks of expired timers are scheduled on the manager's own queue \<open>self\<close>.\<close>

definition schedule_cbs :: "'cb iomanager \<Rightarrow> nat \<Rightarrow> 'cb option list \<Rightarrow> 'cb iomanager" where
  "schedule_cbs m self cbs =
     m\<lparr>io_tasks := (io_tasks m)(self :=
         fold (\<lambda>cb ts. snd (scheduleNoLock ts (task_of_cb cb (- 1)))) cbs (io_tasks m self))\<rparr>"

text \<open>One iteration of the loop after \<open>epoll_wait\<close>: timers first, then events.\<close>

definition idle_round ::
  "'cb timer_cb iomanager \<Rightarrow> nat \<Rightarrow> 'cb timer_manager \<Rightarrow> u64 \<Rightarrow> nat \<Rightarrow> (int \<times> nat \<times> u32) list \<Rightarrow>
    ('cb timer_cb iomanager \<times> 'cb timer_manager) res" where
  "idle_round m self tm now now_timer es =
     (let (cbs, tm) = listExpiredCb now now_timer tm; m = schedule_cbs m self cbs in
      bindR (idle_events m es) (\<lambda>m. Inr (m, tm)))"

text \<open>The timeout given to \<open>epoll_wait\<close>: \<open>(int) next_timeout\<close> keeps the low 32 bits.\<close>

definition idle_timeout :: "u64 \<Rightarrow> int" where
  "idle_timeout next =
     (let next = (if next \<noteq> NOT 0 then word_of_int (min (sint (ucast next :: u32)) 5000) else 5000) in
      sint (ucast (next :: u64) :: u32))"

definition io_stopping :: "'cb iomanager \<Rightarrow> bool \<Rightarrow> u64 \<Rightarrow> 'tcb timer_manager \<Rightarrow> bool \<times> u64 \<times> 'tcb timer_manager" where
  "io_stopping m sched_stops now tm =
     (let (timeout, tm) = getNextTimer now tm in
      (timeout = NOT 0 \<and> io_pendingEventCount m = 0 \<and> sched_stops, timeout, tm))"

section \<open>The invariant\<close>

definition wf_ctx :: "'cb FdContext \<Rightarrow> bool" where
  "wf_ctx ctx \<longleftrightarrow>
     (fc_events ctx = 0 \<and> fc_read ctx = noEventContext \<and> fc_write ctx = noEventContext \<or>
      fc_events ctx = 1 \<and> fc_write ctx = noEventContext \<or>
      fc_events ctx = 4 \<and> fc_read ctx = noEventContext \<or>
      fc_events ctx = 5) \<and>
     (fc_events ctx AND READ \<noteq> 0 \<longrightarrow> ec_scheduler (fc_read ctx) \<noteq> None \<and>
        (ec_cb (fc_read ctx) \<noteq> None \<or> ec_fiber (fc_read ctx) \<noteq> None)) \<and>
     (fc_events ctx AND WRITE \<noteq> 0 \<longrightarrow> ec_scheduler (fc_write ctx) \<noteq> None \<and>
        (ec_cb (fc_write ctx) \<noteq> None \<or> ec_fiber (fc_write ctx) \<noteq> None))"

definition event_count :: "Event \<Rightarrow> nat" where
  "event_count e = (if e AND READ \<noteq> 0 then 1 else 0) + (if e AND WRITE \<noteq> 0 then 1 else 0)"

definition io_inv :: "'cb iomanager \<Rightarrow> bool" where
  "io_inv m \<longleftrightarrow>
     32 \<le> length (io_fdContexts m) \<and>
     (\<forall>i < length (io_fdContexts m). wf_ctx (io_fdContexts m ! i) \<and> fc_fd (io_fdContexts m ! i) = i \<and>
        io_interest m i = (if fc_events (io_fdContexts m ! i) = 0 then None
                           else Some (EPOLLET OR fc_events (io_fdContexts m ! i)))) \<and>
     (\<forall>i \<ge> length (io_fdContexts m). io_interest m i = None) \<and>
     io_pendingEventCount m = sum_list (map (\<lambda>ctx. event_count (fc_events ctx)) (io_fdContexts m))"

lemma io_inv_new: "io_inv newIOManager"
  by (simp add: io_inv_def newIOManager_def contextResize_def newFdContext_def wf_ctx_def event_count_def
      event_consts sum_list_map_eq_sum_count)

lemma io_inv_update:
  assumes inv: "io_inv m" and i: "i < length (io_fdContexts m)" and "wf_ctx ctx" and "fc_fd ctx = i"
    and pend: "pending + event_count (fc_events (io_fdContexts m ! i))
                 = io_pendingEventCount m + event_count (fc_events ctx)"
    and int: "k = (io_interest m)(i := if fc_events ctx = 0 then None
                                       else Some (EPOLLET OR fc_events ctx))"
  shows "io_inv (m\<lparr>io_fdContexts := (io_fdContexts m)[i := ctx], io_pendingEventCount := pending,
                   io_interest := k, io_tasks := tasks\<rparr>)"
proof -
  let ?f = "\<lambda>ctx. event_count (fc_events ctx)" and ?cs = "io_fdContexts m"
  have le: "?f (?cs ! i) \<le> sum_list (map ?f ?cs)"
    using i by (intro member_le_sum_list) auto
  have "sum_list (map ?f (?cs[i := ctx])) = sum_list (map ?f ?cs) + ?f ctx - ?f (?cs ! i)"
    using i by (simp add: map_update sum_list_update)
  moreover have "io_pendingEventCount m = sum_list (map ?f ?cs)"
    using inv by (simp add: io_inv_def)
  ultimately have "pending = sum_list (map ?f (?cs[i := ctx]))"
    using pend le by linarith
  then show ?thesis
    using inv i assms(3,4) unfolding int by (auto simp: io_inv_def nth_list_update)
qed

definition event_context :: "'cb FdContext \<Rightarrow> Event \<Rightarrow> 'cb EventContext" where
  "event_context ctx ev = (if ev = READ then fc_read ctx else fc_write ctx)"

text \<open>The queues after the waiter of one event was handed to its scheduler.\<close>

definition woken ::
  "'cb FdContext \<Rightarrow> Event \<Rightarrow> (nat \<Rightarrow> 'cb ScheduleTask list) \<Rightarrow> (nat \<Rightarrow> 'cb ScheduleTask list)" where
  "woken ctx ev tasks =
     (let s = the (ec_scheduler (event_context ctx ev)) in
      tasks(s := tasks s @ [waiting_task (event_context ctx ev)]))"

definition cleared :: "'cb FdContext \<Rightarrow> Event \<Rightarrow> 'cb FdContext" where
  "cleared ctx ev = setEventContext (ctx\<lparr>fc_events := fc_events ctx AND (NOT ev)\<rparr>) ev noEventContext"

lemma wf_ctx_cases:
  assumes "wf_ctx ctx"
  obtains "fc_events ctx = 0" | "fc_events ctx = 1" | "fc_events ctx = 4" | "fc_events ctx = 5"
  using assms by (auto simp: wf_ctx_def)

lemma wf_ctx_cleared:
  assumes "wf_ctx ctx" and "ev = READ \<or> ev = WRITE" and "fc_events ctx AND ev \<noteq> 0"
  shows "wf_ctx (cleared ctx ev)" and "fc_fd (cleared ctx ev) = fc_fd ctx"
    and "fc_events (cleared ctx ev) = fc_events ctx AND (NOT ev)"
    and "event_count (fc_events ctx) = Suc (event_count (fc_events (cleared ctx ev)))"
proof -
  show "fc_fd (cleared ctx ev) = fc_fd ctx"
    and events: "fc_events (cleared ctx ev) = fc_events ctx AND (NOT ev)"
    by (simp_all add: cleared_def setEventContext_def)
  show "event_count (fc_events ctx) = Suc (event_count (fc_events (cleared ctx ev)))"
    using assms(2,3) unfolding events
    by (cases rule: wf_ctx_cases [OF assms(1)]) (auto simp: event_consts event_count_def)
  show "wf_ctx (cleared ctx ev)"
    using assms(2)
  proof (elim disjE)
    assume "ev = READ"
    with assms(1,3) show ?thesis
      by (cases rule: wf_ctx_cases [OF assms(1)])
         (simp_all add: cleared_def setEventContext_def wf_ctx_def event_consts)
  next
    assume "ev = WRITE"
    with assms(1,3) show ?thesis
      by (cases rule: wf_ctx_cases [OF assms(1)])
         (simp_all add: cleared_def setEventContext_def wf_ctx_def event_consts)
  qed
qed

lemma event_context_simps [simp]:
  "event_context ctx READ = fc_read ctx" "event_context ctx WRITE = fc_write ctx"
  by (simp_all add: event_context_def event_consts)

lemma wf_ctx_waiting:
  assumes "wf_ctx ctx" and "ev = READ \<or> ev = WRITE" and "fc_events ctx AND ev \<noteq> 0"
  shows "\<exists>s. ec_scheduler (event_context ctx ev) = Some s"
    and "task_live (waiting_task (event_context ctx ev))"
proof -
  have "ec_scheduler (event_context ctx ev) \<noteq> None \<and>
      (ec_cb (event_context ctx ev) \<noteq> None \<or> ec_fiber (event_context ctx ev) \<noteq> None)"
    using assms unfolding wf_ctx_def by auto
  then show "\<exists>s. ec_scheduler (event_context ctx ev) = Some s"
    and "task_live (waiting_task (event_context ctx ev))"
    by (auto simp: waiting_task_def task_live_def task_of_cb_def task_of_fiber_def)
qed

lemma resetEventContext_eq: "resetEventContext ec = noEventContext"
  by (cases ec) (simp add: resetEventContext_def noEventContext_def)

lemma triggerEvent_ok:
  assumes wf: "wf_ctx ctx" and ev: "ev = READ \<or> ev = WRITE" and on: "fc_events ctx AND ev \<noteq> 0"
  shows "triggerEvent ctx tasks ev = Inr (cleared ctx ev, woken ctx ev tasks)"
proof -
  from wf_ctx_waiting [OF wf ev on] obtain s where s: "ec_scheduler (event_context ctx ev) = Some s"
    and live: "task_live (waiting_task (event_context ctx ev))" by blast
  have get: "getEventContext (ctx\<lparr>fc_events := e\<rparr>) ev = Inr (event_context ctx ev)" for e
    using ev by (auto simp: getEventContext_def event_context_def event_consts)
  show ?thesis
    using on s live
    by (simp add: triggerEvent_def get Let_def woken_def cleared_def scheduleNoLock_def
        resetEventContext_eq)
qed

lemma io_inv_ctx:
  assumes "io_inv m" and "i < length (io_fdContexts m)"
  shows "wf_ctx (io_fdContexts m ! i)" and "fc_fd (io_fdContexts m ! i) = i"
    and "io_interest m i = (if fc_events (io_fdContexts m ! i) = 0 then None
           else Some (EPOLLET OR fc_events (io_fdContexts m ! i)))"
    and "event_count (fc_events (io_fdContexts m ! i)) \<le> io_pendingEventCount m"
proof -
  show "wf_ctx (io_fdContexts m ! i)" "fc_fd (io_fdContexts m ! i) = i"
    "io_interest m i = (if fc_events (io_fdContexts m ! i) = 0 then None
       else Some (EPOLLET OR fc_events (io_fdContexts m ! i)))"
    using assms by (simp_all add: io_inv_def)
  have "event_count (fc_events (io_fdContexts m ! i))
      \<le> sum_list (map (\<lambda>ctx. event_count (fc_events ctx)) (io_fdContexts m))"
    using assms(2) by (intro member_le_sum_list) auto
  then show "event_count (fc_events (io_fdContexts m ! i)) \<le> io_pendingEventCount m"
    using assms(1) by (simp add: io_inv_def)
qed

lemma epoll_update_mask:
  "epoll_update k (if e \<noteq> 0 then EPOLL_CTL_MOD else EPOLL_CTL_DEL) i (EPOLLET OR e)
     = k(i := if e = 0 then None else Some (EPOLLET OR e))"
  by (simp add: epoll_update_def)

text \<open>The state after one event of descriptor \<open>i\<close> was taken out, its waiter woken or not.\<close>

definition without_event :: "'cb iomanager \<Rightarrow> nat \<Rightarrow> Event \<Rightarrow> bool \<Rightarrow> 'cb iomanager" where
  "without_event m i ev wake =
     (let ctx = io_fdContexts m ! i in
      m\<lparr>io_fdContexts := (io_fdContexts m)[i := cleared ctx ev],
        io_pendingEventCount := io_pendingEventCount m - 1,
        io_interest := (io_interest m)(i := if fc_events ctx AND (NOT ev) = 0 then None
                          else Some (EPOLLET OR (fc_events ctx AND (NOT ev)))),
        io_tasks := (if wake then woken ctx ev (io_tasks m) else io_tasks m)\<rparr>)"

lemma without_event_inv:
  assumes "io_inv m" and "i < length (io_fdContexts m)" and "ev = READ \<or> ev = WRITE"
    and "fc_events (io_fdContexts m ! i) AND ev \<noteq> 0"
  shows "io_inv (without_event m i ev wake)"
  unfolding without_event_def Let_def
proof (rule io_inv_update [OF assms(1,2)])
  let ?ctx = "io_fdContexts m ! i"
  note ctx = io_inv_ctx [OF assms(1,2)]
  note cl = wf_ctx_cleared [OF ctx(1) assms(3,4)]
  show "wf_ctx (cleared ?ctx ev)" by (rule cl(1))
  show "fc_fd (cleared ?ctx ev) = i" using cl(2) ctx(2) by simp
  show "io_pendingEventCount m - 1 + event_count (fc_events ?ctx)
      = io_pendingEventCount m + event_count (fc_events (cleared ?ctx ev))"
    using cl(4) ctx(4) by simp
  show "(io_interest m)(i := if fc_events ?ctx AND (NOT ev) = 0 then None
          else Some (EPOLLET OR (fc_events ?ctx AND (NOT ev))))
      = (io_interest m)(i := if fc_events (cleared ?ctx ev) = 0 then None
          else Some (EPOLLET OR fc_events (cleared ?ctx ev)))"
    by (simp add: cl(3))
qed

lemma find_ctx_inside:
  "i < length (io_fdContexts m) \<Longrightarrow> find_ctx m (int i) = Inr (Some (io_fdContexts m ! i))"
  by (simp add: find_ctx_def)

lemma delEvent_ok:
  assumes inv: "io_inv m" and i: "i < length (io_fdContexts m)" and ev: "ev = READ \<or> ev = WRITE"
  shows "delEvent rt m (int i) ev =
           (if fc_events (io_fdContexts m ! i) AND ev = 0 \<or> rt \<noteq> 0 then Inr (False, m)
            else Inr (True, without_event m i ev False))"
proof -
  have get: "\<exists>ec. getEventContext ctx ev = Inr ec" for ctx :: "'a FdContext"
    using ev by (auto simp: getEventContext_def event_consts)
  have "1 \<le> io_pendingEventCount m" if "fc_events (io_fdContexts m ! i) AND ev \<noteq> 0"
    using io_inv_ctx(4) [OF inv i] wf_ctx_cleared(4) [OF io_inv_ctx(1) [OF inv i] ev that] by simp
  with get [of "(io_fdContexts m ! i)\<lparr>fc_events := fc_events (io_fdContexts m ! i) AND (NOT ev)\<rparr>"]
  show ?thesis
    by (auto simp: delEvent_def find_ctx_inside [OF i] Let_def without_event_def epoll_update_mask
        resetEventContext_eq cleared_def)
qed

lemma cancelEvent_ok:
  assumes inv: "io_inv m" and i: "i < length (io_fdContexts m)" and ev: "ev = READ \<or> ev = WRITE"
  shows "cancelEvent rt m (int i) ev =
           (if fc_events (io_fdContexts m ! i) AND ev = 0 \<or> rt \<noteq> 0 then Inr (False, m)
            else Inr (True, without_event m i ev True))"
proof (cases "fc_events (io_fdContexts m ! i) AND ev = 0")
  case True
  then show ?thesis by (simp add: cancelEvent_def find_ctx_inside [OF i])
next
  case False
  note ctx = io_inv_ctx [OF inv i]
  have "1 \<le> io_pendingEventCount m"
    using ctx(4) wf_ctx_cleared(4) [OF ctx(1) ev False] by simp
  with False show ?thesis
    by (simp add: cancelEvent_def find_ctx_inside [OF i] Let_def without_event_def epoll_update_mask
        triggerEvent_ok [OF ctx(1) ev False])
qed

lemma trigger_if_ok:
  assumes "wf_ctx ctx" and "ev = READ \<or> ev = WRITE" and "c \<Longrightarrow> fc_events ctx AND ev \<noteq> 0"
  shows "trigger_if c ev (ctx, tasks, pending) =
           Inr (if c then (cleared ctx ev, woken ctx ev tasks, size_sub pending 1) else (ctx, tasks, pending))"
  using triggerEvent_ok [OF assms(1,2)] assms(3) by (simp add: trigger_if_def)

definition take_event :: "bool \<Rightarrow> Event \<Rightarrow> nat \<Rightarrow> 'cb iomanager \<Rightarrow> 'cb iomanager" where
  "take_event c ev i m = (if c then without_event m i ev True else m)"

lemma take_event_length [simp]: "length (io_fdContexts (take_event c ev i m)) = length (io_fdContexts m)"
  by (simp add: take_event_def without_event_def Let_def)

lemma take_event_ctx:
  "i < length (io_fdContexts m) \<Longrightarrow> io_fdContexts (take_event c ev i m) ! i
     = (if c then cleared (io_fdContexts m ! i) ev else io_fdContexts m ! i)"
  by (simp add: take_event_def without_event_def Let_def)

lemma take_event_inv:
  "io_inv m \<Longrightarrow> i < length (io_fdContexts m) \<Longrightarrow> ev = READ \<or> ev = WRITE \<Longrightarrow>
    (c \<Longrightarrow> fc_events (io_fdContexts m ! i) AND ev \<noteq> 0) \<Longrightarrow> io_inv (take_event c ev i m)"
  by (simp add: take_event_def without_event_inv)

lemma fc_events_cleared [simp]: "fc_events (cleared ctx ev) = fc_events ctx AND (NOT ev)"
  by (simp add: cleared_def setEventContext_def)

lemma cancelAll_ok:
  assumes inv: "io_inv m" and i: "i < length (io_fdContexts m)"
  defines "e \<equiv> fc_events (io_fdContexts m ! i)"
  shows "cancelAll rt m (int i) =
           (if e = 0 \<or> rt \<noteq> 0 then Inr (False, m)
            else Inr (True, take_event (e AND WRITE \<noteq> 0) WRITE i (take_event (e AND READ \<noteq> 0) READ i m)))"
proof -
  note ctx = io_inv_ctx [OF inv i]
  let ?ctx = "io_fdContexts m ! i"
  have wf1: "wf_ctx (if e AND READ \<noteq> 0 then cleared ?ctx READ else ?ctx)"
    using wf_ctx_cleared(1) [OF ctx(1)] ctx(1) by (simp add: e_def)
  have t1: "trigger_if (e AND READ \<noteq> 0) READ (?ctx, tasks, pending) =
      Inr (if e AND READ \<noteq> 0 then (cleared ?ctx READ, woken ?ctx READ tasks, size_sub pending 1)
           else (?ctx, tasks, pending))" for tasks pending
    by (rule trigger_if_ok [OF ctx(1)]) (simp_all add: e_def)
  note t2 = trigger_if_ok [where ev = WRITE, simplified]
  have count: "event_count e \<le> io_pendingEventCount m" using ctx(4) by (simp add: e_def)
  from wf_ctx_cases [OF ctx(1)] show ?thesis
  proof cases
    case 1
    then show ?thesis by (simp add: cancelAll_def find_ctx_inside [OF i] e_def)
  next
    case 2
    then have "e = 1" by (simp add: e_def)
    with count t1 i show ?thesis
      by (simp add: cancelAll_def find_ctx_inside [OF i] flip: e_def)
         (simp add: event_consts take_event_def without_event_def Let_def epoll_update_def trigger_if_def
            event_count_def e_def)
  next
    case 3
    then have "e = 4" by (simp add: e_def)
    with count t1 i t2 [OF ctx(1), where c = True and tasks = "io_tasks m"] show ?thesis
      by (simp add: cancelAll_def find_ctx_inside [OF i] flip: e_def)
         (simp add: event_consts take_event_def without_event_def Let_def epoll_update_def trigger_if_def
            event_count_def e_def)
  next
    case 4
    then have e: "e = 5" by (simp add: e_def)
    then have wf: "wf_ctx (cleared ?ctx READ)" using wf1 by (simp add: event_consts)
    have "fc_events (cleared ?ctx READ) AND WRITE \<noteq> 0"
      using 4 by (simp add: event_consts)
    with trigger_if_ok [OF wf, where ev = WRITE and c = True] have tw: "trigger_if True WRITE (cleared ?ctx READ, tasks, pending) =
        Inr (cleared (cleared ?ctx READ) WRITE, woken (cleared ?ctx READ) WRITE tasks, size_sub pending 1)"
      for tasks pending by simp
    have "5 AND READ \<noteq> 0" "(5 AND NOT READ) AND WRITE \<noteq> 0" "5 AND WRITE \<noteq> 0"
      "(5 :: u32) \<noteq> 0" "(5 AND NOT READ) AND NOT WRITE = 0" "5 AND NOT READ \<noteq> 0"
      by (simp_all add: event_consts)
    moreover have "io_pendingEventCount m \<ge> 2"
      using count by (simp add: e event_count_def event_consts)
    ultimately show ?thesis
      using t1 tw e i
      by (simp add: cancelAll_def find_ctx_inside [OF i] take_event_def without_event_def Let_def
          epoll_update_def flip: e_def)
  qed
qed

text \<open>What the kernel reports: only registered kinds of readiness, besides errors and hang-ups.\<close>

definition reported :: "Event \<Rightarrow> u32 \<Rightarrow> bool" where
  "reported registered evs \<longleftrightarrow> evs AND (EPOLLIN OR EPOLLOUT) AND (NOT registered) = 0"

lemma and_1_iff: "x AND 1 = 0 \<longleftrightarrow> \<not> bit (x :: u32) 0"
  using and_exp_eq_0_iff_not_bit [of x 0] by simp

lemma and_4_iff: "x AND 4 = 0 \<longleftrightarrow> \<not> bit (x :: u32) 2"
  using and_exp_eq_0_iff_not_bit [of x 2] by simp

lemma bit_1_u32: "bit (1 :: u32) n \<longleftrightarrow> n = 0"
  by (simp add: bit_1_iff)

lemma bit_4_u32: "bit (4 :: u32) n \<longleftrightarrow> n = 2"
  using bit_exp_iff [of 2 n, where 'a = u32] by auto

lemma bit_5_u32: "bit (5 :: u32) n \<longleftrightarrow> n = 0 \<or> n = 2"
proof -
  have "(5 :: u32) = 1 OR 4" by simp
  then show ?thesis by (simp only: bit_or_iff bit_1_u32 bit_4_u32)
qed

lemma word_zero_iff: "x = 0 \<longleftrightarrow> (\<forall>n < 32. \<not> bit (x :: u32) n)"
  using bit_word_eqI [of x 0] by auto

lemma reported_bits:
  "reported e evs \<longleftrightarrow> (bit evs 0 \<longrightarrow> bit e 0) \<and> (bit evs 2 \<longrightarrow> bit e 2)"
proof -
  have m: "EPOLLIN OR EPOLLOUT = 5" by (simp add: event_consts)
  show ?thesis
    unfolding reported_def m word_zero_iff bit_and_iff bit_not_iff bit_5_u32
  proof (intro iffI conjI impI)
    assume *: "\<forall>n<32. \<not> (bit evs n \<and> (n = 0 \<or> n = 2) \<and> possible_bit TYPE(u32) n \<and> \<not> bit e n)"
    show "bit evs 0 \<Longrightarrow> bit e 0" using * [THEN spec, of 0] by simp
    show "bit evs 2 \<Longrightarrow> bit e 2" using * [THEN spec, of 2] by simp
  next
    assume "(bit evs 0 \<longrightarrow> bit e 0) \<and> (bit evs 2 \<longrightarrow> bit e 2)"
    then show "\<forall>n<32. \<not> (bit evs n \<and> (n = 0 \<or> n = 2) \<and> possible_bit TYPE(u32) n \<and> \<not> bit e n)"
      by metis
  qed
qed

lemma real_events_cases:
  "real_events e evs = (if bit evs 0 \<or> evs AND 24 \<noteq> 0 \<and> bit e 0 then 1 else 0) OR
                       (if bit evs 2 \<or> evs AND 24 \<noteq> 0 \<and> bit e 2 then 4 else 0)"
proof -
  have m: "EPOLLIN OR EPOLLOUT = 5" "EPOLLERR OR EPOLLHUP = 24" by (simp_all add: event_consts)
  have "bit (5 AND e) 0 = bit e 0" "bit (5 AND e) 2 = bit e 2"
    by (simp_all only: bit_and_iff bit_5_u32) simp_all
  then show ?thesis
    unfolding real_events_def m Let_def
    by (auto simp: event_consts and_1_iff and_4_iff bit_or_iff)
qed

lemma real_events_reported:
  assumes "reported e evs" and "e = 0 \<or> e = 1 \<or> e = 4 \<or> e = 5"
  shows "real_events e evs AND READ \<noteq> 0 \<longleftrightarrow> e AND READ \<noteq> 0 \<and> (evs AND EPOLLIN \<noteq> 0 \<or> evs AND (EPOLLERR OR EPOLLHUP) \<noteq> 0)"
    and "real_events e evs AND WRITE \<noteq> 0 \<longleftrightarrow> e AND WRITE \<noteq> 0 \<and> (evs AND EPOLLOUT \<noteq> 0 \<or> evs AND (EPOLLERR OR EPOLLHUP) \<noteq> 0)"
    and "real_events e evs \<in> {0, 1, 4, 5}"
proof -
  have m: "EPOLLERR OR EPOLLHUP = 24" by (simp add: event_consts)
  have c: "READ = 1" "WRITE = 4" "EPOLLIN = 1" "EPOLLOUT = 4" by (simp_all add: event_consts)
  note rb = assms(1) [unfolded reported_bits]
  show "real_events e evs AND READ \<noteq> 0 \<longleftrightarrow>
      e AND READ \<noteq> 0 \<and> (evs AND EPOLLIN \<noteq> 0 \<or> evs AND (EPOLLERR OR EPOLLHUP) \<noteq> 0)"
    using rb unfolding real_events_cases m c and_1_iff by (auto simp: bit_or_iff bit_4_u32)
  show "real_events e evs AND WRITE \<noteq> 0 \<longleftrightarrow>
      e AND WRITE \<noteq> 0 \<and> (evs AND EPOLLOUT \<noteq> 0 \<or> evs AND (EPOLLERR OR EPOLLHUP) \<noteq> 0)"
    using rb unfolding real_events_cases m c and_4_iff by (auto simp: bit_or_iff bit_1_u32 bit_4_u32)
  show "real_events e evs \<in> {0, 1, 4, 5}"
    unfolding real_events_cases by auto
qed

lemma idle_event_ok:
  assumes inv: "io_inv m" and i: "i < length (io_fdContexts m)"
    and rep: "reported (fc_events (io_fdContexts m ! i)) evs"
  defines "e \<equiv> fc_events (io_fdContexts m ! i)"
  defines "r \<equiv> e AND READ \<noteq> 0 \<and> (evs AND EPOLLIN \<noteq> 0 \<or> evs AND (EPOLLERR OR EPOLLHUP) \<noteq> 0)"
  defines "w \<equiv> e AND WRITE \<noteq> 0 \<and> (evs AND EPOLLOUT \<noteq> 0 \<or> evs AND (EPOLLERR OR EPOLLHUP) \<noteq> 0)"
  shows "idle_event rt2 m i evs =
           (if \<not> r \<and> \<not> w \<or> rt2 \<noteq> 0 then Inr m
            else Inr (take_event r READ i (take_event w WRITE i m)))"
proof -
  let ?ctx = "io_fdContexts m ! i"
  define re where "re = real_events e evs"
  note ctx = io_inv_ctx [OF inv i]
  have e: "e = 0 \<or> e = 1 \<or> e = 4 \<or> e = 5"
    using ctx(1) by (cases rule: wf_ctx_cases) (simp_all add: e_def)
  note re = real_events_reported [OF rep [folded e_def] e, folded re_def]
  have rw: "re AND READ \<noteq> 0 \<longleftrightarrow> r" "re AND WRITE \<noteq> 0 \<longleftrightarrow> w"
    using re(1,2) by (simp_all add: r_def w_def)
  have on: "r \<Longrightarrow> e AND READ \<noteq> 0" "w \<Longrightarrow> e AND WRITE \<noteq> 0" by (simp_all add: r_def w_def)
  have re_eq: "re = (if r then READ else 0) OR (if w then WRITE else 0)"
    using re(3) rw by (auto simp: event_consts)
  have t1: "trigger_if w WRITE (?ctx, tasks, pending) =
      Inr (if w then (cleared ?ctx WRITE, woken ?ctx WRITE tasks, size_sub pending 1)
           else (?ctx, tasks, pending))" for tasks pending
    using on(2) by (intro trigger_if_ok [OF ctx(1)]) (simp_all add: e_def)
  have wf1: "wf_ctx (if w then cleared ?ctx WRITE else ?ctx)"
    using wf_ctx_cleared(1) [OF ctx(1)] ctx(1) on(2) by (simp add: e_def)
  have on1: "fc_events (if w then cleared ?ctx WRITE else ?ctx) AND READ \<noteq> 0" if r
    using e on(1) [OF that] by (auto simp: event_consts simp flip: e_def)
  note t2 = trigger_if_ok [OF wf1, of READ r]
  have count: "event_count e \<le> io_pendingEventCount m" using ctx(4) by (simp add: e_def)
  have pend: "w \<Longrightarrow> 1 \<le> io_pendingEventCount m" "r \<Longrightarrow> 1 \<le> io_pendingEventCount m"
    "w \<Longrightarrow> r \<Longrightarrow> 2 \<le> io_pendingEventCount m"
    using count on by (auto simp: event_count_def)
  have left: "(e AND NOT WRITE) AND NOT READ = e AND NOT (READ OR WRITE)"
    by (simp add: event_consts and.assoc)
  have none: "e AND re = NONE \<longleftrightarrow> \<not> r \<and> \<not> w"
    using e on by (auto simp: re_eq event_consts)
  have run: "idle_event rt2 m i evs =
      (if e AND re = NONE \<or> rt2 \<noteq> 0 then Inr m
       else bindR (trigger_if (re AND WRITE \<noteq> 0) WRITE (?ctx, io_tasks m, io_pendingEventCount m))
              (\<lambda>(ctx, tasks, pending).
            bindR (trigger_if (re AND READ \<noteq> 0) READ (ctx, tasks, pending)) (\<lambda>(ctx, tasks, pending).
              Inr (m\<lparr>io_fdContexts := (io_fdContexts m)[i := ctx], io_pendingEventCount := pending,
                     io_interest := (io_interest m)(i := if e AND NOT re = 0 then None
                       else Some (EPOLLET OR (e AND NOT re))),
                     io_tasks := tasks\<rparr>))))"
    using i by (simp add: idle_event_def Let_def epoll_update_mask e_def re_def)
  have take: "take_event True READ i m' = without_event m' i READ True"
    "take_event False READ i m' = m'" "take_event True WRITE i m' = without_event m' i WRITE True"
    "take_event False WRITE i m' = m'" for m' :: "'a iomanager"
    by (simp_all add: take_event_def)
  note we = without_event_def [unfolded Let_def]
  show ?thesis
    using t1 t2 on1 pend left i unfolding run none rw unfolding re_eq
    by (cases r; cases w) (simp_all add: take we e_def [symmetric])
qed

section \<open>Registration\<close>

definition grown :: "'cb iomanager \<Rightarrow> nat \<Rightarrow> 'cb iomanager" where
  "grown m i = (if i < length (io_fdContexts m) then m
                else m\<lparr>io_fdContexts := contextResize (io_fdContexts m) (i * 3 div 2)\<rparr>)"

lemma contextResize_grow:
  "length ctxs \<le> n \<Longrightarrow> contextResize ctxs n = ctxs @ map newFdContext [length ctxs..<n]"
  by (simp add: contextResize_def)

lemma length_contextResize [simp]: "length (contextResize ctxs n) = n"
  by (simp add: contextResize_def)

lemma io_inv_resize:
  assumes "io_inv m" and "length (io_fdContexts m) \<le> n"
  shows "io_inv (m\<lparr>io_fdContexts := contextResize (io_fdContexts m) n\<rparr>)"
proof -
  have "sum_list (map (\<lambda>ctx. event_count (fc_events ctx)) (map newFdContext [length (io_fdContexts m)..<n])) = 0"
    by (simp add: newFdContext_def event_count_def event_consts)
  moreover have "wf_ctx (newFdContext i) \<and> fc_events (newFdContext i) = 0 \<and> fc_fd (newFdContext i) = i" for i
    by (simp add: newFdContext_def wf_ctx_def event_consts)
  ultimately show ?thesis
    using assms by (auto simp: io_inv_def contextResize_grow nth_append simp del: map_map)
qed

lemma grown_ok:
  assumes "io_inv m"
  shows "io_inv (grown m i)" and "i < length (io_fdContexts (grown m i))"
    and "j < length (io_fdContexts m) \<Longrightarrow> io_fdContexts (grown m i) ! j = io_fdContexts m ! j"
    and "io_tasks (grown m i) = io_tasks m"
proof -
  have 32: "32 \<le> length (io_fdContexts m)" using assms by (simp add: io_inv_def)
  have grow: "length (io_fdContexts m) \<le> i * 3 div 2" "i < i * 3 div 2"
    if "\<not> i < length (io_fdContexts m)"
    using that 32 by linarith+
  show "io_inv (grown m i)"
    using assms grow by (simp add: grown_def io_inv_resize)
  show "i < length (io_fdContexts (grown m i))"
    using grow by (simp add: grown_def)
  show "j < length (io_fdContexts m) \<Longrightarrow> io_fdContexts (grown m i) ! j = io_fdContexts m ! j"
    using grow(1) by (simp add: grown_def contextResize_grow nth_append)
  show "io_tasks (grown m i) = io_tasks m" by (simp add: grown_def)
qed

definition with_event :: "'cb iomanager \<Rightarrow> nat \<Rightarrow> Event \<Rightarrow> 'cb EventContext \<Rightarrow> 'cb iomanager" where
  "with_event m i ev ec =
     (let ctx = io_fdContexts m ! i; e = fc_events ctx OR ev in
      m\<lparr>io_fdContexts := (io_fdContexts m)[i := setEventContext (ctx\<lparr>fc_events := e\<rparr>) ev ec],
        io_pendingEventCount := io_pendingEventCount m + 1,
        io_interest := (io_interest m)(i \<mapsto> EPOLLET OR e)\<rparr>)"

lemma with_event_inv:
  assumes inv: "io_inv m" and i: "i < length (io_fdContexts m)" and ev: "ev = READ \<or> ev = WRITE"
    and off: "fc_events (io_fdContexts m ! i) AND ev = 0"
    and ec: "ec_scheduler ec \<noteq> None" "ec_cb ec \<noteq> None \<or> ec_fiber ec \<noteq> None"
  shows "io_inv (with_event m i ev ec)"
proof -
  let ?ctx = "io_fdContexts m ! i"
  let ?new = "setEventContext (?ctx\<lparr>fc_events := fc_events ?ctx OR ev\<rparr>) ev ec"
  note ctx = io_inv_ctx [OF inv i]
  have ev_new: "fc_events ?new = fc_events ?ctx OR ev" "fc_fd ?new = fc_fd ?ctx"
    by (simp_all add: setEventContext_def)
  have count: "event_count (fc_events ?new) = Suc (event_count (fc_events ?ctx))"
    and nz: "fc_events ?new \<noteq> 0"
    using ev off unfolding ev_new
    by (cases rule: wf_ctx_cases [OF ctx(1)]; auto simp: event_consts event_count_def)+
  have "wf_ctx ?new"
    using ev
  proof (elim disjE)
    assume "ev = READ"
    with ctx(1) off ec show ?thesis
      by (cases rule: wf_ctx_cases [OF ctx(1)])
         (simp_all add: setEventContext_def wf_ctx_def event_consts)
  next
    assume "ev = WRITE"
    with ctx(1) off ec show ?thesis
      by (cases rule: wf_ctx_cases [OF ctx(1)])
         (simp_all add: setEventContext_def wf_ctx_def event_consts)
  qed
  from io_inv_update [OF inv i this, of "io_pendingEventCount m + 1"
      "(io_interest m)(i \<mapsto> EPOLLET OR (fc_events ?ctx OR ev))" "io_tasks m"]
  show ?thesis
    using ctx(2) count nz unfolding ev_new by (simp add: with_event_def Let_def)
qed

lemma addEvent_ok:
  assumes inv: "io_inv m" and ev: "ev = READ \<or> ev = WRITE" and cb: "cb \<noteq> None \<or> st = RUNNING"
  shows "addEvent rt this_sched this_fiber st m (int i) ev cb =
           (if fc_events (io_fdContexts (grown m i) ! i) AND ev \<noteq> 0
            then Inl (Assertion ''!(fd_ctx->events & event)'')
            else if rt \<noteq> 0 then Inr (- 1, grown m i)
            else Inr (0, with_event (grown m i) i ev
                   \<lparr>ec_scheduler = this_sched, ec_fiber = (if cb = None then Some this_fiber else None), ec_cb = cb\<rparr>))"
proof -
  let ?m = "grown m i"
  note g = grown_ok [OF inv, of i] and ctx = io_inv_ctx [OF grown_ok(1,2) [OF inv, of i]]
  have size: "nat (int i * 3 div 2) = i * 3 div 2"
    by (simp add: nat_div_distrib nat_mult_distrib)
  have eq: "(if int (length (io_fdContexts m)) > int i then m
      else m\<lparr>io_fdContexts := contextResize (io_fdContexts m) (nat (int i * 3 div 2))\<rparr>) = ?m"
    by (simp add: grown_def size)
  have in_range: "\<not> (int i < 0 \<or> length (io_fdContexts ?m) \<le> nat (int i))" using g(2) by simp
  have clean: "getEventContext ((io_fdContexts ?m ! i)\<lparr>fc_events := e\<rparr>) ev = Inr noEventContext"
    if "fc_events (io_fdContexts ?m ! i) AND ev = 0" for e
    using ev that ctx(1) by (auto simp: getEventContext_def wf_ctx_def event_consts)
  have mask: "epoll_update k (if x \<noteq> 0 then EPOLL_CTL_MOD else EPOLL_CTL_ADD) i y = k(i \<mapsto> y)"
    for k and x y :: u32
    by (simp add: epoll_update_def)
  show ?thesis
    unfolding addEvent_def eq Let_def using in_range cb
    by (simp add: clean checkR_def noEventContext_def with_event_def Let_def mask or.assoc)
qed

section \<open>Histories\<close>

text \<open>
  The states reached by registration from scheduling threads, removal, cancellation, scheduling
  of timer callbacks and events reported by the kernel, each under the lock of its context.
\<close>

inductive io_reachable :: "'cb iomanager \<Rightarrow> bool" where
  io_init: "io_reachable newIOManager"
| io_add: "io_reachable m \<Longrightarrow> ev = READ \<or> ev = WRITE \<Longrightarrow> cb \<noteq> None \<or> st = RUNNING \<Longrightarrow>
    addEvent rt (Some sid) f st m (int i) ev cb = Inr (r, m') \<Longrightarrow> io_reachable m'"
| io_del: "io_reachable m \<Longrightarrow> ev = READ \<or> ev = WRITE \<Longrightarrow>
    delEvent rt m fd ev = Inr (r, m') \<Longrightarrow> io_reachable m'"
| io_cancel: "io_reachable m \<Longrightarrow> ev = READ \<or> ev = WRITE \<Longrightarrow>
    cancelEvent rt m fd ev = Inr (r, m') \<Longrightarrow> io_reachable m'"
| io_cancelAll: "io_reachable m \<Longrightarrow> cancelAll rt m fd = Inr (r, m') \<Longrightarrow> io_reachable m'"
| io_timers: "io_reachable m \<Longrightarrow> io_reachable (schedule_cbs m self cbs)"
| io_event: "io_reachable m \<Longrightarrow> i < length (io_fdContexts m) \<Longrightarrow>
    reported (fc_events (io_fdContexts m ! i)) evs \<Longrightarrow>
    idle_event rt2 m i evs = Inr m' \<Longrightarrow> io_reachable m'"

lemma cancelAll_inv:
  assumes inv: "io_inv m" and i: "i < length (io_fdContexts m)"
  shows "io_inv (take_event (fc_events (io_fdContexts m ! i) AND WRITE \<noteq> 0) WRITE i
                  (take_event (fc_events (io_fdContexts m ! i) AND READ \<noteq> 0) READ i m))"
proof -
  let ?e = "fc_events (io_fdContexts m ! i)"
  let ?m1 = "take_event (?e AND READ \<noteq> 0) READ i m"
  have inv1: "io_inv ?m1" by (rule take_event_inv [OF inv i]) simp_all
  have "fc_events (io_fdContexts ?m1 ! i) AND WRITE \<noteq> 0" if "?e AND WRITE \<noteq> 0"
    using that by (cases rule: wf_ctx_cases [OF io_inv_ctx(1) [OF inv i]])
      (simp_all add: take_event_ctx [OF i] event_consts)
  then show ?thesis
    by (intro take_event_inv [OF inv1]) (use i in simp_all)
qed

lemma idle_event_inv:
  assumes inv: "io_inv m" and i: "i < length (io_fdContexts m)"
    and "r \<Longrightarrow> fc_events (io_fdContexts m ! i) AND READ \<noteq> 0"
    and "w \<Longrightarrow> fc_events (io_fdContexts m ! i) AND WRITE \<noteq> 0"
  shows "io_inv (take_event r READ i (take_event w WRITE i m))"
proof -
  have inv1: "io_inv (take_event w WRITE i m)" by (rule take_event_inv [OF inv i]) (use assms(4) in simp_all)
  have "fc_events (io_fdContexts (take_event w WRITE i m) ! i) AND READ \<noteq> 0" if r
    using assms(3) [OF that] by (cases rule: wf_ctx_cases [OF io_inv_ctx(1) [OF inv i]])
      (simp_all add: take_event_ctx [OF i] event_consts)
  then show ?thesis
    by (intro take_event_inv [OF inv1]) (use i in simp_all)
qed

lemma find_ctx_Inr:
  assumes "find_ctx m fd = Inr r"
  obtains "r = None" | i where "fd = int i" "i < length (io_fdContexts m)"
  using assms by (cases fd) (auto simp: find_ctx_def split: if_splits)

lemma io_reachable_io_inv: "io_reachable m \<Longrightarrow> io_inv m"
proof (induction rule: io_reachable.induct)
  case io_init
  show ?case by (rule io_inv_new)
next
  case (io_add m ev cb st rt sid f i r m')
  note g = grown_ok [OF io_add.IH, of i]
  have "io_inv (with_event (grown m i) i ev \<lparr>ec_scheduler = Some sid,
      ec_fiber = (if cb = None then Some f else None), ec_cb = cb\<rparr>)"
    if "fc_events (io_fdContexts (grown m i) ! i) AND ev = 0"
    by (rule with_event_inv [OF g(1,2) io_add.hyps(2) that]) auto
  with io_add.hyps(4) g(1) show ?case
    unfolding addEvent_ok [OF io_add.IH io_add.hyps(2,3)] by (auto split: if_splits)
next
  case (io_del m ev rt fd r m')
  from io_del.hyps(3) obtain c where "find_ctx m fd = Inr c" by (auto simp: delEvent_def bindR_Inr_iff)
  then show ?case
  proof (cases rule: find_ctx_Inr)
    case 1
    with io_del \<open>find_ctx m fd = Inr c\<close> show ?thesis by (simp add: delEvent_def)
  next
    case (2 i)
    with io_del.hyps(3) io_del.IH without_event_inv [OF io_del.IH 2(2) io_del.hyps(2)] show ?thesis
      by (auto simp: delEvent_ok [OF io_del.IH 2(2) io_del.hyps(2)] split: if_splits)
  qed
next
  case (io_cancel m ev rt fd r m')
  from io_cancel.hyps(3) obtain c where "find_ctx m fd = Inr c" by (auto simp: cancelEvent_def bindR_Inr_iff)
  then show ?case
  proof (cases rule: find_ctx_Inr)
    case 1
    with io_cancel \<open>find_ctx m fd = Inr c\<close> show ?thesis by (simp add: cancelEvent_def)
  next
    case (2 i)
    with io_cancel.hyps(3) io_cancel.IH without_event_inv [OF io_cancel.IH 2(2) io_cancel.hyps(2)] show ?thesis
      by (auto simp: cancelEvent_ok [OF io_cancel.IH 2(2) io_cancel.hyps(2)] split: if_splits)
  qed
next
  case (io_cancelAll m rt fd r m')
  from io_cancelAll.hyps(2) obtain c where "find_ctx m fd = Inr c" by (auto simp: cancelAll_def bindR_Inr_iff)
  then show ?case
  proof (cases rule: find_ctx_Inr)
    case 1
    with io_cancelAll \<open>find_ctx m fd = Inr c\<close> show ?thesis by (simp add: cancelAll_def)
  next
    case (2 i)
    with io_cancelAll.hyps(2) io_cancelAll.IH cancelAll_inv [OF io_cancelAll.IH 2(2)] show ?thesis
      by (auto simp: cancelAll_ok [OF io_cancelAll.IH 2(2)] split: if_splits)
  qed
next
  case (io_timers m self cbs)
  then show ?case by (simp add: io_inv_def schedule_cbs_def)
next
  case (io_event m i evs rt2 m')
  show ?case
    using io_event.hyps(4) io_event.IH
    unfolding idle_event_ok [OF io_event.IH io_event.hyps(2,3)]
    by (auto split: if_splits intro!: idle_event_inv [OF io_event.IH io_event.hyps(2)])
qed

section \<open>Properties\<close>


text \<open>A manager in which fiber 7 of scheduler 1 waits for both events of descriptor 5.\<close>

definition waiter :: "nat EventContext" where
  "waiter = \<lparr>ec_scheduler = Some 1, ec_fiber = Some 7, ec_cb = None\<rparr>"

definition sample_io :: "nat iomanager" where
  "sample_io = with_event (with_event newIOManager 5 READ waiter) 5 WRITE waiter"

lemma length_new [simp]: "length (io_fdContexts newIOManager) = 32"
  by (simp add: newIOManager_def)

lemma nth_new: "i < 32 \<Longrightarrow> io_fdContexts newIOManager ! i = newFdContext i"
  by (simp add: newIOManager_def contextResize_def)

lemma sample_io_ctx:
  "io_fdContexts sample_io ! 5 = \<lparr>fc_read = waiter, fc_write = waiter, fc_fd = 5, fc_events = 5\<rparr>"
  "length (io_fdContexts sample_io) = 32" "io_tasks sample_io = (\<lambda>_. [])"
  "io_pendingEventCount sample_io = 2"
  by (simp_all add: sample_io_def with_event_def Let_def nth_new newFdContext_def setEventContext_def
      event_consts) (simp_all add: newIOManager_def)

lemma io_reachable_sample: "io_reachable sample_io"
proof -
  have r1: "addEvent 0 (Some 1) 7 RUNNING newIOManager (int 5) READ None
      = Inr (0, with_event newIOManager 5 READ waiter)"
    by (subst addEvent_ok [OF io_inv_new])
       (simp_all add: grown_def nth_new newFdContext_def waiter_def event_consts)
  have 1: "io_reachable (with_event newIOManager 5 READ waiter)"
    by (rule io_add [OF io_init _ _ r1]) simp_all
  have "addEvent 0 (Some 1) 7 RUNNING (with_event newIOManager 5 READ waiter) (int 5) WRITE None
      = Inr (0, sample_io)"
    by (subst addEvent_ok [OF io_reachable_io_inv [OF 1]])
       (simp_all add: grown_def with_event_def Let_def nth_new newFdContext_def setEventContext_def
          waiter_def event_consts sample_io_def)
  from io_add [OF 1 _ _ this] show ?thesis by simp
qed


text \<open>\<open>addEvent\<close> of an event not yet registered on the descriptor, from a scheduling thread and
  with a successful \<open>epoll_ctl\<close>, returns 0, grows the table if needed, keeps every other context
  and all queues, records the waiter (callback, or the current fiber) and keeps the invariant;
  a failing \<open>epoll_ctl\<close> gives -1; registering an event twice aborts.\<close>

theorem addEvent_registers:
  assumes "io_inv m" and "ev = READ \<or> ev = WRITE" and "cb \<noteq> None \<or> st = RUNNING"
    and "m1 = grown m i" and "already = (fc_events (io_fdContexts m1 ! i) AND ev \<noteq> 0)"
    and "ec = \<lparr>ec_scheduler = Some s, ec_fiber = (if cb = None then Some f else None), ec_cb = cb\<rparr>"
  shows "addEvent rt (Some s) f st m (int i) ev cb =
           (if already then Inl (Assertion ''!(fd_ctx->events & event)'')
            else if rt \<noteq> 0 then Inr (- 1, m1) else Inr (0, with_event m1 i ev ec)) \<and>
         io_inv m1 \<and> (\<not> already \<longrightarrow> io_inv (with_event m1 i ev ec)) \<and>
         io_tasks (with_event m1 i ev ec) = io_tasks m \<and>
         (\<forall>j < length (io_fdContexts m). j \<noteq> i \<longrightarrow>
            io_fdContexts (with_event m1 i ev ec) ! j = io_fdContexts m ! j)"
proof -
  note g = grown_ok [OF assms(1), of i]
  have "\<not> already \<longrightarrow> io_inv (with_event m1 i ev ec)"
    using with_event_inv [OF g(1,2) assms(2), of ec] assms(4,5,6) by auto
  moreover have "io_tasks (with_event m1 i ev ec) = io_tasks m"
    by (simp add: with_event_def Let_def assms(4) g(4))
  moreover have "io_fdContexts (with_event m1 i ev ec) ! j = io_fdContexts m ! j"
    if "j < length (io_fdContexts m)" "j \<noteq> i" for j
    using that grown_ok(3) [OF assms(1), of j i] by (simp add: with_event_def Let_def assms(4))
  ultimately show ?thesis
    using addEvent_ok [OF assms(1-3), of rt "Some s" f i] g(1) assms(4-6) by simp
qed

theorem addEvent_registers_witness:
  "addEvent 0 (Some 1) 7 RUNNING newIOManager (int 5) READ (None :: nat option)
     = Inr (0, with_event newIOManager 5 READ waiter)"
  using addEvent_registers [OF io_inv_new, of READ None RUNNING "grown newIOManager 5" 5 False
      waiter 1 7 0]
  by (simp add: grown_def nth_new newFdContext_def waiter_def event_consts)

text \<open>\<open>cancelAll\<close> on a descriptor with registered events (and a successful \<open>epoll_ctl\<close>) never
  fails an assertion, hands every waiter of the descriptor to its scheduler exactly once, read
  before write, leaves no event registered and keeps the invariant; \<open>delEvent\<close> removes an event
  without waking its waiter and \<open>cancelEvent\<close> wakes exactly it.\<close>

theorem cancel_wakes_waiters:
  assumes "io_inv m" and "i < length (io_fdContexts m)" and "ev = READ \<or> ev = WRITE"
    and "ctx = io_fdContexts m ! i" and "fc_events ctx AND ev \<noteq> 0"
  shows "(\<exists>m'. cancelAll 0 m (int i) = Inr (True, m') \<and> io_inv m' \<and>
            fc_events (io_fdContexts m' ! i) = 0 \<and>
            io_tasks m' = (let t1 = (if fc_events ctx AND READ \<noteq> 0 then woken ctx READ (io_tasks m) else io_tasks m) in
              if fc_events ctx AND WRITE \<noteq> 0 then woken ctx WRITE t1 else t1)) \<and>
         (\<exists>m'. delEvent 0 m (int i) ev = Inr (True, m') \<and> io_inv m' \<and>
            fc_events (io_fdContexts m' ! i) = fc_events ctx AND (NOT ev) \<and> io_tasks m' = io_tasks m) \<and>
         (\<exists>m'. cancelEvent 0 m (int i) ev = Inr (True, m') \<and> io_inv m' \<and>
            fc_events (io_fdContexts m' ! i) = fc_events ctx AND (NOT ev) \<and>
            io_tasks m' = woken ctx ev (io_tasks m))"
proof (intro conjI)
  let ?m1 = "take_event (fc_events ctx AND READ \<noteq> 0) READ i m"
  let ?m2 = "take_event (fc_events ctx AND WRITE \<noteq> 0) WRITE i ?m1"
  have nz: "fc_events ctx \<noteq> 0" using assms(5) by auto
  have ew: "event_context (cleared ctx READ) WRITE = event_context ctx WRITE"
    by (simp add: cleared_def setEventContext_def event_context_def event_consts)
  then have wk: "woken (cleared ctx READ) WRITE t = woken ctx WRITE t" for t
    by (simp add: woken_def)
  have "cancelAll 0 m (int i) = Inr (True, ?m2)"
    using cancelAll_ok [OF assms(1,2), of 0] nz assms(4) by simp
  moreover have "io_inv ?m2" using cancelAll_inv [OF assms(1,2)] assms(4) by simp
  moreover have "fc_events (io_fdContexts ?m2 ! i) = 0"
    using io_inv_ctx(1) [OF assms(1,2)] assms(2,4)
    by (cases rule: wf_ctx_cases) (simp_all add: take_event_ctx event_consts)
  moreover have "io_tasks ?m2 =
      (let t1 = (if fc_events ctx AND READ \<noteq> 0 then woken ctx READ (io_tasks m) else io_tasks m) in
       if fc_events ctx AND WRITE \<noteq> 0 then woken ctx WRITE t1 else t1)"
    using assms(2,4) wk by (simp add: take_event_def without_event_def Let_def)
  ultimately show "\<exists>m'. cancelAll 0 m (int i) = Inr (True, m') \<and> io_inv m' \<and>
      fc_events (io_fdContexts m' ! i) = 0 \<and> io_tasks m' =
      (let t1 = (if fc_events ctx AND READ \<noteq> 0 then woken ctx READ (io_tasks m) else io_tasks m) in
       if fc_events ctx AND WRITE \<noteq> 0 then woken ctx WRITE t1 else t1)" by blast
next
  show "\<exists>m'. delEvent 0 m (int i) ev = Inr (True, m') \<and> io_inv m' \<and>
      fc_events (io_fdContexts m' ! i) = fc_events ctx AND (NOT ev) \<and> io_tasks m' = io_tasks m"
    using assms delEvent_ok [OF assms(1-3), of 0] without_event_inv [OF assms(1-3)]
    by (intro exI [of _ "without_event m i ev False"]) (simp, simp add: without_event_def Let_def)
next
  show "\<exists>m'. cancelEvent 0 m (int i) ev = Inr (True, m') \<and> io_inv m' \<and>
      fc_events (io_fdContexts m' ! i) = fc_events ctx AND (NOT ev) \<and> io_tasks m' = woken ctx ev (io_tasks m)"
    using assms cancelEvent_ok [OF assms(1-3), of 0] without_event_inv [OF assms(1-3)]
    by (intro exI [of _ "without_event m i ev True"]) (simp, simp add: without_event_def Let_def)
qed

theorem cancel_wakes_waiters_witness:
  "\<exists>m'. cancelAll 0 sample_io (int 5) = Inr (True, m') \<and> fc_events (io_fdContexts m' ! 5) = 0 \<and>
     length (io_tasks m' 1) = 2"
  using cancel_wakes_waiters [OF io_reachable_io_inv [OF io_reachable_sample], of 5 READ, OF _ _ refl]
  by (auto simp: sample_io_ctx woken_def waiter_def event_consts Let_def event_context_def)

text \<open>For an event the kernel reports on a descriptor, the event loop wakes the reader exactly
  when it is registered and the descriptor is readable, in error or hung up, and the writer
  likewise, in the order writer, reader; the events that did not happen stay registered, with
  the kernel too, and no assertion fails.\<close>

theorem idle_event_wakes_ready:
  assumes "io_inv m" and "i < length (io_fdContexts m)" and "ctx = io_fdContexts m ! i"
    and "reported (fc_events ctx) evs"
    and "bad = (evs AND (EPOLLERR OR EPOLLHUP) \<noteq> 0)"
    and "r = (fc_events ctx AND READ \<noteq> 0 \<and> (evs AND EPOLLIN \<noteq> 0 \<or> bad))"
    and "w = (fc_events ctx AND WRITE \<noteq> 0 \<and> (evs AND EPOLLOUT \<noteq> 0 \<or> bad))"
  shows "\<exists>m'. idle_event 0 m i evs = Inr m' \<and> io_inv m' \<and>
           (fc_events (io_fdContexts m' ! i) AND READ \<noteq> 0 \<longleftrightarrow> fc_events ctx AND READ \<noteq> 0 \<and> \<not> r) \<and>
           (fc_events (io_fdContexts m' ! i) AND WRITE \<noteq> 0 \<longleftrightarrow> fc_events ctx AND WRITE \<noteq> 0 \<and> \<not> w) \<and>
           io_tasks m' = (let t1 = (if w then woken ctx WRITE (io_tasks m) else io_tasks m) in
             if r then woken ctx READ t1 else t1)"
proof -
  let ?m1 = "take_event w WRITE i m"
  let ?m2 = "take_event r READ i ?m1"
  have on: "r \<Longrightarrow> fc_events ctx AND READ \<noteq> 0" "w \<Longrightarrow> fc_events ctx AND WRITE \<noteq> 0"
    by (simp_all add: assms(6,7))
  have "event_context (cleared ctx WRITE) READ = event_context ctx READ"
    by (simp add: cleared_def setEventContext_def event_context_def event_consts)
  then have wk: "woken (cleared ctx WRITE) READ t = woken ctx READ t" for t
    by (simp add: woken_def)
  have "idle_event 0 m i evs = (if \<not> r \<and> \<not> w then Inr m else Inr ?m2)"
    using idle_event_ok [OF assms(1,2), of evs 0] assms(3-7) by simp
  then have "idle_event 0 m i evs = Inr ?m2" by (simp add: take_event_def split: if_splits)
  moreover have "io_inv ?m2"
    using on by (intro idle_event_inv [OF assms(1,2)]) (simp_all add: assms(3))
  moreover have "(fc_events (io_fdContexts ?m2 ! i) AND READ \<noteq> 0 \<longleftrightarrow> fc_events ctx AND READ \<noteq> 0 \<and> \<not> r) \<and>
      (fc_events (io_fdContexts ?m2 ! i) AND WRITE \<noteq> 0 \<longleftrightarrow> fc_events ctx AND WRITE \<noteq> 0 \<and> \<not> w)"
    using io_inv_ctx(1) [OF assms(1,2)] assms(2) on unfolding assms(3)
    by (cases rule: wf_ctx_cases) (auto simp: take_event_ctx event_consts)
  moreover have "io_tasks ?m2 = (let t1 = (if w then woken ctx WRITE (io_tasks m) else io_tasks m) in
      if r then woken ctx READ t1 else t1)"
    using assms(2,3) wk by (simp add: take_event_def without_event_def Let_def)
  ultimately show ?thesis by blast
qed

theorem idle_event_wakes_ready_witness:
  "\<exists>m'. idle_event 0 sample_io 5 EPOLLIN = Inr m' \<and> io_inv m' \<and>
     fc_events (io_fdContexts m' ! 5) AND READ = 0 \<and> fc_events (io_fdContexts m' ! 5) AND WRITE \<noteq> 0 \<and>
     length (io_tasks m' 1) = 1"
  using idle_event_wakes_ready [OF io_reachable_io_inv [OF io_reachable_sample], of 5 _ EPOLLIN,
      OF _ refl _ refl refl refl]
  by (auto simp: sample_io_ctx reported_def woken_def waiter_def event_consts Let_def event_context_def)

text \<open>The event loop acts on events it fetched before taking the lock of the context: if another
  thread deletes the write event of descriptor 5 in between, the assertion in \<open>triggerEvent\<close>
  fails although the read event is still registered.\<close>

theorem idle_event_race_aborts:
  "\<exists>m. delEvent 0 sample_io 5 WRITE = Inr (True, m) \<and> io_reachable m \<and>
     idle_event 0 m 5 (EPOLLIN OR EPOLLOUT) = Inl (Assertion ''events & event'')"
proof -
  have inv: "io_inv sample_io" by (rule io_reachable_io_inv [OF io_reachable_sample])
  let ?m = "without_event sample_io 5 WRITE False"
  have del: "delEvent 0 sample_io (int 5) WRITE = Inr (True, ?m)"
    using delEvent_ok [OF inv, of 5 WRITE 0] by (simp add: sample_io_ctx event_consts)
  have "io_fdContexts ?m ! 5 = \<lparr>fc_read = waiter, fc_write = noEventContext, fc_fd = 5, fc_events = 1\<rparr>"
    "length (io_fdContexts ?m) = 32"
    by (simp_all add: without_event_def Let_def sample_io_ctx cleared_def setEventContext_def event_consts)
  then have "idle_event 0 ?m 5 (EPOLLIN OR EPOLLOUT) = Inl (Assertion ''events & event'')"
    by (simp add: idle_event_def Let_def real_events_def event_consts trigger_if_def triggerEvent_def)
  with del io_del [OF io_reachable_sample _ del] show ?thesis by auto
qed

lemma sint_ucast_small: "uint (v :: u64) < 2 ^ 31 \<Longrightarrow> sint (ucast v :: u32) = uint v"
proof -
  assume v: "uint v < 2 ^ 31"
  have "- (2 ^ 31) \<le> (0 :: int)" by simp
  also have "\<dots> \<le> uint v" by simp
  finally have "- (2 ^ 31) \<le> uint v" .
  with v show ?thesis
    by (simp add: signed_ucast_eq signed_take_bit_int_eq_self)
qed

lemma sint_ucast_of_int: "0 \<le> k \<Longrightarrow> k \<le> 5000 \<Longrightarrow> sint (ucast (word_of_int k :: u64) :: u32) = k"
  using sint_ucast_small [of "word_of_int k"] by (simp add: uint_word_of_int take_bit_int_eq_self)

text \<open>The timeout handed to \<open>epoll_wait\<close> is the distance to the next timer, at most 5000 ms, and
  5000 without timers, as long as the distance is below \<open>2 ^ 31\<close> ms.\<close>

theorem idle_timeout_bounded:
  assumes "next = NOT 0 \<or> unat next < 2 ^ 31"
  shows "idle_timeout next = (if next = NOT 0 then 5000 else min (int (unat next)) 5000)"
proof (cases "next = NOT 0")
  case True
  then show ?thesis by (simp add: idle_timeout_def)
next
  case False
  with assms have lt: "unat next < 2 ^ 31" by simp
  then have "uint next < 2 ^ 31" by (metis of_nat_less_numeral_power_cancel_iff int_nat_eq uint_nat unat_eq_nat_uint)
  then have s: "sint (ucast next :: u32) = uint next"
    by (rule sint_ucast_small)
  have "sint (ucast (word_of_int (min (uint next) 5000) :: u64) :: u32) = min (uint next) 5000"
    by (rule sint_ucast_of_int) simp_all
  then show ?thesis
    using False s by (simp add: idle_timeout_def Let_def)
qed

theorem idle_timeout_bounded_witness: "idle_timeout 120 = 120"
  using idle_timeout_bounded [of 120] by simp

text \<open>A next deadline between \<open>2 ^ 31\<close> and \<open>2 ^ 32 - 1\<close> ms away makes the timeout negative, which
  \<open>epoll_wait\<close> takes as no timeout at all.\<close>

theorem idle_timeout_overflows:
  assumes "2 ^ 31 \<le> unat next" and "unat next < 2 ^ 32"
  shows "idle_timeout next < 0"
proof -
  have "int (2 ^ 31) \<le> int (unat next)" "int (unat next) < int (2 ^ 32)"
    using assms by (simp_all only: of_nat_le_iff of_nat_less_iff)
  then have u: "2 ^ 31 \<le> uint next" "uint next < 2 ^ 32" by simp_all
  let ?v = "sint (ucast next :: u32)"
  have tb: "take_bit 32 (uint next) = uint next"
    using u by (intro take_bit_int_eq_self) auto
  have "uint next div 2 ^ 31 = 1"
    using u by (intro int_div_pos_eq [where r = "uint next - 2 ^ 31"]) simp_all
  then have bit: "bit (uint next) 31" by (simp add: bit_iff_odd)
  have "?v = signed_take_bit 31 (uint next)" by (simp add: signed_ucast_eq)
  also have "\<dots> = uint next - 2 ^ 32"
    using tb bit by (simp add: signed_take_bit_eq_take_bit_minus)
  finally have v: "?v = uint next - 2 ^ 32" .
  then have neg: "?v < 0" "- (2 ^ 31) \<le> ?v" using u by simp_all
  have "next \<noteq> NOT 0"
    using u(2) by (auto simp: unsigned_minus_1_eq_mask mask_eq_exp_minus_1)
  moreover have "sint (ucast (word_of_int ?v :: u64) :: u32) = ?v"
    by (simp add: signed_ucast_eq uint_word_of_int_eq signed_take_bit_take_bit)
  ultimately show ?thesis
    using neg by (simp add: idle_timeout_def Let_def min_def)
qed

theorem idle_timeout_overflows_witness: "idle_timeout 3000000000 < 0"
  by (rule idle_timeout_overflows) simp_all

text \<open>\<open>addEvent\<close> decides to grow the table under the read lock but computes the new size only
  under the write lock: if another thread has meanwhile grown the table further (here: fd 40
  wants 60 entries after fd 100 made it 150), the table shrinks, and the event registered on
  the larger descriptor is still counted and watched by the kernel but can no longer be deleted
  or cancelled.\<close>

theorem resize_race_loses_contexts:
  "\<exists>m. addEvent 0 (Some 1) 7 RUNNING newIOManager 100 READ (None :: nat option) = Inr (0, m) \<and>
     (let m' = m\<lparr>io_fdContexts := contextResize (io_fdContexts m) (nat (40 * 3 div 2))\<rparr> in
      delEvent 0 m' 100 READ = Inr (False, m') \<and> cancelAll 0 m' 100 = Inr (False, m') \<and>
      io_pendingEventCount m' = 1 \<and> io_interest m' 100 \<noteq> None)"
proof -
  let ?m = "with_event (grown newIOManager 100) 100 READ waiter"
  have ctx: "io_fdContexts (grown newIOManager 100) ! 100 = newFdContext 100"
    by (simp add: grown_def contextResize_grow nth_append)
  have "addEvent 0 (Some 1) 7 RUNNING newIOManager (int 100) READ None = Inr (0, ?m)"
    by (subst addEvent_ok [OF io_inv_new]) (simp_all add: ctx newFdContext_def waiter_def event_consts)
  moreover have "io_pendingEventCount ?m = 1" "io_interest ?m 100 \<noteq> None"
    by (simp_all add: with_event_def Let_def grown_def) (simp add: newIOManager_def)
  ultimately show ?thesis
    by (intro exI [of _ ?m]) (simp add: Let_def delEvent_def cancelAll_def find_ctx_def)
qed

end
