(* ===== verification/Lamb_Stream.thy ===== *)
theory Lamb_Stream
  imports Lamb_ByteArray
begin

text \<open>
  \<open>lamb/stream.cc\<close> and \<open>lamb/streams/socket_stream.cc\<close>. The abstract class \<open>Stream\<close> is its virtual
  functions: the fixed-size reads and writes take \<open>read\<close> and \<open>write\<close> as arguments. What a
  stream promises is the locale \<open>byte_source\<close> (and \<open>byte_sink\<close>): a read of some bytes returns
  a non-empty prefix of what is pending, however the bytes were segmented. \<open>SocketStream\<close> over a
  socket is an instance. The kernel's side of a socket is the list of the chunks that successive
  \<open>recv\<close> calls find (\<open>Fault\<close> for a call that fails), the numbers of bytes that successive
  \<open>send\<close> calls accept, and the bytes accepted so far.
\<close>

section \<open>Sockets\<close>

datatype chunk = Data "u8 list" | Fault

record sock =
  so_in :: "chunk list"
  so_accept :: "nat list"
  so_out :: "u8 list"
  m_isConnected :: bool
  m_sock_open :: bool

definition Socket_isConnected :: "sock \<Rightarrow> bool" where
  "Socket_isConnected s \<longleftrightarrow> m_isConnected s"

text \<open>The bytes \<open>recv\<close> delivers of what the kernel holds, and the state after it.\<close>

definition kernel_recv :: "sock \<Rightarrow> nat \<Rightarrow> int \<times> u8 list \<times> sock" where
  "kernel_recv s n =
     (case so_in s of
        [] \<Rightarrow> (0, [], s)
      | Fault # cs \<Rightarrow> (- 1, [], s\<lparr>so_in := cs\<rparr>)
      | Data bs # cs \<Rightarrow>
          (int (length (take n bs)), take n bs,
           s\<lparr>so_in := (if drop n bs = [] then cs else Data (drop n bs) # cs)\<rparr>))"

definition kernel_send :: "sock \<Rightarrow> u8 list \<Rightarrow> int \<times> sock" where
  "kernel_send s bs =
     (case so_accept s of
        [] \<Rightarrow> (int (length bs), s\<lparr>so_out := so_out s @ bs\<rparr>)
      | k # ks \<Rightarrow> (int (length (take k bs)), s\<lparr>so_accept := ks, so_out := so_out s @ take k bs\<rparr>))"

definition Socket_recv :: "sock \<Rightarrow> nat \<Rightarrow> int \<times> u8 list \<times> sock" where
  "Socket_recv s n = (if Socket_isConnected s then kernel_recv s n else (- 1, [], s))"

definition Socket_send :: "sock \<Rightarrow> u8 list \<Rightarrow> int \<times> sock" where
  "Socket_send s bs = (if Socket_isConnected s then kernel_send s bs else (- 1, s))"

definition Socket_close :: "sock \<Rightarrow> bool \<times> sock" where
  "Socket_close s =
     (if \<not> m_isConnected s \<and> \<not> m_sock_open s then (True, s)
      else (False, s\<lparr>m_isConnected := False, m_sock_open := False\<rparr>))"

section \<open>Socket streams\<close>

definition SocketStream_isConnected :: "sock \<Rightarrow> bool" where
  "SocketStream_isConnected s \<longleftrightarrow> Socket_isConnected s"

definition SocketStream_read :: "sock \<Rightarrow> nat \<Rightarrow> int \<times> u8 list \<times> sock" where
  "SocketStream_read s n = (if \<not> SocketStream_isConnected s then (- 1, [], s) else Socket_recv s n)"

definition SocketStream_write :: "sock \<Rightarrow> u8 list \<Rightarrow> int \<times> sock" where
  "SocketStream_write s bs = (if \<not> SocketStream_isConnected s then (- 1, s) else Socket_send s bs)"

text \<open>
  The \<open>ByteArray\<close> overloads: \<open>recvmsg\<close> scatters into the nodes, \<open>sendmsg\<close> gathers from them. The
  state pairs the socket with the array. \<open>&iovs[0]\<close> of an empty array is undefined.
\<close>

definition SocketStream_read_ba :: "sock \<Rightarrow> bytearray \<Rightarrow> nat \<Rightarrow> (int \<times> sock \<times> bytearray) res" where
  "SocketStream_read_ba s ba n =
     (if \<not> SocketStream_isConnected s then Inr (- 1, s, ba)
      else bindR (getWriteBuffers ba n) (\<lambda>(_, iovs, ba).
        if iovs = [] then Inl (Undefined ''iovs[0]'')
        else let (rt, bs, s) = Socket_recv s n in
          bindR (scatter (m_nodes ba) iovs bs) (\<lambda>ns.
            let ba = ba\<lparr>m_nodes := ns\<rparr> in
            if rt > 0 then bindR (setPosition ba (m_position ba + nat rt)) (\<lambda>ba. Inr (rt, s, ba))
            else Inr (rt, s, ba))))"

definition SocketStream_write_ba :: "sock \<Rightarrow> bytearray \<Rightarrow> nat \<Rightarrow> (int \<times> sock \<times> bytearray) res" where
  "SocketStream_write_ba s ba n =
     (if \<not> SocketStream_isConnected s then Inr (- 1, s, ba)
      else bindR (getReadBuffers ba n) (\<lambda>(_, iovs).
        if iovs = [] then Inl (Undefined ''iovs[0]'')
        else let (rt, s) = Socket_send s (gather (m_nodes ba) iovs) in
          if rt > 0 then bindR (setPosition ba (m_position ba + nat rt)) (\<lambda>ba. Inr (rt, s, ba))
          else Inr (rt, s, ba)))"

definition SocketStream_close :: "sock \<Rightarrow> sock" where
  "SocketStream_close s = snd (Socket_close s)"

section \<open>Fixed-size transfers\<close>

text \<open>\<open>return length;\<close> converts \<open>size_t\<close> to \<open>int\<close>; \<open>int64_t left = length;\<close> converts it to \<open>int64_t\<close>.\<close>

definition ret_int :: "nat \<Rightarrow> int" where
  "ret_int n = (let v = n mod 2 ^ 32 in if v < 2 ^ 31 then int v else int v - 2 ^ 32)"

definition int64_of :: "nat \<Rightarrow> int" where
  "int64_of n = (let v = n mod 2 ^ 64 in if v < 2 ^ 63 then int v else int v - 2 ^ 64)"

lemma int64_of_small [simp]: "n < 2 ^ 63 \<Longrightarrow> int64_of n = int n"
  by (simp add: int64_of_def)

lemma ret_int_small [simp]: "n < 2 ^ 31 \<Longrightarrow> ret_int n = int n"
  by (simp add: ret_int_def)

function readFixSize_loop ::
  "('s \<Rightarrow> nat \<Rightarrow> int \<times> u8 list \<times> 's) \<Rightarrow> nat \<Rightarrow> int \<Rightarrow> u8 list \<Rightarrow> 's \<Rightarrow> int \<times> u8 list \<times> 's" where
  "readFixSize_loop rd n left buf s =
     (if left > 0 then
        let (len, bs, s) = rd s (nat left) in
        if len \<le> 0 then (len, buf, s)
        else readFixSize_loop rd n (left - len) (buf @ bs) s
      else (ret_int n, buf, s))"
  by pat_completeness auto
termination
  by (relation "measure (\<lambda>(rd, n, left, buf, s). nat left)") auto

declare readFixSize_loop.simps [simp del]

definition readFixSize ::
  "('s \<Rightarrow> nat \<Rightarrow> int \<times> u8 list \<times> 's) \<Rightarrow> 's \<Rightarrow> nat \<Rightarrow> int \<times> u8 list \<times> 's" where
  "readFixSize rd s n = readFixSize_loop rd n (int64_of n) [] s"

function writeFixSize_loop :: "('s \<Rightarrow> u8 list \<Rightarrow> int \<times> 's) \<Rightarrow> nat \<Rightarrow> int \<Rightarrow> u8 list \<Rightarrow> 's \<Rightarrow> int \<times> 's" where
  "writeFixSize_loop wr n left buf s =
     (if left > 0 then
        let (len, s) = wr s buf in
        if len \<le> 0 then (len, s)
        else writeFixSize_loop wr n (left - len) (drop (nat len) buf) s
      else (ret_int n, s))"
  by pat_completeness auto
termination
  by (relation "measure (\<lambda>(wr, n, left, buf, s). nat left)") auto

declare writeFixSize_loop.simps [simp del]

definition writeFixSize :: "('s \<Rightarrow> u8 list \<Rightarrow> int \<times> 's) \<Rightarrow> 's \<Rightarrow> u8 list \<Rightarrow> int \<times> 's" where
  "writeFixSize wr s buf = writeFixSize_loop wr (length buf) (int64_of (length buf)) buf s"

text \<open>The \<open>ByteArray\<close> overloads, over \<open>SocketStream\<close>.\<close>

function readFixSize_ba_loop :: "nat \<Rightarrow> int \<Rightarrow> sock \<Rightarrow> bytearray \<Rightarrow> (int \<times> sock \<times> bytearray) res" where
  "readFixSize_ba_loop n left s ba =
     (if left > 0 then
        bindR (SocketStream_read_ba s ba (nat left)) (\<lambda>(len, s, ba).
          if len \<le> 0 then Inr (len, s, ba)
          else readFixSize_ba_loop n (left - len) s ba)
      else Inr (ret_int n, s, ba))"
  by pat_completeness auto
termination
  by (relation "measure (\<lambda>(n, left, s, ba). nat left)") auto

declare readFixSize_ba_loop.simps [simp del]

definition readFixSize_ba :: "sock \<Rightarrow> bytearray \<Rightarrow> nat \<Rightarrow> (int \<times> sock \<times> bytearray) res" where
  "readFixSize_ba s ba n = readFixSize_ba_loop n (int64_of n) s ba"

function writeFixSize_ba_loop :: "nat \<Rightarrow> int \<Rightarrow> sock \<Rightarrow> bytearray \<Rightarrow> (int \<times> sock \<times> bytearray) res" where
  "writeFixSize_ba_loop n left s ba =
     (if left > 0 then
        bindR (SocketStream_write_ba s ba (nat left)) (\<lambda>(len, s, ba).
          if len \<le> 0 then Inr (len, s, ba)
          else writeFixSize_ba_loop n (left - len) s ba)
      else Inr (ret_int n, s, ba))"
  by pat_completeness auto
termination
  by (relation "measure (\<lambda>(n, left, s, ba). nat left)") auto

declare writeFixSize_ba_loop.simps [simp del]

definition writeFixSize_ba :: "sock \<Rightarrow> bytearray \<Rightarrow> nat \<Rightarrow> (int \<times> sock \<times> bytearray) res" where
  "writeFixSize_ba s ba n = writeFixSize_ba_loop n (int64_of n) s ba"

lemma take_min_length [simp]: "take (min (length xs) n) xs = take n xs"
  by (simp add: min_def)

section \<open>The interface of a stream\<close>

locale byte_source =
  fixes rd :: "'s \<Rightarrow> nat \<Rightarrow> int \<times> u8 list \<times> 's" and pending :: "'s \<Rightarrow> u8 list" and good :: "'s \<Rightarrow> bool"
  assumes rd_some: "good s \<Longrightarrow> 0 < n \<Longrightarrow> pending s \<noteq> [] \<Longrightarrow>
      \<exists>k s'. rd s n = (int k, take k (pending s), s') \<and> 0 < k \<and> k \<le> n \<and> k \<le> length (pending s) \<and>
        pending s' = drop k (pending s) \<and> good s'"
    and rd_none: "good s \<Longrightarrow> pending s = [] \<Longrightarrow> \<exists>r s'. rd s n = (r, [], s') \<and> r \<le> 0 \<and> good s' \<and> pending s' = []"
begin

lemma readFixSize_loop_all:
  assumes "good s" and "left \<le> length (pending s)"
  shows "\<exists>s'. readFixSize_loop rd n (int left) buf s = (ret_int n, buf @ take left (pending s), s') \<and>
           good s' \<and> pending s' = drop left (pending s)"
  using assms
proof (induction left arbitrary: s buf rule: less_induct)
  case (less left)
  show ?case
  proof (cases "left = 0")
    case True
    with less.prems show ?thesis by (simp add: readFixSize_loop.simps)
  next
    case False
    with less.prems have "pending s \<noteq> []" by auto
    from rd_some [OF less.prems(1) _ this, of left] False obtain k s1 where
      k: "rd s left = (int k, take k (pending s), s1)" "0 < k" "k \<le> left" "k \<le> length (pending s)"
        "pending s1 = drop k (pending s)" "good s1" by auto
    have "left - k < left" "left - k \<le> length (pending s1)" using k less.prems(2) False by simp_all
    from less.IH [OF this(1) k(6) this(2), of "buf @ take k (pending s)"] obtain s2 where
      s2: "readFixSize_loop rd n (int (left - k)) (buf @ take k (pending s)) s1
          = (ret_int n, (buf @ take k (pending s)) @ take (left - k) (pending s1), s2)"
        "good s2" "pending s2 = drop (left - k) (pending s1)" by blast
    have "take k (pending s) @ take (left - k) (drop k (pending s)) = take left (pending s)"
      using k(3) take_add [of k "left - k" "pending s"] by simp
    moreover have "int left - int k = int (left - k)" using k(3) by simp
    ultimately show ?thesis
      using False k s2 by (subst readFixSize_loop.simps) (simp add: Let_def)
  qed
qed

lemma readFixSize_all:
  assumes "good s" and "n \<le> length (pending s)" and "n < 2 ^ 63"
  shows "\<exists>s'. readFixSize rd s n = (ret_int n, take n (pending s), s') \<and> good s' \<and>
           pending s' = drop n (pending s)"
  using readFixSize_loop_all [OF assms(1,2), of n "[]"] assms(3) by (simp add: readFixSize_def)

lemma readFixSize_loop_short:
  assumes "good s" and "length (pending s) < left"
  shows "fst (readFixSize_loop rd n (int left) buf s) \<le> 0"
  using assms
proof (induction left arbitrary: s buf rule: less_induct)
  case (less left)
  show ?case
  proof (cases "pending s = []")
    case True
    from rd_none [OF less.prems(1) True, of left] obtain r s' where "rd s left = (r, [], s')" "r \<le> 0"
      by blast
    with less.prems(2) show ?thesis by (subst readFixSize_loop.simps) simp
  next
    case False
    from rd_some [OF less.prems(1) _ False, of left] less.prems(2) obtain k s1 where
      k: "rd s left = (int k, take k (pending s), s1)" "0 < k" "k \<le> left" "k \<le> length (pending s)"
        "pending s1 = drop k (pending s)" "good s1" by auto
    have "left - k < left" "length (pending s1) < left - k" using k less.prems(2) by simp_all
    from less.IH [OF this(1) k(6) this(2)]
    have "fst (readFixSize_loop rd n (int left - int k) (buf @ take k (pending s)) s1) \<le> 0"
      using k(3) by (simp only: of_nat_diff)
    then show ?thesis
      using k(1,2) less.prems(2) by (subst readFixSize_loop.simps) simp
  qed
qed

lemma readFixSize_short:
  "good s \<Longrightarrow> length (pending s) < n \<Longrightarrow> n < 2 ^ 63 \<Longrightarrow> fst (readFixSize rd s n) \<le> 0"
  by (simp add: readFixSize_def readFixSize_loop_short)

end

locale byte_sink =
  fixes wr :: "'s \<Rightarrow> u8 list \<Rightarrow> int \<times> 's" and sent :: "'s \<Rightarrow> u8 list" and writable :: "'s \<Rightarrow> bool"
  assumes wr_some: "writable s \<Longrightarrow> bs \<noteq> [] \<Longrightarrow>
      \<exists>k s'. wr s bs = (int k, s') \<and> 0 < k \<and> k \<le> length bs \<and> sent s' = sent s @ take k bs \<and> writable s'"
begin

lemma writeFixSize_loop_all:
  assumes "writable s"
  shows "\<exists>s'. writeFixSize_loop wr n (int (length buf)) buf s = (ret_int n, s') \<and>
           writable s' \<and> sent s' = sent s @ buf"
  using assms
proof (induction buf arbitrary: s rule: length_induct)
  case (1 buf)
  show ?case
  proof (cases "buf = []")
    case True
    with 1 show ?thesis by (simp add: writeFixSize_loop.simps)
  next
    case False
    from wr_some [OF 1(2) False] obtain k s1 where
      k: "wr s buf = (int k, s1)" "0 < k" "k \<le> length buf" "sent s1 = sent s @ take k buf" "writable s1"
      by blast
    have "length (drop k buf) < length buf" using k False by simp
    from 1(1) [rule_format, OF this k(5)] obtain s2 where
      s2: "writeFixSize_loop wr n (int (length (drop k buf))) (drop k buf) s1 = (ret_int n, s2)"
        "writable s2" "sent s2 = sent s1 @ drop k buf" by blast
    have "writeFixSize_loop wr n (int (length buf) - int k) (drop k buf) s1 = (ret_int n, s2)"
      using s2(1) k(3) by (simp only: length_drop of_nat_diff)
    then have "writeFixSize_loop wr n (int (length buf)) buf s = (ret_int n, s2)"
      using False k(1,2) by (subst writeFixSize_loop.simps) simp
    moreover have "sent s2 = sent s @ buf" using s2(3) k(4) by simp
    ultimately show ?thesis using s2(2) by blast
  qed
qed

lemma writeFixSize_all:
  "writable s \<Longrightarrow> length buf < 2 ^ 63 \<Longrightarrow>
    \<exists>s'. writeFixSize wr s buf = (ret_int (length buf), s') \<and> writable s' \<and> sent s' = sent s @ buf"
  by (simp add: writeFixSize_def writeFixSize_loop_all)

end

section \<open>Socket streams meet the interface\<close>

fun chunk_bytes :: "chunk list \<Rightarrow> u8 list" where
  "chunk_bytes (Data bs # cs) = bs @ chunk_bytes cs"
| "chunk_bytes cs = []"

definition sock_pending :: "sock \<Rightarrow> u8 list" where
  "sock_pending s = chunk_bytes (so_in s)"

text \<open>A connected socket whose chunks are not empty (a failing call may follow them).\<close>

fun wf_chunks :: "chunk list \<Rightarrow> bool" where
  "wf_chunks (Data bs # cs) \<longleftrightarrow> bs \<noteq> [] \<and> wf_chunks cs"
| "wf_chunks [Fault] \<longleftrightarrow> True"
| "wf_chunks [] \<longleftrightarrow> True"
| "wf_chunks cs \<longleftrightarrow> False"

definition sock_good :: "sock \<Rightarrow> bool" where
  "sock_good s \<longleftrightarrow> m_isConnected s \<and> wf_chunks (so_in s)"

definition sock_writable :: "sock \<Rightarrow> bool" where
  "sock_writable s \<longleftrightarrow> m_isConnected s \<and> list_all (\<lambda>k. 0 < k) (so_accept s)"

lemma sock_read_step:
  assumes "sock_good s" and "0 < n" and "sock_pending s \<noteq> []"
  shows "\<exists>k s'. Socket_recv s n = (int k, take k (sock_pending s), s') \<and> 0 < k \<and> k \<le> n \<and>
           k \<le> length (sock_pending s) \<and> sock_pending s' = drop k (sock_pending s) \<and> sock_good s'"
proof -
  from assms obtain bs cs where c: "so_in s = Data bs # cs" "bs \<noteq> []" "wf_chunks cs" "m_isConnected s"
    by (cases "so_in s" rule: chunk_bytes.cases) (auto simp: sock_good_def sock_pending_def)
  let ?k = "length (take n bs)"
  have "take ?k (bs @ chunk_bytes cs) = take n bs" by simp
  moreover have "drop ?k (bs @ chunk_bytes cs) = drop n bs @ chunk_bytes cs" by (cases "n \<le> length bs") simp_all
  ultimately show ?thesis
    using c assms(2)
    by (intro exI [of _ ?k])
       (auto simp: Socket_recv_def Socket_isConnected_def kernel_recv_def sock_pending_def sock_good_def)
qed

interpretation sstream: byte_source SocketStream_read sock_pending sock_good
proof unfold_locales
  fix s :: sock and n :: nat
  assume s: "sock_good s"
  then have conn: "SocketStream_isConnected s"
    by (simp add: sock_good_def SocketStream_isConnected_def Socket_isConnected_def)
  show "0 < n \<Longrightarrow> sock_pending s \<noteq> [] \<Longrightarrow> \<exists>k s'. SocketStream_read s n = (int k, take k (sock_pending s), s') \<and>
      0 < k \<and> k \<le> n \<and> k \<le> length (sock_pending s) \<and> sock_pending s' = drop k (sock_pending s) \<and> sock_good s'"
    using sock_read_step [OF s] conn by (simp add: SocketStream_read_def)
  show "sock_pending s = [] \<Longrightarrow> \<exists>r s'. SocketStream_read s n = (r, [], s') \<and> r \<le> 0 \<and> sock_good s' \<and>
      sock_pending s' = []"
    using s conn
    by (cases "so_in s" rule: wf_chunks.cases)
       (auto simp: SocketStream_read_def Socket_recv_def Socket_isConnected_def kernel_recv_def
          sock_good_def sock_pending_def)
qed

interpretation ssink: byte_sink SocketStream_write so_out sock_writable
proof unfold_locales
  fix s :: sock and bs :: "u8 list"
  assume "sock_writable s" and "bs \<noteq> []"
  then show "\<exists>k s'. SocketStream_write s bs = (int k, s') \<and> 0 < k \<and> k \<le> length bs \<and>
      so_out s' = so_out s @ take k bs \<and> sock_writable s'"
    by (cases "so_accept s")
       (auto simp: SocketStream_write_def SocketStream_isConnected_def Socket_isConnected_def
          Socket_send_def kernel_send_def sock_writable_def)
qed

section \<open>Byte arrays over socket streams\<close>

lemma iov_nonempty: "gather ns iovs \<noteq> [] \<Longrightarrow> iovs \<noteq> []"
  by (auto simp: gather_def)

lemma getWriteBuffers_nonempty:
  assumes "getWriteBuffers ba n = Inr (n, iovs, ba1)" and "0 < n"
  shows "iovs \<noteq> []"
  using assms
  by (auto simp: getWriteBuffers_def bindR_Inr_iff Let_def split: if_splits)
     (subst (asm) iov_loop.simps; auto simp: bindR_Inr_iff split: option.splits if_splits)

lemma read_ba_step:
  assumes "sock_good s" and "ba_inv ba" and "0 < n" and "sock_pending s \<noteq> []"
  shows "\<exists>k s' ba'. SocketStream_read_ba s ba n = Inr (int k, s', ba') \<and> 0 < k \<and> k \<le> n \<and>
           k \<le> length (sock_pending s) \<and> sock_good s' \<and> sock_pending s' = drop k (sock_pending s) \<and>
           ba_inv ba' \<and> ba_content ba' = blit (m_position ba) (take k (sock_pending s)) (ba_content ba) \<and>
           m_position ba' = m_position ba + k \<and> m_endian ba' = m_endian ba"
proof -
  from sock_read_step [OF assms(1,3,4)] obtain k s' where
    k: "Socket_recv s n = (int k, take k (sock_pending s), s')" "0 < k" "k \<le> n"
      "k \<le> length (sock_pending s)" "sock_pending s' = drop k (sock_pending s)" "sock_good s'" by blast
  let ?bs = "take k (sock_pending s)"
  have len: "length ?bs = k" using k(4) by simp
  from getWriteBuffers_ok [OF assms(2), of n] obtain iovs ba1 where
    w: "getWriteBuffers ba n = Inr (n, iovs, ba1)" "m_position ba1 = m_position ba"
    and sc: "\<forall>bs. length bs \<le> n \<longrightarrow> (\<exists>ns ba2. scatter (m_nodes ba1) iovs bs = Inr ns \<and>
          setPosition (ba1\<lparr>m_nodes := ns\<rparr>) (m_position ba + length bs) = Inr ba2 \<and>
          ba_inv ba2 \<and> ba_content ba2 = blit (m_position ba) bs (ba_content ba) \<and>
          m_position ba2 = m_position ba + length bs \<and> m_endian ba2 = m_endian ba)" by blast
  have "length ?bs \<le> n" using len k(3) by simp
  with sc obtain ns ba2 where "scatter (m_nodes ba1) iovs ?bs = Inr ns"
    "setPosition (ba1\<lparr>m_nodes := ns\<rparr>) (m_position ba + length ?bs) = Inr ba2" "ba_inv ba2"
    "ba_content ba2 = blit (m_position ba) ?bs (ba_content ba)"
    "m_position ba2 = m_position ba + length ?bs" "m_endian ba2 = m_endian ba" by blast
  moreover have "SocketStream_isConnected s"
    using assms(1) by (simp add: sock_good_def SocketStream_isConnected_def Socket_isConnected_def)
  ultimately show ?thesis
    using k w getWriteBuffers_nonempty [OF w(1) assms(3)] len
    by (intro exI [of _ k] exI [of _ s'] exI [of _ ba2]) (simp add: SocketStream_read_ba_def Let_def)
qed

lemma readFixSize_ba_loop_ok:
  assumes "sock_good s" and "ba_inv ba" and "left \<le> length (sock_pending s)"
  shows "\<exists>s' ba'. readFixSize_ba_loop n (int left) s ba = Inr (ret_int n, s', ba') \<and> sock_good s' \<and>
           sock_pending s' = drop left (sock_pending s) \<and> ba_inv ba' \<and>
           ba_content ba' = blit (m_position ba) (take left (sock_pending s)) (ba_content ba) \<and>
           m_position ba' = m_position ba + left"
  using assms
proof (induction left arbitrary: s ba rule: less_induct)
  case (less left)
  show ?case
  proof (cases "left = 0")
    case True
    with less.prems show ?thesis by (simp add: readFixSize_ba_loop.simps)
  next
    case False
    with less.prems have "0 < left" "sock_pending s \<noteq> []" by auto
    from read_ba_step [OF less.prems(1,2) this] obtain k s1 ba1 where
      k: "SocketStream_read_ba s ba left = Inr (int k, s1, ba1)" "0 < k" "k \<le> left"
        "k \<le> length (sock_pending s)" "sock_good s1" "sock_pending s1 = drop k (sock_pending s)" "ba_inv ba1"
        "ba_content ba1 = blit (m_position ba) (take k (sock_pending s)) (ba_content ba)"
        "m_position ba1 = m_position ba + k" by blast
    have "left - k < left" "left - k \<le> length (sock_pending s1)" using k less.prems(3) False by simp_all
    from less.IH [OF this(1) k(5,7) this(2)] obtain s2 ba2 where
      s2: "readFixSize_ba_loop n (int (left - k)) s1 ba1 = Inr (ret_int n, s2, ba2)" "sock_good s2"
        "sock_pending s2 = drop (left - k) (sock_pending s1)" "ba_inv ba2"
        "ba_content ba2 = blit (m_position ba1) (take (left - k) (sock_pending s1)) (ba_content ba1)"
        "m_position ba2 = m_position ba1 + (left - k)" by blast
    have "readFixSize_ba_loop n (int left - int k) s1 ba1 = Inr (ret_int n, s2, ba2)"
      using s2(1) k(3) by (simp only: of_nat_diff)
    then have "readFixSize_ba_loop n (int left) s ba = Inr (ret_int n, s2, ba2)"
      using k(1,2) False by (subst readFixSize_ba_loop.simps) simp
    moreover have "ba_content ba2 = blit (m_position ba) (take left (sock_pending s)) (ba_content ba)"
      using s2(5) k(3,4,6,8,9) take_add [of k "left - k" "sock_pending s"] bab.pos_le [OF less.prems(2)]
        blit_blit_adjacent [of "m_position ba" "ba_content ba" "take k (sock_pending s)"
          "take (left - k) (drop k (sock_pending s))"] by simp
    ultimately show ?thesis
      using s2 k by (intro exI [of _ s2] exI [of _ ba2]) simp
  qed
qed

lemma write_ba_step:
  assumes "sock_writable s" and "ba_inv ba" and "0 < n" and "n \<le> length (ba_pending ba)"
  shows "\<exists>k s' ba'. SocketStream_write_ba s ba n = Inr (int k, s', ba') \<and> 0 < k \<and> k \<le> n \<and>
           sock_writable s' \<and> so_out s' = so_out s @ take k (ba_pending ba) \<and> ba_inv ba' \<and>
           ba_content ba' = ba_content ba \<and> m_position ba' = m_position ba + k"
proof -
  from getReadBuffers_ok [OF assms(2), of n] assms(4) obtain iovs where
    r: "getReadBuffers ba n = Inr (n, iovs)" "gather (m_nodes ba) iovs = take n (ba_pending ba)"
    by (auto simp: min_absorb1)
  have ne: "take n (ba_pending ba) \<noteq> []" using assms(3,4) by auto
  have conn: "SocketStream_isConnected s"
    using assms(1) by (simp add: sock_writable_def SocketStream_isConnected_def Socket_isConnected_def)
  from ssink.wr_some [OF assms(1) ne] conn obtain k s' where
    k: "Socket_send s (take n (ba_pending ba)) = (int k, s')" "0 < k" "k \<le> n"
      "so_out s' = so_out s @ take k (ba_pending ba)" "sock_writable s'"
    using assms(4) by (auto simp: SocketStream_write_def min_absorb1)
  have "m_position ba + k \<le> length (ba_content ba)"
    using k(3) assms(4) bab.pos_le [OF assms(2)] by (simp add: ba_pending_def)
  from setPosition_content [OF assms(2) this] obtain ba' where
    "setPosition ba (m_position ba + k) = Inr ba'" "ba_inv ba'" "m_position ba' = m_position ba + k"
    "ba_content ba' = ba_content ba" by metis
  moreover have "iovs \<noteq> []" using r(2) ne iov_nonempty by metis
  ultimately show ?thesis
    using k r conn by (intro exI [of _ k] exI [of _ s'] exI [of _ ba']) (simp add: SocketStream_write_ba_def)
qed

lemma writeFixSize_ba_loop_ok:
  assumes "sock_writable s" and "ba_inv ba" and "left \<le> length (ba_pending ba)"
  shows "\<exists>s' ba'. writeFixSize_ba_loop n (int left) s ba = Inr (ret_int n, s', ba') \<and> sock_writable s' \<and>
           so_out s' = so_out s @ take left (ba_pending ba) \<and> ba_inv ba' \<and>
           ba_content ba' = ba_content ba \<and> m_position ba' = m_position ba + left"
  using assms
proof (induction left arbitrary: s ba rule: less_induct)
  case (less left)
  show ?case
  proof (cases "left = 0")
    case True
    with less.prems show ?thesis by (simp add: writeFixSize_ba_loop.simps)
  next
    case False
    then have "0 < left" by simp
    from write_ba_step [OF less.prems(1,2) this less.prems(3)] obtain k s1 ba1 where
      k: "SocketStream_write_ba s ba left = Inr (int k, s1, ba1)" "0 < k" "k \<le> left" "sock_writable s1"
        "so_out s1 = so_out s @ take k (ba_pending ba)" "ba_inv ba1" "ba_content ba1 = ba_content ba"
        "m_position ba1 = m_position ba + k" by blast
    have pend: "ba_pending ba1 = drop k (ba_pending ba)"
      using k(7,8) by (simp add: ba_pending_def add.commute)
    have "left - k < left" "left - k \<le> length (ba_pending ba1)" using k(2,3) less.prems(3) False pend by simp_all
    from less.IH [OF this(1) k(4,6) this(2)] obtain s2 ba2 where
      s2: "writeFixSize_ba_loop n (int (left - k)) s1 ba1 = Inr (ret_int n, s2, ba2)" "sock_writable s2"
        "so_out s2 = so_out s1 @ take (left - k) (ba_pending ba1)" "ba_inv ba2"
        "ba_content ba2 = ba_content ba1" "m_position ba2 = m_position ba1 + (left - k)" by blast
    have "writeFixSize_ba_loop n (int left - int k) s1 ba1 = Inr (ret_int n, s2, ba2)"
      using s2(1) k(3) by (simp only: of_nat_diff)
    then have "writeFixSize_ba_loop n (int left) s ba = Inr (ret_int n, s2, ba2)"
      using k(1,2) False by (subst writeFixSize_ba_loop.simps) simp
    moreover have "so_out s2 = so_out s @ take left (ba_pending ba)"
      using s2(3) k(3,5) pend take_add [of k "left - k" "ba_pending ba"] by simp
    ultimately show ?thesis
      using s2 k by (intro exI [of _ s2] exI [of _ ba2]) simp
  qed
qed

section \<open>Properties\<close>

text \<open>\<open>Stream::readFixSize\<close> over a socket stream returns exactly the next \<open>n\<close> bytes however the
  peer's bytes were segmented, into a plain buffer and into a \<open>ByteArray\<close> (at its position), and
  leaves the rest pending; when fewer bytes come before the end it returns a value \<open>\<le> 0\<close>.\<close>

theorem readFixSize_exact:
  assumes "sock_good s" and "ba_inv ba" and "n < 2 ^ 63"
  shows "if n \<le> length (sock_pending s)
         then (\<exists>s'. readFixSize SocketStream_read s n = (ret_int n, take n (sock_pending s), s') \<and>
                 sock_pending s' = drop n (sock_pending s)) \<and>
              (\<exists>s' ba'. readFixSize_ba s ba n = Inr (ret_int n, s', ba') \<and>
                 sock_pending s' = drop n (sock_pending s) \<and> ba_inv ba' \<and>
                 ba_content ba' = blit (m_position ba) (take n (sock_pending s)) (ba_content ba) \<and>
                 m_position ba' = m_position ba + n)
         else fst (readFixSize SocketStream_read s n) \<le> 0"
  using sstream.readFixSize_all [OF assms(1), of n] sstream.readFixSize_short [OF assms(1), of n]
    readFixSize_ba_loop_ok [OF assms(1,2), of n n] assms(3)
  by (auto simp: readFixSize_ba_def not_le)

text \<open>A connected socket whose peer sent \<open>1 2 3\<close> in two segments and which accepts one byte first.\<close>

definition sample_sock :: sock where
  "sample_sock = \<lparr>so_in = [Data [1], Data [2, 3]], so_accept = [1], so_out = [], m_isConnected = True,
                 m_sock_open = True\<rparr>"

lemma sample_sock_facts:
  "sock_good sample_sock" "sock_writable sample_sock" "sock_pending sample_sock = [1, 2, 3]"
  "so_out sample_sock = []"
  by (simp_all add: sample_sock_def sock_good_def sock_writable_def sock_pending_def)

theorem readFixSize_exact_witness:
  "\<exists>s'. readFixSize SocketStream_read sample_sock 2 = (2, [1, 2], s') \<and> sock_pending s' = [3]"
  using readFixSize_exact [OF sample_sock_facts(1) ba_inv_sample, of 2]
  by (simp add: sample_sock_facts)

text \<open>\<open>Stream::writeFixSize\<close> over a socket stream sends all bytes of the buffer, or the next \<open>n\<close>
  readable bytes of a \<open>ByteArray\<close>, in order, however few bytes each \<open>send\<close> accepts, and moves
  the array's position past them.\<close>

theorem writeFixSize_exact:
  assumes "sock_writable s" and "ba_inv ba" and "n \<le> length (ba_pending ba)"
    and "n < 2 ^ 63" and "length buf < 2 ^ 63"
  shows "(\<exists>s'. writeFixSize SocketStream_write s buf = (ret_int (length buf), s') \<and>
            sock_writable s' \<and> so_out s' = so_out s @ buf) \<and>
         (\<exists>s' ba'. writeFixSize_ba s ba n = Inr (ret_int n, s', ba') \<and> sock_writable s' \<and>
            so_out s' = so_out s @ take n (ba_pending ba) \<and> ba_inv ba' \<and>
            ba_content ba' = ba_content ba \<and> m_position ba' = m_position ba + n)"
  using ssink.writeFixSize_all [OF assms(1), of buf] writeFixSize_ba_loop_ok [OF assms(1-3), of n] assms(4,5)
  by (simp add: writeFixSize_ba_def)

theorem writeFixSize_exact_witness:
  "\<exists>s'. writeFixSize SocketStream_write sample_sock [7, 8, 9] = (3, s') \<and> so_out s' = [7, 8, 9]"
  using writeFixSize_exact [OF sample_sock_facts(2) ba_inv_sample, of 0 "[7, 8, 9]"]
  by (auto simp: sample_sock_facts)

end
