(* ===== verification/Lamb_WebSocket.thy ===== *)
theory Lamb_WebSocket
  imports Lamb_Stream Lamb_Codec
begin

text \<open>
  \<open>lamb/http/ws_session.cc\<close>: frames of the websocket protocol over a stream, and the calls of
  \<open>WSSession\<close> (a server) and \<open>WSConnection\<close> (a client). The functions take the virtual functions
  of \<open>Stream\<close> as arguments: \<open>rd\<close> and \<open>wr\<close> for \<open>read\<close> and \<open>write\<close>, \<open>cl\<close> for \<open>close\<close>.
  \<open>WSFrameHead\<close> has the layout of the two bytes that \<open>pack(1)\<close> gives it (bit-fields from the least
  significant bit). \<open>max_size\<close> is the value of \<open>websocket.message.max_size\<close>, \<open>rand_value\<close>
  the result of \<open>rand\<close>, \<open>junk\<close> the contents of the uninitialised variable \<open>len\<close>.
\<close>

section \<open>Frame heads\<close>

record WSFrameHead =
  h_opcode :: nat
  h_rsv3 :: bool
  h_rsv2 :: bool
  h_rsv1 :: bool
  h_fin :: bool
  h_payload :: nat
  h_mask :: bool

definition CONTINUE :: nat where "CONTINUE = 0"
definition TEXT_FRAME :: nat where "TEXT_FRAME = 1"
definition BIN_FRAME :: nat where "BIN_FRAME = 2"
definition CLOSE :: nat where "CLOSE = 8"
definition PING :: nat where "PING = 9"
definition PONG :: nat where "PONG = 10"

lemmas opcode_defs = CONTINUE_def TEXT_FRAME_def BIN_FRAME_def CLOSE_def PING_def PONG_def

definition head_bytes :: "WSFrameHead \<Rightarrow> u8 list" where
  "head_bytes h =
     [of_nat (h_opcode h + of_bool (h_rsv3 h) * 16 + of_bool (h_rsv2 h) * 32 + of_bool (h_rsv1 h) * 64
        + of_bool (h_fin h) * 128),
      of_nat (h_payload h + of_bool (h_mask h) * 128)]"

definition bytes_head :: "u8 list \<Rightarrow> WSFrameHead" where
  "bytes_head bs =
     (let a = unat (bs ! 0); b = unat (bs ! 1) in
      \<lparr>h_opcode = a mod 16, h_rsv3 = odd (a div 16), h_rsv2 = odd (a div 32), h_rsv1 = odd (a div 64),
       h_fin = odd (a div 128), h_payload = b mod 128, h_mask = odd (b div 128)\<rparr>)"

text \<open>\<open>memset (&ws_head, 0, 2)\<close>\<close>

definition zero_head :: WSFrameHead where
  "zero_head = \<lparr>h_opcode = 0, h_rsv3 = False, h_rsv2 = False, h_rsv1 = False, h_fin = False,
     h_payload = 0, h_mask = False\<rparr>"

record WSFrameMessage =
  msg_opcode :: int
  msg_data :: "u8 list"

section \<open>Sending\<close>

fun xor_mask :: "u8 list \<Rightarrow> nat \<Rightarrow> u8 list \<Rightarrow> u8 list" where
  "xor_mask key i [] = []"
| "xor_mask key i (b # bs) = (b XOR key ! (i mod 4)) # xor_mask key (Suc i) bs"

definition send_head :: "int \<Rightarrow> nat \<Rightarrow> bool \<Rightarrow> bool \<Rightarrow> WSFrameHead" where
  "send_head opcode sz client fin =
     zero_head\<lparr>h_fin := fin, h_opcode := nat (opcode mod 16), h_mask := client,
       h_payload := (if sz < 126 then sz else if sz < 65536 then 126 else 127)\<rparr>"

definition WSSendMessage ::
  "('s \<Rightarrow> u8 list \<Rightarrow> int \<times> 's) \<Rightarrow> ('s \<Rightarrow> 's) \<Rightarrow> endian \<Rightarrow> u16 \<Rightarrow> u32 \<Rightarrow> 's \<Rightarrow> WSFrameMessage \<Rightarrow> bool \<Rightarrow> bool \<Rightarrow>
     int \<times> WSFrameMessage \<times> 's" where
  "WSSendMessage wr cl host junk rand_value s msg client fin =
     (let sz = length (msg_data msg);
          h = send_head (msg_opcode msg) sz client fin;
          (r, s) = writeFixSize wr s (head_bytes h) in
      if r \<le> 0 then (- 1, msg, cl s)
      else let (r, s) =
          (if h_payload h = 126 then
             writeFixSize wr s (mem_bytes host (byteswapOnLittleEndian host (of_nat sz :: u16)))
           else if h_payload h = 127 then
             writeFixSize wr s (mem_bytes host (byteswapOnLittleEndian host junk))
           else (1, s)) in
      if r \<le> 0 then (- 1, msg, cl s)
      else let mask = mem_bytes host rand_value;
               msg = (if client then msg\<lparr>msg_data := xor_mask mask 0 (msg_data msg)\<rparr> else msg);
               (r, s) = (if client then writeFixSize wr s mask else (1, s)) in
      if r \<le> 0 then (- 1, msg, cl s)
      else let (r, s) = writeFixSize wr s (msg_data msg) in
      if r \<le> 0 then (- 1, msg, cl s)
      else (ret_int (sz + 2), msg, s))"

definition WSControl ::
  "nat \<Rightarrow> ('s \<Rightarrow> u8 list \<Rightarrow> int \<times> 's) \<Rightarrow> ('s \<Rightarrow> 's) \<Rightarrow> 's \<Rightarrow> int \<times> 's" where
  "WSControl opcode wr cl s =
     (let (v, s) = writeFixSize wr s (head_bytes (zero_head\<lparr>h_fin := True, h_opcode := opcode\<rparr>)) in
      (v, if v \<le> 0 then cl s else s))"

definition WSPing :: "('s \<Rightarrow> u8 list \<Rightarrow> int \<times> 's) \<Rightarrow> ('s \<Rightarrow> 's) \<Rightarrow> 's \<Rightarrow> int \<times> 's" where
  "WSPing = WSControl PING"

definition WSPong :: "('s \<Rightarrow> u8 list \<Rightarrow> int \<times> 's) \<Rightarrow> ('s \<Rightarrow> 's) \<Rightarrow> 's \<Rightarrow> int \<times> 's" where
  "WSPong = WSControl PONG"

section \<open>Receiving\<close>

text \<open>One iteration of the loop: go on with the local variables \<open>opcode\<close>, \<open>data\<close>, \<open>cur_len\<close>, return
  a message, or leave the loop.\<close>

datatype ws_next = Again nat "u8 list" int | Message WSFrameMessage | Break

definition message_opcode :: "nat \<Rightarrow> nat \<Rightarrow> nat" where
  "message_opcode opcode frame_opcode =
     (if opcode = 0 \<and> frame_opcode \<noteq> CONTINUE then frame_opcode else opcode)"

definition resize :: "u8 list \<Rightarrow> nat \<Rightarrow> u8 list" where
  "resize data n = take n data @ replicate (n - length data) 0"

text \<open>The length field: the value, or nothing when the read failed.\<close>

definition recv_length ::
  "('s \<Rightarrow> nat \<Rightarrow> int \<times> u8 list \<times> 's) \<Rightarrow> endian \<Rightarrow> WSFrameHead \<Rightarrow> 's \<Rightarrow> nat option \<times> 's" where
  "recv_length rd host h s =
     (if h_payload h = 126 then
        let (r, bs, s) = readFixSize rd s 2 in
        if r \<le> 0 then (None, s)
        else (Some (unat (byteswapOnLittleEndian host (mem_word host bs :: u16))), s)
      else if h_payload h = 127 then
        let (r, bs, s) = readFixSize rd s 8 in
        if r \<le> 0 then (None, s)
        else (Some (unat (byteswapOnLittleEndian host (mem_word host bs :: u64))), s)
      else (Some (h_payload h), s))"

text \<open>The rest of a data frame. \<open>cur_len + length\<close> is computed on \<open>uint64_t\<close>.\<close>

definition recv_payload ::
  "('s \<Rightarrow> nat \<Rightarrow> int \<times> u8 list \<times> 's) \<Rightarrow> nat \<Rightarrow> WSFrameHead \<Rightarrow> nat \<Rightarrow> nat \<Rightarrow> u8 list \<Rightarrow> int \<Rightarrow> 's \<Rightarrow>
     ws_next \<times> 's" where
  "recv_payload rd max_size h len opcode data cur_len s =
     (let total = nat ((cur_len + int len) mod 2 ^ 64) in
      if max_size \<le> total then (Break, s)
      else let (r, mask, s) = (if h_mask h then readFixSize rd s 4 else (1, [0, 0, 0, 0], s)) in
      if r \<le> 0 then (Break, s)
      else let data = resize data total; (r, bs, s) = readFixSize rd s len in
      if r \<le> 0 then (Break, s)
      else let data = blit (nat cur_len) (if h_mask h then xor_mask mask 0 bs else bs) data;
               opcode = message_opcode opcode (h_opcode h) in
      if h_fin h then (Message \<lparr>msg_opcode = int opcode, msg_data = data\<rparr>, s)
      else (Again opcode data (ret_int total), s))"

definition recv_frame ::
  "('s \<Rightarrow> nat \<Rightarrow> int \<times> u8 list \<times> 's) \<Rightarrow> ('s \<Rightarrow> u8 list \<Rightarrow> int \<times> 's) \<Rightarrow> ('s \<Rightarrow> 's) \<Rightarrow> endian \<Rightarrow> nat \<Rightarrow> bool \<Rightarrow>
     nat \<Rightarrow> u8 list \<Rightarrow> int \<Rightarrow> 's \<Rightarrow> ws_next \<times> 's" where
  "recv_frame rd wr cl host max_size client opcode data cur_len s =
     (let (r, bs, s) = readFixSize rd s 2; h = bytes_head bs in
      if r \<le> 0 then (Break, s)
      else if h_opcode h = PING then
        let (v, s) = WSPong wr cl s in (if v \<le> 0 then Break else Again opcode data cur_len, s)
      else if h_opcode h = PONG then (Again opcode data cur_len, s)
      else if h_opcode h = CONTINUE \<or> h_opcode h = TEXT_FRAME \<or> h_opcode h = BIN_FRAME then
        if \<not> client \<and> \<not> h_mask h then (Break, s)
        else let (len, s) = recv_length rd host h s in
          (case len of None \<Rightarrow> (Break, s)
           | Some len \<Rightarrow> recv_payload rd max_size h len opcode data cur_len s)
      else if h_opcode h = CLOSE then (Break, s)
      else (Again opcode data cur_len, s))"

partial_function (option) WSRecvMessage_loop ::
  "('s \<Rightarrow> nat \<Rightarrow> int \<times> u8 list \<times> 's) \<Rightarrow> ('s \<Rightarrow> u8 list \<Rightarrow> int \<times> 's) \<Rightarrow> ('s \<Rightarrow> 's) \<Rightarrow> endian \<Rightarrow> nat \<Rightarrow> bool \<Rightarrow>
     nat \<Rightarrow> u8 list \<Rightarrow> int \<Rightarrow> 's \<Rightarrow> (WSFrameMessage option \<times> 's) option" where
  "WSRecvMessage_loop rd wr cl host max_size client opcode data cur_len s =
     (case recv_frame rd wr cl host max_size client opcode data cur_len s of
        (nx, s) \<Rightarrow>
          (case nx of
             Again opcode data cur_len \<Rightarrow>
               WSRecvMessage_loop rd wr cl host max_size client opcode data cur_len s
           | Message m \<Rightarrow> Some (Some m, s)
           | Break \<Rightarrow> Some (None, cl s)))"

definition WSRecvMessage ::
  "('s \<Rightarrow> nat \<Rightarrow> int \<times> u8 list \<times> 's) \<Rightarrow> ('s \<Rightarrow> u8 list \<Rightarrow> int \<times> 's) \<Rightarrow> ('s \<Rightarrow> 's) \<Rightarrow> endian \<Rightarrow> nat \<Rightarrow> 's \<Rightarrow> bool \<Rightarrow>
     (WSFrameMessage option \<times> 's) option" where
  "WSRecvMessage rd wr cl host max_size s client =
     WSRecvMessage_loop rd wr cl host max_size client 0 [] 0 s"

section \<open>Sessions and connections\<close>

definition WSSession_recvMessage :: "endian \<Rightarrow> nat \<Rightarrow> sock \<Rightarrow> (WSFrameMessage option \<times> sock) option" where
  "WSSession_recvMessage host max_size s =
     WSRecvMessage SocketStream_read SocketStream_write SocketStream_close host max_size s False"

definition WSSession_sendMessage ::
  "endian \<Rightarrow> u16 \<Rightarrow> u32 \<Rightarrow> sock \<Rightarrow> WSFrameMessage \<Rightarrow> bool \<Rightarrow> int \<times> WSFrameMessage \<times> sock" where
  "WSSession_sendMessage host junk rand_value s msg fin =
     WSSendMessage SocketStream_write SocketStream_close host junk rand_value s msg False fin"

definition WSSession_ping :: "sock \<Rightarrow> int \<times> sock" where
  "WSSession_ping = WSPing SocketStream_write SocketStream_close"

definition WSSession_pong :: "sock \<Rightarrow> int \<times> sock" where
  "WSSession_pong = WSPong SocketStream_write SocketStream_close"

definition WSConnection_recvMessage :: "endian \<Rightarrow> nat \<Rightarrow> sock \<Rightarrow> (WSFrameMessage option \<times> sock) option" where
  "WSConnection_recvMessage host max_size s =
     WSRecvMessage SocketStream_read SocketStream_write SocketStream_close host max_size s True"

definition WSConnection_sendMessage ::
  "endian \<Rightarrow> u16 \<Rightarrow> u32 \<Rightarrow> sock \<Rightarrow> WSFrameMessage \<Rightarrow> bool \<Rightarrow> int \<times> WSFrameMessage \<times> sock" where
  "WSConnection_sendMessage host junk rand_value s msg fin =
     WSSendMessage SocketStream_write SocketStream_close host junk rand_value s msg True fin"

definition WSConnection_ping :: "sock \<Rightarrow> int \<times> sock" where
  "WSConnection_ping = WSPing SocketStream_write SocketStream_close"

definition WSConnection_pong :: "sock \<Rightarrow> int \<times> sock" where
  "WSConnection_pong = WSPong SocketStream_write SocketStream_close"

section \<open>The bytes of a frame\<close>

lemma unat_of_nat_u8: "n < 256 \<Longrightarrow> unat (of_nat n :: u8) = n"
  by (simp add: unat_of_nat)

lemma nibble_bits:
  fixes a :: nat and x y z w :: bool
  assumes "a < 16"
  defines "n \<equiv> a + of_bool x * 16 + of_bool y * 32 + of_bool z * 64 + of_bool w * (128 :: nat)"
  shows "n < 256" and "n mod 16 = a" and "odd (n div 16) = x" and "odd (n div 32) = y"
    and "odd (n div 64) = z" and "odd (n div 128) = w"
proof -
  define k :: nat where "k = of_bool x + 2 * of_bool y + 4 * of_bool z + 8 * of_bool w"
  have n: "n = a + 16 * k" by (simp add: n_def k_def)
  then have 16: "n div 16 = k" and "n mod 16 = a" using assms(1) by simp_all
  then show "n mod 16 = a" by simp
  have k: "n div 32 = k div 2" "n div 64 = k div 4" "n div 128 = k div 8"
    using div_mult2_eq [of n 16 2] div_mult2_eq [of n 16 4] div_mult2_eq [of n 16 8] 16 by simp_all
  show "n < 256" "odd (n div 16) = x" "odd (n div 32) = y" "odd (n div 64) = z" "odd (n div 128) = w"
    using assms(1) unfolding k 16 unfolding n k_def by (cases x; cases y; cases z; cases w; simp)+
qed

lemma septet_bits:
  assumes "a < 128"
  shows "a + of_bool x * 128 < (256 :: nat)" and "(a + of_bool x * 128) mod 128 = a"
    and "odd ((a + of_bool x * 128) div 128) = x"
proof -
  show "a + of_bool x * 128 < (256 :: nat)" using assms by (cases x) simp_all
  show "(a + of_bool x * 128) mod 128 = a" using assms by simp
  have "(a + of_bool x * 128) div 128 = of_bool x" using assms by (simp add: div_mult_self1)
  then show "odd ((a + of_bool x * 128) div 128) = x" by simp
qed

lemma head_roundtrip:
  assumes "h_opcode h < 16" and "h_payload h < 128"
  shows "bytes_head (head_bytes h) = h"
  using assms
  by (simp add: bytes_head_def head_bytes_def Let_def unat_of_nat_u8 nibble_bits septet_bits
      del: of_nat_add of_nat_mult)

lemma length_head_bytes [simp]: "length (head_bytes h) = 2"
  by (simp add: head_bytes_def)

lemma length_xor_mask [simp]: "length (xor_mask key i bs) = length bs"
  by (induction bs arbitrary: i) simp_all

lemma xor_mask_twice [simp]: "xor_mask key i (xor_mask key i bs) = bs"
  by (induction bs arbitrary: i) (simp_all add: xor.assoc)

definition length_field :: "nat \<Rightarrow> u8 list" where
  "length_field n = (if n < 126 then [] else endian_bytes BIG_ENDIAN (of_nat n :: u16))"

definition ws_frame :: "bool \<Rightarrow> u8 list \<Rightarrow> bool \<Rightarrow> int \<Rightarrow> u8 list \<Rightarrow> u8 list" where
  "ws_frame client key fin opcode data =
     head_bytes (send_head opcode (length data) client fin) @ length_field (length data) @
     (if client then key @ xor_mask key 0 data else data)"

lemma send_head_fields [simp]:
  "h_opcode (send_head opcode n client fin) = nat (opcode mod 16)"
  "h_fin (send_head opcode n client fin) = fin"
  "h_mask (send_head opcode n client fin) = client"
  "h_payload (send_head opcode n client fin) = (if n < 126 then n else if n < 65536 then 126 else 127)"
  by (simp_all add: send_head_def zero_head_def)

lemma bytes_send_head [simp]:
  "bytes_head (head_bytes (send_head opcode n client fin)) = send_head opcode n client fin"
proof -
  have "nat (opcode mod 16) < 16" using pos_mod_bound [of 16 opcode] by linarith
  then show ?thesis by (intro head_roundtrip) (simp_all split: if_splits)
qed

definition control_bytes :: "nat \<Rightarrow> u8 list" where
  "control_bytes opcode = head_bytes (zero_head\<lparr>h_fin := True, h_opcode := opcode\<rparr>)"

lemma mem_bytes_big: "mem_bytes host (byteswapOnLittleEndian host w) = endian_bytes BIG_ENDIAN w"
  using mem_bytes_swapped [of host BIG_ENDIAN w]
  by (cases host) (simp_all add: byteswapOnLittleEndian_def)

lemma mem_word_big:
  assumes "8 dvd LENGTH('a)"
  shows "byteswapOnLittleEndian host (mem_word host (endian_bytes BIG_ENDIAN (w :: 'a::len word))) = w"
  using mem_word_endian_bytes [OF assms, of BIG_ENDIAN host w]
  by (cases host) (simp_all add: byteswapOnLittleEndian_def)

lemma length_mem_bytes [simp]: "length (mem_bytes host (w :: 'a::len word)) = sizeof TYPE('a word)"
  by (cases host) (simp_all add: mem_bytes_def)

lemmas ret_int_simps = ret_int_small

context byte_sink
begin

lemma writeFixSize_sent:
  assumes "writable s" and "0 < length buf" and "length buf < 2 ^ 31"
  shows "\<exists>s'. writeFixSize wr s buf = (int (length buf), s') \<and> writable s' \<and> sent s' = sent s @ buf"
  using writeFixSize_all [OF assms(1), of buf] assms(3) by simp

lemma WSSendMessage_sent:
  assumes "writable s" and "msg_data msg = data" and "0 < length data" and "length data < 65536"
  shows "\<exists>s'. WSSendMessage wr cl host junk rv s msg client fin =
             (int (length data) + 2,
              (if client then msg\<lparr>msg_data := xor_mask (mem_bytes host rv) 0 data\<rparr> else msg), s') \<and>
           writable s' \<and> sent s' = sent s @ ws_frame client (mem_bytes host rv) fin (msg_opcode msg) data"
proof -
  let ?h = "send_head (msg_opcode msg) (length data) client fin"
  let ?key = "mem_bytes host rv"
  obtain s1 where 1: "writeFixSize wr s (head_bytes ?h) = (2, s1)" "writable s1"
      "sent s1 = sent s @ head_bytes ?h"
    using writeFixSize_sent [OF assms(1), of "head_bytes ?h"] by auto
  have "\<exists>r s2. (if h_payload ?h = 126 then
             writeFixSize wr s1 (mem_bytes host (byteswapOnLittleEndian host (of_nat (length data) :: u16)))
           else if h_payload ?h = 127 then
             writeFixSize wr s1 (mem_bytes host (byteswapOnLittleEndian host junk))
           else (1, s1)) = (r, s2) \<and> 0 < r \<and> writable s2 \<and> sent s2 = sent s1 @ length_field (length data)"
  proof (cases "length data < 126")
    case True
    then show ?thesis using 1(2) by (simp add: length_field_def)
  next
    case False
    let ?len = "endian_bytes BIG_ENDIAN (of_nat (length data) :: u16)"
    obtain s2 where "writeFixSize wr s1 ?len = (2, s2)" "writable s2" "sent s2 = sent s1 @ ?len"
      using writeFixSize_sent [OF 1(2), of ?len] by auto
    with False show ?thesis using assms(4) by (simp add: mem_bytes_big length_field_def)
  qed
  then obtain r s2 where 2: "(if h_payload ?h = 126 then
             writeFixSize wr s1 (mem_bytes host (byteswapOnLittleEndian host (of_nat (length data) :: u16)))
           else if h_payload ?h = 127 then
             writeFixSize wr s1 (mem_bytes host (byteswapOnLittleEndian host junk))
           else (1, s1)) = (r, s2)" "0 < r" "writable s2" "sent s2 = sent s1 @ length_field (length data)"
    by blast
  have "\<exists>r s3. (if client then writeFixSize wr s2 ?key else (1, s2)) = (r, s3) \<and> 0 < r \<and> writable s3 \<and>
      sent s3 = sent s2 @ (if client then ?key else [])"
  proof (cases client)
    case True
    obtain s3 where "writeFixSize wr s2 ?key = (int (length ?key), s3)" "writable s3" "sent s3 = sent s2 @ ?key"
      using writeFixSize_sent [OF 2(3), of ?key] by auto
    with True show ?thesis by simp
  next
    case False
    with 2(3) show ?thesis by simp
  qed
  then obtain r3 s3 where 3: "(if client then writeFixSize wr s2 ?key else (1, s2)) = (r3, s3)" "0 < r3"
      "writable s3" "sent s3 = sent s2 @ (if client then ?key else [])"
    by blast
  let ?d = "if client then xor_mask ?key 0 data else data"
  obtain s4 where 4: "writeFixSize wr s3 ?d = (int (length data), s4)" "writable s4" "sent s4 = sent s3 @ ?d"
    using writeFixSize_sent [OF 3(3), of ?d] assms(3,4) by (cases client) (simp_all, blast+)
  have "ret_int (length data + 2) = int (length data) + 2" using assms(4) by simp
  then show ?thesis
    unfolding WSSendMessage_def Let_def assms(2) 1(1) prod.case 2(1) 3(1)
    using 2(2) 3(2) 4 3(4) 2(4) 1(3) assms(2,3)
    by (auto simp: ws_frame_def)
qed

lemma WSControl_sent:
  assumes "writable s"
  shows "\<exists>s'. WSControl opcode wr cl s = (2, s') \<and> writable s' \<and> sent s' = sent s @ control_bytes opcode"
  using writeFixSize_sent [OF assms, of "control_bytes opcode"]
  by (auto simp: WSControl_def control_bytes_def)

end

section \<open>Receiving what was sent\<close>

text \<open>A message sent in fragments, each after some control frames: the calls of the sender, the
  bytes they put on the wire, and the replies to the control frames.\<close>

type_synonym fragment = "nat list \<times> u32 \<times> u8 list"

fun send_controls :: "('s \<Rightarrow> u8 list \<Rightarrow> int \<times> 's) \<Rightarrow> ('s \<Rightarrow> 's) \<Rightarrow> nat list \<Rightarrow> 's \<Rightarrow> 's" where
  "send_controls wr cl [] s = s"
| "send_controls wr cl (c # cs) s =
     send_controls wr cl cs (snd (if c = PING then WSPing wr cl s else WSPong wr cl s))"

fun send_frags ::
  "('s \<Rightarrow> u8 list \<Rightarrow> int \<times> 's) \<Rightarrow> ('s \<Rightarrow> 's) \<Rightarrow> endian \<Rightarrow> u16 \<Rightarrow> bool \<Rightarrow> int \<Rightarrow> fragment list \<Rightarrow> 's \<Rightarrow> 's" where
  "send_frags wr cl host junk client opcode [] s = s"
| "send_frags wr cl host junk client opcode ((cs, rv, d) # fs) s =
     send_frags wr cl host junk client 0 fs
       (snd (snd (WSSendMessage wr cl host junk rv (send_controls wr cl cs s)
          \<lparr>msg_opcode = opcode, msg_data = d\<rparr> client (fs = []))))"

fun frags_bytes :: "endian \<Rightarrow> bool \<Rightarrow> int \<Rightarrow> fragment list \<Rightarrow> u8 list" where
  "frags_bytes host client opcode [] = []"
| "frags_bytes host client opcode ((cs, rv, d) # fs) =
     concat (map control_bytes cs) @ ws_frame client (mem_bytes host rv) (fs = []) opcode d @
     frags_bytes host client 0 fs"

definition frags_data :: "fragment list \<Rightarrow> u8 list" where
  "frags_data fs = concat (map (\<lambda>(_, _, d). d) fs)"

definition wf_frags :: "fragment list \<Rightarrow> bool" where
  "wf_frags fs \<longleftrightarrow>
     list_all (\<lambda>(cs, _, d). list_all (\<lambda>c. c = PING \<or> c = PONG) cs \<and> 0 < length d \<and> length d < 65536) fs"

definition pong_replies :: "nat list \<Rightarrow> u8 list" where
  "pong_replies cs = concat (map (\<lambda>c. if c = PING then control_bytes PONG else []) cs)"

definition frags_replies :: "fragment list \<Rightarrow> u8 list" where
  "frags_replies fs = concat (map (\<lambda>(cs, _, _). pong_replies cs) fs)"

lemmas frags_defs = frags_data_def wf_frags_def frags_replies_def

context byte_sink
begin

lemma send_controls_sent:
  assumes "writable s" and "list_all (\<lambda>c. c = PING \<or> c = PONG) cs"
  shows "writable (send_controls wr cl cs s) \<and>
         sent (send_controls wr cl cs s) = sent s @ concat (map control_bytes cs)"
  using assms
proof (induction cs arbitrary: s)
  case (Cons c cs)
  from WSControl_sent [OF Cons.prems(1), of c cl] obtain s1 where
    "WSControl c wr cl s = (2, s1)" "writable s1" "sent s1 = sent s @ control_bytes c" by blast
  moreover have "(if c = PING then WSPing wr cl s else WSPong wr cl s) = WSControl c wr cl s"
    using Cons.prems(2) by (auto simp: WSPing_def WSPong_def)
  ultimately show ?case using Cons.IH [of s1] Cons.prems(2) by simp
qed simp

lemma send_frags_sent:
  assumes "writable s" and "wf_frags fs"
  shows "writable (send_frags wr cl host junk client opcode fs s) \<and>
         sent (send_frags wr cl host junk client opcode fs s) = sent s @ frags_bytes host client opcode fs"
  using assms
proof (induction fs arbitrary: s opcode)
  case (Cons f fs)
  obtain cs rv d where f: "f = (cs, rv, d)" by (cases f) auto
  let ?s = "send_controls wr cl cs s"
  have wf: "list_all (\<lambda>c. c = PING \<or> c = PONG) cs" "0 < length d" "length d < 65536" "wf_frags fs"
    using Cons.prems(2) f by (simp_all add: wf_frags_def)
  note 1 = send_controls_sent [OF Cons.prems(1) wf(1), of cl]
  from WSSendMessage_sent [OF conjunct1 [OF 1], of "\<lparr>msg_opcode = opcode, msg_data = d\<rparr>" d cl host junk rv client
      "fs = []"] wf(2,3)
  obtain s2 where 2: "snd (snd (WSSendMessage wr cl host junk rv ?s \<lparr>msg_opcode = opcode, msg_data = d\<rparr> client (fs = []))) = s2"
      "writable s2" "sent s2 = sent ?s @ ws_frame client (mem_bytes host rv) (fs = []) opcode d" by auto
  show ?case
    using Cons.IH [OF 2(2) wf(4), of 0] 1 2(3) unfolding f send_frags.simps 2(1) by simp
qed simp

end

text \<open>A stream in both directions: reading does not touch what was sent nor writing what is pending.\<close>

locale duplex_stream = byte_source rd pending good + byte_sink wr sent good
  for rd :: "'s \<Rightarrow> nat \<Rightarrow> int \<times> u8 list \<times> 's" and wr :: "'s \<Rightarrow> u8 list \<Rightarrow> int \<times> 's"
    and pending :: "'s \<Rightarrow> u8 list" and sent :: "'s \<Rightarrow> u8 list" and good :: "'s \<Rightarrow> bool" +
  assumes rd_sent: "sent (snd (snd (rd s n))) = sent s"
    and wr_pending: "pending (snd (wr s bs)) = pending s"
begin

lemma readFixSize_loop_sent: "sent (snd (snd (readFixSize_loop rd n left buf s))) = sent s"
proof (induction "nat left" arbitrary: left buf s rule: less_induct)
  case less
  obtain len bs s1 where r: "rd s (nat left) = (len, bs, s1)" by (cases "rd s (nat left)") auto
  have "sent s1 = sent s" using rd_sent [of s "nat left"] r by simp
  moreover have "sent (snd (snd (readFixSize_loop rd n (left - len) (buf @ bs) s1))) = sent s1"
    if "0 < left" "0 < len" using that by (intro less) simp
  ultimately show ?case by (simp add: readFixSize_loop.simps [of rd n left] r)
qed

lemma writeFixSize_loop_pending: "pending (snd (writeFixSize_loop wr n left buf s)) = pending s"
proof (induction "nat left" arbitrary: left buf s rule: less_induct)
  case less
  obtain len s1 where r: "wr s buf = (len, s1)" by (cases "wr s buf") auto
  have "pending s1 = pending s" using wr_pending [of s buf] r by simp
  moreover have "pending (snd (writeFixSize_loop wr n (left - len) (drop (nat len) buf) s1)) = pending s1"
    if "0 < left" "0 < len" using that by (intro less) simp
  ultimately show ?case by (simp add: writeFixSize_loop.simps [of wr n left] r)
qed

lemma readFixSize_next:
  assumes "good s" and "pending s = bs @ rest" and "length bs < 2 ^ 31"
  shows "\<exists>s'. readFixSize rd s (length bs) = (int (length bs), bs, s') \<and> good s' \<and> pending s' = rest \<and>
           sent s' = sent s"
proof -
  obtain s' where s': "readFixSize rd s (length bs) = (ret_int (length bs), bs, s')" "good s'"
      "pending s' = rest"
    using readFixSize_all [OF assms(1), of "length bs"] assms(2,3) by auto
  moreover have "sent s' = sent s"
    using readFixSize_loop_sent [of "length bs" "int64_of (length bs)" "[]" s] s'(1)
    by (simp add: readFixSize_def)
  ultimately show ?thesis using assms(3) by simp
qed

lemma WSControl_pending: "pending s' = pending s"
  if "WSControl opcode wr cl s = (2, s')"
  using that writeFixSize_loop_pending [of 2 2 "control_bytes opcode" s]
  by (auto simp: WSControl_def control_bytes_def writeFixSize_def Let_def split: prod.splits if_splits)

lemma recv_length_ok:
  assumes "good s" and "pending s = length_field n @ rest" and "n < 65536"
    and "h_payload h = (if n < 126 then n else if n < 65536 then 126 else 127)"
  shows "\<exists>s'. recv_length rd host h s = (Some n, s') \<and> good s' \<and> pending s' = rest \<and> sent s' = sent s"
proof (cases "n < 126")
  case True
  then show ?thesis using assms by (simp add: recv_length_def length_field_def)
next
  case False
  let ?len = "endian_bytes BIG_ENDIAN (of_nat n :: u16)"
  obtain s' where "readFixSize rd s 2 = (2, ?len, s')" "good s'" "pending s' = rest" "sent s' = sent s"
    using readFixSize_next [OF assms(1), of ?len rest] assms(2) False by (auto simp: length_field_def)
  moreover have "unat (of_nat n :: u16) = n" using assms(3) by (simp add: unat_of_nat)
  ultimately show ?thesis
    using False assms(3,4) by (simp add: recv_length_def mem_word_big)
qed

lemma blit_resize: "blit (length data) bs (resize data (length data + length bs)) = data @ bs"
  by (simp add: blit_def resize_def)

lemma recv_payload_ok:
  assumes "good s" and "pending s = (if h_mask h then key @ xor_mask key 0 d else d) @ rest"
    and "length key = 4" and "0 < length d" and "length data + length d < max_size" and "max_size \<le> 2 ^ 31"
  shows "\<exists>s'. recv_payload rd max_size h (length d) opcode data (int (length data)) s =
             (if h_fin h then Message \<lparr>msg_opcode = int (message_opcode opcode (h_opcode h)), msg_data = data @ d\<rparr>
              else Again (message_opcode opcode (h_opcode h)) (data @ d) (int (length (data @ d))), s') \<and>
           good s' \<and> pending s' = rest \<and> sent s' = sent s"
proof -
  let ?d = "if h_mask h then xor_mask key 0 d else d"
  have "\<exists>r mask s1. (if h_mask h then readFixSize rd s 4 else (1, [0, 0, 0, 0], s)) = (r, mask, s1) \<and> 0 < r \<and>
      (h_mask h \<longrightarrow> mask = key) \<and> good s1 \<and> pending s1 = ?d @ rest \<and> sent s1 = sent s"
    using readFixSize_next [OF assms(1), of key "xor_mask key 0 d @ rest"] assms(1-3) by auto
  then obtain r mask s1 where 1: "(if h_mask h then readFixSize rd s 4 else (1, [0, 0, 0, 0], s)) = (r, mask, s1)"
      "0 < r" "h_mask h \<longrightarrow> mask = key" "good s1" "pending s1 = ?d @ rest" "sent s1 = sent s" by blast
  obtain s2 where 2: "readFixSize rd s1 (length d) = (int (length d), ?d, s2)" "good s2" "pending s2 = rest"
      "sent s2 = sent s1"
    using readFixSize_next [OF 1(4,5)] assms(5,6) by (cases "h_mask h") auto
  have total: "nat ((int (length data) + int (length d)) mod 2 ^ 64) = length data + length d"
    using assms(5,6) by simp
  have "(if h_mask h then xor_mask mask 0 ?d else ?d) = d" using 1(3) by simp
  then show ?thesis
    unfolding recv_payload_def Let_def total 1(1) prod.case 2(1)
    using 1(2,6) 2(2-4) assms(4-6) by (simp add: blit_resize)
qed

lemma recv_frame_data:
  assumes "good s" and "pending s = ws_frame frame_client key fin op d @ rest" and "length key = 4"
    and "0 < length d" and "length d < 65536" and "length data + length d < max_size" and "max_size \<le> 2 ^ 31"
    and "op \<in> {0, 1, 2}" and "frame_client \<noteq> client"
  shows "\<exists>s'. recv_frame rd wr cl host max_size client opcode data (int (length data)) s =
             (if fin then Message \<lparr>msg_opcode = int (message_opcode opcode (nat op)), msg_data = data @ d\<rparr>
              else Again (message_opcode opcode (nat op)) (data @ d) (int (length (data @ d))), s') \<and>
           good s' \<and> pending s' = rest \<and> sent s' = sent s"
proof -
  let ?h = "send_head op (length d) frame_client fin"
  let ?tail = "(if frame_client then key @ xor_mask key 0 d else d) @ rest"
  have op: "nat (op mod 16) = nat op" "nat op \<in> {0, 1, 2}" using assms(8) by auto
  obtain s1 where 1: "readFixSize rd s 2 = (2, head_bytes ?h, s1)" "good s1"
      "pending s1 = length_field (length d) @ ?tail" "sent s1 = sent s"
    using readFixSize_next [OF assms(1), of "head_bytes ?h" "length_field (length d) @ ?tail"] assms(2)
    by (auto simp: ws_frame_def)
  obtain s2 where 2: "recv_length rd host ?h s1 = (Some (length d), s2)" "good s2" "pending s2 = ?tail"
      "sent s2 = sent s1"
    using recv_length_ok [OF 1(2,3) assms(5), of ?h host] by auto
  obtain s3 where 3: "recv_payload rd max_size ?h (length d) opcode data (int (length data)) s2 =
        (if fin then Message \<lparr>msg_opcode = int (message_opcode opcode (nat op)), msg_data = data @ d\<rparr>
              else Again (message_opcode opcode (nat op)) (data @ d) (int (length (data @ d))), s3)"
      "good s3" "pending s3 = rest" "sent s3 = sent s2"
    using recv_payload_ok [OF 2(2) _ assms(3,4,6,7), of ?h rest opcode] 2(3) op(1)
    by auto
  show ?thesis
    using 1 2 3 assms(9) op unfolding recv_frame_def Let_def 1(1) prod.case
    by (auto simp: opcode_defs)
qed

lemma recv_frame_control:
  assumes "good s" and "pending s = control_bytes c @ rest" and "c \<in> {PING, PONG}"
  shows "\<exists>s'. recv_frame rd wr cl host max_size client opcode data cur_len s = (Again opcode data cur_len, s') \<and>
           good s' \<and> pending s' = rest \<and> sent s' = sent s @ (if c = PING then control_bytes PONG else [])"
proof -
  let ?h = "zero_head\<lparr>h_fin := True, h_opcode := c\<rparr>"
  have h: "bytes_head (control_bytes c) = ?h"
    using assms(3) unfolding control_bytes_def by (intro head_roundtrip) (auto simp: zero_head_def opcode_defs)
  obtain s1 where 1: "readFixSize rd s 2 = (2, control_bytes c, s1)" "good s1" "pending s1 = rest"
      "sent s1 = sent s"
    using readFixSize_next [OF assms(1), of "control_bytes c" rest] assms(2) by (auto simp: control_bytes_def)
  obtain s2 where 2: "WSControl PONG wr cl s1 = (2, s2)" "good s2" "sent s2 = sent s1 @ control_bytes PONG"
    using WSControl_sent [OF 1(2)] by blast
  show ?thesis
    using 1 2 WSControl_pending [OF 2(1)] assms(3) unfolding recv_frame_def Let_def 1(1) prod.case h
    by (auto simp: WSPong_def opcode_defs)
qed

lemma recv_controls:
  assumes "good s" and "pending s = concat (map control_bytes cs) @ rest"
    and "list_all (\<lambda>c. c = PING \<or> c = PONG) cs"
  shows "\<exists>s'. WSRecvMessage_loop rd wr cl host max_size client opcode data cur_len s =
             WSRecvMessage_loop rd wr cl host max_size client opcode data cur_len s' \<and>
           good s' \<and> pending s' = rest \<and> sent s' = sent s @ pong_replies cs"
  using assms
proof (induction cs arbitrary: s)
  case (Cons c cs)
  from recv_frame_control [OF Cons.prems(1), of c "concat (map control_bytes cs) @ rest" cl host max_size client
      opcode data cur_len] Cons.prems(2,3) obtain s1 where
    1: "recv_frame rd wr cl host max_size client opcode data cur_len s = (Again opcode data cur_len, s1)"
      "good s1" "pending s1 = concat (map control_bytes cs) @ rest"
      "sent s1 = sent s @ (if c = PING then control_bytes PONG else [])" by auto
  from Cons.IH [OF 1(2,3)] Cons.prems(3) obtain s2 where
    "WSRecvMessage_loop rd wr cl host max_size client opcode data cur_len s1 =
       WSRecvMessage_loop rd wr cl host max_size client opcode data cur_len s2"
    "good s2" "pending s2 = rest" "sent s2 = sent s1 @ pong_replies cs" by auto
  then show ?case
    using 1(1,4) by (intro exI [of _ s2]) (simp add: WSRecvMessage_loop.simps [of _ _ _ _ _ _ _ _ _ s] pong_replies_def)
qed (auto simp: pong_replies_def)

lemma recv_frags:
  assumes "good s" and "pending s = frags_bytes sender frame_client op fs @ rest" and "wf_frags fs" and "fs \<noteq> []"
    and "length data + length (frags_data fs) < max_size" and "max_size \<le> 2 ^ 31"
    and "op \<in> {0, 1, 2}" and "frame_client \<noteq> client" and "message_opcode opcode (nat op) \<noteq> 0"
  shows "\<exists>s'. WSRecvMessage_loop rd wr cl host max_size client opcode data (int (length data)) s =
             Some (Some \<lparr>msg_opcode = int (message_opcode opcode (nat op)), msg_data = data @ frags_data fs\<rparr>, s') \<and>
           good s' \<and> pending s' = rest \<and> sent s' = sent s @ frags_replies fs"
  using assms
proof (induction fs arbitrary: s op opcode data)
  case (Cons f fs)
  obtain cs rv d where f: "f = (cs, rv, d)" by (cases f) auto
  let ?key = "mem_bytes sender rv" and ?tail = "frags_bytes sender frame_client 0 fs @ rest"
  have wf: "list_all (\<lambda>c. c = PING \<or> c = PONG) cs" "0 < length d" "length d < 65536" "wf_frags fs"
    using Cons.prems(3) f by (simp_all add: wf_frags_def)
  have len: "length data + length d < max_size" "length (data @ d) + length (frags_data fs) < max_size"
    using Cons.prems(5) f by (simp_all add: frags_data_def)
  from recv_controls [OF Cons.prems(1) _ wf(1), of "ws_frame frame_client ?key (fs = []) op d @ ?tail" cl host
      max_size client opcode data "int (length data)"] Cons.prems(2)
  obtain s1 where 1: "WSRecvMessage_loop rd wr cl host max_size client opcode data (int (length data)) s =
        WSRecvMessage_loop rd wr cl host max_size client opcode data (int (length data)) s1"
      "good s1" "pending s1 = ws_frame frame_client ?key (fs = []) op d @ ?tail"
      "sent s1 = sent s @ pong_replies cs" unfolding f by auto
  let ?op = "message_opcode opcode (nat op)"
  from recv_frame_data [OF 1(2,3) _ wf(2,3) len(1) Cons.prems(6,7,8), of cl host opcode] obtain s2 where
    2: "recv_frame rd wr cl host max_size client opcode data (int (length data)) s1 =
        (if fs = [] then Message \<lparr>msg_opcode = int ?op, msg_data = data @ d\<rparr>
         else Again ?op (data @ d) (int (length (data @ d))), s2)"
      "good s2" "pending s2 = ?tail" "sent s2 = sent s1" by auto
  show ?case
  proof (cases "fs = []")
    case True
    then show ?thesis
      using 1 2 f by (simp add: WSRecvMessage_loop.simps [of _ _ _ _ _ _ _ _ _ s1] frags_data_def frags_replies_def)
  next
    case False
    have op: "message_opcode ?op (nat 0) = ?op" by (simp add: message_opcode_def opcode_defs)
    from Cons.IH [OF 2(2,3) wf(4) False len(2) Cons.prems(6) _ Cons.prems(8), of ?op] Cons.prems(9) op
    obtain s3 where "WSRecvMessage_loop rd wr cl host max_size client ?op (data @ d) (int (length (data @ d))) s2 =
        Some (Some \<lparr>msg_opcode = int ?op, msg_data = (data @ d) @ frags_data fs\<rparr>, s3)"
      "good s3" "pending s3 = rest" "sent s3 = sent s2 @ frags_replies fs" by auto
    then show ?thesis
      using 1 2(1,4) False f
      by (simp add: WSRecvMessage_loop.simps [of _ _ _ _ _ _ _ _ _ s1] frags_data_def frags_replies_def)
  qed
qed simp

lemma readFixSize_loop_good:
  assumes "good s"
  shows "good (snd (snd (readFixSize_loop rd n left buf s))) \<and>
         length (pending (snd (snd (readFixSize_loop rd n left buf s)))) \<le> length (pending s)"
  using assms
proof (induction "nat left" arbitrary: left buf s rule: less_induct)
  case less
  consider "left \<le> 0" | "0 < left" "pending s = []" | "0 < left" "pending s \<noteq> []" by linarith
  then show ?case
  proof cases
    case 1
    then show ?thesis using less.prems by (simp add: readFixSize_loop.simps)
  next
    case 2
    from rd_none [OF less.prems 2(2), of "nat left"] obtain r s' where
      "rd s (nat left) = (r, [], s')" "r \<le> 0" "good s'" "pending s' = []" by blast
    with 2 show ?thesis by (simp add: readFixSize_loop.simps)
  next
    case 3
    from rd_some [OF less.prems _ 3(2), of "nat left"] 3(1) obtain k s' where
      k: "rd s (nat left) = (int k, take k (pending s), s')" "0 < k" "k \<le> nat left"
        "pending s' = drop k (pending s)" "good s'" by auto
    from less.hyps [OF _ k(5), of "left - int k" "buf @ take k (pending s)"] 3 k(1-4) show ?thesis
      by (auto simp: readFixSize_loop.simps [of rd n left])
  qed
qed

lemma readFixSize_good:
  assumes "good s" and "readFixSize rd s n = (r, bs, s')"
  shows "good s'" and "length (pending s') \<le> length (pending s)"
  using readFixSize_loop_good [OF assms(1), of n "int64_of n" "[]"] assms(2)
  by (simp_all add: readFixSize_def)

lemma recv_length_good:
  assumes "good s" and "recv_length rd host h s = (len, s')"
  shows "good s' \<and> length (pending s') \<le> length (pending s)"
  using assms(2) readFixSize_good [OF assms(1)] assms(1)
  by (auto simp: recv_length_def Let_def split: if_splits prod.splits)

lemma recv_payload_good:
  assumes "good s" and "recv_payload rd max_size h len opcode data cur_len s = (nx, s')"
  shows "good s' \<and> length (pending s') \<le> length (pending s)"
proof -
  obtain r mask s1 where m: "(if h_mask h then readFixSize rd s 4 else (1, [0, 0, 0, 0], s)) = (r, mask, s1)"
    by (cases "if h_mask h then readFixSize rd s 4 else (1, [0, 0, 0, 0], s)") auto
  have s1: "good s1" "length (pending s1) \<le> length (pending s)"
    using m readFixSize_good [OF assms(1)] assms(1) by (auto split: if_splits)
  obtain r2 bs s2 where 2: "readFixSize rd s1 len = (r2, bs, s2)" by (cases "readFixSize rd s1 len") auto
  note s2 = readFixSize_good [OF s1(1) 2]
  have "s' \<in> {s, s1, s2}"
    using assms(2) unfolding recv_payload_def Let_def m prod.case 2 by (auto split: if_splits)
  then show ?thesis using assms(1) s1 s2 by auto
qed

lemma recv_frame_progress:
  assumes "good s" and "recv_frame rd wr cl host max_size client opcode data cur_len s = (nx, s')" and "nx \<noteq> Break"
  shows "good s' \<and> length (pending s') < length (pending s)"
proof -
  obtain r bs s1 where r: "readFixSize rd s 2 = (r, bs, s1)" by (cases "readFixSize rd s 2") auto
  have "0 < r" using assms(2,3) r by (auto simp: recv_frame_def Let_def split: if_splits)
  then have len: "2 \<le> length (pending s)"
    using readFixSize_short [OF assms(1), of 2] r by (cases "length (pending s) < 2") simp_all
  with readFixSize_all [OF assms(1), of 2] r
  have s1: "good s1" "length (pending s1) < length (pending s)" by auto
  from WSControl_sent [OF s1(1), of PONG cl] obtain s2 where
    s2: "WSPong wr cl s1 = (2, s2)" "good s2" "pending s2 = pending s1"
    by (auto simp: WSPong_def dest: WSControl_pending)
  obtain len s3 where s3: "recv_length rd host (bytes_head bs) s1 = (len, s3)"
    by (cases "recv_length rd host (bytes_head bs) s1") auto
  note g3 = recv_length_good [OF s1(1) s3]
  have "s' \<in> {s1, s2} \<or> (\<exists>n nx. recv_payload rd max_size (bytes_head bs) n opcode data cur_len s3 = (nx, s'))"
    using assms(2,3) \<open>0 < r\<close> s2(1) unfolding recv_frame_def Let_def r prod.case s3
    by (auto split: if_splits option.splits)
  then show ?thesis using s1 s2(2,3) g3 recv_payload_good [OF conjunct1 [OF g3]] by fastforce
qed

lemma WSRecvMessage_loop_returns:
  assumes "good s"
  shows "\<exists>m s'. WSRecvMessage_loop rd wr cl host max_size client opcode data cur_len s = Some (m, s') \<and>
           (m \<noteq> None \<longrightarrow> good s' \<and> length (pending s') < length (pending s))"
  using assms
proof (induction "length (pending s)" arbitrary: opcode data cur_len s rule: less_induct)
  case less
  obtain nx s1 where 1: "recv_frame rd wr cl host max_size client opcode data cur_len s = (nx, s1)"
    by (cases "recv_frame rd wr cl host max_size client opcode data cur_len s") auto
  show ?case
  proof (cases nx)
    case (Again opcode' data' cur_len')
    with recv_frame_progress [OF less.prems 1] have "good s1" "length (pending s1) < length (pending s)" by auto
    with less.hyps [of s1 opcode' data' cur_len'] Again 1 show ?thesis
      by (fastforce simp: WSRecvMessage_loop.simps [of _ _ _ _ _ _ _ _ _ s])
  qed (use 1 recv_frame_progress [OF less.prems 1] in \<open>simp_all add: WSRecvMessage_loop.simps [of _ _ _ _ _ _ _ _ _ s]\<close>)
qed

end

section \<open>Websockets over sockets\<close>

definition sock_duplex :: "sock \<Rightarrow> bool" where
  "sock_duplex s \<longleftrightarrow> sock_good s \<and> sock_writable s"

lemma SocketStream_read_keeps:
  "so_out (snd (snd (SocketStream_read s n))) = so_out s"
  "so_accept (snd (snd (SocketStream_read s n))) = so_accept s"
  "m_isConnected (snd (snd (SocketStream_read s n))) = m_isConnected s"
  by (auto simp: SocketStream_read_def Socket_recv_def kernel_recv_def split: list.split chunk.split)

lemma SocketStream_write_keeps:
  "so_in (snd (SocketStream_write s bs)) = so_in s"
  "m_isConnected (snd (SocketStream_write s bs)) = m_isConnected s"
  by (auto simp: SocketStream_write_def Socket_send_def kernel_send_def split: list.split)

interpretation wss: duplex_stream SocketStream_read SocketStream_write sock_pending so_out sock_duplex
proof unfold_locales
  fix s :: sock and n :: nat and bs :: "u8 list"
  have wr: "sock_writable s \<Longrightarrow> sock_writable (snd (snd (SocketStream_read s n)))"
    by (simp add: sock_writable_def SocketStream_read_keeps)
  have rd: "sock_good s \<Longrightarrow> sock_good (snd (SocketStream_write s bs))"
    by (simp add: sock_good_def SocketStream_write_keeps)
  show "sock_duplex s \<Longrightarrow> 0 < n \<Longrightarrow> sock_pending s \<noteq> [] \<Longrightarrow>
      \<exists>k s'. SocketStream_read s n = (int k, take k (sock_pending s), s') \<and> 0 < k \<and> k \<le> n \<and>
        k \<le> length (sock_pending s) \<and> sock_pending s' = drop k (sock_pending s) \<and> sock_duplex s'"
    using sstream.rd_some [of s n] wr by (fastforce simp: sock_duplex_def)
  show "sock_duplex s \<Longrightarrow> sock_pending s = [] \<Longrightarrow>
      \<exists>r s'. SocketStream_read s n = (r, [], s') \<and> r \<le> 0 \<and> sock_duplex s' \<and> sock_pending s' = []"
    using sstream.rd_none [of s n] wr by (fastforce simp: sock_duplex_def)
  show "sock_duplex s \<Longrightarrow> bs \<noteq> [] \<Longrightarrow> \<exists>k s'. SocketStream_write s bs = (int k, s') \<and> 0 < k \<and> k \<le> length bs \<and>
      so_out s' = so_out s @ take k bs \<and> sock_duplex s'"
    using ssink.wr_some [of s bs] rd by (fastforce simp: sock_duplex_def)
  show "so_out (snd (snd (SocketStream_read s n))) = so_out s" by (rule SocketStream_read_keeps)
  show "sock_pending (snd (SocketStream_write s bs)) = sock_pending s"
    by (simp add: sock_pending_def SocketStream_write_keeps)
qed


lemma SocketStream_close_disconnects: "m_isConnected s \<Longrightarrow> \<not> m_isConnected (SocketStream_close s)"
  by (simp add: SocketStream_close_def Socket_close_def)

lemma writeFixSize_Nil [simp]: "writeFixSize wr s [] = (0, s)"
  by (simp add: writeFixSize_def writeFixSize_loop.simps)

section \<open>Properties\<close>

text \<open>C4: A text or binary message that one end sends in one or more fragments (of 1 to 65535 bytes
  each, with pings and pongs in between, masked when the sender is the client) is returned by the
  \<open>recvMessage\<close> of the other end with its opcode and its bytes, however the socket segments the
  stream and whatever the byte orders of the two hosts; every ping is answered by a pong and what
  follows the message stays pending.\<close>

theorem ws_roundtrip:
  assumes "sock_writable s" and "sock_good r" and "sock_writable r"
    and "wf_frags fs" and "fs \<noteq> []" and "length (frags_data fs) < max_size" and "max_size \<le> 2 ^ 31"
    and "opcode = int TEXT_FRAME \<or> opcode = int BIN_FRAME"
    and "so_out s @ sock_pending r =
           so_out (send_frags SocketStream_write SocketStream_close sender junk client opcode fs s) @ rest"
  shows "\<exists>r'. (if client then WSSession_recvMessage receiver max_size r else WSConnection_recvMessage receiver max_size r)
           = Some (Some \<lparr>msg_opcode = opcode, msg_data = frags_data fs\<rparr>, r') \<and>
         sock_pending r' = rest \<and> so_out r' = so_out r @ frags_replies fs"
proof -
  have "sock_pending r = frags_bytes sender client opcode fs @ rest"
    using ssink.send_frags_sent [OF assms(1,4), of SocketStream_close sender junk client opcode] assms(9)
    by simp
  moreover have "message_opcode 0 (nat opcode) = nat opcode" "nat opcode \<noteq> 0" "int (nat opcode) = opcode"
    "opcode \<in> {0, 1, 2}" using assms(8) by (auto simp: message_opcode_def opcode_defs)
  ultimately show ?thesis
    using wss.recv_frags [of r sender client opcode fs rest "[]" max_size "\<not> client" 0 SocketStream_close receiver]
      assms(2-8)
    by (auto simp: sock_duplex_def WSSession_recvMessage_def WSConnection_recvMessage_def WSRecvMessage_def)
qed

text \<open>The peer of a client that sent a ping and the text \<open>1 2\<close> in two fragments, in segments of the
  first three bytes and the rest.\<close>

definition ws_sample_frags :: "fragment list" where
  "ws_sample_frags = [([PING], 0x01020304, [1]), ([], 5, [2])]"

definition ws_sample_out :: "u8 list" where
  "ws_sample_out = so_out (send_frags SocketStream_write SocketStream_close LITTLE_ENDIAN 0 True 1 ws_sample_frags
     (sample_sock\<lparr>so_accept := []\<rparr>))"

definition ws_sample_peer :: sock where
  "ws_sample_peer = sample_sock\<lparr>so_in := [Data (take 3 ws_sample_out), Data (drop 3 ws_sample_out)]\<rparr>"

lemma ws_sample_out_eq: "ws_sample_out = frags_bytes LITTLE_ENDIAN True 1 ws_sample_frags"
  using ssink.send_frags_sent [of "sample_sock\<lparr>so_accept := []\<rparr>" ws_sample_frags SocketStream_close LITTLE_ENDIAN 0 True 1]
  by (simp add: ws_sample_out_def sample_sock_def sock_writable_def ws_sample_frags_def wf_frags_def)

lemma ws_sample_length: "3 < length ws_sample_out"
  by (simp add: ws_sample_out_eq ws_sample_frags_def ws_frame_def control_bytes_def)

theorem ws_roundtrip_witness:
  "\<exists>r'. WSSession_recvMessage BIG_ENDIAN 100 ws_sample_peer = Some (Some \<lparr>msg_opcode = 1, msg_data = [1, 2]\<rparr>, r') \<and>
     sock_pending r' = [] \<and> so_out r' = control_bytes PONG"
proof -
  have "take 3 ws_sample_out \<noteq> []" "drop 3 ws_sample_out \<noteq> []" using ws_sample_length by auto
  then have "sock_good ws_sample_peer" "sock_writable ws_sample_peer" "sock_pending ws_sample_peer = ws_sample_out"
      "so_out ws_sample_peer = []"
    by (simp_all add: ws_sample_peer_def sock_good_def sock_writable_def sock_pending_def sample_sock_def)
  then show ?thesis
    using ws_roundtrip [of "sample_sock\<lparr>so_accept := []\<rparr>" ws_sample_peer ws_sample_frags 100 1 LITTLE_ENDIAN 0 True "[]"
        BIG_ENDIAN]
    by (simp add: ws_sample_out_def ws_sample_frags_def sample_sock_def sock_writable_def wf_frags_def
        frags_data_def TEXT_FRAME_def frags_replies_def pong_replies_def)
qed

text \<open>\<open>recvMessage\<close> returns on every finite input, at the server and at the client: each turn of
  its loop consumes at least a frame head, whatever the bytes are.\<close>

theorem ws_recv_returns:
  assumes "sock_good s" and "sock_writable s"
  shows "(\<exists>m s'. WSSession_recvMessage host max_size s = Some (m, s')) \<and>
         (\<exists>m s'. WSConnection_recvMessage host max_size s = Some (m, s'))"
  using assms wss.WSRecvMessage_loop_returns [of s]
  by (simp add: WSSession_recvMessage_def WSConnection_recvMessage_def WSRecvMessage_def sock_duplex_def) blast

theorem ws_recv_returns_witness:
  "\<exists>m s'. WSSession_recvMessage LITTLE_ENDIAN 100 sample_sock = Some (m, s')"
  using ws_recv_returns [OF sample_sock_facts(1,2)] by blast

text \<open>Two messages that cannot be sent: an empty one (the transfer of zero bytes counts as a failure,
  and the connection is closed after the head went out), and one of 65536 bytes or more, whose length
  field is two bytes of an uninitialised variable instead of the eight bytes that payload 127
  announces.\<close>

theorem ws_send_failures:
  assumes "sock_writable s" and "65536 \<le> length data" and "length data < 2 ^ 31 - 2"
  shows "(\<exists>s'. WSSession_sendMessage host junk rv s \<lparr>msg_opcode = opcode, msg_data = []\<rparr> fin
            = (- 1, \<lparr>msg_opcode = opcode, msg_data = []\<rparr>, s') \<and> \<not> m_isConnected s') \<and>
         (\<exists>s'. WSSession_sendMessage host junk rv s \<lparr>msg_opcode = opcode, msg_data = data\<rparr> fin
            = (int (length data) + 2, \<lparr>msg_opcode = opcode, msg_data = data\<rparr>, s') \<and>
          so_out s' = so_out s @ head_bytes (send_head opcode (length data) False fin) @
            endian_bytes BIG_ENDIAN junk @ data)"
proof -
  let ?h = "\<lambda>n. head_bytes (send_head opcode n False fin)"
  from ssink.writeFixSize_sent [OF assms(1), of "?h 0"] obtain s1 where
    1: "writeFixSize SocketStream_write s (?h 0) = (2, s1)" "sock_writable s1" by auto
  from ssink.writeFixSize_sent [OF assms(1), of "?h (length data)"] obtain s2 where
    2: "writeFixSize SocketStream_write s (?h (length data)) = (2, s2)" "sock_writable s2"
      "so_out s2 = so_out s @ ?h (length data)" by auto
  from ssink.writeFixSize_sent [OF 2(2), of "endian_bytes BIG_ENDIAN junk"] obtain s3 where
    3: "writeFixSize SocketStream_write s2 (endian_bytes BIG_ENDIAN junk) = (2, s3)" "sock_writable s3"
      "so_out s3 = so_out s2 @ endian_bytes BIG_ENDIAN junk" by auto
  have "0 < length data" "length data < 2 ^ 31" using assms(2,3) by linarith+
  from ssink.writeFixSize_sent [OF 3(2) this] obtain s4 where
    4: "writeFixSize SocketStream_write s3 data = (int (length data), s4)" "so_out s4 = so_out s3 @ data" by auto
  have "ret_int (length data + 2) = int (length data) + 2" using assms(3) by simp
  then show ?thesis
    using 1 2 3 4 assms(2)
    by (auto simp: WSSession_sendMessage_def WSSendMessage_def Let_def mem_bytes_big sock_writable_def
        dest: SocketStream_close_disconnects)
qed

theorem ws_send_failures_witness:
  "\<exists>s'. WSSession_sendMessage LITTLE_ENDIAN 7 0 sample_sock \<lparr>msg_opcode = 1, msg_data = []\<rparr> True
     = (- 1, \<lparr>msg_opcode = 1, msg_data = []\<rparr>, s') \<and> \<not> m_isConnected s'"
  using ws_send_failures [OF sample_sock_facts(2), of "replicate 65536 0"] by simp

end
