(* ===== verification/Lamb_StringUtil.thy ===== *)
theory Lamb_StringUtil
  imports Lamb_Prelude "HOL-Library.List_Lexorder" "HOL-Library.Char_ord"
begin

text \<open>
  The string functions of \<open>lamb/util.cc\<close> (URL encoding, trimming, case, file names) and what they
  and their callers use of the C and C++ string library. A \<open>std::string\<close> is a \<open>string\<close>;
  \<open>c_str\<close> is the part before the first NUL that the C functions see. The character classes are
  those of the C locale. \<open>std::string::npos\<close> is \<open>None\<close>.
\<close>

section \<open>The string library\<close>

definition c_str :: "string \<Rightarrow> string" where
  "c_str s = takeWhile (\<lambda>c. c \<noteq> CHR 0x00) s"

definition to_lower :: "char \<Rightarrow> char" where
  "to_lower c = (let n = of_char c :: nat in if 65 \<le> n \<and> n \<le> 90 then char_of (n + 32) else c)"

definition to_upper :: "char \<Rightarrow> char" where
  "to_upper c = (let n = of_char c :: nat in if 97 \<le> n \<and> n \<le> 122 then char_of (n - 32) else c)"

fun strcasecmp_chars :: "string \<Rightarrow> string \<Rightarrow> int" where
  "strcasecmp_chars [] [] = 0"
| "strcasecmp_chars [] (d # ds) = - int (of_char (to_lower d))"
| "strcasecmp_chars (c # cs) [] = int (of_char (to_lower c))"
| "strcasecmp_chars (c # cs) (d # ds) =
     (if to_lower c = to_lower d then strcasecmp_chars cs ds
      else int (of_char (to_lower c)) - int (of_char (to_lower d)))"

definition strcasecmp :: "string \<Rightarrow> string \<Rightarrow> int" where
  "strcasecmp a b = strcasecmp_chars (c_str a) (c_str b)"

fun str_find :: "string \<Rightarrow> char \<Rightarrow> nat \<Rightarrow> nat option" where
  "str_find [] f i = None"
| "str_find (c # cs) f i =
     (if i = 0 then (if c = f then Some 0 else map_option Suc (str_find cs f 0))
      else map_option Suc (str_find cs f (i - 1)))"

fun find_first_not_of :: "string \<Rightarrow> string \<Rightarrow> nat option" where
  "find_first_not_of [] d = None"
| "find_first_not_of (c # cs) d = (if c \<in> set d then map_option Suc (find_first_not_of cs d) else Some 0)"

definition find_last_not_of :: "string \<Rightarrow> string \<Rightarrow> nat option" where
  "find_last_not_of s d = map_option (\<lambda>i. length s - 1 - i) (find_first_not_of (rev s) d)"

definition rfind :: "string \<Rightarrow> char \<Rightarrow> nat option" where
  "rfind s c = map_option (\<lambda>i. length s - 1 - i) (str_find (rev s) c 0)"

definition substr :: "string \<Rightarrow> nat \<Rightarrow> nat \<Rightarrow> string" where
  "substr s pos n = take n (drop pos s)"

section \<open>Case\<close>

definition ToUpper :: "string \<Rightarrow> string" where
  "ToUpper name = map to_upper name"

definition ToLower :: "string \<Rightarrow> string" where
  "ToLower name = map to_lower name"

section \<open>URL encoding\<close>

text \<open>The tables; \<open>uri_chars\<close> is \<open>1\<close> at \<open>- . 0-9 = A-Z _ a-z ~\<close>.\<close>

definition uri_chars :: "nat list" where
  "uri_chars = replicate 45 0 @ [1, 1, 0] @ replicate 10 1 @ [0, 0, 0, 1, 0, 0]
     @ [0] @ replicate 26 1 @ [0, 0, 0, 0, 1] @ [0] @ replicate 26 1 @ [0, 0, 0, 1, 0] @ replicate 128 0"

definition xdigit_chars :: "nat list" where
  "xdigit_chars = replicate 48 0 @ [0, 1, 2, 3, 4, 5, 6, 7, 8, 9] @ replicate 6 0
     @ [0, 10, 11, 12, 13, 14, 15] @ replicate 25 0 @ [0, 10, 11, 12, 13, 14, 15] @ replicate 153 0"

definition CHAR_IS_UNRESERVED :: "char \<Rightarrow> bool" where
  "CHAR_IS_UNRESERVED c \<longleftrightarrow> uri_chars ! of_char c \<noteq> 0"

definition isxdigit :: "char \<Rightarrow> bool" where
  "isxdigit c \<longleftrightarrow>
     (let n = of_char c :: nat in (48 \<le> n \<and> n \<le> 57) \<or> (65 \<le> n \<and> n \<le> 70) \<or> (97 \<le> n \<and> n \<le> 102))"

definition hexdigits :: string where
  "hexdigits = ''0123456789ABCDEF''"

text \<open>\<open>ss\<close> is the lazily allocated result; \<open>prev\<close> is the part of \<open>str\<close> before \<open>c\<close>.\<close>

definition alloc_copy :: "string option \<Rightarrow> string \<Rightarrow> string" where
  "alloc_copy ss prev = (case ss of None \<Rightarrow> prev | Some t \<Rightarrow> t)"

fun UrlEncode_loop :: "bool \<Rightarrow> string \<Rightarrow> string option \<Rightarrow> string \<Rightarrow> string option" where
  "UrlEncode_loop space_as_plus prev ss [] = ss"
| "UrlEncode_loop space_as_plus prev ss (c # cs) =
     UrlEncode_loop space_as_plus (prev @ [c])
       (if \<not> CHAR_IS_UNRESERVED c then
          if c = CHR '' '' \<and> space_as_plus then Some (alloc_copy ss prev @ ''+'')
          else Some (alloc_copy ss prev @ [CHR ''%'', hexdigits ! (of_char c div 16), hexdigits ! (of_char c mod 16)])
        else map_option (\<lambda>t. t @ [c]) ss) cs"

definition UrlEncode :: "string \<Rightarrow> bool \<Rightarrow> string" where
  "UrlEncode str space_as_plus =
     (case UrlEncode_loop space_as_plus [] None str of None \<Rightarrow> str | Some rt \<Rightarrow> rt)"

fun UrlDecode_loop :: "bool \<Rightarrow> string \<Rightarrow> string option \<Rightarrow> string \<Rightarrow> string option" where
  "UrlDecode_loop space_as_plus prev ss [] = ss"
| "UrlDecode_loop space_as_plus prev ss (c # cs) =
     (if c = CHR ''+'' \<and> space_as_plus then
        UrlDecode_loop space_as_plus (prev @ [c]) (Some (alloc_copy ss prev @ '' '')) cs
      else if c = CHR ''%'' \<and> 2 \<le> length cs \<and> isxdigit (cs ! 0) \<and> isxdigit (cs ! 1) then
        UrlDecode_loop space_as_plus (prev @ c # take 2 cs)
          (Some (alloc_copy ss prev @
             [char_of (push_bit 4 (xdigit_chars ! of_char (cs ! 0)) OR xdigit_chars ! of_char (cs ! 1))]))
          (drop 2 cs)
      else UrlDecode_loop space_as_plus (prev @ [c]) (map_option (\<lambda>t. t @ [c]) ss) cs)"

definition UrlDecode :: "string \<Rightarrow> bool \<Rightarrow> string" where
  "UrlDecode str space_as_plus =
     (case UrlDecode_loop space_as_plus [] None str of None \<Rightarrow> str | Some rt \<Rightarrow> rt)"

section \<open>Trimming\<close>

definition Trim :: "string \<Rightarrow> string \<Rightarrow> string" where
  "Trim str delimit =
     (case find_first_not_of str delimit of None \<Rightarrow> []
      | Some b \<Rightarrow>
          (case find_last_not_of str delimit of
             None \<Rightarrow> substr str b (length str)
           | Some e \<Rightarrow> substr str b (e - b + 1)))"

definition TrimLeft :: "string \<Rightarrow> string \<Rightarrow> string" where
  "TrimLeft str delimit =
     (case find_first_not_of str delimit of None \<Rightarrow> [] | Some b \<Rightarrow> substr str b (length str))"

definition TrimRight :: "string \<Rightarrow> string \<Rightarrow> string" where
  "TrimRight str delimit =
     (case find_last_not_of str delimit of None \<Rightarrow> [] | Some e \<Rightarrow> substr str 0 e)"

definition blanks :: string where
  "blanks = [CHR '' '', CHR 0x09, CHR 0x0D, CHR 0x0A]"

section \<open>File names\<close>

definition Dirname :: "string \<Rightarrow> string" where
  "Dirname filename =
     (if filename = [] then ''.''
      else case rfind filename (CHR ''/'') of
        None \<Rightarrow> ''.''
      | Some pos \<Rightarrow> if pos = 0 then ''/'' else substr filename 0 pos)"

definition Basename :: "string \<Rightarrow> string" where
  "Basename filename =
     (if filename = [] then filename
      else case rfind filename (CHR ''/'') of
        None \<Rightarrow> filename
      | Some pos \<Rightarrow> substr filename (pos + 1) (length filename))"

section \<open>Facts on the string library\<close>

text \<open>\<open>strcasecmp\<close> is the order of the lower-case strings.\<close>

definition lower_key :: "string \<Rightarrow> string" where
  "lower_key s = map to_lower (c_str s)"

lemma char_eq_of_char: "c = d \<longleftrightarrow> of_char c = (of_char d :: nat)"
  by simp

lemma to_lower_NUL: "to_lower c = CHR 0x00 \<longleftrightarrow> c = CHR 0x00"
  by (simp add: to_lower_def Let_def char_eq_of_char del: of_char_eq_iff)

lemma of_char_pos: "c \<noteq> CHR 0x00 \<Longrightarrow> 0 < (of_char c :: nat)"
  by (simp add: char_eq_of_char del: of_char_eq_iff)

lemma NUL_notin_c_str: "CHR 0x00 \<notin> set (c_str s)"
  by (auto simp: c_str_def dest: set_takeWhileD)

lemma strcasecmp_chars_iff:
  assumes "CHR 0x00 \<notin> set a" and "CHR 0x00 \<notin> set b"
  shows "(strcasecmp_chars a b < 0 \<longleftrightarrow> map to_lower a < map to_lower b) \<and>
         (strcasecmp_chars a b = 0 \<longleftrightarrow> map to_lower a = map to_lower b)"
  using assms
proof (induction a b rule: strcasecmp_chars.induct)
  case (2 d ds)
  then show ?case using of_char_pos [of "to_lower d"] by (auto simp: to_lower_NUL)
next
  case (3 c cs)
  then show ?case using of_char_pos [of "to_lower c"] by (auto simp: to_lower_NUL)
next
  case (4 c cs d ds)
  then show ?case by (auto simp: less_char_def)
qed auto

lemma strcasecmp_less: "strcasecmp a b < 0 \<longleftrightarrow> lower_key a < lower_key b"
  using strcasecmp_chars_iff [OF NUL_notin_c_str NUL_notin_c_str, of a b]
  by (simp add: strcasecmp_def lower_key_def)

lemma strcasecmp_eq: "strcasecmp a b = 0 \<longleftrightarrow> lower_key a = lower_key b"
  using strcasecmp_chars_iff [OF NUL_notin_c_str NUL_notin_c_str, of a b]
  by (simp add: strcasecmp_def lower_key_def)

lemma str_find_skip: "str_find (xs @ ys) f (length xs) = map_option (\<lambda>i. length xs + i) (str_find ys f 0)"
  by (induction xs) (simp_all add: option.map_comp o_def option.map_id [unfolded id_def])

lemma str_find_0:
  "str_find s f 0 = (if f \<in> set s then Some (length (takeWhile (\<lambda>c. c \<noteq> f) s)) else None)"
  by (induction s) auto

lemma find_first_not_of_eq:
  "find_first_not_of s d =
     (if set s \<subseteq> set d then None else Some (length (takeWhile (\<lambda>c. c \<in> set d) s)))"
  by (induction s) auto

section \<open>URL decoding inverts URL encoding\<close>

text \<open>What a character is encoded to, and the decoding without the lazy allocation.\<close>

definition enc_char :: "bool \<Rightarrow> char \<Rightarrow> string" where
  "enc_char p c =
     (if CHAR_IS_UNRESERVED c then [c]
      else if c = CHR '' '' \<and> p then ''+''
      else [CHR ''%'', hexdigits ! (of_char c div 16), hexdigits ! (of_char c mod 16)])"

lemma UrlEncode_loop_eq:
  "alloc_copy (UrlEncode_loop p prev ss s) (prev @ s) = alloc_copy ss prev @ concat (map (enc_char p) s)"
proof (induction s arbitrary: prev ss)
  case (Cons c cs)
  show ?case
    using Cons.IH [of "prev @ [c]"]
    by (cases ss) (simp_all add: enc_char_def alloc_copy_def)
qed simp

lemma UrlEncode_eq: "UrlEncode s p = concat (map (enc_char p) s)"
  using UrlEncode_loop_eq [of p "[]" None s] by (simp add: UrlEncode_def alloc_copy_def)

fun dec :: "bool \<Rightarrow> string \<Rightarrow> string" where
  "dec p [] = []"
| "dec p (c # cs) =
     (if c = CHR ''+'' \<and> p then CHR '' '' # dec p cs
      else if c = CHR ''%'' \<and> 2 \<le> length cs \<and> isxdigit (cs ! 0) \<and> isxdigit (cs ! 1) then
        char_of (push_bit 4 (xdigit_chars ! of_char (cs ! 0)) OR xdigit_chars ! of_char (cs ! 1)) # dec p (drop 2 cs)
      else c # dec p cs)"

lemma UrlDecode_loop_eq:
  "alloc_copy (UrlDecode_loop p prev ss s) (prev @ s) = alloc_copy ss prev @ dec p s"
proof (induction p prev ss s rule: UrlDecode_loop.induct)
  case (2 p prev ss c cs)
  have "take 2 cs @ drop 2 cs = cs" by simp
  with 2 show ?case
    by (cases ss) (auto simp: alloc_copy_def simp del: append_take_drop_id)
qed simp

lemma UrlDecode_eq: "UrlDecode s p = dec p s"
  using UrlDecode_loop_eq [of p "[]" None s] by (simp add: UrlDecode_def alloc_copy_def)

lemma hexdigit_facts:
  assumes "n < 16"
  shows "isxdigit (hexdigits ! n)" and "xdigit_chars ! of_char (hexdigits ! n) = n"
proof -
  have "list_all (\<lambda>n. isxdigit (hexdigits ! n) \<and> xdigit_chars ! of_char (hexdigits ! n) = n) [0..<16]"
    by code_simp
  with assms show "isxdigit (hexdigits ! n)" "xdigit_chars ! of_char (hexdigits ! n) = n"
    by (auto simp: list_all_iff)
qed

lemma hex_byte: "m < 16 \<Longrightarrow> push_bit 4 n OR m = 16 * n + (m :: nat)"
proof -
  assume m: "m < 16"
  have "\<not> bit m k" if "4 \<le> k" for k
  proof -
    have "m < 2 ^ k" using m power_increasing [OF that, of "2 :: nat"] by simp
    then show ?thesis by (simp add: bit_iff_odd)
  qed
  then have "push_bit 4 n AND m = 0" by (intro bit_eqI) (auto simp: bit_simps)
  then have "push_bit 4 n OR m = push_bit 4 n + m" by (simp only: disjunctive_add_eq_or)
  then show ?thesis by (simp add: push_bit_eq_mult)
qed

lemma dec_enc_char: "dec p (enc_char q c @ s) = c # dec p s" if "q \<longrightarrow> p"
proof -
  let ?n = "of_char c :: nat"
  have hi: "?n div 16 < 16" and lo: "?n mod 16 < 16" using nat_of_char_less_256 [of c]
    by (simp_all add: less_mult_imp_div_less)
  have "16 * (?n div 16) + ?n mod 16 = ?n" by simp
  moreover have "c \<noteq> CHR ''%''" "c \<noteq> CHR ''+''" if "CHAR_IS_UNRESERVED c"
    using that by (auto simp: CHAR_IS_UNRESERVED_def uri_chars_def nth_append)
  ultimately show ?thesis
    using that hexdigit_facts [OF hi] hexdigit_facts [OF lo]
    by (auto simp: enc_char_def hex_byte [OF lo])
qed

lemma dec_encode: "dec p (concat (map (enc_char q) s)) = s" if "q \<longrightarrow> p"
  by (induction s) (simp_all add: dec_enc_char [OF that])

lemma length_encode: "length s \<le> length (concat (map (enc_char p) s))"
  by (induction s) (auto simp: enc_char_def)

lemma enc_fixed: "concat (map (enc_char p) s) = s \<longleftrightarrow> list_all CHAR_IS_UNRESERVED s"
proof (induction s)
  case (Cons c cs)
  show ?case
  proof (cases "CHAR_IS_UNRESERVED c")
    case False
    then have "concat (map (enc_char p) (c # cs)) \<noteq> c # cs"
      using length_encode [of cs p] by (auto simp: enc_char_def dest: arg_cong [where f = length])
    with False show ?thesis by simp
  next
    case True
    then have "enc_char p c = [c]" by (simp add: enc_char_def)
    with True show ?thesis by (simp add: Cons.IH)
  qed
qed simp

section \<open>Trimming and file names\<close>

definition strip_left :: "string \<Rightarrow> string \<Rightarrow> string" where
  "strip_left d s = dropWhile (\<lambda>c. c \<in> set d) s"

definition strip_right :: "string \<Rightarrow> string \<Rightarrow> string" where
  "strip_right d s = rev (dropWhile (\<lambda>c. c \<in> set d) (rev s))"

lemma find_last_not_of_eq:
  "find_last_not_of s d =
     (if set s \<subseteq> set d then None else Some (length s - 1 - length (takeWhile (\<lambda>c. c \<in> set d) (rev s))))"
  by (simp add: find_last_not_of_def find_first_not_of_eq)

lemma drop_takeWhile: "drop (length (takeWhile P xs)) xs = dropWhile P xs"
  by (induction xs) auto

lemma takeWhile_shorter: "\<not> set s \<subseteq> {c. P c} \<Longrightarrow> length (takeWhile P s) < length s"
  by (induction s) auto

lemma strip_right_eq: "strip_right d s = take (length s - length (takeWhile (\<lambda>c. c \<in> set d) (rev s))) s"
proof -
  have "dropWhile (\<lambda>c. c \<in> set d) (rev s) = drop (length (takeWhile (\<lambda>c. c \<in> set d) (rev s))) (rev s)"
    by (simp add: drop_takeWhile)
  then show ?thesis by (simp add: strip_right_def rev_drop)
qed

lemma takeWhile_rev_dropWhile:
  assumes "\<not> set s \<subseteq> {c. P c}"
  shows "takeWhile P (rev (dropWhile P s)) = takeWhile P (rev s)"
proof -
  have "dropWhile P s \<noteq> []" using assms by (auto simp: dropWhile_eq_Nil_conv)
  then have "\<not> P (hd (dropWhile P s))" and "hd (dropWhile P s) \<in> set (rev (dropWhile P s))"
    by (simp_all add: hd_dropWhile)
  then have "takeWhile P (rev (dropWhile P s) @ rev (takeWhile P s)) = takeWhile P (rev (dropWhile P s))"
    by (intro takeWhile_append1)
  moreover have "rev s = rev (dropWhile P s) @ rev (takeWhile P s)"
    by (metis rev_append takeWhile_dropWhile_id)
  ultimately show ?thesis by simp
qed

lemma TrimLeft_eq: "TrimLeft s d = strip_left d s"
  using length_dropWhile_le [of "\<lambda>c. c \<in> set d" s] dropWhile_eq_Nil_conv [of "\<lambda>c. c \<in> set d" s]
  by (auto simp: TrimLeft_def find_first_not_of_eq strip_left_def substr_def drop_takeWhile subset_iff
      simp del: dropWhile_eq_Nil_conv)

lemma Trim_eq: "Trim s d = strip_right d (strip_left d s)"
proof (cases "set s \<subseteq> set d")
  case True
  then have "dropWhile (\<lambda>c. c \<in> set d) s = []" by (auto simp: dropWhile_eq_Nil_conv)
  then show ?thesis using True
    by (simp add: Trim_def find_first_not_of_eq strip_right_def strip_left_def del: dropWhile_eq_Nil_conv)
next
  case False
  let ?P = "\<lambda>c. c \<in> set d"
  let ?b = "length (takeWhile ?P s)" and ?k = "length (takeWhile ?P (rev s))"
  have w: "takeWhile ?P (rev (dropWhile ?P s)) = takeWhile ?P (rev s)"
    using False by (intro takeWhile_rev_dropWhile) auto
  have "length (takeWhile ?P (rev (dropWhile ?P s))) < length (rev (dropWhile ?P s))"
  proof (rule takeWhile_shorter)
    have "dropWhile ?P s \<noteq> []" using False by (auto simp: dropWhile_eq_Nil_conv)
    from hd_dropWhile [OF this] hd_in_set [OF this] show "\<not> set (rev (dropWhile ?P s)) \<subseteq> {c. ?P c}" by auto
  qed
  then have "?k < length s - ?b" unfolding w by (simp flip: drop_takeWhile)
  then have "length s - 1 - ?k - ?b + 1 = length (dropWhile ?P s) - ?k"
    by (simp flip: drop_takeWhile)
  then show ?thesis
    using False
    by (simp add: Trim_def find_first_not_of_eq find_last_not_of_eq strip_left_def strip_right_eq substr_def
        drop_takeWhile w)
qed

lemma TrimRight_eq: "TrimRight s d = butlast (strip_right d s)"
proof (cases "set s \<subseteq> set d")
  case True
  then have "dropWhile (\<lambda>c. c \<in> set d) (rev s) = []" by (auto simp: dropWhile_eq_Nil_conv)
  with True show ?thesis by (simp add: TrimRight_def find_last_not_of_eq strip_right_def
        del: dropWhile_eq_Nil_conv)
next
  case False
  let ?k = "length (takeWhile (\<lambda>c. c \<in> set d) (rev s))"
  have "?k < length s" using takeWhile_shorter [of "rev s" "\<lambda>c. c \<in> set d"] False by auto
  then have "take (length s - 1 - ?k) s = butlast (take (length s - ?k) s)"
    by (simp add: butlast_take diff_commute)
  with False show ?thesis
    by (simp add: TrimRight_def find_last_not_of_eq strip_right_eq substr_def)
qed

lemma rfind_split:
  assumes "c \<notin> set b"
  shows "rfind (a @ c # b) c = Some (length a)" and "rfind b c = None"
proof -
  have "takeWhile (\<lambda>x. x \<noteq> c) (rev b @ c # rev a) = rev b"
    using assms by (subst takeWhile_append2) auto
  then show "rfind (a @ c # b) c = Some (length a)" by (simp add: rfind_def str_find_0)
  show "rfind b c = None" using assms by (simp add: rfind_def str_find_0)
qed

section \<open>Properties\<close>

text \<open>C12: \<open>UrlDecode\<close> inverts \<open>UrlEncode\<close> on every string of bytes, with spaces written as plus signs or
  not; the strings that are their own encoding are those of unreserved characters.\<close>

theorem url_roundtrip:
  "UrlDecode (UrlEncode s p) p = s \<and> UrlDecode (UrlEncode s False) p = s \<and>
   (UrlEncode s p = s \<longleftrightarrow> list_all CHAR_IS_UNRESERVED s)"
  by (simp add: UrlDecode_eq UrlEncode_eq dec_encode enc_fixed)


text \<open>\<open>Trim\<close> and \<open>TrimLeft\<close> remove exactly the delimiters at the ends; \<open>TrimRight\<close> also removes the last
  character that is kept. A file name is its directory, a slash and its base name.\<close>

theorem trim_and_paths:
  assumes "CHR ''/'' \<notin> set b"
  shows "Trim s d = strip_right d (strip_left d s) \<and> TrimLeft s d = strip_left d s \<and>
         TrimRight s d = butlast (strip_right d s) \<and>
         Dirname (a @ CHR ''/'' # b) = (if a = [] then ''/'' else a) \<and> Basename (a @ CHR ''/'' # b) = b \<and>
         Dirname b = ''.'' \<and> Basename b = b"
  using rfind_split [OF assms]
  by (simp add: Trim_eq TrimLeft_eq TrimRight_eq Dirname_def Basename_def substr_def)

theorem trim_and_paths_witness:
  "Trim '' ab '' '' '' = ''ab'' \<and> TrimRight ''ab '' '' '' = ''a'' \<and>
   Dirname (''/x'' @ CHR ''/'' # ''y'') = ''/x'' \<and> Basename (''/x'' @ CHR ''/'' # ''y'') = ''y''"
  using trim_and_paths [of "''y''" "'' ab ''" "'' ''" "''/x''"] trim_and_paths [of "''y''" "''ab ''" "'' ''" "[]"]
  by (simp add: strip_left_def strip_right_def)

end
