(* ===== verification/Lamb_Http.thy ===== *)
theory Lamb_Http
  imports Lamb_StringUtil
begin

text \<open>
  \<open>lamb/http/http.cc\<close> and \<open>http.h\<close>: requests and responses, their case-insensitive header maps, the
  lazily parsed parameters and cookies, and their textual form. A \<open>std::map\<close> is a list of pairs in
  the order of its comparison. The tables \<open>HTTP_METHOD_MAP\<close> and \<open>HTTP_STATUS_MAP\<close> are part of the
  vendored http-parser: they are the arguments \<open>methods\<close> (the names, indexed by number) and
  \<open>status_text\<close>; \<open>cast\<close> is \<open>boost::lexical_cast\<close> and \<open>Time2Str\<close> the formatting of a time.
\<close>

section \<open>Ordered maps\<close>

type_synonym 'v smap = "(string \<times> 'v) list"

fun map_find :: "(string \<Rightarrow> string \<Rightarrow> bool) \<Rightarrow> 'v smap \<Rightarrow> string \<Rightarrow> 'v option" where
  "map_find lt [] k = None"
| "map_find lt ((k', v) # m) k =
     (if lt k' k then map_find lt m k else if lt k k' then None else Some v)"

text \<open>\<open>m[k] = v\<close> keeps the spelling of a key that is present; \<open>insert\<close> keeps its value too.\<close>

fun map_put :: "(string \<Rightarrow> string \<Rightarrow> bool) \<Rightarrow> 'v smap \<Rightarrow> string \<Rightarrow> 'v \<Rightarrow> 'v smap" where
  "map_put lt [] k v = [(k, v)]"
| "map_put lt ((k', v') # m) k v =
     (if lt k' k then (k', v') # map_put lt m k v
      else if lt k k' then (k, v) # (k', v') # m else (k', v) # m)"

fun map_insert :: "(string \<Rightarrow> string \<Rightarrow> bool) \<Rightarrow> 'v smap \<Rightarrow> string \<Rightarrow> 'v \<Rightarrow> 'v smap" where
  "map_insert lt [] k v = [(k, v)]"
| "map_insert lt ((k', v') # m) k v =
     (if lt k' k then (k', v') # map_insert lt m k v
      else if lt k k' then (k, v) # (k', v') # m else (k', v') # m)"

fun map_erase :: "(string \<Rightarrow> string \<Rightarrow> bool) \<Rightarrow> 'v smap \<Rightarrow> string \<Rightarrow> 'v smap" where
  "map_erase lt [] k = []"
| "map_erase lt ((k', v') # m) k =
     (if lt k' k then (k', v') # map_erase lt m k
      else if lt k k' then (k', v') # m else m)"

definition map_inv :: "(string \<Rightarrow> string \<Rightarrow> bool) \<Rightarrow> 'v smap \<Rightarrow> bool" where
  "map_inv lt m \<longleftrightarrow> sorted_wrt lt (map fst m)"

definition CaseInsensitiveLess :: "string \<Rightarrow> string \<Rightarrow> bool" where
  "CaseInsensitiveLess lhs rhs \<longleftrightarrow> strcasecmp lhs rhs < 0"

section \<open>Methods and status codes\<close>

fun index_of :: "('a \<Rightarrow> bool) \<Rightarrow> 'a list \<Rightarrow> nat" where
  "index_of P [] = 0"
| "index_of P (x # xs) = (if P x then 0 else Suc (index_of P xs))"

definition StringToHttpMethod :: "string list \<Rightarrow> string \<Rightarrow> nat" where
  "StringToHttpMethod methods m = index_of (\<lambda>name. name = c_str m) methods"

definition CharsToHttpMethod :: "string list \<Rightarrow> string \<Rightarrow> nat" where
  "CharsToHttpMethod methods m = index_of (\<lambda>name. take (length name) (c_str m) = name) methods"

definition HttpMethodToString :: "string list \<Rightarrow> nat \<Rightarrow> string" where
  "HttpMethodToString methods m = (if length methods \<le> m then ''<unknown>'' else methods ! m)"

definition HttpStatusToString :: "(nat \<Rightarrow> string option) \<Rightarrow> nat \<Rightarrow> string" where
  "HttpStatusToString status_text s = (case status_text s of Some msg \<Rightarrow> msg | None \<Rightarrow> ''<unknown>'')"

section \<open>Conversions\<close>

definition checkGetAs :: "(string \<Rightarrow> 'a option) \<Rightarrow> string smap \<Rightarrow> string \<Rightarrow> 'a \<Rightarrow> bool \<times> 'a" where
  "checkGetAs cast m key def =
     (case map_find CaseInsensitiveLess m key of
        None \<Rightarrow> (False, def)
      | Some s \<Rightarrow> (case cast s of Some v \<Rightarrow> (True, v) | None \<Rightarrow> (False, def)))"

definition getAs :: "(string \<Rightarrow> 'a option) \<Rightarrow> string smap \<Rightarrow> string \<Rightarrow> 'a \<Rightarrow> 'a" where
  "getAs cast m key def =
     (case map_find CaseInsensitiveLess m key of
        None \<Rightarrow> def
      | Some s \<Rightarrow> (case cast s of Some v \<Rightarrow> v | None \<Rightarrow> def))"

section \<open>Requests\<close>

record HttpRequest =
  rq_method :: nat
  rq_version :: u8
  rq_close :: bool
  rq_websocket :: bool
  rq_parserParamFlag :: u8
  rq_path :: string
  rq_query :: string
  rq_fragment :: string
  rq_body :: string
  rq_headers :: "string smap"
  rq_params :: "string smap"
  rq_cookies :: "string smap"

record HttpResponse =
  rs_status :: nat
  rs_version :: u8
  rs_close :: bool
  rs_websocket :: bool
  rs_body :: string
  rs_reason :: string
  rs_headers :: "string smap"
  rs_cookies :: "string list"

text \<open>\<open>HttpMethod::GET\<close> is the number of that name in the table; the status codes are their numbers.\<close>

definition newHttpRequest :: "string list \<Rightarrow> u8 \<Rightarrow> bool \<Rightarrow> HttpRequest" where
  "newHttpRequest methods version cls =
     \<lparr>rq_method = index_of (\<lambda>name. name = ''GET'') methods, rq_version = version, rq_close = cls, rq_websocket = False, rq_parserParamFlag = 0,
      rq_path = ''/'', rq_query = [], rq_fragment = [], rq_body = [], rq_headers = [], rq_params = [],
      rq_cookies = []\<rparr>"

definition newHttpResponse :: "u8 \<Rightarrow> bool \<Rightarrow> HttpResponse" where
  "newHttpResponse version cls =
     \<lparr>rs_status = 200, rs_version = version, rs_close = cls, rs_websocket = False, rs_body = [],
      rs_reason = [], rs_headers = [], rs_cookies = []\<rparr>"

definition createResponse :: "HttpRequest \<Rightarrow> HttpResponse" where
  "createResponse r = newHttpResponse (rq_version r) (rq_close r)"

definition rq_getHeader :: "HttpRequest \<Rightarrow> string \<Rightarrow> string \<Rightarrow> string" where
  "rq_getHeader r key def =
     (case map_find CaseInsensitiveLess (rq_headers r) key of None \<Rightarrow> def | Some v \<Rightarrow> v)"

definition rq_setHeader :: "HttpRequest \<Rightarrow> string \<Rightarrow> string \<Rightarrow> HttpRequest" where
  "rq_setHeader r key val = r\<lparr>rq_headers := map_put CaseInsensitiveLess (rq_headers r) key val\<rparr>"

definition rq_setParam :: "HttpRequest \<Rightarrow> string \<Rightarrow> string \<Rightarrow> HttpRequest" where
  "rq_setParam r key val = r\<lparr>rq_params := map_put CaseInsensitiveLess (rq_params r) key val\<rparr>"

definition rq_setCookie :: "HttpRequest \<Rightarrow> string \<Rightarrow> string \<Rightarrow> HttpRequest" where
  "rq_setCookie r key val = r\<lparr>rq_cookies := map_put CaseInsensitiveLess (rq_cookies r) key val\<rparr>"

definition rq_delHeader :: "HttpRequest \<Rightarrow> string \<Rightarrow> HttpRequest" where
  "rq_delHeader r key = r\<lparr>rq_headers := map_erase CaseInsensitiveLess (rq_headers r) key\<rparr>"

definition rq_delParam :: "HttpRequest \<Rightarrow> string \<Rightarrow> HttpRequest" where
  "rq_delParam r key = r\<lparr>rq_params := map_erase CaseInsensitiveLess (rq_params r) key\<rparr>"

definition rq_delCookie :: "HttpRequest \<Rightarrow> string \<Rightarrow> HttpRequest" where
  "rq_delCookie r key = r\<lparr>rq_cookies := map_erase CaseInsensitiveLess (rq_cookies r) key\<rparr>"

text \<open>The \<open>bool\<close> result and what a non-null \<open>val\<close> receives.\<close>

definition rq_hasHeader :: "HttpRequest \<Rightarrow> string \<Rightarrow> bool \<times> string option" where
  "rq_hasHeader r key =
     (case map_find CaseInsensitiveLess (rq_headers r) key of None \<Rightarrow> (False, None) | Some v \<Rightarrow> (True, Some v))"

lemma str_find_bounds: "str_find s f i = Some j \<Longrightarrow> i \<le> j \<and> j < length s"
proof (induction s f i arbitrary: j rule: str_find.induct)
  case (2 c cs f i)
  then show ?case by (fastforce split: if_splits)
qed simp

text \<open>The macro \<open>PARSE_PARAM\<close>; \<open>start\<close> is its variable \<open>last\<close>.\<close>

function parse_param ::
  "string \<Rightarrow> char \<Rightarrow> (string \<Rightarrow> string) \<Rightarrow> nat \<Rightarrow> string smap \<Rightarrow> string smap" where
  "parse_param str flag trim start m =
     (case str_find str (CHR ''='') start of
        None \<Rightarrow> m
      | Some key \<Rightarrow>
          let pos = str_find str flag key;
              k = UrlDecode (trim (substr str start (key - start))) True;
              v = UrlDecode (substr str (key + 1) (case pos of None \<Rightarrow> length str | Some p \<Rightarrow> p - key - 1)) True;
              m = map_insert CaseInsensitiveLess m k v in
          (case pos of None \<Rightarrow> m | Some p \<Rightarrow> parse_param str flag trim (p + 1) m))"
  by pat_completeness auto
termination
  by (relation "measure (\<lambda>(str, flag, trim, start, m). length str - start)")
     (auto dest!: sym [of "Some _"] str_find_bounds)

declare parse_param.simps [simp del]

definition initQueryParam :: "HttpRequest \<Rightarrow> HttpRequest" where
  "initQueryParam r =
     (if rq_parserParamFlag r AND 1 \<noteq> 0 then r
      else r\<lparr>rq_params := parse_param (rq_query r) (CHR ''&'') (\<lambda>s. s) 0 (rq_params r),
             rq_parserParamFlag := rq_parserParamFlag r OR 1\<rparr>)"

definition form_urlencoded :: string where
  "form_urlencoded = ''application/x-www-form-urlencoded''"

fun strcasestr :: "string \<Rightarrow> string \<Rightarrow> bool" where
  "strcasestr [] n \<longleftrightarrow> n = []"
| "strcasestr (c # cs) n \<longleftrightarrow> map to_lower (take (length n) (c # cs)) = map to_lower n \<or> strcasestr cs n"

definition initBodyParam :: "HttpRequest \<Rightarrow> HttpRequest" where
  "initBodyParam r =
     (if rq_parserParamFlag r AND 2 \<noteq> 0 then r
      else if \<not> strcasestr (c_str (rq_getHeader r ''content-type'' [])) form_urlencoded then
        r\<lparr>rq_parserParamFlag := rq_parserParamFlag r OR 2\<rparr>
      else r\<lparr>rq_params := parse_param (rq_body r) (CHR ''&'') (\<lambda>s. s) 0 (rq_params r),
             rq_parserParamFlag := rq_parserParamFlag r OR 2\<rparr>)"

definition initCookies :: "HttpRequest \<Rightarrow> HttpRequest" where
  "initCookies r =
     (if rq_parserParamFlag r AND 4 \<noteq> 0 then r
      else let cookie = rq_getHeader r ''cookie'' [] in
      if cookie = [] then r\<lparr>rq_parserParamFlag := rq_parserParamFlag r OR 4\<rparr>
      else r\<lparr>rq_cookies := parse_param cookie (CHR '';'') (\<lambda>s. Trim s blanks) 0 (rq_cookies r)\<rparr>)"

definition rq_getParam :: "HttpRequest \<Rightarrow> string \<Rightarrow> string \<Rightarrow> string \<times> HttpRequest" where
  "rq_getParam r key def =
     (let r = initBodyParam (initQueryParam r) in
      (case map_find CaseInsensitiveLess (rq_params r) key of None \<Rightarrow> def | Some v \<Rightarrow> v, r))"

definition rq_getCookie :: "HttpRequest \<Rightarrow> string \<Rightarrow> string \<Rightarrow> string \<times> HttpRequest" where
  "rq_getCookie r key def =
     (let r = initCookies r in
      (case map_find CaseInsensitiveLess (rq_cookies r) key of None \<Rightarrow> def | Some v \<Rightarrow> v, r))"

definition rq_hasParam :: "HttpRequest \<Rightarrow> string \<Rightarrow> (bool \<times> string option) \<times> HttpRequest" where
  "rq_hasParam r key =
     (let r = initBodyParam (initQueryParam r) in
      (case map_find CaseInsensitiveLess (rq_params r) key of None \<Rightarrow> (False, None) | Some v \<Rightarrow> (True, Some v), r))"

definition rq_hasCookie :: "HttpRequest \<Rightarrow> string \<Rightarrow> (bool \<times> string option) \<times> HttpRequest" where
  "rq_hasCookie r key =
     (let r = initCookies r in
      (case map_find CaseInsensitiveLess (rq_cookies r) key of None \<Rightarrow> (False, None) | Some v \<Rightarrow> (True, Some v), r))"

text \<open>The templates that convert what they find; \<open>cast\<close> is \<open>boost::lexical_cast<T>\<close>.\<close>

definition rq_checkGetHeaderAs :: "(string \<Rightarrow> 'a option) \<Rightarrow> HttpRequest \<Rightarrow> string \<Rightarrow> 'a \<Rightarrow> bool \<times> 'a" where
  "rq_checkGetHeaderAs cast r key def = checkGetAs cast (rq_headers r) key def"

definition rq_getHeaderAs :: "(string \<Rightarrow> 'a option) \<Rightarrow> HttpRequest \<Rightarrow> string \<Rightarrow> 'a \<Rightarrow> 'a" where
  "rq_getHeaderAs cast r key def = getAs cast (rq_headers r) key def"

definition rq_checkGetParamAs :: "(string \<Rightarrow> 'a option) \<Rightarrow> HttpRequest \<Rightarrow> string \<Rightarrow> 'a \<Rightarrow> (bool \<times> 'a) \<times> HttpRequest" where
  "rq_checkGetParamAs cast r key def =
     (let r = initBodyParam (initQueryParam r) in (checkGetAs cast (rq_params r) key def, r))"

definition rq_getParamAs :: "(string \<Rightarrow> 'a option) \<Rightarrow> HttpRequest \<Rightarrow> string \<Rightarrow> 'a \<Rightarrow> 'a \<times> HttpRequest" where
  "rq_getParamAs cast r key def =
     (let r = initBodyParam (initQueryParam r) in (getAs cast (rq_params r) key def, r))"

definition rq_checkGetCookieAs :: "(string \<Rightarrow> 'a option) \<Rightarrow> HttpRequest \<Rightarrow> string \<Rightarrow> 'a \<Rightarrow> (bool \<times> 'a) \<times> HttpRequest" where
  "rq_checkGetCookieAs cast r key def = (let r = initCookies r in (checkGetAs cast (rq_cookies r) key def, r))"

definition rq_getCookieAs :: "(string \<Rightarrow> 'a option) \<Rightarrow> HttpRequest \<Rightarrow> string \<Rightarrow> 'a \<Rightarrow> 'a \<times> HttpRequest" where
  "rq_getCookieAs cast r key def = (let r = initCookies r in (getAs cast (rq_cookies r) key def, r))"

definition rq_init :: "HttpRequest \<Rightarrow> HttpRequest" where
  "rq_init r =
     (let conn = rq_getHeader r ''connection'' [] in
      if conn \<noteq> [] then r\<lparr>rq_close := (strcasecmp conn ''keep-alive'' \<noteq> 0)\<rparr> else r)"

section \<open>Text\<close>

text \<open>Decimal printing by \<open>operator<<\<close>.\<close>

fun show_nat :: "nat \<Rightarrow> string" where
  "show_nat n = (if n < 10 then [char_of (48 + n)] else show_nat (n div 10) @ [char_of (48 + n mod 10)])"

declare show_nat.simps [simp del]

definition show_int :: "int \<Rightarrow> string" where
  "show_int n = (if n < 0 then ''-'' @ show_nat (nat (- n)) else show_nat (nat n))"

definition crlf :: string where
  "crlf = [CHR 0x0D, CHR 0x0A]"

definition show_version :: "u8 \<Rightarrow> string" where
  "show_version v = show_nat (unat (drop_bit 4 v)) @ ''.'' @ show_nat (unat (v AND 0x0F))"

definition show_connection :: "bool \<Rightarrow> string" where
  "show_connection cls = ''connection: '' @ (if cls then ''close'' else ''keep-alive'') @ crlf"

definition show_body :: "string \<Rightarrow> string" where
  "show_body body =
     (if body \<noteq> [] then ''content-length: '' @ show_nat (length body) @ crlf @ crlf @ body else crlf)"

definition rq_dump :: "string list \<Rightarrow> HttpRequest \<Rightarrow> string" where
  "rq_dump methods r =
     HttpMethodToString methods (rq_method r) @ '' '' @ rq_path r
     @ (if rq_query r = [] then [] else ''?'') @ rq_query r
     @ (if rq_fragment r = [] then [] else ''#'') @ rq_fragment r
     @ '' HTTP/'' @ show_version (rq_version r) @ crlf
     @ (if \<not> rq_websocket r then show_connection (rq_close r) else [])
     @ concat (map (\<lambda>(k, v).
         if \<not> rq_websocket r \<and> strcasecmp k ''connection'' = 0 then []
         else if rq_body r \<noteq> [] \<and> strcasecmp k ''content-length'' = 0 then []
         else k @ '':'' @ v @ crlf) (rq_headers r))
     @ show_body (rq_body r)"

section \<open>Responses\<close>

definition rs_getHeader :: "HttpResponse \<Rightarrow> string \<Rightarrow> string \<Rightarrow> string" where
  "rs_getHeader r key def =
     (case map_find CaseInsensitiveLess (rs_headers r) key of None \<Rightarrow> def | Some v \<Rightarrow> v)"

definition rs_checkGetHeaderAs :: "(string \<Rightarrow> 'a option) \<Rightarrow> HttpResponse \<Rightarrow> string \<Rightarrow> 'a \<Rightarrow> bool \<times> 'a" where
  "rs_checkGetHeaderAs cast r key def = checkGetAs cast (rs_headers r) key def"

definition rs_getHeaderAs :: "(string \<Rightarrow> 'a option) \<Rightarrow> HttpResponse \<Rightarrow> string \<Rightarrow> 'a \<Rightarrow> 'a" where
  "rs_getHeaderAs cast r key def = getAs cast (rs_headers r) key def"

definition rs_setHeader :: "HttpResponse \<Rightarrow> string \<Rightarrow> string \<Rightarrow> HttpResponse" where
  "rs_setHeader r key val = r\<lparr>rs_headers := map_put CaseInsensitiveLess (rs_headers r) key val\<rparr>"

definition rs_delHeader :: "HttpResponse \<Rightarrow> string \<Rightarrow> HttpResponse" where
  "rs_delHeader r key = r\<lparr>rs_headers := map_erase CaseInsensitiveLess (rs_headers r) key\<rparr>"

definition rs_dump :: "(nat \<Rightarrow> string option) \<Rightarrow> HttpResponse \<Rightarrow> string" where
  "rs_dump status_text r =
     ''HTTP/'' @ show_version (rs_version r) @ '' '' @ show_nat (rs_status r) @ '' ''
     @ (if rs_reason r = [] then HttpStatusToString status_text (rs_status r) else rs_reason r) @ crlf
     @ concat (map (\<lambda>(k, v).
         if \<not> rs_websocket r \<and> strcasecmp k ''connection'' = 0 then []
         else k @ '': '' @ v @ crlf) (rs_headers r))
     @ concat (map (\<lambda>c. ''Set-Cookie: '' @ c @ crlf) (rs_cookies r))
     @ (if \<not> rs_websocket r then show_connection (rs_close r) else [])
     @ show_body (rs_body r)"

definition rs_setRedirect :: "HttpResponse \<Rightarrow> string \<Rightarrow> HttpResponse" where
  "rs_setRedirect r uri = rs_setHeader (r\<lparr>rs_status := 302\<rparr>) ''Location'' uri"

definition rs_setCookie ::
  "(int \<Rightarrow> string \<Rightarrow> string) \<Rightarrow> HttpResponse \<Rightarrow> string \<Rightarrow> string \<Rightarrow> int \<Rightarrow> string \<Rightarrow> string \<Rightarrow> bool \<Rightarrow> HttpResponse" where
  "rs_setCookie Time2Str r key val expired path domain secure =
     r\<lparr>rs_cookies := rs_cookies r @
        [key @ ''='' @ val
         @ (if expired > 0 then '';expired='' @ Time2Str expired ''%a, %d %b %Y %H:%M:%S'' @ '' GMT'' else [])
         @ (if domain \<noteq> [] then '';domain='' @ domain else [])
         @ (if path \<noteq> [] then '';path='' @ path else [])
         @ (if secure then '';secure'' else [])]\<rparr>"


section \<open>The contract of a map\<close>

text \<open>A comparison that orders the keys by an image of theirs, with equal keys where the images agree.\<close>

locale key_order =
  fixes lt :: "string \<Rightarrow> string \<Rightarrow> bool" and norm :: "string \<Rightarrow> 'o::linorder"
  assumes lt_norm: "lt a b \<longleftrightarrow> norm a < norm b"
begin

lemma lt_trans: "lt a b \<Longrightarrow> lt b c \<Longrightarrow> lt a c"
  unfolding lt_norm [of a b] lt_norm [of b c] lt_norm [of a c] by (rule less_trans)

lemma lt_irrefl: "\<not> lt a a"
  unfolding lt_norm [of a a] by simp

lemma norm_eq: "norm a = norm b \<longleftrightarrow> \<not> lt a b \<and> \<not> lt b a"
  unfolding lt_norm [of a b] lt_norm [of b a] by auto

lemma lt_imp: "lt a b \<Longrightarrow> norm a < norm b"
  using lt_norm [of a b] by simp

lemma inv_Cons: "map_inv lt (e # m) \<longleftrightarrow> list_all (\<lambda>e'. lt (fst e) (fst e')) m \<and> map_inv lt m"
  by (simp add: map_inv_def list_all_iff)

lemma map_inv_Nil: "map_inv lt []"
  by (simp add: map_inv_def)

lemma keys_put:
  "P k \<Longrightarrow> list_all (\<lambda>e. P (fst e)) m \<Longrightarrow> list_all (\<lambda>e. P (fst e)) (map_put lt m k v)"
  by (induction m) auto

lemma keys_insert:
  "P k \<Longrightarrow> list_all (\<lambda>e. P (fst e)) m \<Longrightarrow> list_all (\<lambda>e. P (fst e)) (map_insert lt m k v)"
  by (induction m) auto

lemma keys_erase: "list_all (\<lambda>e. P (fst e)) m \<Longrightarrow> list_all (\<lambda>e. P (fst e)) (map_erase lt m k)"
  by (induction m) auto

lemma all_lt_trans: "lt k k' \<Longrightarrow> list_all (\<lambda>e. lt k' (fst e)) m \<Longrightarrow> list_all (\<lambda>e. lt k (fst e)) m"
  by (induction m) (auto intro: lt_trans)

lemma map_inv_put: "map_inv lt m \<Longrightarrow> map_inv lt (map_put lt m k v)"
proof (induction m)
  case (Cons e m)
  then show ?case using keys_put [of "lt (fst e)" k m v] all_lt_trans [of k "fst e" m]
    by (cases e) (auto simp: inv_Cons)
qed (simp add: map_inv_def)

lemma map_inv_insert: "map_inv lt m \<Longrightarrow> map_inv lt (map_insert lt m k v)"
proof (induction m)
  case (Cons e m)
  then show ?case using keys_insert [of "lt (fst e)" k m v] all_lt_trans [of k "fst e" m]
    by (cases e) (auto simp: inv_Cons)
qed (simp add: map_inv_def)

lemma map_inv_erase: "map_inv lt m \<Longrightarrow> map_inv lt (map_erase lt m k)"
proof (induction m)
  case (Cons e m)
  then show ?case using keys_erase [of "lt (fst e)" m k] by (cases e) (auto simp: inv_Cons)
qed (simp add: map_inv_def)

text \<open>The map of the images, and the operations on it.\<close>

definition abs_map :: "'v smap \<Rightarrow> 'o \<Rightarrow> 'v option" where
  "abs_map m = map_of (map (\<lambda>(k, v). (norm k, v)) m)"

lemma abs_map_simps [simp]:
  "abs_map [] = Map.empty"
  "abs_map ((k, v) # m) = (abs_map m)(norm k \<mapsto> v)"
  by (simp_all add: abs_map_def)

lemma abs_map_smaller: "list_all (\<lambda>e. lt k (fst e)) m \<Longrightarrow> abs_map m (norm k) = None"
  by (induction m) (auto dest: lt_imp)

lemma find_abs: "map_inv lt m \<Longrightarrow> map_find lt m k = abs_map m (norm k)"
proof (induction m)
  case (Cons e m)
  obtain k' v' where e: "e = (k', v')" by (cases e)
  show ?case
  proof (cases "lt k k'")
    case True
    then have "abs_map m (norm k) = None"
      using Cons.prems e all_lt_trans [of k k' m] by (intro abs_map_smaller) (simp add: inv_Cons)
    then show ?thesis using True lt_imp [OF True] lt_trans [OF True] lt_irrefl e by auto
  next
    case False
    then show ?thesis using Cons norm_eq [of k k'] e lt_imp [of k' k] by (auto simp: inv_Cons)
  qed
qed simp

lemma abs_put: "abs_map (map_put lt m k v) = (abs_map m)(norm k \<mapsto> v)"
proof (induction m)
  case (Cons e m)
  obtain k' v' where "e = (k', v')" by (cases e)
  then show ?case using Cons norm_eq [of k k'] by (auto simp: fun_upd_twist dest: lt_imp)
qed simp

lemma abs_insert:
  "map_inv lt m \<Longrightarrow>
    abs_map (map_insert lt m k v) = (if abs_map m (norm k) = None then (abs_map m)(norm k \<mapsto> v) else abs_map m)"
proof (induction m)
  case (Cons e m)
  obtain k' v' where e: "e = (k', v')" by (cases e)
  have "abs_map m (norm k) = None" if "lt k k'"
    using Cons.prems e all_lt_trans [OF that, of m] by (intro abs_map_smaller) (simp add: inv_Cons)
  then show ?case using Cons norm_eq [of k k'] e lt_trans [of k k' k] lt_irrefl
    by (auto simp: fun_upd_twist inv_Cons dest: lt_imp)
qed simp

lemma abs_erase: "map_inv lt m \<Longrightarrow> abs_map (map_erase lt m k) = (abs_map m)(norm k := None)"
proof (induction m)
  case (Cons e m)
  obtain k' v' where e: "e = (k', v')" by (cases e)
  have 1: "abs_map m (norm k) = None" if "lt k k'"
    using Cons.prems e all_lt_trans [OF that, of m] by (intro abs_map_smaller) (simp add: inv_Cons)
  have 2: "abs_map m (norm k') = None"
    using Cons.prems e by (intro abs_map_smaller) (simp add: inv_Cons)
  show ?case using Cons 1 2 norm_eq [of k k'] e
    by (auto simp: fun_upd_twist inv_Cons fun_upd_idem dest: lt_imp)
qed simp

lemmas find_put = find_abs [OF map_inv_put, unfolded abs_put]
lemmas find_insert = find_abs [OF map_inv_insert]
lemmas find_erase = find_abs [OF map_inv_erase]

end

interpretation ci: key_order CaseInsensitiveLess lower_key
  by unfold_locales (simp add: CaseInsensitiveLess_def strcasecmp_less)


section \<open>Parsing parameters\<close>

lemma str_find_drop: "i \<le> length s \<Longrightarrow> str_find s f i = map_option (\<lambda>j. i + j) (str_find (drop i s) f 0)"
  using str_find_skip [of "take i s" "drop i s" f] by (simp add: min_absorb2)

lemma str_find_first: "f \<notin> set a \<Longrightarrow> str_find (a @ f # b) f 0 = Some (length a)" "f \<notin> set a \<Longrightarrow> str_find a f 0 = None"
proof -
  assume "f \<notin> set a"
  then have "takeWhile (\<lambda>c. c \<noteq> f) (a @ f # b) = a" by (induction a) auto
  then show "str_find (a @ f # b) f 0 = Some (length a)" by (simp add: str_find_0)
qed (simp add: str_find_0)

text \<open>The text of a list of pairs, and what parsing it inserts.\<close>

fun join_params :: "char \<Rightarrow> (string \<times> string) list \<Rightarrow> string" where
  "join_params flag [] = []"
| "join_params flag ((k, v) # ps) = k @ ''='' @ v @ (if ps = [] then [] else flag # join_params flag ps)"

definition insert_params :: "(string \<Rightarrow> string) \<Rightarrow> (string \<times> string) list \<Rightarrow> string smap \<Rightarrow> string smap" where
  "insert_params trim ps m =
     fold (\<lambda>(k, v) m. map_insert CaseInsensitiveLess m (UrlDecode (trim k) True) (UrlDecode v True)) ps m"

lemma parse_param_step:
  assumes "start \<le> length str" and "drop start str = k @ CHR ''='' # v @ rest"
    and "CHR ''='' \<notin> set k" and "flag \<notin> set v" and "flag \<noteq> CHR ''=''" and "rest = [] \<or> rest = flag # rest'"
  shows "parse_param str flag trim start m =
     (let m = map_insert CaseInsensitiveLess m (UrlDecode (trim k) True) (UrlDecode v True) in
      if rest = [] then m else parse_param str flag trim (start + length k + length v + 2) m)"
proof -
  let ?key = "start + length k"
  have key: "str_find str (CHR ''='') start = Some ?key"
    using assms(1-3) by (simp add: str_find_drop [of start str] str_find_first)
  have len: "length str - start = length k + 1 + length v + length rest"
    using arg_cong [OF assms(2), of length] by simp
  then have "?key + 1 \<le> length str" using assms(1) by linarith
  have dk: "drop ?key str = CHR ''='' # v @ rest"
    using arg_cong [OF assms(2), of "drop (length k)"] by (simp add: add.commute)
  have "drop (?key + 1) str = drop 1 (drop ?key str)" by simp
  then have dv: "drop (?key + 1) str = v @ rest" unfolding dk by simp
  have pos: "str_find str flag ?key = (if rest = [] then None else Some (?key + 1 + length v))"
    using \<open>?key + 1 \<le> length str\<close> dk assms(4-6) str_find_first(1) [of flag "CHR ''='' # v" rest']
      str_find_first(2) [of flag "CHR ''='' # v"]
    by (auto simp: str_find_drop [of ?key str flag])
  have "substr str start (?key - start) = k" using assms(2) by (simp add: substr_def)
  moreover have "length v \<le> length str" using len by linarith
  ultimately show ?thesis
    using key pos dv by (subst parse_param.simps) (simp add: Let_def substr_def)
qed

lemma parse_params:
  assumes "start \<le> length str" and "drop start str = join_params flag ps"
    and "list_all (\<lambda>(k, v). CHR ''='' \<notin> set k \<and> flag \<notin> set v) ps" and "flag \<noteq> CHR ''=''"
  shows "parse_param str flag trim start m = insert_params trim ps m"
  using assms
proof (induction ps arbitrary: start m)
  case Nil
  then have "str_find str (CHR ''='') start = None" by (simp add: str_find_drop [of start str])
  then show ?case by (simp add: parse_param.simps insert_params_def)
next
  case (Cons p ps)
  obtain k v where p: "p = (k, v)" by (cases p)
  let ?rest = "if ps = [] then [] else flag # join_params flag ps"
  let ?m = "map_insert CaseInsensitiveLess m (UrlDecode (trim k) True) (UrlDecode v True)"
  let ?next = "start + length k + length v + 2"
  have d: "drop start str = k @ CHR ''='' # v @ ?rest" using Cons.prems(2) p by simp
  have step: "parse_param str flag trim start m = (if ps = [] then ?m else parse_param str flag trim ?next ?m)"
    using parse_param_step [OF Cons.prems(1) d, of flag "join_params flag ps" trim m] Cons.prems(3,4) p
    by (simp add: Let_def)
  show ?case
  proof (cases "ps = []")
    case True
    then show ?thesis using step p by (simp add: insert_params_def)
  next
    case False
    have "length str - start = length k + 1 + length v + 1 + length (join_params flag ps)"
      using arg_cong [OF d, of length] False by simp
    then have nxt: "?next \<le> length str" using Cons.prems(1) by linarith
    have "drop ?next str = drop (length k + length v + 2) (drop start str)"
      by (simp add: add.commute add.left_commute)
    also have "\<dots> = join_params flag ps" unfolding d using False by simp
    finally have "parse_param str flag trim ?next ?m = insert_params trim ps ?m"
      using Cons.prems(3,4) p nxt by (intro Cons.IH) simp_all
    then show ?thesis using step p False by (simp add: insert_params_def)
  qed
qed

lemma map_inv_insert_params: "map_inv CaseInsensitiveLess m \<Longrightarrow> map_inv CaseInsensitiveLess (insert_params trim ps m)"
  unfolding insert_params_def by (induction ps arbitrary: m) (auto intro: ci.map_inv_insert)

text \<open>The first pair with a key decides, unless the map had it.\<close>

definition first_param :: "(string \<times> string) list \<Rightarrow> string \<Rightarrow> string option" where
  "first_param ps k = map_of (map (\<lambda>(k, v). (lower_key k, v)) ps) (lower_key k)"

lemma find_insert_params:
  assumes "map_inv CaseInsensitiveLess m"
  shows "map_find CaseInsensitiveLess (insert_params trim ps m) k =
     (case map_find CaseInsensitiveLess m k of Some v \<Rightarrow> Some v
      | None \<Rightarrow> first_param (map (\<lambda>(k, v). (UrlDecode (trim k) True, UrlDecode v True)) ps) k)"
  using assms
proof (induction ps arbitrary: m)
  case Nil
  then show ?case by (simp add: insert_params_def first_param_def split: option.split)
next
  case (Cons p ps)
  obtain k' v' where p: "p = (k', v')" by (cases p)
  let ?k = "UrlDecode (trim k') True" and ?v = "UrlDecode v' True"
  have "insert_params trim (p # ps) m = insert_params trim ps (map_insert CaseInsensitiveLess m ?k ?v)"
    using p by (simp add: insert_params_def)
  then show ?case
    using Cons.IH [OF ci.map_inv_insert [OF Cons.prems, of ?k ?v]] p Cons.prems
    by (auto simp: ci.find_insert ci.find_abs ci.abs_insert first_param_def split: option.splits)
qed


section \<open>A reference parser of messages\<close>

fun take_line :: "string \<Rightarrow> (string \<times> string) option" where
  "take_line (c # d # s) =
     (if c = CHR 0x0D \<and> d = CHR 0x0A then Some ([], s) else map_option (\<lambda>(l, r). (c # l, r)) (take_line (d # s)))"
| "take_line _ = None"

lemma take_line_shorter: "take_line s = Some (l, r) \<Longrightarrow> length r < length s"
  by (induction s arbitrary: l r rule: take_line.induct) (fastforce split: if_splits)+

definition split_colon :: "string \<Rightarrow> string \<times> string" where
  "split_colon l = (takeWhile (\<lambda>c. c \<noteq> CHR '':'') l, dropWhile (\<lambda>c. c = CHR '' '') (tl (dropWhile (\<lambda>c. c \<noteq> CHR '':'') l)))"

function parse_headers :: "string \<Rightarrow> ((string \<times> string) list \<times> string) option" where
  "parse_headers s =
     (case take_line s of
        None \<Rightarrow> None
      | Some (l, r) \<Rightarrow>
          if l = [] then Some ([], r)
          else map_option (\<lambda>(hs, b). (split_colon l # hs, b)) (parse_headers r))"
  by pat_completeness auto
termination
  by (relation "measure length") (auto dest: sym [of "Some _"] take_line_shorter)

declare parse_headers.simps [simp del]

definition parse_message :: "string \<Rightarrow> (string \<times> (string \<times> string) list \<times> string) option" where
  "parse_message s =
     (case take_line s of None \<Rightarrow> None
      | Some (l, r) \<Rightarrow> map_option (\<lambda>(hs, b). (l, hs, b)) (parse_headers r))"

definition digits_val :: "string \<Rightarrow> nat" where
  "digits_val s = foldl (\<lambda>n c. 10 * n + (of_char c - 48)) 0 s"

lemma digits_show_nat: "digits_val (show_nat n) = n"
proof (induction n rule: show_nat.induct)
  case (1 n)
  then show ?case
    by (cases "n < 10") (simp_all add: show_nat.simps [of n] digits_val_def)
qed

lemma show_nat_digits: "set (show_nat n) \<subseteq> {c. 48 \<le> (of_char c :: nat) \<and> (of_char c :: nat) \<le> 57}"
proof (induction n rule: show_nat.induct)
  case (1 n)
  then show ?case by (cases "n < 10") (auto simp: show_nat.simps [of n])
qed

lemma show_nat_clean: "CHR 0x0D \<notin> set (show_nat n)" "hd (show_nat n) \<noteq> CHR '' ''"
proof -
  have "show_nat n \<noteq> []" by (subst show_nat.simps) simp
  then show "CHR 0x0D \<notin> set (show_nat n)" "hd (show_nat n) \<noteq> CHR '' ''"
    using show_nat_digits [of n] hd_in_set [of "show_nat n"] by fastforce+
qed

lemma take_line_crlf: "CHR 0x0D \<notin> set l \<Longrightarrow> take_line (l @ crlf @ r) = Some (l, r)"
proof (induction l)
  case Nil
  then show ?case by (simp add: crlf_def)
next
  case (Cons c l)
  then show ?case by (cases l) (auto simp: crlf_def)
qed

text \<open>Fields a header line can carry.\<close>

definition clean :: "string \<Rightarrow> bool" where
  "clean s \<longleftrightarrow> CHR 0x0D \<notin> set s"

definition clean_field :: "string \<times> string \<Rightarrow> bool" where
  "clean_field h \<longleftrightarrow> clean (fst h) \<and> CHR '':'' \<notin> set (fst h) \<and> clean (snd h) \<and> (snd h = [] \<or> hd (snd h) \<noteq> CHR '' '')"

lemma split_colon_field:
  assumes "clean_field (k, v)"
  shows "split_colon (k @ '':'' @ v) = (k, v)" and "split_colon (k @ '': '' @ v) = (k, v)"
proof -
  have "takeWhile (\<lambda>c. c \<noteq> CHR '':'') (k @ CHR '':'' # r) = k" "dropWhile (\<lambda>c. c \<noteq> CHR '':'') (k @ CHR '':'' # r) = CHR '':'' # r" for r
    using assms by (induction k) (auto simp: clean_field_def clean_def)
  moreover have "dropWhile (\<lambda>c. c = CHR '' '') v = v"
    using assms by (cases v) (auto simp: clean_field_def)
  ultimately show "split_colon (k @ '':'' @ v) = (k, v)" "split_colon (k @ '': '' @ v) = (k, v)"
    by (simp_all add: split_colon_def)
qed

lemma parse_headers_end: "parse_headers (crlf @ b) = Some ([], b)"
  using take_line_crlf [of "[]" b] by (simp add: parse_headers.simps)

lemma parse_headers_field:
  assumes "clean_field (k, v)"
  shows "parse_headers (k @ CHR '':'' # v @ crlf @ r) = map_option (\<lambda>(hs, b). ((k, v) # hs, b)) (parse_headers r)"
    and "parse_headers (k @ CHR '':'' # CHR '' '' # v @ crlf @ r) = map_option (\<lambda>(hs, b). ((k, v) # hs, b)) (parse_headers r)"
  using take_line_crlf [of "k @ '':'' @ v" r] take_line_crlf [of "k @ '': '' @ v" r] split_colon_field [OF assms] assms
  by (simp_all add: parse_headers.simps [of "k @ _"] clean_field_def clean_def)

lemma parse_headers_fields:
  assumes "list_all clean_field hs"
  shows "parse_headers (concat (map (\<lambda>(k, v). k @ '':'' @ v @ crlf) hs) @ r) =
           map_option (\<lambda>(hs', b). (hs @ hs', b)) (parse_headers r)"
    and "parse_headers (concat (map (\<lambda>(k, v). k @ '': '' @ v @ crlf) hs) @ r) =
           map_option (\<lambda>(hs', b). (hs @ hs', b)) (parse_headers r)"
  using assms
  by (induction hs) (auto simp: parse_headers_field option.map_comp o_def split_def option.map_id [unfolded id_def])

definition body_fields :: "string \<Rightarrow> (string \<times> string) list" where
  "body_fields body = (if body = [] then [] else [(''content-length'', show_nat (length body))])"

lemma parse_show_body: "parse_headers (show_body body) = Some (body_fields body, body)"
proof -
  have "clean_field (''content-length'', show_nat (length body))"
    using show_nat_clean [of "length body"] by (simp add: clean_field_def clean_def)
  from parse_headers_field(2) [OF this, of "crlf @ body"] show ?thesis
    using parse_headers_end [of "[]"] parse_headers_end [of body] by (simp add: show_body_def body_fields_def)
qed

definition connection_field :: "bool \<Rightarrow> string \<times> string" where
  "connection_field cls = (''connection'', if cls then ''close'' else ''keep-alive'')"

lemma parse_show_connection:
  "parse_headers (show_connection cls @ r) = map_option (\<lambda>(hs, b). (connection_field cls # hs, b)) (parse_headers r)"
  using parse_headers_field(2) [of "''connection''" "if cls then ''close'' else ''keep-alive''" r]
  by (auto simp: show_connection_def connection_field_def clean_field_def clean_def)


definition rq_wire_fields :: "HttpRequest \<Rightarrow> (string \<times> string) list" where
  "rq_wire_fields r =
     (if rq_websocket r then [] else [connection_field (rq_close r)])
     @ filter (\<lambda>(k, _). \<not> (\<not> rq_websocket r \<and> strcasecmp k ''connection'' = 0) \<and>
                       \<not> (rq_body r \<noteq> [] \<and> strcasecmp k ''content-length'' = 0)) (rq_headers r)
     @ body_fields (rq_body r)"

definition rs_wire_fields :: "HttpResponse \<Rightarrow> (string \<times> string) list" where
  "rs_wire_fields r =
     filter (\<lambda>(k, _). \<not> (\<not> rs_websocket r \<and> strcasecmp k ''connection'' = 0)) (rs_headers r)
     @ map (\<lambda>c. (''Set-Cookie'', c)) (rs_cookies r)
     @ (if rs_websocket r then [] else [connection_field (rs_close r)])
     @ body_fields (rs_body r)"

definition rq_start_line :: "string list \<Rightarrow> HttpRequest \<Rightarrow> string" where
  "rq_start_line methods r =
     HttpMethodToString methods (rq_method r) @ '' '' @ rq_path r
     @ (if rq_query r = [] then [] else CHR ''?'' # rq_query r)
     @ (if rq_fragment r = [] then [] else CHR ''#'' # rq_fragment r)
     @ '' HTTP/'' @ show_version (rq_version r)"

definition rs_start_line :: "(nat \<Rightarrow> string option) \<Rightarrow> HttpResponse \<Rightarrow> string" where
  "rs_start_line status_text r =
     ''HTTP/'' @ show_version (rs_version r) @ '' '' @ show_nat (rs_status r) @ '' ''
     @ (if rs_reason r = [] then HttpStatusToString status_text (rs_status r) else rs_reason r)"

lemma concat_if_filter:
  "concat (map (\<lambda>(k, v). if P k then [] else f k v) hs) = concat (map (\<lambda>(k, v). f k v) (filter (\<lambda>(k, _). \<not> P k) hs))"
  by (induction hs) auto

lemma concat_if2_filter:
  "concat (map (\<lambda>(k, v). if P k then [] else if Q k then [] else f k v) hs) =
   concat (map (\<lambda>(k, v). f k v) (filter (\<lambda>(k, _). \<not> P k \<and> \<not> Q k) hs))"
  by (induction hs) (auto split: if_splits)

lemma list_all_filter: "list_all P xs \<Longrightarrow> list_all P (filter Q xs)"
  by (induction xs) auto

lemma parse_message_start:
  assumes "clean l" and "parse_headers r = Some (hs, b)"
  shows "parse_message (l @ crlf @ r) = Some (l, hs, b)"
  using assms take_line_crlf [of l r] by (simp add: parse_message_def clean_def)

lemma parse_set_cookies:
  assumes "list_all (\<lambda>c. clean_field (''Set-Cookie'', c)) cs"
  shows "parse_headers (concat (map (\<lambda>c. ''Set-Cookie: '' @ c @ crlf) cs) @ r) =
           map_option (\<lambda>(hs, b). (map (\<lambda>c. (''Set-Cookie'', c)) cs @ hs, b)) (parse_headers r)"
  using parse_headers_fields(2) [of "map (\<lambda>c. (''Set-Cookie'', c)) cs" r] assms
  by (simp add: o_def list_all_length)

section \<open>Query strings\<close>

definition query_string :: "(string \<times> string) list \<Rightarrow> string" where
  "query_string ps = join_params (CHR ''&'') (map (\<lambda>(k, v). (UrlEncode k True, UrlEncode v True)) ps)"

lemma enc_char_set: "x \<in> set (enc_char p c) \<Longrightarrow> x = c \<and> CHAR_IS_UNRESERVED c \<or> x = CHR ''+'' \<or> x = CHR ''%'' \<or> isxdigit x"
proof -
  assume x: "x \<in> set (enc_char p c)"
  have "of_char c div 16 < (16 :: nat)" "of_char c mod 16 < (16 :: nat)"
    using nat_of_char_less_256 [of c] by (simp_all add: less_mult_imp_div_less)
  from this [THEN hexdigit_facts(1)] x show ?thesis
    by (auto simp: enc_char_def split: if_splits)
qed

lemma encode_no_amp: "CHR ''&'' \<notin> set (UrlEncode v p)"
  by (auto simp: UrlEncode_eq isxdigit_def CHAR_IS_UNRESERVED_def uri_chars_def nth_append dest!: enc_char_set)

lemma encode_no_eq: "CHR ''='' \<notin> set k \<Longrightarrow> CHR ''='' \<notin> set (UrlEncode k p)"
  by (auto simp: UrlEncode_eq isxdigit_def dest!: enc_char_set)

lemma parse_query_string:
  assumes "list_all (\<lambda>(k, v). CHR ''='' \<notin> set k) ps"
  shows "parse_param (query_string ps) (CHR ''&'') (\<lambda>s. s) 0 m =
           insert_params (\<lambda>s. s) (map (\<lambda>(k, v). (UrlEncode k True, UrlEncode v True)) ps) m"
  using assms
  by (intro parse_params) (auto simp: query_string_def list_all_iff encode_no_amp encode_no_eq)

lemma decode_encode [simp]: "UrlDecode (UrlEncode s True) True = s"
  by (simp add: UrlDecode_eq UrlEncode_eq dec_encode)

lemma find_query_string:
  assumes "list_all (\<lambda>(k, v). CHR ''='' \<notin> set k) ps" and "map_inv CaseInsensitiveLess m"
  shows "map_find CaseInsensitiveLess (parse_param (query_string ps) (CHR ''&'') (\<lambda>s. s) 0 m) k =
     (case map_find CaseInsensitiveLess m k of Some v \<Rightarrow> Some v | None \<Rightarrow> first_param ps k)"
proof -
  have "map (\<lambda>(k, v). (UrlDecode k True, UrlDecode v True)) (map (\<lambda>(k, v). (UrlEncode k True, UrlEncode v True)) ps) = ps"
    by (induction ps) auto
  then show ?thesis by (simp add: parse_query_string [OF assms(1)] find_insert_params [OF assms(2)] del: map_map
        split: option.split)
qed

lemma map_inv_parse_param:
  "map_inv CaseInsensitiveLess m \<Longrightarrow> map_inv CaseInsensitiveLess (parse_param str flag trim start m)"
proof (induction "length str - start" arbitrary: start m rule: less_induct)
  case less
  show ?case
  proof (cases "str_find str (CHR ''='') start")
    case (Some key)
    then have "start \<le> key" "key < length str" using str_find_bounds by blast+
    then have "map_inv CaseInsensitiveLess (parse_param str flag trim (p + 1) (map_insert CaseInsensitiveLess m k v))"
      if "str_find str flag key = Some p" for p k v
      using str_find_bounds [OF that] less.prems by (intro less.hyps ci.map_inv_insert) linarith+
    with Some less.prems show ?thesis
      by (subst parse_param.simps) (simp add: Let_def ci.map_inv_insert split: option.split)
  qed (use less.prems in \<open>simp add: parse_param.simps\<close>)
qed

section \<open>Properties\<close>

text \<open>The header map of a request behaves as a map on lower-case keys: what \<open>setHeader\<close> stored is
  what \<open>getHeader\<close> and \<open>hasHeader\<close> find under any spelling, \<open>delHeader\<close> removes it, other keys are not
  touched, and the map stays ordered.\<close>

theorem header_map:
  assumes "map_inv CaseInsensitiveLess (rq_headers r)"
  shows "rq_getHeader (rq_setHeader r k v) k' def = (if lower_key k' = lower_key k then v else rq_getHeader r k' def) \<and>
         rq_getHeader (rq_delHeader r k) k' def = (if lower_key k' = lower_key k then def else rq_getHeader r k' def) \<and>
         rq_hasHeader (rq_setHeader r k v) k' = (if lower_key k' = lower_key k then (True, Some v) else rq_hasHeader r k') \<and>
         map_inv CaseInsensitiveLess (rq_headers (rq_setHeader r k v)) \<and>
         map_inv CaseInsensitiveLess (rq_headers (rq_delHeader r k))"
  using assms
  by (simp add: rq_getHeader_def rq_setHeader_def rq_delHeader_def rq_hasHeader_def ci.abs_put
      ci.abs_erase ci.find_abs ci.map_inv_put ci.map_inv_erase)

theorem header_map_witness:
  "rq_getHeader (rq_setHeader (newHttpRequest [''GET''] 0x11 True) ''Host'' ''a'') ''HOST'' [] = ''a''"
  using header_map [of "newHttpRequest [''GET''] 0x11 True" "''Host''" "''a''" "''HOST''" "[]"]
  by (simp add: newHttpRequest_def map_inv_def lower_key_def c_str_def to_lower_def char_of_def bit_Suc_0_iff)

text \<open>The parameters of a request are those of its query string and, when the content type is a
  form, of its body: for texts made with \<open>UrlEncode\<close> (keys without an equals sign), \<open>getParam\<close> finds
  under any spelling the value of the first pair with the key, and finds the same again later.\<close>

theorem params_parsed:
  assumes "rq_parserParamFlag r = 0" and "rq_params r = []"
    and "rq_query r = query_string qs" and "list_all (\<lambda>(k, v). CHR ''='' \<notin> set k) qs"
    and "rq_body r = query_string bs" and "list_all (\<lambda>(k, v). CHR ''='' \<notin> set k) bs"
  defines "ps \<equiv> qs @ (if strcasestr (c_str (rq_getHeader r ''content-type'' [])) form_urlencoded then bs else [])"
  shows "fst (rq_getParam r k def) = (case first_param ps k of None \<Rightarrow> def | Some v \<Rightarrow> v) \<and>
         rq_getParam (snd (rq_getParam r k def)) k' def = (fst (rq_getParam r k' def), snd (rq_getParam r k def))"
proof -
  let ?q = "parse_param (query_string qs) (CHR ''&'') (\<lambda>s. s) 0 []"
  have q: "map_inv CaseInsensitiveLess ?q"
    using map_inv_insert_params [of "[]"] by (simp add: parse_query_string [OF assms(4)] ci.map_inv_Nil)
  have "first_param (qs @ bs) k = (case first_param qs k of Some v \<Rightarrow> Some v | None \<Rightarrow> first_param bs k)"
    by (simp add: first_param_def map_add_def split: option.split)
  then have "fst (rq_getParam r k def) = (case first_param ps k of None \<Rightarrow> def | Some v \<Rightarrow> v)"
    using assms(1-3,5) find_query_string [OF assms(4) ci.map_inv_Nil, of k] find_query_string [OF assms(6) q, of k]
    by (simp add: rq_getParam_def initQueryParam_def initBodyParam_def ps_def rq_getHeader_def Let_def)
  then show ?thesis
    using assms(1) by (simp add: rq_getParam_def initQueryParam_def initBodyParam_def rq_getHeader_def Let_def)
qed

theorem params_parsed_witness:
  "fst (rq_getParam ((newHttpRequest [''GET''] 0x11 True)\<lparr>rq_query := query_string [(''a b'', ''x&y=z''), (''A b'', ''2'')]\<rparr>)
     ''A B'' []) = ''x&y=z''"
  using params_parsed [of "(newHttpRequest [''GET''] 0x11 True)\<lparr>rq_query := query_string [(''a b'', ''x&y=z''), (''A b'', ''2'')]\<rparr>"
      "[(''a b'', ''x&y=z''), (''A b'', ''2'')]" "[]" "''A B''" "[]"]
  by (simp add: newHttpRequest_def query_string_def first_param_def lower_key_def c_str_def to_lower_def char_of_def bit_Suc_0_iff
      rq_getHeader_def)

text \<open>Reading a parameter as a type is reading its text and converting it: the request changes as it does for \<open>getParam\<close>, and the default
  stands for a parameter that is missing or not of the type.\<close>

lemma typed_params:
  "rq_getParamAs cast r k d = (snd (fst (rq_checkGetParamAs cast r k d)), snd (rq_getParam r k t)) \<and>
   snd (rq_checkGetParamAs cast r k d) = snd (rq_getParam r k t) \<and>
   (fst (fst (rq_checkGetParamAs cast r k d)) \<longleftrightarrow> fst (fst (rq_hasParam r k)) \<and> cast (fst (rq_getParam r k t)) \<noteq> None) \<and>
   snd (fst (rq_checkGetParamAs cast r k d)) =
     (if fst (fst (rq_hasParam r k)) then case cast (fst (rq_getParam r k t)) of None \<Rightarrow> d | Some v \<Rightarrow> v else d)"
  by (auto simp: rq_getParamAs_def rq_checkGetParamAs_def rq_getParam_def rq_hasParam_def getAs_def checkGetAs_def Let_def split: option.splits)

text \<open>Cookies are parsed again at every access, since \<open>initCookies\<close> does not set its flag after parsing:
  a cookie of the header that was deleted with \<open>delCookie\<close> is found again, where a deleted parameter
  stays deleted.\<close>

theorem deleted_cookie_returns:
  assumes "rq_parserParamFlag r = 0" and "rq_cookies r = []" and "rq_params r = []"
    and "rq_getHeader r ''cookie'' [] = join_params (CHR '';'') cs"
    and "list_all (\<lambda>(k, v). CHR ''='' \<notin> set k \<and> CHR '';'' \<notin> set v) cs"
  shows "fst (rq_getCookie (rq_delCookie (snd (rq_getCookie r k def)) k) k def) = fst (rq_getCookie r k def) \<and>
         fst (rq_getParam (rq_delParam (snd (rq_getParam r k def)) k) k def) = def"
proof -
  let ?c = "insert_params (\<lambda>s. Trim s blanks) cs"
  have parse: "parse_param (join_params (CHR '';'') cs) (CHR '';'') (\<lambda>s. Trim s blanks) 0 m = ?c m" for m
    using assms(5) by (intro parse_params) auto
  have inv: "map_inv CaseInsensitiveLess (?c [])" by (simp add: map_inv_insert_params ci.map_inv_Nil)
  note find = find_insert_params [OF ci.map_inv_erase [OF inv, of k], of _ cs k]
    find_insert_params [OF ci.map_inv_Nil, of _ cs k]
  have "fst (rq_getCookie (rq_delCookie (snd (rq_getCookie r k def)) k) k def) = fst (rq_getCookie r k def)"
  proof (cases "cs = []")
    case True
    then show ?thesis
      using assms(1,2,4) by (simp add: rq_getCookie_def initCookies_def rq_delCookie_def rq_getHeader_def Let_def)
  next
    case False
    then have "join_params (CHR '';'') cs \<noteq> []" by (cases cs) auto
    then show ?thesis
      using assms(1,2,4) find inv
      by (simp add: rq_getCookie_def initCookies_def rq_delCookie_def rq_getHeader_def Let_def parse ci.find_abs
          ci.abs_erase ci.map_inv_erase)
  qed
  moreover have "fst (rq_getParam (rq_delParam (snd (rq_getParam r k def)) k) k def) = def"
    using assms(1,3)
    by (simp add: rq_getParam_def rq_delParam_def initQueryParam_def initBodyParam_def rq_getHeader_def Let_def
        ci.find_abs ci.abs_erase ci.map_inv_erase map_inv_parse_param ci.map_inv_Nil)
  ultimately show ?thesis by blast
qed

theorem deleted_cookie_returns_witness:
  "fst (rq_getCookie (rq_delCookie (snd (rq_getCookie
     (rq_setHeader (newHttpRequest [''GET''] 0x11 True) ''Cookie'' ''id=7'') ''id'' [])) ''id'') ''id'' []) =
   fst (rq_getCookie (rq_setHeader (newHttpRequest [''GET''] 0x11 True) ''Cookie'' ''id=7'') ''id'' [])"
  using deleted_cookie_returns [of "rq_setHeader (newHttpRequest [''GET''] 0x11 True) ''Cookie'' ''id=7''" "[(''id'', ''7'')]"
      "''id''" "[]"]
  by (simp add: newHttpRequest_def rq_setHeader_def rq_getHeader_def CaseInsensitiveLess_def strcasecmp_def
      c_str_def to_lower_def char_of_def bit_Suc_0_iff)

text \<open>C11: The text of a request is a well-formed message: a reader that splits it at the line ends and at
  the first colon of each line gets the start line, the header fields and the body back, the fields
  being \<open>connection\<close> by the close flag (unless a websocket), the headers without those that are
  replaced, and \<open>content-length\<close> with the length of a body that is not empty.\<close>

theorem request_dump_parses:
  assumes "clean (rq_start_line methods r)" and "list_all clean_field (rq_headers r)"
  shows "parse_message (rq_dump methods r) = Some (rq_start_line methods r, rq_wire_fields r, rq_body r) \<and>
         digits_val (show_nat (length (rq_body r))) = length (rq_body r)"
proof -
  let ?hs = "filter (\<lambda>(k, _). \<not> (\<not> rq_websocket r \<and> strcasecmp k ''connection'' = 0) \<and>
                       \<not> (rq_body r \<noteq> [] \<and> strcasecmp k ''content-length'' = 0)) (rq_headers r)"
  let ?rest = "concat (map (\<lambda>(k, v). k @ '':'' @ v @ crlf) ?hs) @ show_body (rq_body r)"
  have rest: "parse_headers ?rest = Some (?hs @ body_fields (rq_body r), rq_body r)"
    using parse_headers_fields(1) [OF list_all_filter [OF assms(2)]] by (simp add: parse_show_body)
  have "rq_dump methods r = rq_start_line methods r @ crlf @
      ((if \<not> rq_websocket r then show_connection (rq_close r) else []) @ ?rest)"
    by (simp add: rq_dump_def rq_start_line_def concat_if2_filter)
  moreover have "parse_headers ((if \<not> rq_websocket r then show_connection (rq_close r) else []) @ ?rest) =
      Some (rq_wire_fields r, rq_body r)"
    using rest by (cases "rq_websocket r") (simp_all add: parse_show_connection rq_wire_fields_def)
  ultimately show ?thesis
    using parse_message_start [OF assms(1)] digits_show_nat by simp
qed

theorem request_dump_parses_witness:
  "parse_message (rq_dump [''GET''] (newHttpRequest [''GET''] 0x11 True)) =
     Some (''GET / HTTP/1.1'', [(''connection'', ''close'')], [])"
  using request_dump_parses [of "[''GET'']" "newHttpRequest [''GET''] 0x11 True"]
  by (simp add: newHttpRequest_def rq_start_line_def HttpMethodToString_def show_version_def show_nat.simps char_of_def bit_Suc_0_iff
      clean_def rq_wire_fields_def connection_field_def body_fields_def)

text \<open>The text of a response is a well-formed message too, with the headers, a \<open>Set-Cookie\<close> field per
  cookie, \<open>connection\<close> and \<open>content-length\<close>; but a \<open>content-length\<close> header that was set is kept, so
  that a response with one and a body carries the field twice.\<close>

theorem response_dump_parses:
  assumes "clean (rs_start_line status_text r)" and "list_all clean_field (rs_headers r)"
    and "list_all (\<lambda>c. clean_field (''Set-Cookie'', c)) (rs_cookies r)"
  shows "parse_message (rs_dump status_text r) = Some (rs_start_line status_text r, rs_wire_fields r, rs_body r)"
proof -
  let ?hs = "filter (\<lambda>(k, _). \<not> (\<not> rs_websocket r \<and> strcasecmp k ''connection'' = 0)) (rs_headers r)"
  let ?conn = "if \<not> rs_websocket r then show_connection (rs_close r) else []"
  let ?rest = "concat (map (\<lambda>(k, v). k @ '': '' @ v @ crlf) ?hs) @
      (concat (map (\<lambda>c. ''Set-Cookie: '' @ c @ crlf) (rs_cookies r)) @ (?conn @ show_body (rs_body r)))"
  have "parse_headers (?conn @ show_body (rs_body r)) =
      Some ((if rs_websocket r then [] else [connection_field (rs_close r)]) @ body_fields (rs_body r), rs_body r)"
    by (simp add: parse_show_connection parse_show_body)
  then have "parse_headers ?rest = Some (rs_wire_fields r, rs_body r)"
    using parse_headers_fields(2) [OF list_all_filter [OF assms(2)]]
    unfolding rs_wire_fields_def by (simp only: parse_set_cookies [OF assms(3)]) simp
  moreover have "rs_dump status_text r = rs_start_line status_text r @ crlf @ ?rest"
    by (simp add: rs_dump_def rs_start_line_def concat_if_filter)
  ultimately show ?thesis using parse_message_start [OF assms(1)] by simp
qed

theorem response_dump_parses_witness:
  "parse_message (rs_dump (\<lambda>_. Some ''OK'')
     (rs_setHeader ((newHttpResponse 0x11 False)\<lparr>rs_body := ''hi''\<rparr>) ''Content-Length'' ''2'')) =
   Some (''HTTP/1.1 200 OK'',
     [(''Content-Length'', ''2''), (''connection'', ''keep-alive''), (''content-length'', ''2'')], ''hi'')"
  using response_dump_parses [of "\<lambda>_. Some ''OK''"
      "rs_setHeader ((newHttpResponse 0x11 False)\<lparr>rs_body := ''hi''\<rparr>) ''Content-Length'' ''2''"]
  by (simp add: newHttpResponse_def rs_setHeader_def rs_start_line_def HttpStatusToString_def show_version_def
      show_nat.simps char_of_def bit_Suc_0_iff clean_def clean_field_def rs_wire_fields_def connection_field_def body_fields_def strcasecmp_def
      c_str_def to_lower_def char_of_def bit_Suc_0_iff)

end
