(* ===== verification/Lamb_Servlet.thy ===== *)
theory Lamb_Servlet
  imports Lamb_Http Lamb_WebSocket
begin

text \<open>
  \<open>lamb/http/servlet.cc\<close> and \<open>servlet.h\<close>: the handlers of requests and the dispatcher that selects one
  by the path of the request. A handler is user code, a function of the request, the response and
  the session (of any type \<open>'s\<close>). The \<open>unordered_map\<close> of exact routes is a map, the \<open>vector\<close> of
  patterns a list; \<open>fnmatch\<close> of the C library is an argument. Pointers that may be null are options.
\<close>

section \<open>Servlets and creators\<close>

text \<open>The virtual functions of \<open>WSServlet\<close>, a subclass of \<open>Servlet\<close> for WebSocket sessions. A servlet has them if its dynamic
  type is that class, which is what \<open>dynamic_pointer_cast\<close> asks.\<close>

record 's ws_servlet =
  ws_onConnect :: "HttpRequest \<Rightarrow> 's \<Rightarrow> int \<times> HttpRequest \<times> 's"
  ws_onClose :: "HttpRequest \<Rightarrow> 's \<Rightarrow> int \<times> HttpRequest \<times> 's"
  ws_handle :: "HttpRequest \<Rightarrow> WSFrameMessage \<Rightarrow> 's \<Rightarrow> int \<times> HttpRequest \<times> 's"

record 's servlet =
  sv_name :: string
  sv_handle :: "HttpRequest \<Rightarrow> HttpResponse \<Rightarrow> 's \<Rightarrow> int \<times> HttpRequest \<times> HttpResponse \<times> 's"
  sv_ws :: "'s ws_servlet option"

definition FunctionServlet ::
  "(HttpRequest \<Rightarrow> HttpResponse \<Rightarrow> 's \<Rightarrow> int \<times> HttpRequest \<times> HttpResponse \<times> 's) \<Rightarrow> 's servlet" where
  "FunctionServlet cb = \<lparr>sv_name = ''FunctionServlet'', sv_handle = (\<lambda>request response session. cb request response session),
     sv_ws = None\<rparr>"

definition not_found_content :: "string \<Rightarrow> string" where
  "not_found_content name = ''<html><head><title>404 Not Found''
     @ ''</title></head><body><center><h1>404 Not Found</h1></center>''
     @ ''<hr><center>'' @ name @ ''</center></body></html>''"

definition NotFoundServlet_handle :: "string \<Rightarrow> HttpRequest \<Rightarrow> HttpResponse \<Rightarrow> 's \<Rightarrow> int \<times> HttpRequest \<times> HttpResponse \<times> 's" where
  "NotFoundServlet_handle content request response session =
     (let response = response\<lparr>rs_status := 404\<rparr>;
          response = rs_setHeader response ''Server'' ''lamb/1.0.0'';
          response = rs_setHeader response ''Content-Type'' ''text/html'' in
      (0, request, response\<lparr>rs_body := content\<rparr>, session))"

definition NotFoundServlet :: "string \<Rightarrow> 's servlet" where
  "NotFoundServlet name =
     \<lparr>sv_name = ''NotFoundServlet'', sv_handle = NotFoundServlet_handle (not_found_content name), sv_ws = None\<rparr>"

text \<open>\<open>ServletCreator<T>\<close> has the name of the type and makes an instance with the default constructor.\<close>

datatype 's creator = HoldServletCreator "'s servlet option" | ServletCreator string "'s servlet"

definition creator_get :: "'s creator option \<Rightarrow> 's servlet option res" where
  "creator_get p =
     (case p of None \<Rightarrow> Inl Null_deref
      | Some (HoldServletCreator slt) \<Rightarrow> Inr slt
      | Some (ServletCreator _ t) \<Rightarrow> Inr (Some t))"

definition creator_getName :: "'s creator option \<Rightarrow> string res" where
  "creator_getName p =
     (case p of None \<Rightarrow> Inl Null_deref
      | Some (HoldServletCreator None) \<Rightarrow> Inl Null_deref
      | Some (HoldServletCreator (Some slt)) \<Rightarrow> Inr (sv_name slt)
      | Some (ServletCreator name _) \<Rightarrow> Inr name)"

section \<open>The dispatcher\<close>

record 's dispatch =
  sd_datas :: "string \<rightharpoonup> 's creator option"
  sd_globs :: "(string \<times> 's creator option) list"
  sd_default :: "'s servlet option"

definition newServletDispatch :: "'s dispatch" where
  "newServletDispatch = \<lparr>sd_datas = Map.empty, sd_globs = [], sd_default = Some (NotFoundServlet ''lamb/1.0'')\<rparr>"

definition addServletCreator :: "'s dispatch \<Rightarrow> string \<Rightarrow> 's creator option \<Rightarrow> 's dispatch" where
  "addServletCreator d uri creator = d\<lparr>sd_datas := (sd_datas d)(uri \<mapsto> creator)\<rparr>"

definition addServlet :: "'s dispatch \<Rightarrow> string \<Rightarrow> 's servlet option \<Rightarrow> 's dispatch" where
  "addServlet d uri slt = d\<lparr>sd_datas := (sd_datas d)(uri \<mapsto> Some (HoldServletCreator slt))\<rparr>"

definition addServlet_cb where
  "addServlet_cb d uri cb = d\<lparr>sd_datas := (sd_datas d)(uri \<mapsto> Some (HoldServletCreator (Some (FunctionServlet cb))))\<rparr>"

text \<open>The loops that erase the first entry with a pattern and that look for one.\<close>

fun erase_glob :: "string \<Rightarrow> (string \<times> 'c) list \<Rightarrow> (string \<times> 'c) list" where
  "erase_glob uri [] = []"
| "erase_glob uri (e # es) = (if fst e = uri then es else e # erase_glob uri es)"

definition addGlobServletCreator :: "'s dispatch \<Rightarrow> string \<Rightarrow> 's creator option \<Rightarrow> 's dispatch" where
  "addGlobServletCreator d uri creator = d\<lparr>sd_globs := erase_glob uri (sd_globs d) @ [(uri, creator)]\<rparr>"

definition addGlobServlet :: "'s dispatch \<Rightarrow> string \<Rightarrow> 's servlet option \<Rightarrow> 's dispatch" where
  "addGlobServlet d uri slt = d\<lparr>sd_globs := erase_glob uri (sd_globs d) @ [(uri, Some (HoldServletCreator slt))]\<rparr>"

definition addGlobServlet_cb where
  "addGlobServlet_cb d uri cb = addGlobServlet d uri (Some (FunctionServlet cb))"

definition delServlet :: "'s dispatch \<Rightarrow> string \<Rightarrow> 's dispatch" where
  "delServlet d uri = d\<lparr>sd_datas := (sd_datas d)(uri := None)\<rparr>"

definition delGlobServlet :: "'s dispatch \<Rightarrow> string \<Rightarrow> 's dispatch" where
  "delGlobServlet d uri = d\<lparr>sd_globs := erase_glob uri (sd_globs d)\<rparr>"

definition setDefault :: "'s dispatch \<Rightarrow> 's servlet option \<Rightarrow> 's dispatch" where
  "setDefault d v = d\<lparr>sd_default := v\<rparr>"

definition getServlet :: "'s dispatch \<Rightarrow> string \<Rightarrow> 's servlet option res" where
  "getServlet d uri = (case sd_datas d uri of None \<Rightarrow> Inr None | Some c \<Rightarrow> creator_get c)"

fun first_glob :: "(string \<Rightarrow> bool) \<Rightarrow> (string \<times> 'c) list \<Rightarrow> 'c option" where
  "first_glob P [] = None"
| "first_glob P (e # es) = (if P (fst e) then Some (snd e) else first_glob P es)"

definition getGlobServlet :: "'s dispatch \<Rightarrow> string \<Rightarrow> 's servlet option res" where
  "getGlobServlet d uri =
     (case first_glob (\<lambda>p. p = uri) (sd_globs d) of None \<Rightarrow> Inr None | Some c \<Rightarrow> creator_get c)"

definition getMatchedServlet :: "(string \<Rightarrow> string \<Rightarrow> int) \<Rightarrow> 's dispatch \<Rightarrow> string \<Rightarrow> 's servlet option res" where
  "getMatchedServlet fnmatch d uri =
     (case sd_datas d uri of
        Some c \<Rightarrow> creator_get c
      | None \<Rightarrow>
          (case first_glob (\<lambda>p. fnmatch (c_str p) (c_str uri) = 0) (sd_globs d) of
             Some c \<Rightarrow> creator_get c
           | None \<Rightarrow> Inr (sd_default d)))"

definition ServletDispatch_handle ::
  "(string \<Rightarrow> string \<Rightarrow> int) \<Rightarrow> 's dispatch \<Rightarrow> HttpRequest \<Rightarrow> HttpResponse \<Rightarrow> 's \<Rightarrow>
   (int \<times> HttpRequest \<times> HttpResponse \<times> 's) res" where
  "ServletDispatch_handle fnmatch d request response session =
     bindR (getMatchedServlet fnmatch d (rq_path request)) (\<lambda>slt. case slt of
       None \<Rightarrow> Inr (0, request, response, session)
     | Some slt \<Rightarrow> let (_, request, response, session) = sv_handle slt request response session in
         Inr (0, request, response, session))"

definition listAllServletCreator :: "'s dispatch \<Rightarrow> (string \<rightharpoonup> 's creator option) \<Rightarrow> string \<rightharpoonup> 's creator option" where
  "listAllServletCreator d infos = infos ++ sd_datas d"

definition listAllGlobServletCreator :: "'s dispatch \<Rightarrow> (string \<rightharpoonup> 's creator option) \<Rightarrow> string \<rightharpoonup> 's creator option" where
  "listAllGlobServletCreator d infos = fold (\<lambda>(k, c) m. m(k \<mapsto> c)) (sd_globs d) infos"

section \<open>Routing, from the history of registrations\<close>

datatype 's sd_op = Add string "'s creator option" | AddGlob string "'s creator option"
  | Del string | DelGlob string | SetDefault "'s servlet option"

fun sd_step :: "'s sd_op \<Rightarrow> 's dispatch \<Rightarrow> 's dispatch" where
  "sd_step (Add u c) d = addServletCreator d u c"
| "sd_step (AddGlob u c) d = addGlobServletCreator d u c"
| "sd_step (Del u) d = delServlet d u"
| "sd_step (DelGlob u) d = delGlobServlet d u"
| "sd_step (SetDefault s) d = setDefault d s"

definition sd_run :: "'s sd_op list \<Rightarrow> 's dispatch" where
  "sd_run ops = fold sd_step ops newServletDispatch"

text \<open>What the history says: the last operation on a path, the last default, and the patterns that no later
  operation touched, in the order of their registration.\<close>

fun exact_now :: "'s sd_op list \<Rightarrow> string \<rightharpoonup> 's creator option" where
  "exact_now [] u = None"
| "exact_now (op # earlier) u =
     (case op of Add v c \<Rightarrow> if v = u then Some c else exact_now earlier u
      | Del v \<Rightarrow> if v = u then None else exact_now earlier u
      | _ \<Rightarrow> exact_now earlier u)"

fun default_now :: "'s sd_op list \<Rightarrow> 's servlet option" where
  "default_now [] = Some (NotFoundServlet ''lamb/1.0'')"
| "default_now (op # earlier) = (case op of SetDefault s \<Rightarrow> s | _ \<Rightarrow> default_now earlier)"

definition touches_glob :: "string \<Rightarrow> 's sd_op \<Rightarrow> bool" where
  "touches_glob u op \<longleftrightarrow> (case op of AddGlob v _ \<Rightarrow> v = u | DelGlob v \<Rightarrow> v = u | _ \<Rightarrow> False)"

fun globs_now :: "'s sd_op list \<Rightarrow> (string \<times> 's creator option) list" where
  "globs_now [] = []"
| "globs_now (op # later) =
     (case op of AddGlob u c \<Rightarrow> if list_ex (touches_glob u) later then globs_now later else (u, c) # globs_now later
      | _ \<Rightarrow> globs_now later)"

lemma erase_glob_absent: "u \<notin> fst ` set es \<Longrightarrow> erase_glob u es = es"
  by (induction es) auto

lemma erase_glob_filter: "distinct (map fst es) \<Longrightarrow> erase_glob u es = filter (\<lambda>e. fst e \<noteq> u) es"
  by (induction es) (auto simp: image_iff intro!: filter_True [symmetric])

lemma globs_now_touched: "(u, c) \<in> set (globs_now ops) \<Longrightarrow> list_ex (touches_glob u) ops"
  by (induction ops) (auto simp: touches_glob_def split: sd_op.splits if_splits)

lemma distinct_globs_now: "distinct (map fst (globs_now ops))"
  by (induction ops) (auto split: sd_op.split dest: globs_now_touched)

lemma globs_now_append: "globs_now (ops @ [op]) =
    filter (\<lambda>e. \<not> touches_glob (fst e) op) (globs_now ops) @ globs_now [op]"
  by (induction ops) (auto split: sd_op.splits)

lemma sd_run_append [simp]: "sd_run (ops @ [op]) = sd_step op (sd_run ops)"
  by (simp add: sd_run_def)

lemmas sd_defs = addServletCreator_def addGlobServletCreator_def delServlet_def delGlobServlet_def setDefault_def

lemma sd_run_history:
  "sd_datas (sd_run ops) u = exact_now (rev ops) u \<and> sd_globs (sd_run ops) = globs_now ops \<and>
   sd_default (sd_run ops) = default_now (rev ops)"
proof (induction ops rule: rev_induct)
  case Nil
  then show ?case by (simp add: sd_run_def newServletDispatch_def)
next
  case (snoc op ops)
  then have "erase_glob v (globs_now ops) = filter (\<lambda>e. fst e \<noteq> v) (globs_now ops)" for v
    by (intro erase_glob_filter distinct_globs_now)
  with snoc show ?case
    by (cases op) (auto simp: sd_defs globs_now_append touches_glob_def eq_commute [of _ "fst _"])
qed

lemma first_glob_find: "first_glob P es = map_option snd (List.find (\<lambda>e. P (fst e)) es)"
  by (induction es) auto

lemma first_glob_key: "map_option snd (List.find (\<lambda>e. fst e = u) es) = map_of es u"
  by (induction es) auto

text \<open>C13: whatever was registered and removed before, a path goes to the servlet of the last registration of
  exactly that path; without one to the first matching pattern, in the order in which the patterns were last
  registered, leaving out those removed since; and otherwise to the default. The two single look-ups agree
  with the same history.\<close>

theorem dispatch_routes:
  "getMatchedServlet fnmatch (sd_run ops) path =
     (case exact_now (rev ops) path of
        Some c \<Rightarrow> creator_get c
      | None \<Rightarrow> case List.find (\<lambda>e. fnmatch (c_str (fst e)) (c_str path) = 0) (globs_now ops) of
          Some e \<Rightarrow> creator_get (snd e)
        | None \<Rightarrow> Inr (default_now (rev ops))) \<and>
   getServlet (sd_run ops) path = (case exact_now (rev ops) path of Some c \<Rightarrow> creator_get c | None \<Rightarrow> Inr None) \<and>
   getGlobServlet (sd_run ops) path =
     (case map_of (globs_now ops) path of Some c \<Rightarrow> creator_get c | None \<Rightarrow> Inr None)"
  using sd_run_history [of ops path]
  by (auto simp: getMatchedServlet_def getServlet_def getGlobServlet_def first_glob_find first_glob_key
      split: option.split)

text \<open>A path that neither a route nor a pattern matches is answered with status 404 and the page of the default
  servlet, with its two header fields and the other headers of the response as they were.\<close>

theorem dispatch_not_found:
  assumes "exact_now (rev ops) (rq_path rq) = None"
    and "\<forall>p \<in> set (globs_now ops). fnmatch (c_str (fst p)) (c_str (rq_path rq)) \<noteq> 0"
    and "default_now (rev ops) = Some (NotFoundServlet name)" and "map_inv CaseInsensitiveLess (rs_headers rs)"
  shows "\<exists>rs'. ServletDispatch_handle fnmatch (sd_run ops) rq rs s = Inr (0, rq, rs', s) \<and> rs_status rs' = 404 \<and>
           rs_body rs' = not_found_content name \<and>
           (\<forall>k d. rs_getHeader rs' k d =
              (if lower_key k = lower_key ''Content-Type'' then ''text/html''
               else if lower_key k = lower_key ''Server'' then ''lamb/1.0.0'' else rs_getHeader rs k d))"
proof -
  let ?rs = "rs_setHeader (rs_setHeader (rs\<lparr>rs_status := 404\<rparr>) ''Server'' ''lamb/1.0.0'') ''Content-Type'' ''text/html''"
  let ?rs' = "?rs\<lparr>rs_body := not_found_content name\<rparr>"
  have "first_glob (\<lambda>p. fnmatch (c_str p) (c_str (rq_path rq)) = 0) (globs_now ops) = None"
    using assms(2) by (auto simp: first_glob_find find_None_iff)
  then have "getMatchedServlet fnmatch (sd_run ops) (rq_path rq) = Inr (Some (NotFoundServlet name))"
    using sd_run_history [of ops "rq_path rq"] assms(1-3) by (simp add: getMatchedServlet_def)
  then have "ServletDispatch_handle fnmatch (sd_run ops) rq rs s = Inr (0, rq, ?rs', s)"
    by (simp add: ServletDispatch_handle_def NotFoundServlet_def NotFoundServlet_handle_def Let_def)
  moreover have "rs_getHeader ?rs' k d =
      (if lower_key k = lower_key ''Content-Type'' then ''text/html''
       else if lower_key k = lower_key ''Server'' then ''lamb/1.0.0'' else rs_getHeader rs k d)" for k d
    using assms(4) by (simp add: rs_getHeader_def rs_setHeader_def ci.find_put ci.map_inv_put ci.abs_put ci.find_abs)
  moreover have "rs_status ?rs' = 404" by (simp add: rs_setHeader_def)
  ultimately show ?thesis by (intro exI [of _ ?rs']) simp
qed

text \<open>A pattern registered, removed, and one registered twice; nothing is left for the path.\<close>

definition sample_ops :: "nat sd_op list" where
  "sample_ops = [AddGlob ''/a*'' None, Add ''/x'' None, DelGlob ''/a*'', AddGlob ''/b*'' None, Del ''/x'', AddGlob ''/b*'' None]"

theorem dispatch_not_found_witness:
  "\<exists>rs'. ServletDispatch_handle (\<lambda>p s. if p = s then 0 else 1) (sd_run sample_ops)
       ((newHttpRequest [] 0x11 True)\<lparr>rq_path := ''/x''\<rparr>) (newHttpResponse 0x11 True) 7 =
     Inr (0, (newHttpRequest [] 0x11 True)\<lparr>rq_path := ''/x''\<rparr>, rs', 7) \<and> rs_status rs' = 404"
  using dispatch_not_found [of sample_ops "(newHttpRequest [] 0x11 True)\<lparr>rq_path := ''/x''\<rparr>"
    "\<lambda>p s. if p = s then 0 else 1" "''lamb/1.0''" "newHttpResponse 0x11 True" 7]
  by (auto simp: sample_ops_def touches_glob_def newHttpResponse_def map_inv_def c_str_def)

end
