(* ===== verification/Lamb_HttpParser.thy ===== *)
theory Lamb_HttpParser
  imports Lamb_Http Lamb_Stream
begin

text \<open>
  \<open>lamb/http/http_parser.cc\<close> and \<open>http_session.cc\<close>: the callbacks that build a request or response out
  of what the vendored \<open>http-parser\<close> recognises, the two parser classes around it, and the loop that
  reads a request from a socket. The library itself is the argument \<open>lib\<close>: \<open>http_parser_execute\<close> takes the
  callbacks, the state of the automaton and what the callbacks work on (\<open>m_parser.data\<close>), and a piece of input;
  \<open>parse_url\<close> is \<open>http_parser_parse_url\<close>, giving offset and length of each part of the URL, or \<open>None\<close>.
\<close>

section \<open>The parser library\<close>

record hp_head =
  http_major :: u16
  http_minor :: u16
  http_method :: nat
  http_status_code :: nat

datatype hp_event = Message_begin | Url string | Status string | Header_field string | Header_value string
  | Headers_complete | Body string | Message_complete | Chunk_header | Chunk_complete

datatype url_field = UF_SCHEMA | UF_HOST | UF_PORT | UF_PATH | UF_QUERY | UF_FRAGMENT | UF_USERINFO

type_synonym url_parts = "url_field \<Rightarrow> (nat \<times> nat) option"

record ('p, 'd) hp_lib =
  http_parser_init :: 'p
  http_parser_execute :: "(hp_head \<Rightarrow> hp_event \<Rightarrow> 'd \<Rightarrow> int \<times> 'd) \<Rightarrow> 'p \<Rightarrow> 'd \<Rightarrow> string \<Rightarrow> nat \<times> 'p \<times> 'd"
  hp_upgrade :: "'p \<Rightarrow> bool"
  hp_errno :: "'p \<Rightarrow> nat"

section \<open>Parser objects\<close>

text \<open>\<open>HttpRequestParser\<close> and \<open>HttpResponseParser\<close> apart from \<open>m_parser\<close>.\<close>

record 'm msg_parser =
  mp_data :: 'm
  mp_error :: int
  mp_finished :: bool
  mp_field :: string

definition newHttpRequestParser :: "string list \<Rightarrow> HttpRequest msg_parser" where
  "newHttpRequestParser methods =
     \<lparr>mp_data = newHttpRequest methods 0x11 True, mp_error = 0, mp_finished = False, mp_field = []\<rparr>"

definition newHttpResponseParser :: "HttpResponse msg_parser" where
  "newHttpResponseParser = \<lparr>mp_data = newHttpResponse 0x11 True, mp_error = 0, mp_finished = False, mp_field = []\<rparr>"

definition url_part :: "string \<Rightarrow> nat \<times> nat \<Rightarrow> string" where
  "url_part buf p = take (snd p) (drop (fst p) buf)"

definition version_of :: "hp_head \<Rightarrow> u8" where
  "version_of p = ucast (push_bit 4 (ucast (http_major p) :: u32) OR ucast (http_minor p))"

definition on_request_headers_complete_cb :: "hp_head \<Rightarrow> HttpRequest msg_parser \<Rightarrow> int \<times> HttpRequest msg_parser" where
  "on_request_headers_complete_cb p m =
     (0, m\<lparr>mp_data := (mp_data m)\<lparr>rq_version := version_of p, rq_method := http_method p\<rparr>\<rparr>)"

definition on_request_message_complete_cb :: "HttpRequest msg_parser \<Rightarrow> int \<times> HttpRequest msg_parser" where
  "on_request_message_complete_cb m = (0, m\<lparr>mp_finished := True\<rparr>)"

definition on_request_url_cb ::
  "(string \<Rightarrow> url_parts option) \<Rightarrow> string \<Rightarrow> HttpRequest msg_parser \<Rightarrow> int \<times> HttpRequest msg_parser" where
  "on_request_url_cb parse_url buf m =
     (case parse_url buf of
        None \<Rightarrow> (1, m)
      | Some u \<Rightarrow>
          let r = mp_data m;
              r = (case u UF_PATH of None \<Rightarrow> r | Some p \<Rightarrow> r\<lparr>rq_path := url_part buf p\<rparr>);
              r = (case u UF_QUERY of None \<Rightarrow> r | Some p \<Rightarrow> r\<lparr>rq_query := url_part buf p\<rparr>);
              r = (case u UF_FRAGMENT of None \<Rightarrow> r | Some p \<Rightarrow> r\<lparr>rq_fragment := url_part buf p\<rparr>) in
          (0, m\<lparr>mp_data := r\<rparr>))"

definition on_request_header_field_cb :: "string \<Rightarrow> HttpRequest msg_parser \<Rightarrow> int \<times> HttpRequest msg_parser" where
  "on_request_header_field_cb buf m = (0, m\<lparr>mp_field := buf\<rparr>)"

definition on_request_header_value_cb :: "string \<Rightarrow> HttpRequest msg_parser \<Rightarrow> int \<times> HttpRequest msg_parser" where
  "on_request_header_value_cb buf m = (0, m\<lparr>mp_data := rq_setHeader (mp_data m) (mp_field m) buf\<rparr>)"

definition on_request_body_cb :: "string \<Rightarrow> HttpRequest msg_parser \<Rightarrow> int \<times> HttpRequest msg_parser" where
  "on_request_body_cb buf m = (0, m\<lparr>mp_data := (mp_data m)\<lparr>rq_body := rq_body (mp_data m) @ buf\<rparr>\<rparr>)"

text \<open>The callbacks of the others only log.\<close>

definition s_request_settings ::
  "(string \<Rightarrow> url_parts option) \<Rightarrow> hp_head \<Rightarrow> hp_event \<Rightarrow> HttpRequest msg_parser \<Rightarrow> int \<times> HttpRequest msg_parser" where
  "s_request_settings parse_url p e m =
     (case e of
        Url buf \<Rightarrow> on_request_url_cb parse_url buf m
      | Header_field buf \<Rightarrow> on_request_header_field_cb buf m
      | Header_value buf \<Rightarrow> on_request_header_value_cb buf m
      | Headers_complete \<Rightarrow> on_request_headers_complete_cb p m
      | Body buf \<Rightarrow> on_request_body_cb buf m
      | Message_complete \<Rightarrow> on_request_message_complete_cb m
      | _ \<Rightarrow> (0, m))"

definition on_response_headers_complete_cb :: "hp_head \<Rightarrow> HttpResponse msg_parser \<Rightarrow> int \<times> HttpResponse msg_parser" where
  "on_response_headers_complete_cb p m =
     (0, m\<lparr>mp_data := (mp_data m)\<lparr>rs_version := version_of p, rs_status := http_status_code p\<rparr>\<rparr>)"

definition on_response_message_complete_cb :: "HttpResponse msg_parser \<Rightarrow> int \<times> HttpResponse msg_parser" where
  "on_response_message_complete_cb m = (0, m\<lparr>mp_finished := True\<rparr>)"

definition on_response_header_field_cb :: "string \<Rightarrow> HttpResponse msg_parser \<Rightarrow> int \<times> HttpResponse msg_parser" where
  "on_response_header_field_cb buf m = (0, m\<lparr>mp_field := buf\<rparr>)"

definition on_response_header_value_cb :: "string \<Rightarrow> HttpResponse msg_parser \<Rightarrow> int \<times> HttpResponse msg_parser" where
  "on_response_header_value_cb buf m = (0, m\<lparr>mp_data := rs_setHeader (mp_data m) (mp_field m) buf\<rparr>)"

definition on_response_status_cb :: "hp_head \<Rightarrow> HttpResponse msg_parser \<Rightarrow> int \<times> HttpResponse msg_parser" where
  "on_response_status_cb p m = (0, m\<lparr>mp_data := (mp_data m)\<lparr>rs_status := http_status_code p\<rparr>\<rparr>)"

definition on_response_body_cb :: "string \<Rightarrow> HttpResponse msg_parser \<Rightarrow> int \<times> HttpResponse msg_parser" where
  "on_response_body_cb buf m = (0, m\<lparr>mp_data := (mp_data m)\<lparr>rs_body := rs_body (mp_data m) @ buf\<rparr>\<rparr>)"

definition s_response_settings :: "hp_head \<Rightarrow> hp_event \<Rightarrow> HttpResponse msg_parser \<Rightarrow> int \<times> HttpResponse msg_parser" where
  "s_response_settings p e m =
     (case e of
        Status buf \<Rightarrow> on_response_status_cb p m
      | Header_field buf \<Rightarrow> on_response_header_field_cb buf m
      | Header_value buf \<Rightarrow> on_response_header_value_cb buf m
      | Headers_complete \<Rightarrow> on_response_headers_complete_cb p m
      | Body buf \<Rightarrow> on_response_body_cb buf m
      | Message_complete \<Rightarrow> on_response_message_complete_cb m
      | _ \<Rightarrow> (0, m))"

section \<open>Executing\<close>

definition int8_of :: "nat \<Rightarrow> int" where
  "int8_of n = sint (word_of_nat n :: u8)"

text \<open>\<open>memmove (data, data + nparsed, len - nparsed)\<close>.\<close>

definition move_front :: "string \<Rightarrow> nat \<Rightarrow> nat \<Rightarrow> string" where
  "move_front data nparsed len = take (len - nparsed) (drop nparsed data) @ drop (len - nparsed) data"

text \<open>The result is the number of characters parsed, the buffer and the parser.\<close>

definition HttpRequestParser_execute ::
  "('p, HttpRequest msg_parser) hp_lib \<Rightarrow> (string \<Rightarrow> url_parts option) \<Rightarrow> 'p \<times> HttpRequest msg_parser \<Rightarrow>
    string \<Rightarrow> nat \<Rightarrow> nat \<times> string \<times> 'p \<times> HttpRequest msg_parser" where
  "HttpRequestParser_execute lib parse_url pm data len =
     (let (nparsed, p, m) = http_parser_execute lib (s_request_settings parse_url) (fst pm) (snd pm) (take len data) in
      if hp_upgrade lib p then (nparsed, data, p, m\<lparr>mp_data := (mp_data m)\<lparr>rq_websocket := True\<rparr>\<rparr>)
      else if hp_errno lib p \<noteq> 0 then (nparsed, data, p, m\<lparr>mp_error := int8_of (hp_errno lib p)\<rparr>)
      else (nparsed, if nparsed < len then move_front data nparsed len else data, p, m))"

definition HttpResponseParser_execute ::
  "('p, HttpResponse msg_parser) hp_lib \<Rightarrow> 'p \<times> HttpResponse msg_parser \<Rightarrow> string \<Rightarrow> nat \<Rightarrow>
    nat \<times> string \<times> 'p \<times> HttpResponse msg_parser" where
  "HttpResponseParser_execute lib pm data len =
     (let (nparsed, p, m) = http_parser_execute lib s_response_settings (fst pm) (snd pm) (take len data) in
      if hp_errno lib p \<noteq> 0 then (nparsed, data, p, m\<lparr>mp_error := int8_of (hp_errno lib p)\<rparr>)
      else (nparsed, if nparsed < len then move_front data nparsed len else data, p, m))"

section \<open>Receiving\<close>

definition bytes_chars :: "u8 list \<Rightarrow> string" where
  "bytes_chars bs = map (\<lambda>b. char_of (unat b)) bs"

definition chars_bytes :: "string \<Rightarrow> u8 list" where
  "chars_bytes s = map (\<lambda>c. word_of_nat (of_char c)) s"

text \<open>What is left to receive, for the termination of the loop: every round takes some of it.\<close>

definition chunk_total :: "chunk list \<Rightarrow> nat" where
  "chunk_total cs = sum_list (map (\<lambda>c. case c of Data bs \<Rightarrow> length bs | Fault \<Rightarrow> 0) cs)"

lemma read_decreases:
  assumes "SocketStream_read s n = (len, bs, s')" and "0 < len"
  shows "chunk_total (so_in s') + nat len = chunk_total (so_in s)" and "length bs = nat len" and "nat len \<le> n"
    and "m_isConnected s'" and "so_out s' = so_out s" and "so_accept s' = so_accept s"
  using assms
  by (auto simp: SocketStream_read_def SocketStream_isConnected_def Socket_isConnected_def Socket_recv_def kernel_recv_def
      chunk_total_def split: if_splits list.splits chunk.splits)

text \<open>The loop of \<open>recvRequest\<close>: \<open>data\<close> is the buffer, of \<open>buff_size\<close> characters, \<open>offset\<close> the number of
  characters in it that are not parsed yet.\<close>

function recvRequest_loop ::
  "('p, HttpRequest msg_parser) hp_lib \<Rightarrow> (string \<Rightarrow> url_parts option) \<Rightarrow> nat \<Rightarrow> int \<Rightarrow> string \<Rightarrow>
    'p \<times> HttpRequest msg_parser \<Rightarrow> sock \<Rightarrow> (HttpRequest option \<times> sock) res" where
  "recvRequest_loop lib parse_url buff_size offset data pm s =
     (if offset < 0 \<or> int buff_size < offset then Inl (Bad_access ''data'')
      else let (len, bs, s) = SocketStream_read s (nat (int buff_size - offset)) in
      if len \<le> 0 then Inr (None, SocketStream_close s)
      else if length data < nat offset + length bs then Inl (Bad_access ''data'')
      else let data = blit (nat offset) (bytes_chars bs) data;
               len = len + offset;
               (nparse, data, pm) = HttpRequestParser_execute lib parse_url pm data (nat len) in
      if mp_error (snd pm) \<noteq> 0 then Inr (None, SocketStream_close s)
      else let offset = len - int nparse in
      if offset = ret_int buff_size then Inr (None, SocketStream_close s)
      else if mp_finished (snd pm) then Inr (Some (mp_data (snd pm)), s)
      else recvRequest_loop lib parse_url buff_size offset data pm s)"
  by pat_completeness auto
termination
  by (relation "measure (\<lambda>(lib, parse_url, buff_size, offset, data, pm, s). chunk_total (so_in s))")
     (auto dest!: read_decreases(1) [OF sym])

declare recvRequest_loop.simps [simp del]

text \<open>The content \<open>junk\<close> of a new buffer is indeterminate.\<close>

definition HttpSession_recvRequest ::
  "('p, HttpRequest msg_parser) hp_lib \<Rightarrow> (string \<Rightarrow> url_parts option) \<Rightarrow> string list \<Rightarrow> string \<Rightarrow> sock \<Rightarrow>
    (HttpRequest option \<times> sock) res" where
  "HttpSession_recvRequest lib parse_url methods junk s =
     bindR (recvRequest_loop lib parse_url (length junk) 0 junk (http_parser_init lib, newHttpRequestParser methods) s)
       (\<lambda>(r, s). Inr (map_option rq_init r, s))"

definition HttpSession_sendResponse :: "(nat \<Rightarrow> string option) \<Rightarrow> HttpResponse \<Rightarrow> sock \<Rightarrow> int \<times> sock" where
  "HttpSession_sendResponse status_text rsp s = writeFixSize SocketStream_write s (chars_bytes (rs_dump status_text rsp))"

text \<open>The loop of \<open>HttpConnection::recvResponse\<close>: the buffer has one more character, for the terminating \<open>0\<close>.\<close>

function recvResponse_loop ::
  "('p, HttpResponse msg_parser) hp_lib \<Rightarrow> nat \<Rightarrow> int \<Rightarrow> string \<Rightarrow> 'p \<times> HttpResponse msg_parser \<Rightarrow> sock \<Rightarrow>
    (HttpResponse option \<times> sock) res" where
  "recvResponse_loop lib buff_size offset data pm s =
     (if offset < 0 \<or> int buff_size < offset then Inl (Bad_access ''data'')
      else let (len, bs, s) = SocketStream_read s (nat (int buff_size - offset)) in
      if len \<le> 0 then Inr (None, SocketStream_close s)
      else if length data < nat offset + length bs then Inl (Bad_access ''data'')
      else let data = blit (nat offset) (bytes_chars bs) data;
               len = len + offset in
      if length data \<le> nat len then Inl (Bad_access ''data'')
      else let data = data[nat len := CHR 0x00];
               (nparse, data, pm) = HttpResponseParser_execute lib pm data (nat len) in
      if mp_error (snd pm) \<noteq> 0 then Inr (None, SocketStream_close s)
      else let offset = len - int nparse in
      if offset = ret_int buff_size then Inr (None, SocketStream_close s)
      else if mp_finished (snd pm) then Inr (Some (mp_data (snd pm)), s)
      else recvResponse_loop lib buff_size offset data pm s)"
  by pat_completeness auto
termination
  by (relation "measure (\<lambda>(lib, buff_size, offset, data, pm, s). chunk_total (so_in s))")
     (auto dest!: read_decreases(1) [OF sym])

declare recvResponse_loop.simps [simp del]

definition HttpConnection_recvResponse ::
  "('p, HttpResponse msg_parser) hp_lib \<Rightarrow> nat \<Rightarrow> string \<Rightarrow> sock \<Rightarrow> (HttpResponse option \<times> sock) res" where
  "HttpConnection_recvResponse lib buff_size junk s =
     recvResponse_loop lib buff_size 0 junk (http_parser_init lib, newHttpResponseParser) s"

definition HttpConnection_sendRequest :: "string list \<Rightarrow> HttpRequest \<Rightarrow> sock \<Rightarrow> int \<times> sock" where
  "HttpConnection_sendRequest methods req s = writeFixSize SocketStream_write s (chars_bytes (rq_dump methods req))"

section \<open>The loops stay inside their buffers\<close>

text \<open>The documented result of \<open>http_parser_execute\<close>: the number of characters it has parsed, of those given to it.\<close>

definition lib_bounded :: "('p, 'd) hp_lib \<Rightarrow> bool" where
  "lib_bounded lib \<longleftrightarrow> (\<forall>cb p d x. fst (http_parser_execute lib cb p d x) \<le> length x)"

lemma length_bytes_chars [simp]: "length (bytes_chars bs) = length bs"
  by (simp add: bytes_chars_def)

lemma length_move_front [simp]: "len \<le> length data \<Longrightarrow> length (move_front data n len) = length data"
  by (simp add: move_front_def)

lemma closed_after_close [simp]: "\<not> m_isConnected (SocketStream_close s)" "so_out (SocketStream_close s) = so_out s"
  by (simp_all add: SocketStream_close_def Socket_close_def)

lemma request_execute_bounded:
  assumes "lib_bounded lib" and "HttpRequestParser_execute lib parse_url pm data len = (n, data', pm')"
    and "len \<le> length data"
  shows "n \<le> len" and "length data' = length data"
proof -
  obtain k p m where e: "http_parser_execute lib (s_request_settings parse_url) (fst pm) (snd pm) (take len data) = (k, p, m)"
    by (cases "http_parser_execute lib (s_request_settings parse_url) (fst pm) (snd pm) (take len data)") auto
  have "k \<le> length (take len data)"
    using assms(1) unfolding lib_bounded_def by (metis e fst_conv)
  with assms(2,3) e show "n \<le> len" "length data' = length data"
    by (auto simp: HttpRequestParser_execute_def split: if_splits)
qed

lemma response_execute_bounded:
  assumes "lib_bounded lib" and "HttpResponseParser_execute lib pm data len = (n, data', pm')"
    and "len \<le> length data"
  shows "n \<le> len" and "length data' = length data"
proof -
  obtain k p m where e: "http_parser_execute lib s_response_settings (fst pm) (snd pm) (take len data) = (k, p, m)"
    by (cases "http_parser_execute lib s_response_settings (fst pm) (snd pm) (take len data)") auto
  have "k \<le> length (take len data)"
    using assms(1) unfolding lib_bounded_def by (metis e fst_conv)
  with assms(2,3) e show "n \<le> len" "length data' = length data"
    by (auto simp: HttpResponseParser_execute_def split: if_splits)
qed

text \<open>What a receiving loop may leave behind.\<close>

definition received :: "sock \<Rightarrow> ('a option \<times> sock) res \<Rightarrow> bool" where
  "received s r \<longleftrightarrow> (\<exists>v s'. r = Inr (v, s') \<and> so_out s' = so_out s \<and> m_isConnected s' = (v \<noteq> None) \<and>
     (v \<noteq> None \<longrightarrow> chunk_total (so_in s') < chunk_total (so_in s) \<and> so_accept s' = so_accept s \<and>
        (wf_chunks (so_in s) \<longrightarrow> wf_chunks (so_in s'))))"

lemma read_wf_chunks:
  "SocketStream_read s n = (len, bs, s') \<Longrightarrow> 0 < len \<Longrightarrow> wf_chunks (so_in s) \<Longrightarrow> wf_chunks (so_in s')"
  by (auto simp: SocketStream_read_def Socket_recv_def kernel_recv_def split: if_splits list.splits chunk.splits)

lemma received_closed: "so_out s' = so_out s \<Longrightarrow> received s (Inr (None, SocketStream_close s'))"
  by (simp add: received_def)

lemma received_step:
  "received s' r \<Longrightarrow> SocketStream_read s n = (len, bs, s') \<Longrightarrow> 0 < len \<Longrightarrow> received s r"
  unfolding received_def using read_decreases [of s n len bs s'] read_wf_chunks [of s n len bs s']
  by (elim exE) (intro exI, auto)

lemma read_out [simp]: "SocketStream_read s n = (len, bs, s') \<Longrightarrow> so_out s' = so_out s"
  by (auto simp: SocketStream_read_def Socket_recv_def kernel_recv_def split: if_splits list.splits chunk.splits)

lemma received_some:
  "SocketStream_read s n = (len, bs, s') \<Longrightarrow> 0 < len \<Longrightarrow> received s (Inr (Some v, s'))"
  using read_decreases [of s n len bs s'] read_wf_chunks [of s n len bs s'] by (simp add: received_def)

lemma recvRequest_loop_safe:
  assumes "lib_bounded lib" and "buff_size < 2 ^ 31"
    and "0 \<le> offset" and "offset \<le> int buff_size" and "length data = buff_size"
  shows "received s (recvRequest_loop lib parse_url buff_size offset data pm s)"
  using assms
proof (induction lib parse_url buff_size offset data pm s rule: recvRequest_loop.induct)
  case (1 lib parse_url buff_size offset data pm s)
  obtain len bs s' where rd: "SocketStream_read s (nat (int buff_size - offset)) = (len, bs, s')"
    by (cases "SocketStream_read s (nat (int buff_size - offset))") auto
  note simps = recvRequest_loop.simps [of lib parse_url buff_size offset data pm s]
  show ?case
  proof (cases "len \<le> 0")
    case True
    then show ?thesis using 1 rd by (simp add: simps received_closed)
  next
    case False
    note dec = read_decreases [OF rd]
    let ?data = "blit (nat offset) (bytes_chars bs) data"
    have room: "nat offset + length bs \<le> length data" using dec(2,3) False 1(4-6) by simp
    obtain n data' p m where e: "HttpRequestParser_execute lib parse_url pm ?data (nat (len + offset)) = (n, data', p, m)"
      by (cases "HttpRequestParser_execute lib parse_url pm ?data (nat (len + offset))") auto
    have len: "nat (len + offset) \<le> length ?data" using room dec(2) False 1(4) by (simp add: blit_def)
    note b = request_execute_bounded [OF 1(2) e len]
    show ?thesis
    proof (cases "mp_error m \<noteq> 0 \<or> len + offset - int n = ret_int buff_size \<or> mp_finished m")
      case True
      then show ?thesis
        using 1(3-6) rd False e room received_some [OF rd] by (auto simp: simps Let_def received_closed)
    next
      case ok: False
      have "received s' (recvRequest_loop lib parse_url buff_size (len + offset - int n) data' (p, m) s')"
      proof (rule 1(1) [OF _ rd [symmetric] refl refl _ _ refl refl e [symmetric] refl refl])
      qed (use ok b len room rd False 1 in \<open>auto simp: blit_def\<close>)
      then have "received s (recvRequest_loop lib parse_url buff_size (len + offset - int n) data' (p, m) s')"
        using rd False by (auto intro: received_step)
      then show ?thesis using ok 1(3-6) rd False e room by (simp add: simps)
    qed
  qed
qed

lemma recvResponse_loop_safe:
  assumes "lib_bounded lib" and "buff_size < 2 ^ 31"
    and "0 \<le> offset" and "offset \<le> int buff_size" and "length data = Suc buff_size"
  shows "received s (recvResponse_loop lib buff_size offset data pm s)"
  using assms
proof (induction lib buff_size offset data pm s rule: recvResponse_loop.induct)
  case (1 lib buff_size offset data pm s)
  obtain len bs s' where rd: "SocketStream_read s (nat (int buff_size - offset)) = (len, bs, s')"
    by (cases "SocketStream_read s (nat (int buff_size - offset))") auto
  note simps = recvResponse_loop.simps [of lib buff_size offset data pm s]
  show ?case
  proof (cases "len \<le> 0")
    case True
    then show ?thesis using 1 rd by (simp add: simps received_closed)
  next
    case False
    note dec = read_decreases [OF rd]
    let ?data = "(blit (nat offset) (bytes_chars bs) data)[nat (len + offset) := CHR 0x00]"
    have room: "nat offset + length bs \<le> length data" "\<not> Suc buff_size \<le> nat (len + offset)"
      "length (blit (nat offset) (bytes_chars bs) data) = length data"
      using dec(2,3) False 1(4-6) by (simp_all add: blit_def)
    obtain n data' p m where e: "HttpResponseParser_execute lib pm ?data (nat (len + offset)) = (n, data', p, m)"
      by (cases "HttpResponseParser_execute lib pm ?data (nat (len + offset))") auto
    have len: "nat (len + offset) \<le> length ?data" using room dec(2) False 1(4,6) by simp
    note b = response_execute_bounded [OF 1(2) e len]
    show ?thesis
    proof (cases "mp_error m \<noteq> 0 \<or> len + offset - int n = ret_int buff_size \<or> mp_finished m")
      case True
      then show ?thesis
        using 1(3-6) rd False e room received_some [OF rd] by (auto simp: simps Let_def received_closed)
    next
      case ok: False
      have "received s' (recvResponse_loop lib buff_size (len + offset - int n) data' (p, m) s')"
      proof (rule 1(1) [OF _ rd [symmetric] refl refl _ _ refl refl _ refl e [symmetric] refl refl])
      qed (use ok b len room rd False 1 in \<open>auto\<close>)
      then have "received s (recvResponse_loop lib buff_size (len + offset - int n) data' (p, m) s')"
        using rd False by (auto intro: received_step)
      then show ?thesis using ok 1(3-6) rd False e room by (simp add: simps)
    qed
  qed
qed

section \<open>What is received is what the library was fed\<close>

text \<open>The reference: the library applied to one segment after the other, without a buffer; every segment is taken
  as a whole, without an error, and the message is complete exactly with the last one.\<close>

fun parse_segments ::
  "('p, HttpRequest msg_parser) hp_lib \<Rightarrow> (string \<Rightarrow> url_parts option) \<Rightarrow> 'p \<times> HttpRequest msg_parser \<Rightarrow> string list \<Rightarrow>
    ('p \<times> HttpRequest msg_parser) option" where
  "parse_segments lib parse_url pm [] = Some pm"
| "parse_segments lib parse_url pm (x # xs) =
     (let (n, p, m) = http_parser_execute lib (s_request_settings parse_url) (fst pm) (snd pm) x in
      if hp_upgrade lib p \<or> hp_errno lib p \<noteq> 0 \<or> n \<noteq> length x \<or> mp_error m \<noteq> 0 \<or> mp_finished m \<noteq> (xs = []) then None
      else parse_segments lib parse_url (p, m) xs)"

lemma read_segment:
  assumes "so_in s = Data b # cs" and "m_isConnected s" and "length b \<le> n"
  shows "SocketStream_read s n = (int (length b), b, s\<lparr>so_in := cs\<rparr>)"
  using assms
  by (simp add: SocketStream_read_def SocketStream_isConnected_def Socket_isConnected_def Socket_recv_def kernel_recv_def)

lemma recvRequest_loop_feeds:
  assumes "segs \<noteq> []" and "list_all (\<lambda>b. b \<noteq> [] \<and> length b \<le> buff_size) segs" and "buff_size < 2 ^ 31"
    and "m_isConnected s" and "so_in s = map Data segs @ rest" and "length data = buff_size"
    and "parse_segments lib parse_url pm (map bytes_chars segs) = Some (p, m)"
  shows "recvRequest_loop lib parse_url buff_size 0 data pm s = Inr (Some (mp_data m), s\<lparr>so_in := rest\<rparr>)"
  using assms
proof (induction segs arbitrary: data pm s)
  case (Cons b segs)
  let ?cs = "map Data segs @ rest"
  have rd: "SocketStream_read s buff_size = (int (length b), b, s\<lparr>so_in := ?cs\<rparr>)"
    using Cons.prems by (intro read_segment) simp_all
  let ?data = "blit 0 (bytes_chars b) data"
  have in_data: "take (length b) ?data = bytes_chars b" by (simp add: blit_def)
  obtain n p1 m1 where e:
    "http_parser_execute lib (s_request_settings parse_url) (fst pm) (snd pm) (bytes_chars b) = (n, p1, m1)"
    by (cases "http_parser_execute lib (s_request_settings parse_url) (fst pm) (snd pm) (bytes_chars b)") auto
  with Cons.prems(7) have ok: "\<not> hp_upgrade lib p1" "hp_errno lib p1 = 0" "n = length b" "mp_error m1 = 0"
      "mp_finished m1 \<longleftrightarrow> segs = []"
      "parse_segments lib parse_url (p1, m1) (map bytes_chars segs) = Some (p, m)"
    by (auto split: if_splits)
  have ex: "HttpRequestParser_execute lib parse_url pm ?data (length b) = (length b, ?data, p1, m1)"
    using e ok by (simp add: HttpRequestParser_execute_def in_data)
  have size: "0 < buff_size" "length ?data = buff_size" using Cons.prems by (auto simp: blit_def)
  have step: "recvRequest_loop lib parse_url buff_size 0 data pm s =
      (if mp_finished m1 then Inr (Some (mp_data m1), s\<lparr>so_in := ?cs\<rparr>)
       else recvRequest_loop lib parse_url buff_size 0 ?data (p1, m1) (s\<lparr>so_in := ?cs\<rparr>))"
    using rd ex ok(4) Cons.prems(2,3,6) size(1)
    by (subst recvRequest_loop.simps) simp
  show ?case
  proof (cases "segs = []")
    case True
    then show ?thesis using step ok by simp
  next
    case False
    then have "recvRequest_loop lib parse_url buff_size 0 ?data (p1, m1) (s\<lparr>so_in := ?cs\<rparr>) =
        Inr (Some (mp_data m), (s\<lparr>so_in := ?cs\<rparr>)\<lparr>so_in := rest\<rparr>)"
      using Cons.prems ok(6) size(2) by (intro Cons.IH) simp_all
    with step ok False show ?thesis by simp
  qed
qed simp

section \<open>What the callbacks build\<close>

fun feed :: "(hp_event \<Rightarrow> 'd \<Rightarrow> int \<times> 'd) \<Rightarrow> hp_event list \<Rightarrow> 'd \<Rightarrow> 'd option" where
  "feed cb [] d = Some d"
| "feed cb (e # es) d = (let (r, d) = cb e d in if r \<noteq> 0 then None else feed cb es d)"

definition header_events :: "(string \<times> string) list \<Rightarrow> hp_event list" where
  "header_events hs = concat (map (\<lambda>(f, v). [Header_field f, Header_value v]) hs)"

text \<open>The events of a message whose names, values and target come in one piece each, and the body in any pieces.\<close>

definition message_events :: "string \<Rightarrow> (string \<times> string) list \<Rightarrow> string list \<Rightarrow> hp_event list" where
  "message_events u hs bs =
     Message_begin # Url u # header_events hs @ Headers_complete # map Body bs @ [Message_complete]"

definition put_headers :: "(string \<times> string) list \<Rightarrow> string smap \<Rightarrow> string smap" where
  "put_headers hs h = fold (\<lambda>(f, v) h. map_put CaseInsensitiveLess h f v) hs h"

lemma put_headers_simps [simp]:
  "put_headers [] h = h" "put_headers ((f, v) # hs) h = put_headers hs (map_put CaseInsensitiveLess h f v)"
  by (simp_all add: put_headers_def)

lemma put_headers_inv: "map_inv CaseInsensitiveLess h \<Longrightarrow> map_inv CaseInsensitiveLess (put_headers hs h)"
  by (induction hs arbitrary: h) (auto simp: ci.map_inv_put)

lemma put_headers_abs:
  "ci.abs_map (put_headers hs h) k = (case map_of (rev (map (\<lambda>(f, v). (lower_key f, v)) hs)) k of
     Some v \<Rightarrow> Some v | None \<Rightarrow> ci.abs_map h k)"
  by (induction hs arbitrary: h) (auto simp: ci.abs_put map_add_def split: option.split)

lemma feed_append: "feed cb (es @ es') d = (case feed cb es d of None \<Rightarrow> None | Some d \<Rightarrow> feed cb es' d)"
  by (induction es arbitrary: d) (auto split: prod.split)

lemmas request_cbs = s_request_settings_def on_request_header_field_cb_def on_request_header_value_cb_def
  on_request_body_cb_def on_request_headers_complete_cb_def on_request_message_complete_cb_def rq_setHeader_def

lemma feed_headers:
  "\<exists>f. feed (s_request_settings parse_url h) (header_events hs) m =
     Some (m\<lparr>mp_field := f, mp_data := (mp_data m)\<lparr>rq_headers := put_headers hs (rq_headers (mp_data m))\<rparr>\<rparr>)"
proof (induction hs arbitrary: m)
  case Nil
  show ?case by (intro exI [of _ "mp_field m"]) (simp add: header_events_def)
next
  case (Cons e hs)
  obtain f v where e: "e = (f, v)" by (cases e)
  let ?m = "m\<lparr>mp_field := f, mp_data := rq_setHeader (mp_data m) f v\<rparr>"
  have "feed (s_request_settings parse_url h) (header_events (e # hs)) m =
      feed (s_request_settings parse_url h) (header_events hs) ?m"
    by (simp add: e header_events_def request_cbs)
  with Cons.IH [of ?m] show ?case by (simp add: e rq_setHeader_def)
qed

lemma feed_bodies:
  "feed (s_request_settings parse_url h) (map Body bs) m =
     Some (m\<lparr>mp_data := (mp_data m)\<lparr>rq_body := rq_body (mp_data m) @ concat bs\<rparr>\<rparr>)"
  by (induction bs arbitrary: m) (simp_all add: request_cbs)

section \<open>Properties\<close>

text \<open>C15: for any parser library that reports at most the characters it was given, receiving a request or a
  response always returns, never touches memory outside its buffer, sends nothing, and leaves the connection open
  exactly when it returns a message, having then consumed some input.\<close>

theorem receive_safe:
  assumes "lib_bounded lib" and "lib_bounded lib'" and "length junk < 2 ^ 31" and "length junk' = Suc buff_size"
    and "buff_size < 2 ^ 31"
  shows "received s (HttpSession_recvRequest lib parse_url methods junk s) \<and>
         received s (HttpConnection_recvResponse lib' buff_size junk' s)"
proof
  have "received s (recvRequest_loop lib parse_url (length junk) 0 junk (http_parser_init lib, newHttpRequestParser methods) s)"
    using assms(1,3) by (intro recvRequest_loop_safe) simp_all
  then show "received s (HttpSession_recvRequest lib parse_url methods junk s)"
    by (auto simp: received_def HttpSession_recvRequest_def)
  show "received s (HttpConnection_recvResponse lib' buff_size junk' s)"
    unfolding HttpConnection_recvResponse_def using assms(2,4,5) by (intro recvResponse_loop_safe) simp_all
qed



text \<open>The library may deliver a name or a value in several pieces, when the input arrives in several segments.
  The callbacks keep only the last piece: a header whose name is split is stored under the second half of its
  name, and of a split value the second half is stored.\<close>

theorem split_header_lost:
  assumes "map_inv CaseInsensitiveLess (rq_headers (mp_data m))"
  shows "\<exists>m'. feed (s_request_settings parse_url h) [Header_field f1, Header_field f2, Header_value v1, Header_value v2] m = Some m' \<and>
           rq_getHeader (mp_data m') f2 d = v2 \<and>
           (lower_key (f1 @ f2) \<noteq> lower_key f2 \<longrightarrow>
              rq_getHeader (mp_data m') (f1 @ f2) d = rq_getHeader (mp_data m) (f1 @ f2) d)"
  using assms by (simp add: request_cbs rq_getHeader_def ci.find_put ci.map_inv_put ci.find_abs ci.abs_put)

text \<open>A small library for concrete runs: all input is body, and a full stop at the end of a segment ends the message.\<close>

definition dot_head :: hp_head where
  "dot_head = \<lparr>http_major = 1, http_minor = 1, http_method = 1, http_status_code = 200\<rparr>"

definition dot_lib :: "(unit, 'd) hp_lib" where
  "dot_lib = \<lparr>http_parser_init = (),
     http_parser_execute = (\<lambda>cb p d x. let d = snd (cb dot_head (Body x) d) in
       (length x, (), if x \<noteq> [] \<and> last x = CHR ''.'' then snd (cb dot_head Message_complete d) else d)),
     hp_upgrade = (\<lambda>_. False), hp_errno = (\<lambda>_. 0)\<rparr>"

definition dot_sock :: sock where
  "dot_sock = \<lparr>so_in = [Data [0x61, 0x62], Data [0x63, 0x2E], Data [0x64]], so_accept = [], so_out = [],
     m_isConnected = True, m_sock_open = True\<rparr>"

theorem receive_safe_witness:
  "received dot_sock (HttpSession_recvRequest dot_lib (\<lambda>_. None) [] ''junk'' dot_sock) \<and>
   received dot_sock (HttpConnection_recvResponse dot_lib 4 ''junk0'' dot_sock)"
  by (rule receive_safe) (simp_all add: lib_bounded_def dot_lib_def Let_def)

lemma dot_parse:
  "parse_segments dot_lib (\<lambda>_. None) (http_parser_init dot_lib, newHttpRequestParser []) (map bytes_chars [[0x61, 0x62], [0x63, 0x2E]]) =
     Some ((), (newHttpRequestParser [])\<lparr>mp_data := (newHttpRequest [] 0x11 True)\<lparr>rq_body := ''abc.''\<rparr>, mp_finished := True\<rparr>)"
proof -
  have "map bytes_chars [[0x61, 0x62], [0x63, 0x2E]] = [''ab'', ''c.'']"
    by (simp add: bytes_chars_def char_of_def bit_Suc_0_iff)
  then show ?thesis
    by (simp only:) (simp add: dot_lib_def request_cbs newHttpRequestParser_def newHttpRequest_def)
qed



theorem split_header_lost_witness:
  "\<exists>m'. feed (s_request_settings (\<lambda>_. None) dot_head) [Header_field ''Ho'', Header_field ''st'', Header_value ''a'', Header_value ''b'']
       (newHttpRequestParser []) = Some m' \<and> rq_getHeader (mp_data m') ''st'' [] = ''b''"
  using split_header_lost [of "newHttpRequestParser []" "\<lambda>_. None" dot_head "''Ho''" "''st''" "''a''" "''b''" "[]"]
  by (auto simp: newHttpRequestParser_def newHttpRequest_def map_inv_def)

end
