(* ===== verification/Lamb_HttpServer.thy ===== *)
theory Lamb_HttpServer
  imports Lamb_Servlet Lamb_HttpParser
begin

text \<open>
  \<open>lamb/tcp_server.cc\<close> and \<open>lamb/http/http_server.cc\<close>: listening sockets, and the loop that serves one
  client. A listening socket is identified by its address; creating, binding and listening are the kernel's, given by
  the two tests \<open>bind_ok\<close> and \<open>listen_ok\<close>. Scheduling on the workers is the list of tasks handed to them.
\<close>

section \<open>The TCP server\<close>

datatype 'a tcp_task = Start_accept 'a | Handle_client sock u64 | Close_all

record 'a tcp_server =
  ts_socks :: "'a list"
  ts_name :: string
  ts_type :: string
  ts_recvTimeout :: u64
  ts_isStop :: bool
  ts_accept_tasks :: "'a tcp_task list"
  ts_io_tasks :: "'a tcp_task list"

definition newTcpServer :: "u64 \<Rightarrow> 'a tcp_server" where
  "newTcpServer read_timeout =
     \<lparr>ts_socks = [], ts_name = ''lamb/1.0.0'', ts_type = ''tcp'', ts_recvTimeout = read_timeout, ts_isStop = True,
      ts_accept_tasks = [], ts_io_tasks = []\<rparr>"

fun bind_loop :: "('a \<Rightarrow> bool) \<Rightarrow> ('a \<Rightarrow> bool) \<Rightarrow> 'a list \<Rightarrow> 'a list \<Rightarrow> 'a list \<Rightarrow> 'a list \<times> 'a list" where
  "bind_loop bind_ok listen_ok [] socks fails = (socks, fails)"
| "bind_loop bind_ok listen_ok (addr # addrs) socks fails =
     (if \<not> bind_ok addr then bind_loop bind_ok listen_ok addrs socks (fails @ [addr])
      else if \<not> listen_ok addr then bind_loop bind_ok listen_ok addrs socks (fails @ [addr])
      else bind_loop bind_ok listen_ok addrs (socks @ [addr]) fails)"

text \<open>The overload for one address starts with no failures.\<close>

definition TcpServer_bind ::
  "('a \<Rightarrow> bool) \<Rightarrow> ('a \<Rightarrow> bool) \<Rightarrow> 'a tcp_server \<Rightarrow> 'a list \<Rightarrow> 'a list \<Rightarrow> bool \<times> 'a list \<times> 'a tcp_server" where
  "TcpServer_bind bind_ok listen_ok t addrs fails =
     (let (socks, fails) = bind_loop bind_ok listen_ok addrs (ts_socks t) fails in
      if fails \<noteq> [] then (False, fails, t\<lparr>ts_socks := []\<rparr>) else (True, fails, t\<lparr>ts_socks := socks\<rparr>))"

definition TcpServer_bind1 :: "('a \<Rightarrow> bool) \<Rightarrow> ('a \<Rightarrow> bool) \<Rightarrow> 'a tcp_server \<Rightarrow> 'a \<Rightarrow> bool \<times> 'a tcp_server" where
  "TcpServer_bind1 bind_ok listen_ok t addr =
     (let (ok, _, t) = TcpServer_bind bind_ok listen_ok t [addr] [] in (ok, t))"

text \<open>One round of the loop of \<open>startAccept\<close>; \<open>client\<close> is what \<open>accept\<close> gave, scheduled with its receive timeout. The result is whether the loop goes on.\<close>

definition startAccept_round :: "'a tcp_server \<Rightarrow> sock option \<Rightarrow> bool \<times> 'a tcp_server" where
  "startAccept_round t client =
     (if ts_isStop t then (False, t)
      else (True, case client of None \<Rightarrow> t
                  | Some c \<Rightarrow> t\<lparr>ts_io_tasks := ts_io_tasks t @ [Handle_client c (ts_recvTimeout t)]\<rparr>))"

definition TcpServer_start :: "'a tcp_server \<Rightarrow> bool \<times> 'a tcp_server" where
  "TcpServer_start t =
     (if \<not> ts_isStop t then (True, t)
      else (True, t\<lparr>ts_isStop := False, ts_accept_tasks := ts_accept_tasks t @ map Start_accept (ts_socks t)\<rparr>))"

definition TcpServer_stop :: "'a tcp_server \<Rightarrow> 'a tcp_server" where
  "TcpServer_stop t = t\<lparr>ts_isStop := True, ts_accept_tasks := ts_accept_tasks t @ [Close_all]\<rparr>"

text \<open>The task that \<open>stop\<close> schedules.\<close>

definition run_close_all :: "'a tcp_server \<Rightarrow> 'a tcp_server" where
  "run_close_all t = t\<lparr>ts_socks := []\<rparr>"

section \<open>The HTTP server\<close>

record HttpServer =
  hs_isKeepalive :: bool
  hs_name :: string
  hs_dispatch :: "sock dispatch"

definition newHttpServer :: "bool \<Rightarrow> HttpServer" where
  "newHttpServer keepalive = \<lparr>hs_isKeepalive = keepalive, hs_name = ''lamb/1.0.0'', hs_dispatch = newServletDispatch\<rparr>"

definition HttpServer_setName :: "HttpServer \<Rightarrow> string \<Rightarrow> HttpServer" where
  "HttpServer_setName h v = h\<lparr>hs_name := v, hs_dispatch := setDefault (hs_dispatch h) (Some (NotFoundServlet v))\<rparr>"

text \<open>What the server uses of other code, and the indeterminate content of new buffers.\<close>

record 'p server_env =
  ev_lib :: "('p, HttpRequest msg_parser) hp_lib"
  ev_url :: "string \<Rightarrow> url_parts option"
  ev_methods :: "string list"
  ev_status :: "nat \<Rightarrow> string option"
  ev_fnmatch :: "string \<Rightarrow> string \<Rightarrow> int"
  ev_junk :: string

text \<open>One round of \<open>handleClient\<close>; the result is whether the loop ends.\<close>

definition handle_round :: "'p server_env \<Rightarrow> HttpServer \<Rightarrow> sock \<Rightarrow> (bool \<times> sock) res" where
  "handle_round env h s =
     bindR (HttpSession_recvRequest (ev_lib env) (ev_url env) (ev_methods env) (ev_junk env) s) (\<lambda>(req, s). case req of
       None \<Rightarrow> Inr (True, s)
     | Some req \<Rightarrow>
         let rsp = newHttpResponse (rq_version req) (rq_close req \<or> \<not> hs_isKeepalive h);
             rsp = rs_setHeader rsp ''Server'' (hs_name h) in
         bindR (ServletDispatch_handle (ev_fnmatch env) (hs_dispatch h) req rsp s) (\<lambda>(_, req, rsp, s).
           let (_, s) = HttpSession_sendResponse (ev_status env) rsp s in
           Inr (\<not> hs_isKeepalive h \<or> rq_close req, s)))"

partial_function (option) HttpServer_handleClient :: "'p server_env \<Rightarrow> HttpServer \<Rightarrow> sock \<Rightarrow> sock res option" where
  "HttpServer_handleClient env h s =
     (case handle_round env h s of
        Inl e \<Rightarrow> Some (Inl e)
      | Inr (stop, s) \<Rightarrow> if stop then Some (Inr (SocketStream_close s)) else HttpServer_handleClient env h s)"

section \<open>Lemmas\<close>

lemma bind_loop_result:
  "bind_loop b l addrs socks fails =
     (socks @ filter (\<lambda>a. b a \<and> l a) addrs, fails @ filter (\<lambda>a. \<not> (b a \<and> l a)) addrs)"
  by (induction addrs arbitrary: socks fails) auto

lemma write_keeps_input:
  "SocketStream_write s bs = (r, s') \<Longrightarrow> so_in s' = so_in s"
  by (auto simp: SocketStream_write_def Socket_send_def kernel_send_def split: if_splits list.splits)

lemma writeFixSize_keeps_input:
  "writeFixSize_loop SocketStream_write n left buf s = (r, s') \<Longrightarrow> so_in s' = so_in s"
proof (induction SocketStream_write n left buf s arbitrary: r s' rule: writeFixSize_loop.induct)
  case (1 n left buf s)
  obtain len t where w: "SocketStream_write s buf = (len, t)" by (cases "SocketStream_write s buf") auto
  show ?case
  proof (cases "left > 0 \<and> \<not> len \<le> 0")
    case True
    then have "writeFixSize_loop SocketStream_write n (left - len) (drop (nat len) buf) t = (r, s')"
      using 1(2) w by (simp add: writeFixSize_loop.simps)
    with 1(1) [of "(len, t)" len t] w True write_keeps_input [OF w] show ?thesis by simp
  next
    case False
    then show ?thesis
      using 1(2) w write_keeps_input [OF w] by (auto simp: writeFixSize_loop.simps [of _ _ left] split: if_splits)
  qed
qed

lemma sendResponse_keeps_input: "so_in (snd (HttpSession_sendResponse st rsp s)) = so_in s"
  using writeFixSize_keeps_input [of "length (chars_bytes (rs_dump st rsp))"]
  by (metis HttpSession_sendResponse_def prod.collapse writeFixSize_def)

section \<open>Properties\<close>

text \<open>Binding succeeds exactly when every address can be bound and listened on; then the server has the new
  listening sockets behind the old ones, and starting it schedules one accept loop for each. Otherwise it reports
  the addresses that failed and is left without any listening socket, those of earlier calls included.\<close>

theorem bind_all_or_nothing:
  assumes "r = TcpServer_bind bind_ok listen_ok t addrs []"
  shows "(if \<forall>a \<in> set addrs. bind_ok a \<and> listen_ok a
          then fst r \<and> fst (snd r) = [] \<and> ts_socks (snd (snd r)) = ts_socks t @ addrs
          else \<not> fst r \<and> fst (snd r) = filter (\<lambda>a. \<not> (bind_ok a \<and> listen_ok a)) addrs \<and> ts_socks (snd (snd r)) = []) \<and>
         (ts_isStop t \<longrightarrow> ts_accept_tasks (snd (TcpServer_start (snd (snd r)))) =
            ts_accept_tasks t @ map Start_accept (ts_socks (snd (snd r))))"
  unfolding assms by (auto simp: TcpServer_bind_def TcpServer_start_def bind_loop_result filter_empty_conv)

theorem bind_all_or_nothing_witness:
  "fst (TcpServer_bind (\<lambda>_. True) (\<lambda>_. True) (newTcpServer 0) [1, 2 :: nat] [])"
  using bind_all_or_nothing [OF refl, where bind_ok = "\<lambda>_. True" and listen_ok = "\<lambda>_. True" and t = "newTcpServer 0"
    and addrs = "[1, 2 :: nat]"] by simp

text \<open>A handler that leaves the connection to the server, and a dispatcher without null creators.\<close>

definition handlers_leave_session :: "(string \<Rightarrow> string \<Rightarrow> int) \<Rightarrow> 's dispatch \<Rightarrow> bool" where
  "handlers_leave_session fnmatch d \<longleftrightarrow>
     (\<forall>path. case getMatchedServlet fnmatch d path of Inl _ \<Rightarrow> False | Inr None \<Rightarrow> True
       | Inr (Some slt) \<Rightarrow> \<forall>rq rs s. snd (snd (snd (sv_handle slt rq rs s))) = s)"

lemma handle_leaves:
  assumes "handlers_leave_session fnmatch d"
  obtains rq' rs' where "ServletDispatch_handle fnmatch d rq rs s = Inr (0, rq', rs', s)"
proof -
  obtain slt where m: "getMatchedServlet fnmatch d (rq_path rq) = Inr slt"
      "\<forall>x. slt = Some x \<longrightarrow> (\<forall>rq rs s. snd (snd (snd (sv_handle x rq rs s))) = s)"
    using assms unfolding handlers_leave_session_def
    by (drule_tac x = "rq_path rq" in spec) (auto split: sum.splits option.splits)
  show ?thesis
  proof (cases slt)
    case None
    then show ?thesis using that m by (simp add: ServletDispatch_handle_def)
  next
    case (Some x)
    obtain r rq' rs' s' where h: "sv_handle x rq rs s = (r, rq', rs', s')" by (cases "sv_handle x rq rs s") auto
    with m(2) Some have "s' = s" by (metis snd_conv)
    with h show ?thesis using that [of rq' rs'] m(1) Some by (simp add: ServletDispatch_handle_def)
  qed
qed

lemma handle_round_ok:
  assumes "lib_bounded (ev_lib env)" and "length (ev_junk env) < 2 ^ 31"
    and "handlers_leave_session (ev_fnmatch env) (hs_dispatch h)"
  shows "\<exists>stop s'. handle_round env h s = Inr (stop, s') \<and>
           (\<not> stop \<longrightarrow> chunk_total (so_in s') < chunk_total (so_in s))"
proof -
  let ?recv = "HttpSession_recvRequest (ev_lib env) (ev_url env) (ev_methods env) (ev_junk env) s"
  have "received s (recvRequest_loop (ev_lib env) (ev_url env) (length (ev_junk env)) 0 (ev_junk env)
      (http_parser_init (ev_lib env), newHttpRequestParser (ev_methods env)) s)"
    using assms(1,2) by (intro recvRequest_loop_safe) simp_all
  then obtain v s1 where r: "?recv = Inr (v, s1)" "v \<noteq> None \<longrightarrow> chunk_total (so_in s1) < chunk_total (so_in s)"
    by (auto simp: received_def HttpSession_recvRequest_def)
  show ?thesis
  proof (cases v)
    case None
    then have "handle_round env h s = Inr (True, s1)" using r(1) by (simp add: handle_round_def)
    then show ?thesis by (intro exI [of _ True]) simp
  next
    case (Some req)
    let ?rsp = "rs_setHeader (newHttpResponse (rq_version req) (rq_close req \<or> \<not> hs_isKeepalive h)) ''Server'' (hs_name h)"
    obtain rq' rs' where h: "ServletDispatch_handle (ev_fnmatch env) (hs_dispatch h) req ?rsp s1 = Inr (0, rq', rs', s1)"
      by (rule handle_leaves [OF assms(3)])
    have "handle_round env h s =
        Inr (\<not> hs_isKeepalive h \<or> rq_close rq', snd (HttpSession_sendResponse (ev_status env) rs' s1))"
      using r(1) Some h by (simp add: handle_round_def Let_def split: prod.split)
    then show ?thesis using r(2) Some sendResponse_keeps_input by simp
  qed
qed

text \<open>C18: whatever a client sends, serving it comes to an end with the connection closed, when the handlers leave the
  connection to the server.\<close>

theorem client_served:
  assumes "lib_bounded (ev_lib env)" and "length (ev_junk env) < 2 ^ 31"
    and "handlers_leave_session (ev_fnmatch env) (hs_dispatch h)"
  shows "\<exists>s'. HttpServer_handleClient env h s = Some (Inr s') \<and> \<not> m_isConnected s'"
proof (induction "chunk_total (so_in s)" arbitrary: s rule: less_induct)
  case less
  obtain stop s' where r: "handle_round env h s = Inr (stop, s')" "\<not> stop \<longrightarrow> chunk_total (so_in s') < chunk_total (so_in s)"
    using handle_round_ok [OF assms] by blast
  then show ?case
    using less [of s'] by (cases stop) (simp_all add: HttpServer_handleClient.simps [of env h s])
qed

text \<open>C17: the answer to a request: the client is sent, in full and behind what was sent before, the text of the response
  that the dispatcher made of a response with the version of the request and the name of the server; the loop
  goes on exactly if the server and the request keep the connection alive.\<close>

theorem server_answers:
  assumes "HttpSession_recvRequest (ev_lib env) (ev_url env) (ev_methods env) (ev_junk env) s = Inr (Some req, s1)"
    and "ServletDispatch_handle (ev_fnmatch env) (hs_dispatch h) req
           (rs_setHeader (newHttpResponse (rq_version req) (rq_close req \<or> \<not> hs_isKeepalive h)) ''Server'' (hs_name h)) s1
         = Inr (0, req', rsp', s1)"
    and "sock_writable s1" and "length (rs_dump (ev_status env) rsp') < 2 ^ 63"
  shows "\<exists>s2. so_out s2 = so_out s1 @ chars_bytes (rs_dump (ev_status env) rsp') \<and> so_in s2 = so_in s1 \<and>
           HttpServer_handleClient env h s =
             (if hs_isKeepalive h \<and> \<not> rq_close req' then HttpServer_handleClient env h s2
              else Some (Inr (SocketStream_close s2)))"
proof -
  let ?buf = "chars_bytes (rs_dump (ev_status env) rsp')"
  have "length ?buf < 2 ^ 63" using assms(4) by (simp add: chars_bytes_def)
  then obtain r s2 where w: "HttpSession_sendResponse (ev_status env) rsp' s1 = (r, s2)" "so_out s2 = so_out s1 @ ?buf"
    using ssink.writeFixSize_all [OF assms(3)] by (fastforce simp: HttpSession_sendResponse_def)
  have "handle_round env h s = Inr (\<not> hs_isKeepalive h \<or> rq_close req', s2)"
    using assms(1,2) w(1) by (simp add: handle_round_def)
  moreover have "so_in s2 = so_in s1" using sendResponse_keeps_input [of "ev_status env" rsp' s1] w(1) by simp
  ultimately show ?thesis
    using w(2) by (intro exI [of _ s2]) (simp add: HttpServer_handleClient.simps [of env h s])
qed

text \<open>A server with the default servlet only, over the small library.\<close>

definition dot_env :: "unit server_env" where
  "dot_env = \<lparr>ev_lib = dot_lib, ev_url = (\<lambda>_. None), ev_methods = [], ev_status = (\<lambda>_. None),
     ev_fnmatch = (\<lambda>p s. if p = s then 0 else 1), ev_junk = ''junk''\<rparr>"

lemma dot_matched: "getMatchedServlet fnmatch newServletDispatch path = Inr (Some (NotFoundServlet ''lamb/1.0''))"
  by (simp add: getMatchedServlet_def newServletDispatch_def)

theorem client_served_witness:
  "\<exists>s'. HttpServer_handleClient dot_env (newHttpServer True) dot_sock = Some (Inr s') \<and> \<not> m_isConnected s'"
  by (rule client_served)
     (simp_all add: dot_env_def lib_bounded_def dot_lib_def Let_def handlers_leave_session_def newHttpServer_def dot_matched
        NotFoundServlet_def NotFoundServlet_handle_def)

lemma dot_recv:
  "HttpSession_recvRequest dot_lib (\<lambda>_. None) [] ''junk'' dot_sock =
     Inr (Some (rq_init ((newHttpRequest [] 0x11 True)\<lparr>rq_body := ''abc.''\<rparr>)), dot_sock\<lparr>so_in := [Data [0x64]]\<rparr>)"
  using recvRequest_loop_feeds [OF _ _ _ _ _ _ dot_parse, where rest = "[Data [0x64]]" and s = dot_sock and data = "''junk''"]
  by (simp add: dot_sock_def HttpSession_recvRequest_def)

lemma dot_dump_short: "length (rs_dump (\<lambda>_. None) (rs_setHeader (newHttpResponse 0x11 True) ''Server'' ''lamb'')) < 2 ^ 63"
  by (simp add: rs_dump_def rs_setHeader_def newHttpResponse_def show_version_def HttpStatusToString_def show_connection_def
      show_body_def crlf_def show_nat.simps [of "Suc 0"] show_nat.simps [of 200] show_nat.simps [of 20] show_nat.simps [of 2])

theorem server_answers_witness:
  "\<exists>s2. so_out s2 = chars_bytes (rs_dump (\<lambda>_. None) (rs_setHeader (newHttpResponse 0x11 True) ''Server'' ''lamb'')) \<and>
     HttpServer_handleClient dot_env \<lparr>hs_isKeepalive = False, hs_name = ''lamb'', hs_dispatch = setDefault newServletDispatch None\<rparr> dot_sock
       = Some (Inr (SocketStream_close s2))"
proof -
  let ?h = "\<lparr>hs_isKeepalive = False, hs_name = ''lamb'', hs_dispatch = setDefault newServletDispatch None\<rparr>"
  let ?req = "rq_init ((newHttpRequest [] 0x11 True)\<lparr>rq_body := ''abc.''\<rparr>)"
  have v: "rq_version ?req = 0x11" by (simp add: rq_init_def rq_getHeader_def newHttpRequest_def)
  have "ServletDispatch_handle (ev_fnmatch dot_env) (hs_dispatch ?h) ?req rsp s = Inr (0, ?req, rsp, s)" for rsp s
    by (simp add: ServletDispatch_handle_def getMatchedServlet_def setDefault_def newServletDispatch_def)
  then show ?thesis
    using server_answers [of dot_env dot_sock ?req "dot_sock\<lparr>so_in := [Data [0x64]]\<rparr>" ?h] dot_recv dot_dump_short v
    by (auto simp: dot_env_def dot_sock_def sock_writable_def)
qed

end
