(* ===== verification/Lamb_HttpClient.thy ===== *)
theory Lamb_HttpClient
  imports Lamb_HttpParser
begin

text \<open>
  \<open>lamb/uri.cc\<close> and \<open>lamb/http/http_connection.cc\<close>: addresses of resources, single requests, and the
  pool of connections. Looking up a host, creating and connecting a socket, the clock and \<open>errno\<close> are given by
  an environment. A connection of the pool is an address of a heap.
\<close>

section \<open>URIs\<close>

record Uri =
  u_scheme :: string
  u_userinfo :: string
  u_host :: string
  u_path :: string
  u_query :: string
  u_fragment :: string
  u_port :: int

definition newUri :: Uri where
  "newUri = \<lparr>u_scheme = [], u_userinfo = [], u_host = [], u_path = [], u_query = [], u_fragment = [], u_port = 0\<rparr>"

definition is_digit :: "char \<Rightarrow> bool" where
  "is_digit c \<longleftrightarrow> 48 \<le> (of_char c :: nat) \<and> (of_char c :: nat) \<le> 57"

definition is_space :: "char \<Rightarrow> bool" where
  "is_space c \<longleftrightarrow> c = CHR '' '' \<or> 9 \<le> (of_char c :: nat) \<and> (of_char c :: nat) \<le> 13"

text \<open>\<open>std::stoi\<close>: blanks, a sign, digits; what follows the digits is ignored.\<close>

definition stoi :: "string \<Rightarrow> int res" where
  "stoi s =
     (let s = dropWhile is_space (c_str s);
          neg = (case s of c # _ \<Rightarrow> c = CHR ''-'' | [] \<Rightarrow> False);
          signed = (case s of c # _ \<Rightarrow> c = CHR ''-'' \<or> c = CHR ''+'' | [] \<Rightarrow> False);
          digits = takeWhile is_digit (if signed then tl s else s);
          v = (if neg then - int (digits_val digits) else int (digits_val digits)) in
      if digits = [] then Inl (Invalid_argument ''stoi'')
      else if v < - (2 ^ 31) \<or> 2 ^ 31 \<le> v then Inl (Out_of_range ''stoi'')
      else Inr v)"

definition set_part :: "string \<Rightarrow> url_parts \<Rightarrow> url_field \<Rightarrow> (string \<Rightarrow> Uri \<Rightarrow> Uri) \<Rightarrow> Uri \<Rightarrow> Uri" where
  "set_part urlstr u f upd uri = (case u f of None \<Rightarrow> uri | Some p \<Rightarrow> upd (url_part urlstr p) uri)"

definition Uri_Create :: "(string \<Rightarrow> url_parts option) \<Rightarrow> string \<Rightarrow> Uri option res" where
  "Uri_Create parse_url urlstr =
     (case parse_url urlstr of
        None \<Rightarrow> Inr None
      | Some u \<Rightarrow>
          let uri = set_part urlstr u UF_SCHEMA (\<lambda>v. u_scheme_update (\<lambda>_. v)) newUri;
              uri = set_part urlstr u UF_USERINFO (\<lambda>v. u_userinfo_update (\<lambda>_. v)) uri;
              uri = set_part urlstr u UF_HOST (\<lambda>v. u_host_update (\<lambda>_. v)) uri in
          bindR (case u UF_PORT of
                   Some p \<Rightarrow> bindR (stoi (url_part urlstr p)) (\<lambda>n. Inr (uri\<lparr>u_port := n\<rparr>))
                 | None \<Rightarrow>
                     if u_scheme uri = ''http'' \<or> u_scheme uri = ''ws'' then Inr (uri\<lparr>u_port := 80\<rparr>)
                     else if u_scheme uri = ''https'' then Inr (uri\<lparr>u_port := 443\<rparr>)
                     else Inr uri) (\<lambda>uri.
            let uri = set_part urlstr u UF_PATH (\<lambda>v. u_path_update (\<lambda>_. v)) uri;
                uri = set_part urlstr u UF_QUERY (\<lambda>v. u_query_update (\<lambda>_. v)) uri;
                uri = set_part urlstr u UF_FRAGMENT (\<lambda>v. u_fragment_update (\<lambda>_. v)) uri in
            Inr (Some uri)))"

definition Uri_getPath :: "Uri \<Rightarrow> string" where
  "Uri_getPath u = (if u_path u = [] then ''/'' else u_path u)"

definition Uri_getPort :: "Uri \<Rightarrow> int" where
  "Uri_getPort u =
     (if u_port u \<noteq> 0 then u_port u
      else if u_scheme u = ''http'' \<or> u_scheme u = ''ws'' then 80
      else if u_scheme u = ''https'' \<or> u_scheme u = ''ws'' then 443
      else u_port u)"

definition isDefaultPort :: "Uri \<Rightarrow> bool" where
  "isDefaultPort u =
     (if u_scheme u = ''http'' \<or> u_scheme u = ''ws'' then u_port u = 80
      else if u_scheme u = ''https'' then u_port u = 443 else False)"

definition Uri_toString :: "Uri \<Rightarrow> string" where
  "Uri_toString u =
     u_scheme u @ ''://'' @ u_userinfo u @ (if u_userinfo u = [] then [] else ''@'')
     @ u_host u @ (if isDefaultPort u then [] else '':'' @ show_int (u_port u))
     @ Uri_getPath u
     @ (if u_query u = [] then [] else ''?'') @ u_query u
     @ (if u_fragment u = [] then [] else ''#'') @ u_fragment u"

text \<open>The environment; an address is of any type \<open>'a\<close> and \<open>set_port\<close> is \<open>IPAddress::setPort\<close>.\<close>

record ('a, 'p) client_env =
  ce_url :: "string \<Rightarrow> url_parts option"
  ce_lookup :: "string \<Rightarrow> 'a option"
  ce_set_port :: "'a \<Rightarrow> int \<Rightarrow> 'a"
  ce_addr_string :: "'a \<Rightarrow> string"
  ce_socket :: "'a \<Rightarrow> sock option"
  ce_connect :: "'a \<Rightarrow> sock \<Rightarrow> bool \<times> sock"
  ce_errno :: "string"
  ce_lib :: "('p, HttpResponse msg_parser) hp_lib"
  ce_methods :: "string list"
  ce_buff_size :: nat
  ce_junk :: string

definition createAddress :: "('a, 'p) client_env \<Rightarrow> Uri \<Rightarrow> 'a option" where
  "createAddress env u = map_option (\<lambda>a. ce_set_port env a (Uri_getPort u)) (ce_lookup env (u_host u))"

section \<open>Single requests\<close>

datatype http_error = OK | INVALID_URL | INVALID_HOST | CONNECT_FAIL | SEND_CLOSE_BY_PEER | SEND_SOCKET_ERROR
  | TIMEOUT | CREATE_SOCKET_ERROR | POOL_GET_CONNECTION | POOL_INVALID_CONNECTION

record HttpResult =
  res_result :: http_error
  res_response :: "HttpResponse option"
  res_error :: string

definition mk_result :: "http_error \<Rightarrow> HttpResponse option \<Rightarrow> string \<Rightarrow> HttpResult" where
  "mk_result e r t = \<lparr>res_result = e, res_response = r, res_error = t\<rparr>"

text \<open>The loop over the headers: the request and whether a host was given.\<close>

fun add_headers :: "(string \<times> string) list \<Rightarrow> HttpRequest \<times> bool \<Rightarrow> HttpRequest \<times> bool" where
  "add_headers [] (req, has_host) = (req, has_host)"
| "add_headers ((k, v) # hs) (req, has_host) =
     (if strcasecmp k ''connection'' = 0
      then add_headers hs (if strcasecmp v ''keep-alive'' = 0 then req\<lparr>rq_close := False\<rparr> else req, has_host)
      else
        let has_host = (if \<not> has_host \<and> strcasecmp k ''host'' = 0 then v \<noteq> [] else has_host) in
        add_headers hs (rq_setHeader req k v, has_host))"

definition build_request ::
  "string list \<Rightarrow> nat \<Rightarrow> string \<Rightarrow> string \<Rightarrow> string \<Rightarrow> (string \<times> string) list \<Rightarrow> string \<Rightarrow> string \<Rightarrow> HttpRequest" where
  "build_request methods verb path query fragment headers host body =
     (let req = (newHttpRequest methods 0x11 True)\<lparr>rq_path := path, rq_query := query, rq_fragment := fragment, rq_method := verb\<rparr>;
          (req, has_host) = add_headers headers (req, False);
          req = (if \<not> has_host then rq_setHeader req ''Host'' host else req) in
      req\<lparr>rq_body := body\<rparr>)"

text \<open>The end of a request on a connection: send, receive, and the result.\<close>

definition exchange ::
  "('a, 'p) client_env \<Rightarrow> string \<Rightarrow> u64 \<Rightarrow> HttpRequest \<Rightarrow> sock \<Rightarrow> (HttpResult \<times> sock) res" where
  "exchange env peer timeout_ms req s =
     (let (rt, s) = HttpConnection_sendRequest (ce_methods env) req s in
      if rt = 0 then Inr (mk_result SEND_CLOSE_BY_PEER None (''send request closed by peer: '' @ peer), s)
      else if rt < 0 then Inr (mk_result SEND_SOCKET_ERROR None (''send request socket error errno='' @ ce_errno env), s)
      else bindR (HttpConnection_recvResponse (ce_lib env) (ce_buff_size env) (ce_junk env) s) (\<lambda>(rsp, s).
        Inr (case rsp of
               None \<Rightarrow> mk_result TIMEOUT None
                 (''recv response timeout: '' @ peer @ '' timeout_ms:'' @ show_nat (unat timeout_ms))
             | Some r \<Rightarrow> mk_result OK (Some r) ''ok'', s)))"

text \<open>The socket is destroyed with the connection; the result keeps its last state for reasoning.\<close>

definition DoRequest_req ::
  "('a, 'p) client_env \<Rightarrow> HttpRequest \<Rightarrow> Uri \<Rightarrow> u64 \<Rightarrow> (HttpResult \<times> sock option) res" where
  "DoRequest_req env req uri timeout_ms =
     (case createAddress env uri of
        None \<Rightarrow> Inr (mk_result INVALID_HOST None (''invalid host: '' @ u_host uri), None)
      | Some addr \<Rightarrow>
          (case ce_socket env addr of
             None \<Rightarrow> Inr (mk_result CREATE_SOCKET_ERROR None
               (''create socket fail: '' @ ce_addr_string env addr @ '' errno='' @ ce_errno env), None)
           | Some sock \<Rightarrow>
               let (ok, sock) = ce_connect env addr sock in
               if \<not> ok then Inr (mk_result CONNECT_FAIL None (''connect fail: '' @ ce_addr_string env addr), Some sock)
               else bindR (exchange env (ce_addr_string env addr) timeout_ms req sock) (\<lambda>(r, s). Inr (r, Some s))))"

definition DoRequest_uri ::
  "('a, 'p) client_env \<Rightarrow> nat \<Rightarrow> Uri \<Rightarrow> u64 \<Rightarrow> (string \<times> string) list \<Rightarrow> string \<Rightarrow> (HttpResult \<times> sock option) res" where
  "DoRequest_uri env verb uri timeout_ms headers body =
     DoRequest_req env (build_request (ce_methods env) verb (Uri_getPath uri) (u_query uri) (u_fragment uri)
       headers (u_host uri) body) uri timeout_ms"

definition DoRequest ::
  "('a, 'p) client_env \<Rightarrow> nat \<Rightarrow> string \<Rightarrow> u64 \<Rightarrow> (string \<times> string) list \<Rightarrow> string \<Rightarrow> (HttpResult \<times> sock option) res" where
  "DoRequest env verb url timeout_ms headers body =
     bindR (Uri_Create (ce_url env) url) (\<lambda>uri. case uri of
       None \<Rightarrow> Inr (mk_result INVALID_URL None (''invalid url: '' @ url), None)
     | Some uri \<Rightarrow> DoRequest_uri env verb uri timeout_ms headers body)"

definition method_number :: "string list \<Rightarrow> string \<Rightarrow> nat" where
  "method_number methods name = index_of (\<lambda>n. n = name) methods"

definition DoGet where
  "DoGet env url timeout_ms headers body = DoRequest env (method_number (ce_methods env) ''GET'') url timeout_ms headers body"

definition DoGet_uri where
  "DoGet_uri env uri timeout_ms headers body = DoRequest_uri env (method_number (ce_methods env) ''GET'') uri timeout_ms headers body"

definition DoPost where
  "DoPost env url timeout_ms headers body = DoRequest env (method_number (ce_methods env) ''POST'') url timeout_ms headers body"

definition DoPost_uri where
  "DoPost_uri env uri timeout_ms headers body = DoRequest_uri env (method_number (ce_methods env) ''POST'') uri timeout_ms headers body"

section \<open>The pool\<close>

record http_conn =
  hc_sock :: sock
  hc_createTime :: u64
  hc_request :: u64

record pool =
  pl_host :: string
  pl_vhost :: string
  pl_port :: u32
  pl_maxSize :: u32
  pl_maxAliveTime :: u32
  pl_maxRequest :: u32
  pl_conns :: "nat list"
  pl_total :: int
  pl_heap :: "nat \<Rightarrow> http_conn option"

definition newPool :: "string \<Rightarrow> string \<Rightarrow> u32 \<Rightarrow> u32 \<Rightarrow> u32 \<Rightarrow> u32 \<Rightarrow> pool" where
  "newPool host vhost port max_size max_alive_time max_request =
     \<lparr>pl_host = host, pl_vhost = vhost, pl_port = port, pl_maxSize = max_size, pl_maxAliveTime = max_alive_time,
      pl_maxRequest = max_request, pl_conns = [], pl_total = 0, pl_heap = (\<lambda>_. None)\<rparr>"

text \<open>The search for a usable connection: the invalid ones met, the first valid one, and those behind it.\<close>

fun pop_valid :: "u64 \<Rightarrow> u64 \<Rightarrow> (nat \<Rightarrow> http_conn option) \<Rightarrow> nat list \<Rightarrow> (nat list \<times> nat option \<times> nat list) res" where
  "pop_valid now_ms alive h [] = Inr ([], None, [])"
| "pop_valid now_ms alive h (c # cs) =
     (case h c of
        None \<Rightarrow> Inl Null_deref
      | Some conn \<Rightarrow>
          if \<not> SocketStream_isConnected (hc_sock conn) \<or> now_ms < hc_createTime conn + alive
          then bindR (pop_valid now_ms alive h cs) (\<lambda>(bad, p, rest). Inr (c # bad, p, rest))
          else Inr ([], Some c, cs))"

text \<open>\<open>addr\<close> is the address of a new connection.\<close>

definition getConnection ::
  "('a, 'p) client_env \<Rightarrow> u64 \<Rightarrow> nat \<Rightarrow> pool \<Rightarrow> (nat option \<times> pool) res" where
  "getConnection env now_ms addr p =
     bindR (pop_valid now_ms (ucast (pl_maxAliveTime p)) (pl_heap p) (pl_conns p)) (\<lambda>(bad, ptr, rest).
       let p = p\<lparr>pl_conns := rest, pl_heap := (\<lambda>a. if a \<in> set bad then None else pl_heap p a),
                 pl_total := pl_total p - int (length bad)\<rparr> in
       case ptr of
         Some c \<Rightarrow> Inr (Some c, p)
       | None \<Rightarrow>
           (case ce_lookup env (pl_host p) of
              None \<Rightarrow> Inr (None, p)
            | Some a \<Rightarrow>
                let a = ce_set_port env a (uint (pl_port p)) in
                (case ce_socket env a of
                   None \<Rightarrow> Inr (None, p)
                 | Some s \<Rightarrow>
                     let (ok, s) = ce_connect env a s in
                     if \<not> ok then Inr (None, p)
                     else Inr (Some addr, p\<lparr>pl_heap := (pl_heap p)(addr \<mapsto> \<lparr>hc_sock = s, hc_createTime = 0, hc_request = 0\<rparr>),
                                            pl_total := pl_total p + 1\<rparr>))))"

definition ReleasePtr :: "u64 \<Rightarrow> nat \<Rightarrow> pool \<Rightarrow> pool res" where
  "ReleasePtr now_ms c p =
     (case pl_heap p c of
        None \<Rightarrow> Inl Null_deref
      | Some conn \<Rightarrow>
          let conn = conn\<lparr>hc_request := hc_request conn + 1\<rparr>;
              p = p\<lparr>pl_heap := (pl_heap p)(c \<mapsto> conn)\<rparr> in
          if \<not> SocketStream_isConnected (hc_sock conn) \<or> now_ms \<le> hc_createTime conn + ucast (pl_maxAliveTime p)
             \<or> ucast (pl_maxRequest p) \<le> hc_request conn
          then Inr (p\<lparr>pl_heap := (pl_heap p)(c := None), pl_total := pl_total p - 1\<rparr>)
          else Inr (p\<lparr>pl_conns := pl_conns p @ [c]\<rparr>))"

text \<open>\<open>doRequest (req, timeout)\<close>: the connection goes back to the pool when the function returns, at \<open>later_ms\<close>.\<close>

definition pool_doRequest_req ::
  "('a, 'p) client_env \<Rightarrow> u64 \<Rightarrow> u64 \<Rightarrow> nat \<Rightarrow> string \<Rightarrow> pool \<Rightarrow> HttpRequest \<Rightarrow> u64 \<Rightarrow> (HttpResult \<times> pool) res" where
  "pool_doRequest_req env now_ms later_ms addr peer p req timeout_ms =
     bindR (getConnection env now_ms addr p) (\<lambda>(conn, p). case conn of
       None \<Rightarrow> Inr (mk_result POOL_GET_CONNECTION None (''pool host:'' @ pl_host p @ '' port:'' @ show_nat (unat (pl_port p))), p)
     | Some c \<Rightarrow>
         (case pl_heap p c of
            None \<Rightarrow> Inl Null_deref
          | Some conn \<Rightarrow>
              bindR (exchange env peer timeout_ms req (hc_sock conn)) (\<lambda>(r, s).
              bindR (ReleasePtr later_ms c (p\<lparr>pl_heap := (pl_heap p)(c \<mapsto> conn\<lparr>hc_sock := s\<rparr>)\<rparr>)) (\<lambda>p.
                Inr (r, p)))))"

definition pool_doRequest ::
  "('a, 'p) client_env \<Rightarrow> u64 \<Rightarrow> u64 \<Rightarrow> nat \<Rightarrow> string \<Rightarrow> pool \<Rightarrow> nat \<Rightarrow> string \<Rightarrow> u64 \<Rightarrow> (string \<times> string) list \<Rightarrow> string \<Rightarrow>
    (HttpResult \<times> pool) res" where
  "pool_doRequest env now_ms later_ms addr peer p verb url timeout_ms headers body =
     pool_doRequest_req env now_ms later_ms addr peer p
       (build_request (ce_methods env) verb url [] [] headers (if pl_vhost p = [] then pl_host p else pl_vhost p) body) timeout_ms"

text \<open>The target of a request from a URI.\<close>

definition uri_target :: "Uri \<Rightarrow> string" where
  "uri_target u = Uri_getPath u @ (if u_query u = [] then [] else ''?'') @ u_query u
     @ (if u_fragment u = [] then [] else ''#'') @ u_fragment u"

definition pool_doRequest_uri where
  "pool_doRequest_uri env now_ms later_ms addr peer p verb uri timeout_ms headers body =
     pool_doRequest env now_ms later_ms addr peer p verb (uri_target uri) timeout_ms headers body"

definition pool_doGet where
  "pool_doGet env now_ms later_ms addr peer p url timeout_ms headers body =
     pool_doRequest env now_ms later_ms addr peer p (method_number (ce_methods env) ''GET'') url timeout_ms headers body"

definition pool_doPost where
  "pool_doPost env now_ms later_ms addr peer p url timeout_ms headers body =
     pool_doRequest env now_ms later_ms addr peer p (method_number (ce_methods env) ''POST'') url timeout_ms headers body"

section \<open>Accounting of the pool\<close>

text \<open>\<open>out\<close> is the set of the connections handed out. While a connection lives its socket may change in any way.\<close>

inductive pool_reach :: "('a, 'p) client_env \<Rightarrow> pool \<Rightarrow> nat set \<Rightarrow> bool" for env where
  pool_new: "pool_reach env (newPool host vhost port max_size max_alive max_request) {}"
| pool_get: "pool_reach env p out \<Longrightarrow> pl_heap p addr = None \<Longrightarrow> getConnection env now addr p = Inr (c, p') \<Longrightarrow>
    pool_reach env p' (set_option c \<union> out)"
| pool_use: "pool_reach env p out \<Longrightarrow> pl_heap p c = Some conn \<Longrightarrow>
    pool_reach env (p\<lparr>pl_heap := (pl_heap p)(c \<mapsto> conn\<lparr>hc_sock := s\<rparr>)\<rparr>) out"
| pool_release: "pool_reach env p out \<Longrightarrow> c \<in> out \<Longrightarrow> ReleasePtr now c p = Inr p' \<Longrightarrow> pool_reach env p' (out - {c})"

definition pool_inv :: "pool \<Rightarrow> nat set \<Rightarrow> bool" where
  "pool_inv p out \<longleftrightarrow> distinct (pl_conns p) \<and> set (pl_conns p) \<inter> out = {} \<and> dom (pl_heap p) = set (pl_conns p) \<union> out \<and>
     finite out \<and> pl_total p = int (length (pl_conns p) + card out) \<and>
     (\<forall>c conn. pl_heap p c = Some conn \<longrightarrow> hc_createTime conn = 0) \<and>
     (\<forall>c \<in> set (pl_conns p). \<forall>conn. pl_heap p c = Some conn \<longrightarrow> hc_request conn < ucast (pl_maxRequest p))"

lemma pop_valid_ok:
  assumes "set cs \<subseteq> dom h"
  shows "\<exists>bad ptr rest. pop_valid now alive h cs = Inr (bad, ptr, rest) \<and> cs = bad @ (case ptr of None \<Rightarrow> [] | Some c \<Rightarrow> [c]) @ rest \<and>
     (ptr = None \<longrightarrow> rest = []) \<and>
     (\<forall>c conn. ptr = Some c \<longrightarrow> h c = Some conn \<longrightarrow>
        SocketStream_isConnected (hc_sock conn) \<and> \<not> now < hc_createTime conn + alive) \<and>
     (\<forall>c \<in> set bad. \<forall>conn. h c = Some conn \<longrightarrow>
        \<not> SocketStream_isConnected (hc_sock conn) \<or> now < hc_createTime conn + alive)"
  using assms
proof (induction cs)
  case (Cons c cs)
  then obtain conn where conn: "h c = Some conn" by auto
  show ?case
  proof (cases "\<not> SocketStream_isConnected (hc_sock conn) \<or> now < hc_createTime conn + alive")
    case True
    with Cons conn show ?thesis by fastforce
  next
    case False
    with conn show ?thesis by simp
  qed
qed simp

text \<open>The pool after the invalid connections were deleted.\<close>

definition purged :: "pool \<Rightarrow> nat list \<Rightarrow> nat list \<Rightarrow> pool" where
  "purged p bad rest = p\<lparr>pl_conns := rest, pl_heap := (\<lambda>a. if a \<in> set bad then None else pl_heap p a),
     pl_total := pl_total p - int (length bad)\<rparr>"

lemma getConnection_ok:
  assumes "pool_inv p out"
  shows "\<exists>bad ptr rest. pl_conns p = bad @ (case ptr of None \<Rightarrow> [] | Some c \<Rightarrow> [c]) @ rest \<and>
     ((\<exists>c. ptr = Some c \<and> getConnection env now addr p = Inr (Some c, purged p bad rest)) \<or>
      ptr = None \<and> rest = [] \<and>
      (getConnection env now addr p = Inr (None, purged p bad []) \<or>
       (\<exists>s. getConnection env now addr p = Inr (Some addr, (purged p bad [])
          \<lparr>pl_heap := (pl_heap (purged p bad []))(addr \<mapsto> \<lparr>hc_sock = s, hc_createTime = 0, hc_request = 0\<rparr>),
           pl_total := pl_total (purged p bad []) + 1\<rparr>))))"
proof -
  have "set (pl_conns p) \<subseteq> dom (pl_heap p)" using assms by (auto simp: pool_inv_def)
  from pop_valid_ok [OF this, of now "ucast (pl_maxAliveTime p)"] obtain bad ptr rest where
    pv: "pop_valid now (ucast (pl_maxAliveTime p)) (pl_heap p) (pl_conns p) = Inr (bad, ptr, rest)"
      "pl_conns p = bad @ (case ptr of None \<Rightarrow> [] | Some c \<Rightarrow> [c]) @ rest" "ptr = None \<longrightarrow> rest = []" by blast
  show ?thesis
  proof (cases ptr)
    case (Some c)
    then show ?thesis using pv by (intro exI [of _ bad] exI [of _ ptr] exI [of _ rest])
        (simp add: getConnection_def purged_def)
  next
    case None
    then show ?thesis using pv by (intro exI [of _ bad] exI [of _ ptr] exI [of _ rest])
        (auto simp: getConnection_def purged_def Let_def split: option.split prod.split)
  qed
qed

lemma pool_inv_purged:
  assumes "pool_inv p out" and "pl_conns p = bad @ (case ptr of None \<Rightarrow> [] | Some c \<Rightarrow> [c]) @ rest"
  shows "pool_inv (purged p bad rest) (set_option ptr \<union> out)"
proof -
  have "set_option ptr \<inter> out = {}" "set rest \<inter> set_option ptr = {}" "set bad \<inter> (set_option ptr \<union> set rest \<union> out) = {}"
    using assms by (auto simp: pool_inv_def split: option.splits)
  moreover have "card (set_option ptr \<union> out) = (case ptr of None \<Rightarrow> 0 | Some _ \<Rightarrow> 1) + card out"
    using assms calculation(1) by (auto simp: pool_inv_def split: option.splits)
  moreover have "dom (pl_heap (purged p bad rest)) = dom (pl_heap p) - set bad" by (auto simp: purged_def split: if_splits)
  ultimately show ?thesis
    using assms unfolding pool_inv_def
    by (intro conjI) (auto simp: purged_def split: option.splits if_splits)
qed

lemma getConnection_inv:
  assumes "pool_inv p out" and "pl_heap p addr = None" and "getConnection env now addr p = Inr (c, p')"
  shows "pool_inv p' (set_option c \<union> out)"
proof -
  from getConnection_ok [OF assms(1), of env now addr] obtain bad ptr rest where
    g: "pl_conns p = bad @ (case ptr of None \<Rightarrow> [] | Some c \<Rightarrow> [c]) @ rest"
      "(\<exists>c. ptr = Some c \<and> getConnection env now addr p = Inr (Some c, purged p bad rest)) \<or>
      ptr = None \<and> rest = [] \<and>
      (getConnection env now addr p = Inr (None, purged p bad []) \<or>
       (\<exists>s. getConnection env now addr p = Inr (Some addr, (purged p bad [])
          \<lparr>pl_heap := (pl_heap (purged p bad []))(addr \<mapsto> \<lparr>hc_sock = s, hc_createTime = 0, hc_request = 0\<rparr>),
           pl_total := pl_total (purged p bad []) + 1\<rparr>)))" by blast
  note inv = pool_inv_purged [OF assms(1) g(1)]
  have "addr \<notin> out" using assms(1,2) by (auto simp: pool_inv_def)
  from g(2) show ?thesis
  proof (elim disjE conjE exE)
    fix c' assume "ptr = Some c'" "getConnection env now addr p = Inr (Some c', purged p bad rest)"
    then show ?thesis using inv assms(3) by auto
  next
    assume "ptr = None" "rest = []" "getConnection env now addr p = Inr (None, purged p bad [])"
    then show ?thesis using inv assms(3) by auto
  next
    fix s let ?conn = "\<lparr>hc_sock = s, hc_createTime = 0, hc_request = 0\<rparr>" and ?q = "purged p bad []"
    assume "ptr = None" "rest = []" "getConnection env now addr p = Inr (Some addr, ?q
       \<lparr>pl_heap := (pl_heap ?q)(addr \<mapsto> ?conn), pl_total := pl_total ?q + 1\<rparr>)"
    then have "c = Some addr" "p' = ?q\<lparr>pl_heap := (pl_heap ?q)(addr \<mapsto> ?conn), pl_total := pl_total ?q + 1\<rparr>"
      and "pool_inv ?q out"
      using assms(3) inv by auto
    moreover have "pl_conns ?q = []" by (simp add: purged_def)
    ultimately show ?thesis using \<open>addr \<notin> out\<close> by (auto simp: pool_inv_def)
  qed
qed

lemma ReleasePtr_inv:
  assumes "pool_inv p out" and "c \<in> out"
  obtains p' where "ReleasePtr now c p = Inr p'" and "pool_inv p' (out - {c})"
proof -
  obtain conn where conn: "pl_heap p c = Some conn" using assms by (auto simp: pool_inv_def)
  have c: "c \<notin> set (pl_conns p)" "finite out" using assms by (auto simp: pool_inv_def)
  then have card: "int (card (out - {c})) = int (card out) - 1"
    using card.remove [of out c] assms(2) by simp
  let ?conn = "conn\<lparr>hc_request := hc_request conn + 1\<rparr>"
  let ?p = "p\<lparr>pl_heap := (pl_heap p)(c \<mapsto> ?conn)\<rparr>"
  show ?thesis
  proof (cases "\<not> SocketStream_isConnected (hc_sock conn) \<or> now \<le> hc_createTime conn + ucast (pl_maxAliveTime p)
      \<or> ucast (pl_maxRequest p) \<le> hc_request conn + 1")
    case True
    then have "ReleasePtr now c p = Inr (?p\<lparr>pl_heap := (pl_heap ?p)(c := None), pl_total := pl_total p - 1\<rparr>)"
      using conn by (simp add: ReleasePtr_def Let_def)
    moreover have "pool_inv (?p\<lparr>pl_heap := (pl_heap ?p)(c := None), pl_total := pl_total p - 1\<rparr>) (out - {c})"
      using assms c card by (auto simp: pool_inv_def)
    ultimately show ?thesis by (rule that)
  next
    case False
    then have "ReleasePtr now c p = Inr (?p\<lparr>pl_conns := pl_conns p @ [c]\<rparr>)"
      using conn by (simp add: ReleasePtr_def Let_def)
    moreover have "pool_inv (?p\<lparr>pl_conns := pl_conns p @ [c]\<rparr>) (out - {c})"
      using assms c card conn False by (auto simp: pool_inv_def)
    ultimately show ?thesis by (rule that)
  qed
qed

lemma pool_reach_inv: "pool_reach env p out \<Longrightarrow> pool_inv p out"
proof (induction rule: pool_reach.induct)
  case (pool_new host vhost port max_size max_alive max_request)
  then show ?case by (simp add: pool_inv_def newPool_def)
next
  case (pool_get p out addr now c p')
  then show ?case using getConnection_inv by blast
next
  case (pool_use p out c conn s)
  then show ?case by (auto simp: pool_inv_def)
next
  case (pool_release p out c now p')
  then show ?case using ReleasePtr_inv [of p out c now] by (metis sum.inject(2))
qed



lemma pop_valid_append:
  "(\<And>c. c \<in> set pre \<Longrightarrow> \<exists>conn. h c = Some conn \<and> (\<not> SocketStream_isConnected (hc_sock conn) \<or> now < hc_createTime conn + alive)) \<Longrightarrow>
   pop_valid now alive h (pre @ cs) = bindR (pop_valid now alive h cs) (\<lambda>(bad, p, rest). Inr (pre @ bad, p, rest))"
proof (induction pre)
  case Nil
  then show ?case by (cases "pop_valid now alive h cs") auto
next
  case (Cons c pre)
  then have "pop_valid now alive h (pre @ cs) = bindR (pop_valid now alive h cs) (\<lambda>(bad, p, rest). Inr (pre @ bad, p, rest))"
    by (intro Cons.IH Cons.prems) simp
  moreover obtain conn where "h c = Some conn" "\<not> SocketStream_isConnected (hc_sock conn) \<or> now < hc_createTime conn + alive"
    using Cons.prems [of c] by auto
  ultimately show ?case by (cases "pop_valid now alive h cs") auto
qed

text \<open>The age of a connection plays no role, because the time of its creation is never set: once the clock has
  passed the maximal age, the first connected idle connection is handed out, however long it has been idle, and
  before that every idle connection is thrown away.\<close>

theorem pool_ignores_age:
  assumes "pool_reach env p out" and "pl_conns p = pre @ c # rest"
    and "\<forall>x \<in> set pre. \<not> SocketStream_isConnected (hc_sock (the (pl_heap p x)))"
    and "SocketStream_isConnected (hc_sock (the (pl_heap p c)))"
  shows "(ucast (pl_maxAliveTime p) \<le> now \<longrightarrow> getConnection env now addr p = Inr (Some c, purged p pre rest)) \<and>
         (now < ucast (pl_maxAliveTime p) \<longrightarrow> pop_valid now (ucast (pl_maxAliveTime p)) (pl_heap p) (pl_conns p) = Inr (pl_conns p, None, []))"
proof -
  let ?alive = "ucast (pl_maxAliveTime p) :: u64"
  have inv: "set (pl_conns p) \<subseteq> dom (pl_heap p)" "\<And>x conn. pl_heap p x = Some conn \<Longrightarrow> hc_createTime conn = 0"
    using pool_reach_inv [OF assms(1)] by (auto simp: pool_inv_def)
  have pre: "\<exists>conn. pl_heap p x = Some conn \<and> (\<not> SocketStream_isConnected (hc_sock conn) \<or> now < hc_createTime conn + ?alive)"
    if "x \<in> set pre" for x
    using that inv(1) assms(2,3) by (cases "pl_heap p x") auto
  obtain conn where conn: "pl_heap p c = Some conn" "hc_createTime conn = 0" "SocketStream_isConnected (hc_sock conn)"
    using inv assms(2,4) by (cases "pl_heap p c") auto
  have all: "\<exists>conn. pl_heap p x = Some conn \<and> (\<not> SocketStream_isConnected (hc_sock conn) \<or> now < hc_createTime conn + ?alive)"
    if "now < ?alive" "x \<in> set (pl_conns p)" for x
    using that inv by (cases "pl_heap p x") auto
  have "getConnection env now addr p = Inr (Some c, purged p pre rest)" if "?alive \<le> now"
  proof -
    have "pop_valid now ?alive (pl_heap p) (c # rest) = Inr ([], Some c, rest)" using conn leD [OF that] by simp
    then have "pop_valid now ?alive (pl_heap p) (pl_conns p) = Inr (pre, Some c, rest)"
      unfolding assms(2) by (subst pop_valid_append [OF pre]) simp_all
    then show ?thesis by (simp add: getConnection_def purged_def)
  qed
  moreover have "pop_valid now ?alive (pl_heap p) (pl_conns p) = Inr (pl_conns p, None, [])" if "now < ?alive"
    using pop_valid_append [of "pl_conns p" "pl_heap p" now ?alive "[]", OF all [OF that]] by simp
  ultimately show ?thesis by blast
qed

text \<open>A pool with one idle connection, on an environment where every host is found and every connection succeeds.\<close>

definition sample_env :: "(unit, unit) client_env" where
  "sample_env = \<lparr>ce_url = (\<lambda>_. None), ce_lookup = (\<lambda>_. Some ()), ce_set_port = (\<lambda>a _. a), ce_addr_string = (\<lambda>_. ''addr''),
     ce_socket = (\<lambda>_. Some dot_sock), ce_connect = (\<lambda>_ s. (True, s)), ce_errno = ''0'', ce_lib = dot_lib, ce_methods = [],
     ce_buff_size = 4, ce_junk = ''junk0''\<rparr>"

definition sample_pool :: pool where
  "sample_pool = (newPool ''h'' [] 80 10 1000 5)\<lparr>pl_conns := [1], pl_total := 1,
     pl_heap := [1 \<mapsto> \<lparr>hc_sock = dot_sock, hc_createTime = 0, hc_request = 1\<rparr>]\<rparr>"

lemma sample_pool_reach: "pool_reach sample_env sample_pool {}"
proof -
  let ?p = "newPool ''h'' [] 80 10 1000 5"
  let ?q = "?p\<lparr>pl_heap := [1 \<mapsto> \<lparr>hc_sock = dot_sock, hc_createTime = 0, hc_request = 0\<rparr>], pl_total := 1\<rparr>"
  have "getConnection sample_env 0 1 ?p = Inr (Some 1, ?q)" by (simp add: getConnection_def newPool_def sample_env_def)
  from pool_get [OF pool_new _ this] have "pool_reach sample_env ?q {1}" by (simp add: newPool_def)
  moreover have "ReleasePtr 2000 1 ?q = Inr sample_pool"
    by (simp add: ReleasePtr_def newPool_def sample_pool_def dot_sock_def SocketStream_isConnected_def Socket_isConnected_def
        word_le_nat_alt Let_def)
  ultimately show ?thesis using pool_release [of sample_env ?q "{1}" 1 2000 sample_pool] by simp
qed

theorem pool_ignores_age_witness:
  "getConnection sample_env 1000000 2 sample_pool = Inr (Some 1, purged sample_pool [] [])"
  using pool_ignores_age [OF sample_pool_reach, of "[]" 1 "[]" 1000000 2]
  by (simp add: sample_pool_def newPool_def dot_sock_def SocketStream_isConnected_def Socket_isConnected_def)

section \<open>The request built from the arguments\<close>

lemma known_keys:
  "lower_key ''connection'' = ''connection''" "lower_key ''host'' = ''host''" "lower_key ''keep-alive'' = ''keep-alive''"
  "lower_key ''Host'' = ''host''"
  by code_simp+

definition keeps_alive :: "(string \<times> string) list \<Rightarrow> bool" where
  "keeps_alive hs \<longleftrightarrow> (\<exists>(k, v) \<in> set hs. lower_key k = ''connection'' \<and> lower_key v = ''keep-alive'')"

definition names_host :: "(string \<times> string) list \<Rightarrow> bool" where
  "names_host hs \<longleftrightarrow> (\<exists>(k, v) \<in> set hs. lower_key k = ''host'' \<and> v \<noteq> [])"

abbreviation copied :: "(string \<times> string) list \<Rightarrow> (string \<times> string) list" where
  "copied \<equiv> filter (\<lambda>(k, v). lower_key k \<noteq> ''connection'')"

lemma add_headers_result:
  "add_headers hs (req, has) =
     (req\<lparr>rq_close := rq_close req \<and> \<not> keeps_alive hs, rq_headers := put_headers (copied hs) (rq_headers req)\<rparr>,
      has \<or> names_host (copied hs))"
proof (induction hs arbitrary: req has)
  case Nil
  then show ?case by (simp add: keeps_alive_def names_host_def)
next
  case (Cons e hs)
  then show ?case
    by (cases e) (auto simp: strcasecmp_eq known_keys keeps_alive_def names_host_def rq_setHeader_def)
qed

text \<open>The request of \<open>DoRequest\<close> and of the pool carries, under each name in any case, the last value the caller
  gave, except that \<open>Connection\<close> is not copied but decides whether the connection is kept alive, and that \<open>Host\<close>
  is the given default unless the caller named a non-empty one.\<close>

theorem build_request_headers:
  assumes "req = build_request methods verb path query fragment headers host body"
  shows "rq_getHeader req k d =
           (if lower_key k = ''host'' \<and> \<not> names_host (copied headers) then host
            else case map_of (rev (map (\<lambda>(k, v). (lower_key k, v)) (copied headers))) (lower_key k) of Some v \<Rightarrow> v | None \<Rightarrow> d) \<and>
         rq_close req = (\<not> keeps_alive headers) \<and>
         rq_method req = verb \<and> rq_path req = path \<and> rq_query req = query \<and> rq_fragment req = fragment \<and> rq_body req = body"
proof -
  let ?r0 = "(newHttpRequest methods 0x11 True)\<lparr>rq_path := path, rq_query := query, rq_fragment := fragment, rq_method := verb\<rparr>"
  let ?r1 = "?r0\<lparr>rq_close := \<not> keeps_alive headers, rq_headers := put_headers (copied headers) []\<rparr>"
  let ?r = "(if names_host (copied headers) then ?r1 else rq_setHeader ?r1 ''Host'' host)\<lparr>rq_body := body\<rparr>"
  have req: "req = ?r"
    by (simp add: assms build_request_def add_headers_result newHttpRequest_def Let_def)
  note inv = put_headers_inv [OF ci.map_inv_Nil, of "copied headers"]
  have "rq_getHeader ?r k d =
      (if lower_key k = ''host'' \<and> \<not> names_host (copied headers) then host
       else case map_of (rev (map (\<lambda>(k, v). (lower_key k, v)) (copied headers))) (lower_key k) of Some v \<Rightarrow> v | None \<Rightarrow> d)"
    using inv
    by (simp add: rq_getHeader_def rq_setHeader_def ci.find_abs ci.find_put put_headers_abs known_keys split: option.split)
  then show ?thesis unfolding req by (simp add: rq_setHeader_def newHttpRequest_def)
qed

theorem build_request_headers_witness:
  "rq_getHeader (build_request [] 1 ''/'' [] [] [(''Connection'', ''Keep-Alive''), (''X'', ''1'')] ''h'' []) ''HOST'' [] = ''h''"
proof -
  have "lower_key ''HOST'' = ''host''" "lower_key ''X'' = ''x''" "lower_key ''Connection'' = ''connection''" by code_simp+
  then show ?thesis
    using build_request_headers [OF refl, of "[]" 1 "''/''" "[]" "[]" "[(''Connection'', ''Keep-Alive''), (''X'', ''1'')]" "''h''" "[]" "''HOST''" "[]"]
    by (simp add: names_host_def)
qed

section \<open>Texts of URIs\<close>

text \<open>The text of a URI, with the port when it is given, and where its parts are in it.\<close>

definition opt_text :: "string \<Rightarrow> string \<Rightarrow> string" where
  "opt_text pre t = (if t = [] then [] else pre @ t)"

definition user_text :: "string \<Rightarrow> string" where
  "user_text ui = (if ui = [] then [] else ui @ ''@'')"

definition port_text :: "nat option \<Rightarrow> string" where
  "port_text port = (case port of None \<Rightarrow> [] | Some n \<Rightarrow> '':'' @ show_nat n)"

definition uri_text :: "string \<Rightarrow> string \<Rightarrow> string \<Rightarrow> nat option \<Rightarrow> string \<Rightarrow> string \<Rightarrow> string \<Rightarrow> string" where
  "uri_text scheme ui host port path query fragment =
     scheme @ ''://'' @ user_text ui @ host @ port_text port @ path @ opt_text ''?'' query @ opt_text ''#'' fragment"

definition uri_parts :: "string \<Rightarrow> string \<Rightarrow> string \<Rightarrow> nat option \<Rightarrow> string \<Rightarrow> string \<Rightarrow> string \<Rightarrow> url_parts" where
  "uri_parts scheme ui host port path query fragment f =
     (let h = length scheme + 3 + length (user_text ui); p = h + length host; q = p + length (port_text port);
          r = q + length path; t = r + length (opt_text ''?'' query) in
      case f of
        UF_SCHEMA \<Rightarrow> Some (0, length scheme)
      | UF_USERINFO \<Rightarrow> if ui = [] then None else Some (length scheme + 3, length ui)
      | UF_HOST \<Rightarrow> Some (h, length host)
      | UF_PORT \<Rightarrow> map_option (\<lambda>n. (Suc p, length (show_nat n))) port
      | UF_PATH \<Rightarrow> if path = [] then None else Some (q, length path)
      | UF_QUERY \<Rightarrow> if query = [] then None else Some (Suc r, length query)
      | UF_FRAGMENT \<Rightarrow> if fragment = [] then None else Some (Suc t, length fragment))"

definition default_port :: "string \<Rightarrow> nat" where
  "default_port scheme = (if scheme = ''http'' \<or> scheme = ''ws'' then 80 else if scheme = ''https'' then 443 else 0)"

lemma url_part_at: "length a = n \<Longrightarrow> url_part (a @ b @ c) (n, length b) = b"
  by (auto simp: url_part_def)

lemma digits_only: "list_all is_digit (show_nat n)"
  using show_nat_digits [of n] by (auto simp: list_all_iff is_digit_def)

lemma show_nat_nonempty [simp]: "show_nat n \<noteq> []"
  by (subst show_nat.simps) simp

lemma stoi_show_nat: "n < 2 ^ 31 \<Longrightarrow> stoi (show_nat n) = Inr (int n)"
proof -
  assume n: "n < 2 ^ 31"
  obtain c cs where c: "show_nat n = c # cs" by (cases "show_nat n") auto
  then have d: "is_digit c" "list_all is_digit cs" using digits_only [of n] by simp_all
  then have "CHR 0x00 \<notin> set (show_nat n)" using digits_only [of n] by (auto simp: list_all_iff is_digit_def)
  then have "c_str (show_nat n) = show_nat n" by (auto simp: c_str_def takeWhile_eq_all_conv)
  moreover have "dropWhile is_space (show_nat n) = show_nat n" "c \<noteq> CHR ''-''" "c \<noteq> CHR ''+''"
    using d c by (auto simp: is_digit_def is_space_def)
  moreover have "takeWhile is_digit (show_nat n) = show_nat n"
    using digits_only [of n] by (simp add: takeWhile_eq_all_conv list_all_iff)
  ultimately show ?thesis using n c digits_show_nat [of n] by (simp add: stoi_def Let_def)
qed

lemma part_values:
  assumes "txt = uri_text scheme ui host port path query fragment" and "u = uri_parts scheme ui host port path query fragment"
  shows "u UF_SCHEMA = Some p \<Longrightarrow> url_part txt p = scheme" and "u UF_USERINFO = Some p \<Longrightarrow> url_part txt p = ui"
    and "u UF_HOST = Some p \<Longrightarrow> url_part txt p = host" and "u UF_PORT = Some p \<Longrightarrow> port = Some n \<Longrightarrow> url_part txt p = show_nat n"
    and "u UF_PATH = Some p \<Longrightarrow> url_part txt p = path" and "u UF_QUERY = Some p \<Longrightarrow> url_part txt p = query"
    and "u UF_FRAGMENT = Some p \<Longrightarrow> url_part txt p = fragment"
proof -
  note defs = assms uri_text_def uri_parts_def user_text_def port_text_def opt_text_def
  show "u UF_SCHEMA = Some p \<Longrightarrow> url_part txt p = scheme"
    using url_part_at [of "[]" 0 scheme] by (auto simp: defs Let_def)
  show "u UF_USERINFO = Some p \<Longrightarrow> url_part txt p = ui"
    using url_part_at [of "scheme @ ''://''" _ ui] by (auto simp: defs Let_def split: if_splits)
  show "u UF_HOST = Some p \<Longrightarrow> url_part txt p = host"
    using url_part_at [of "scheme @ ''://'' @ user_text ui" _ host] by (auto simp: assms uri_text_def uri_parts_def Let_def)
  show "u UF_PORT = Some p \<Longrightarrow> port = Some n \<Longrightarrow> url_part txt p = show_nat n"
    using url_part_at [of "scheme @ ''://'' @ user_text ui @ host @ '':''" _ "show_nat n"]
    by (auto simp: assms uri_text_def uri_parts_def port_text_def Let_def)
  show "u UF_PATH = Some p \<Longrightarrow> url_part txt p = path"
    using url_part_at [of "scheme @ ''://'' @ user_text ui @ host @ port_text port" _ path]
    by (auto simp: assms uri_text_def uri_parts_def Let_def split: if_splits)
  show "u UF_QUERY = Some p \<Longrightarrow> url_part txt p = query"
    using url_part_at [of "scheme @ ''://'' @ user_text ui @ host @ port_text port @ path @ ''?''" _ query "opt_text ''#'' fragment"]
    by (auto simp: assms uri_text_def uri_parts_def opt_text_def [of _ query] Let_def eval_nat_numeral add.assoc split: if_splits)
  show "u UF_FRAGMENT = Some p \<Longrightarrow> url_part txt p = fragment"
    using url_part_at [of "scheme @ ''://'' @ user_text ui @ host @ port_text port @ path @ opt_text ''?'' query @ ''#''" _ fragment "[]"]
    by (auto simp: assms uri_text_def uri_parts_def opt_text_def Let_def eval_nat_numeral add.assoc split: if_splits)
qed

text \<open>For a parser of URLs that reports where the parts are, a URI created from a text has the parts of the text, with
  the usual port where none is given, and its text is the original one when that has a path and leaves out the port
  exactly when it is the default of its scheme. For schemes other than \<open>http\<close>, \<open>ws\<close> and \<open>https\<close> no port is known: the
  text of a URI without one has port 0.\<close>

theorem uri_roundtrip:
  assumes "txt = uri_text scheme ui host port path query fragment"
    and "parse_url txt = Some (uri_parts scheme ui host port path query fragment)"
    and "\<forall>n. port = Some n \<longrightarrow> n < 2 ^ 31"
  shows "\<exists>u. Uri_Create parse_url txt = Inr (Some u) \<and> u_scheme u = scheme \<and> u_userinfo u = ui \<and> u_host u = host \<and>
           u_port u = int (case port of Some n \<Rightarrow> n | None \<Rightarrow> default_port scheme) \<and>
           u_path u = path \<and> u_query u = query \<and> u_fragment u = fragment \<and>
           (path \<noteq> [] \<and> (if default_port scheme = 0 then port \<noteq> None else port \<noteq> Some (default_port scheme)) \<longrightarrow> Uri_toString u = txt) \<and>
           (path \<noteq> [] \<and> default_port scheme = 0 \<and> port = None \<longrightarrow>
              Uri_getPort u = 0 \<and> Uri_toString u = uri_text scheme ui host (Some 0) path query fragment)"
proof -
  define n where "n = (case port of Some n \<Rightarrow> n | None \<Rightarrow> default_port scheme)"
  define u where "u = \<lparr>u_scheme = scheme, u_userinfo = ui, u_host = host, u_path = path, u_query = query, u_fragment = fragment, u_port = int n\<rparr>"
  define parts where "parts = uri_parts scheme ui host port path query fragment"
  note part = part_values [OF assms(1) parts_def]
  have empty: "parts UF_USERINFO = None \<Longrightarrow> ui = []" "parts UF_PATH = None \<Longrightarrow> path = []"
    "parts UF_QUERY = None \<Longrightarrow> query = []" "parts UF_FRAGMENT = None \<Longrightarrow> fragment = []"
    "parts UF_SCHEMA \<noteq> None" "parts UF_HOST \<noteq> None" "parts UF_PORT = None \<longleftrightarrow> port = None"
    by (auto simp: parts_def uri_parts_def Let_def split: if_splits)
  have sets: "set_part txt parts UF_SCHEMA (\<lambda>v. u_scheme_update (\<lambda>_. v)) x = x\<lparr>u_scheme := scheme\<rparr>"
    "set_part txt parts UF_HOST (\<lambda>v. u_host_update (\<lambda>_. v)) x = x\<lparr>u_host := host\<rparr>"
    "u_userinfo x = [] \<Longrightarrow> set_part txt parts UF_USERINFO (\<lambda>v. u_userinfo_update (\<lambda>_. v)) x = x\<lparr>u_userinfo := ui\<rparr>"
    "u_path x = [] \<Longrightarrow> set_part txt parts UF_PATH (\<lambda>v. u_path_update (\<lambda>_. v)) x = x\<lparr>u_path := path\<rparr>"
    "u_query x = [] \<Longrightarrow> set_part txt parts UF_QUERY (\<lambda>v. u_query_update (\<lambda>_. v)) x = x\<lparr>u_query := query\<rparr>"
    "u_fragment x = [] \<Longrightarrow> set_part txt parts UF_FRAGMENT (\<lambda>v. u_fragment_update (\<lambda>_. v)) x = x\<lparr>u_fragment := fragment\<rparr>"
    for x using empty part by (auto simp: set_part_def split: option.split)
  have "stoi (url_part txt p) = Inr (int n)" if "parts UF_PORT = Some p" for p
  proof -
    have "port \<noteq> None" using that empty(7) by (metis option.distinct(1))
    then obtain k where "port = Some k" by blast
    then show ?thesis using part(4) [OF that] assms(3) by (simp add: stoi_show_nat n_def)
  qed
  note port = this and parse = assms(2) [folded parts_def]
  have "Uri_Create parse_url txt = Inr (Some u)"
  proof (cases "parts UF_PORT")
    case None
    then have "n = default_port scheme" using empty(7) by (simp add: n_def)
    with None show ?thesis by (simp add: Uri_Create_def parse sets newUri_def u_def default_port_def)
  next
    case (Some p)
    with port [OF this] show ?thesis by (simp add: Uri_Create_def parse sets newUri_def u_def)
  qed
  moreover have "Uri_toString u = txt"
    if "path \<noteq> []" "if default_port scheme = 0 then port \<noteq> None else port \<noteq> Some (default_port scheme)"
    using that by (auto simp: u_def n_def Uri_toString_def Uri_getPath_def isDefaultPort_def default_port_def show_int_def assms(1)
        uri_text_def user_text_def port_text_def opt_text_def split: option.splits if_splits)
  moreover have "Uri_getPort u = 0 \<and> Uri_toString u = uri_text scheme ui host (Some 0) path query fragment"
    if "path \<noteq> []" "default_port scheme = 0" "port = None"
    using that by (auto simp: u_def n_def Uri_toString_def Uri_getPath_def Uri_getPort_def isDefaultPort_def default_port_def show_int_def
        uri_text_def user_text_def port_text_def opt_text_def split: if_splits)
  ultimately show ?thesis by (intro exI [of _ u]) (simp add: u_def n_def)
qed

theorem uri_roundtrip_witness:
  "\<exists>u. Uri_Create (\<lambda>_. Some (uri_parts ''wss'' [] ''h'' None ''/x'' [] [])) ''wss://h/x'' = Inr (Some u) \<and>
     Uri_toString u = ''wss://h:0/x''"
proof -
  have t: "uri_text ''wss'' [] ''h'' None ''/x'' [] [] = ''wss://h/x''"
    "uri_text ''wss'' [] ''h'' (Some 0) ''/x'' [] [] = ''wss://h:0/x''" by code_simp+
  show ?thesis
    using uri_roundtrip [OF refl, of "\<lambda>_. Some (uri_parts ''wss'' [] ''h'' None ''/x'' [] [])" "''wss''" "[]" "''h''" None "''/x''" "[]" "[]"]
    by (auto simp: t default_port_def)
qed

section \<open>The outcome of a request\<close>

lemma exchange_ok:
  assumes "lib_bounded (ce_lib env)" and "length (ce_junk env) = Suc (ce_buff_size env)" and "ce_buff_size env < 2 ^ 31"
  obtains r s' where "exchange env peer t req s = Inr (r, s')" and "res_result r = OK \<longleftrightarrow> res_response r \<noteq> None"
    and "res_result r \<in> {OK, SEND_CLOSE_BY_PEER, SEND_SOCKET_ERROR, TIMEOUT}"
    and "res_result r = TIMEOUT \<Longrightarrow> \<not> m_isConnected s'"
proof -
  obtain rt s1 where w: "HttpConnection_sendRequest (ce_methods env) req s = (rt, s1)"
    by (cases "HttpConnection_sendRequest (ce_methods env) req s") auto
  have "received s1 (HttpConnection_recvResponse (ce_lib env) (ce_buff_size env) (ce_junk env) s1)"
    unfolding HttpConnection_recvResponse_def using assms by (intro recvResponse_loop_safe) simp_all
  then obtain v s2 where r: "HttpConnection_recvResponse (ce_lib env) (ce_buff_size env) (ce_junk env) s1 = Inr (v, s2)"
    "m_isConnected s2 = (v \<noteq> None)" by (auto simp: received_def)
  consider "rt = 0" | "rt < 0" | "0 < rt" by linarith
  then show ?thesis
  proof cases
    case 1
    then show ?thesis by (intro that) (use w in \<open>auto simp: exchange_def mk_result_def\<close>)
  next
    case 2
    then show ?thesis by (intro that) (use w in \<open>auto simp: exchange_def mk_result_def\<close>)
  next
    case 3
    then show ?thesis using w r
      by (intro that [of "case v of None \<Rightarrow> mk_result TIMEOUT None
            (''recv response timeout: '' @ peer @ '' timeout_ms:'' @ show_nat (unat t)) | Some r \<Rightarrow> mk_result OK (Some r) ''ok''" s2])
         (auto simp: exchange_def mk_result_def split: option.splits)
  qed
qed

text \<open>A request on a URI always ends with a result, which has a response exactly if it says so, and otherwise names the
  step that failed: the host, the socket, the connection, or the exchange; a response that does not come
  leaves the connection closed.\<close>

theorem request_outcome:
  assumes "lib_bounded (ce_lib env)" and "length (ce_junk env) = Suc (ce_buff_size env)" and "ce_buff_size env < 2 ^ 31"
  shows "\<exists>r s. DoRequest_uri env verb uri t headers body = Inr (r, s) \<and> (res_result r = OK \<longleftrightarrow> res_response r \<noteq> None) \<and>
           (case createAddress env uri of
              None \<Rightarrow> res_result r = INVALID_HOST
            | Some a \<Rightarrow> case ce_socket env a of
                None \<Rightarrow> res_result r = CREATE_SOCKET_ERROR
              | Some s0 \<Rightarrow> if \<not> fst (ce_connect env a s0) then res_result r = CONNECT_FAIL
                  else res_result r \<in> {OK, SEND_CLOSE_BY_PEER, SEND_SOCKET_ERROR, TIMEOUT} \<and>
                    (res_result r = TIMEOUT \<longrightarrow> (\<exists>s'. s = Some s' \<and> \<not> m_isConnected s')))"
proof -
  let ?req = "build_request (ce_methods env) verb (Uri_getPath uri) (u_query uri) (u_fragment uri) headers (u_host uri) body"
  have ex: "\<exists>r s'. exchange env peer t ?req s = Inr (r, s') \<and> (res_result r = OK \<longleftrightarrow> res_response r \<noteq> None) \<and>
      res_result r \<in> {OK, SEND_CLOSE_BY_PEER, SEND_SOCKET_ERROR, TIMEOUT} \<and> (res_result r = TIMEOUT \<longrightarrow> \<not> m_isConnected s')"
    for peer s using exchange_ok [OF assms] by metis
  show ?thesis
  proof (cases "createAddress env uri")
    case None
    then show ?thesis by (simp add: DoRequest_uri_def DoRequest_req_def mk_result_def)
  next
    case (Some a)
    show ?thesis
    proof (cases "ce_socket env a")
      case None
      with Some show ?thesis by (simp add: DoRequest_uri_def DoRequest_req_def mk_result_def)
    next
      case (Some s0)
      note a = \<open>createAddress env uri = Some a\<close> Some
      obtain ok s1 where c: "ce_connect env a s0 = (ok, s1)" by (cases "ce_connect env a s0") auto
      obtain r s' where r: "exchange env (ce_addr_string env a) t ?req s1 = Inr (r, s')"
        "res_result r = OK \<longleftrightarrow> res_response r \<noteq> None"
        "res_result r \<in> {OK, SEND_CLOSE_BY_PEER, SEND_SOCKET_ERROR, TIMEOUT}" "res_result r = TIMEOUT \<longrightarrow> \<not> m_isConnected s'"
        using ex by blast
      show ?thesis
      proof (cases ok)
        case True
        then have "DoRequest_uri env verb uri t headers body = Inr (r, Some s')"
          using a c r(1) by (simp add: DoRequest_uri_def DoRequest_req_def)
        then show ?thesis using a c r(2-4) True by simp
      next
        case False
        then show ?thesis using a c by (simp add: DoRequest_uri_def DoRequest_req_def mk_result_def)
      qed
    qed
  qed
qed

theorem request_outcome_witness:
  "\<exists>r s. DoRequest_uri sample_env 1 newUri 100 [] [] = Inr (r, s) \<and> (res_result r = OK \<longleftrightarrow> res_response r \<noteq> None)"
  using request_outcome [of sample_env 1 newUri 100 "[]" "[]"]
  by (fastforce simp: sample_env_def lib_bounded_def dot_lib_def Let_def)

end
