(* ===== verification/Lamb_Hash.thy ===== *)
theory Lamb_Hash
  imports Lamb_HttpParser
begin

unbundle bit_operations_syntax

text \<open>
  \<open>lamb/util/hash_util.cc\<close>: base 64 in both directions, SHA-1 and random strings. The functions \<open>SHA1_Init\<close>,
  \<open>SHA1_Update\<close> and \<open>SHA1_Final\<close> of OpenSSL together are the argument \<open>sha1\<close>, the results of \<open>rand ()\<close> the argument
  \<open>rands\<close>. The buffer that \<open>base64decode\<close> writes to has \<open>sizeof (src) * 3 / 4\<close> characters, where \<open>sizeof (src)\<close> is the
  size of the string object, not of its text; it is the argument \<open>sizeof_string\<close> (32 with libstdc++ on 64 bits).
\<close>

section \<open>Base 64\<close>

definition base64_table :: string where
  "base64_table = ''ABCDEFGHIJKLMNOPQRSTUVWXYZabcdefghijklmnopqrstuvwxyz0123456789+/''"

text \<open>The loop that packs up to three bytes; \<open>i\<close> counts them.\<close>

fun pack_bytes :: "nat \<Rightarrow> u32 \<Rightarrow> u8 list \<Rightarrow> nat \<times> u32 \<times> u8 list" where
  "pack_bytes i packed [] = (i, packed, [])"
| "pack_bytes i packed (b # bs) =
     (if i < 3 then pack_bytes (Suc i) (push_bit 8 packed OR ucast b) bs else (i, packed, b # bs))"

lemma pack_bytes_rest: "pack_bytes i packed bs = (j, p, rest) \<Longrightarrow> length rest \<le> length bs"
  by (induction i packed bs rule: pack_bytes.induct) (auto split: if_splits)

lemma pack_bytes_decreases: "data \<noteq> [] \<Longrightarrow> pack_bytes 0 packed data = (j, p, rest) \<Longrightarrow> length rest < length data"
  by (cases data) (auto dest!: pack_bytes_rest)

definition encode_group :: "nat \<Rightarrow> u32 \<Rightarrow> string" where
  "encode_group i packed =
     (let padding = (if i = 2 then 1 else if i = 1 then 2 else 0 :: nat);
          packed = (push_bit 8 ^^ (3 - i)) packed in
      [base64_table ! unat (drop_bit 18 packed), base64_table ! unat (drop_bit 12 packed AND 0x3f)]
      @ (if padding \<noteq> 2 then [base64_table ! unat (drop_bit 6 packed AND 0x3f)] else [])
      @ (if padding = 0 then [base64_table ! unat (packed AND 0x3f)] else [])
      @ replicate padding (CHR ''=''))"

function base64encode_bytes :: "u8 list \<Rightarrow> string" where
  "base64encode_bytes data =
     (if data = [] then []
      else let (i, packed, rest) = pack_bytes 0 0 data in encode_group i packed @ base64encode_bytes rest)"
  by pat_completeness auto
termination
proof (relation "measure length")
  fix data :: "u8 list" and x i y packed rest
  assume "data \<noteq> []" "x = pack_bytes 0 0 data" "(i, y) = x" "(packed, rest) = y"
  then show "(rest, data) \<in> measure length"
    using pack_bytes_decreases [of data 0 i packed rest] by simp
qed simp

declare base64encode_bytes.simps [simp del]

definition base64encode :: "string \<Rightarrow> string" where
  "base64encode data = base64encode_bytes (chars_bytes data)"

definition base64_val :: "char \<Rightarrow> u32 option" where
  "base64_val c =
     (let n = of_char c :: nat in
      if 65 \<le> n \<and> n \<le> 90 then Some (word_of_nat (n - 65))
      else if 97 \<le> n \<and> n \<le> 122 then Some (word_of_nat (n - 97 + 26))
      else if 48 \<le> n \<and> n \<le> 57 then Some (word_of_nat (n - 48 + 52))
      else if c = CHR ''+'' then Some 62
      else if c = CHR ''/'' then Some 63
      else None)"

text \<open>The loop over the characters of a group; \<open>None\<close> is the return of the empty string.\<close>

fun decode_group :: "nat \<Rightarrow> nat \<Rightarrow> u32 \<Rightarrow> string \<Rightarrow> (nat \<times> nat \<times> u32 \<times> string) option" where
  "decode_group i padding packed [] = Some (i, padding, packed, [])"
| "decode_group i padding packed (c # cs) =
     (if \<not> i < 4 then Some (i, padding, packed, c # cs)
      else if c = CHR ''='' then decode_group (Suc i) (Suc padding) (push_bit 6 packed) cs
      else if padding > 0 then None
      else case base64_val c of
        None \<Rightarrow> None
      | Some v \<Rightarrow> decode_group (Suc i) padding (push_bit 6 packed OR v) cs)"

lemma decode_group_rest: "decode_group i pd packed cs = Some (j, pd', p, rest) \<Longrightarrow> length rest \<le> length cs"
  by (induction i pd packed cs rule: decode_group.induct) (auto split: if_splits option.splits)

lemma decode_group_decreases:
  "src \<noteq> [] \<Longrightarrow> decode_group 0 pd packed src = Some (j, pd', p, rest) \<Longrightarrow> length rest < length src"
  by (cases src) (auto split: if_splits option.splits dest!: decode_group_rest)

definition decoded_bytes :: "nat \<Rightarrow> u32 \<Rightarrow> u8 list" where
  "decoded_bytes padding packed =
     [ucast (drop_bit 16 packed AND 0xff)]
     @ (if padding \<noteq> 2 then [ucast (drop_bit 8 packed AND 0xff)] else [])
     @ (if padding = 0 then [ucast (packed AND 0xff)] else [])"

text \<open>\<open>out\<close> is what has been written to the buffer, of \<open>buf\<close> characters.\<close>

function decode_loop :: "nat \<Rightarrow> u8 list \<Rightarrow> string \<Rightarrow> u8 list res" where
  "decode_loop buf out src =
     (if src = [] then Inr out
      else case decode_group 0 0 0 src of
        None \<Rightarrow> Inr []
      | Some (i, padding, packed, rest) \<Rightarrow>
          if i \<noteq> 4 then Inr []
          else if padding > 0 \<and> rest \<noteq> [] then Inr []
          else if padding > 2 then Inr []
          else if buf < length (out @ decoded_bytes padding packed) then Inl (Bad_access ''writeBuf'')
          else decode_loop buf (out @ decoded_bytes padding packed) rest)"
  by pat_completeness auto
termination
  by (relation "measure (\<lambda>(buf, out, src). length src)") (auto dest!: decode_group_decreases)

declare decode_loop.simps [simp del]

definition base64decode :: "nat \<Rightarrow> string \<Rightarrow> string res" where
  "base64decode sizeof_string src =
     bindR (decode_loop (sizeof_string * 3 div 4) [] src) (\<lambda>out. Inr (bytes_chars out))"

section \<open>Digests and random strings\<close>

definition sha1sum :: "(u8 list \<Rightarrow> u8 list) \<Rightarrow> string \<Rightarrow> string" where
  "sha1sum sha1 data = bytes_chars (sha1 (chars_bytes data))"

text \<open>\<open>count\<close> is an \<open>int\<close>; the remainder by a negative one is that by its absolute value, as \<open>rand ()\<close> is not negative.\<close>

definition random_string :: "(nat \<Rightarrow> nat) \<Rightarrow> nat \<Rightarrow> string \<Rightarrow> string res" where
  "random_string rands len chars =
     (if len = 0 \<or> chars = [] then Inr []
      else let count = sint (word_of_nat (length chars) :: 32 word) in
        if count = 0 then Inl (Undefined ''division by zero'')
        else Inr (map (\<lambda>i. chars ! nat (int (rands i) mod \<bar>count\<bar>)) [0..<len]))"

section \<open>Sextets and bytes\<close>

lemma table_vals: "map base64_val base64_table = map (\<lambda>k. Some (word_of_nat k)) [0..<64]"
  by (simp add: base64_table_def base64_val_def upt_rec)

lemma table_no_padding: "CHR ''='' \<notin> set base64_table" and length_table: "length base64_table = 64"
  by (simp_all add: base64_table_def)

lemma base64_val_table:
  assumes "w < 64"
  shows "base64_val (base64_table ! unat w) = Some w" and "base64_table ! unat w \<noteq> CHR ''=''"
proof -
  have w: "unat w < 64" using assms by (simp add: word_less_nat_alt)
  then show "base64_val (base64_table ! unat w) = Some w"
    using arg_cong [OF table_vals, of "\<lambda>xs. xs ! unat w"] by (simp add: length_table)
  show "base64_table ! unat w \<noteq> CHR ''=''" using table_no_padding w nth_mem [of "unat w" base64_table] length_table by metis
qed

definition packed3 :: "u8 \<Rightarrow> u8 \<Rightarrow> u8 \<Rightarrow> u32" where
  "packed3 a b c = push_bit 8 (push_bit 8 (ucast a) OR ucast b) OR ucast c"

lemma and_3f: "w AND 0x3f = take_bit 6 w" and and_ff: "w AND 0xff = take_bit 8 w" for w :: u32
  by (simp_all add: take_bit_eq_mask mask_eq_exp_minus_1)

lemma bit_packed3:
  "bit (packed3 a b c) n \<longleftrightarrow> (if n < 8 then bit c n else if n < 16 then bit b (n - 8) else n < 24 \<and> bit a (n - 16))"
  by (auto simp: packed3_def bit_simps dest: bit_imp_le_length)

lemma take_bit_6_less: "take_bit 6 w < 64" for w :: u32
  using take_bit_nat_less_exp [of 6 "unat w"] by (simp add: word_less_nat_alt unsigned_take_bit_eq)

lemma sextets_less: "drop_bit 18 (packed3 a b c) < 64" "w AND 0x3f < 64" for w :: u32
proof -
  have "take_bit 6 (drop_bit 18 (packed3 a b c)) = drop_bit 18 (packed3 a b c)"
    by (rule bit_word_eqI) (auto simp: bit_simps bit_packed3)
  then show "drop_bit 18 (packed3 a b c) < 64" using take_bit_6_less by metis
  show "w AND 0x3f < 64" unfolding and_3f by (rule take_bit_6_less)
qed

lemma sextets_join:
  assumes "p = packed3 a b c"
  shows "push_bit 6 (push_bit 6 (push_bit 6 (drop_bit 18 p) OR (drop_bit 12 p AND 0x3f)) OR (drop_bit 6 p AND 0x3f)) OR (p AND 0x3f) = p"
    (is "?q = p")
proof (rule bit_word_eqI)
  fix n
  assume "n < LENGTH(32)"
  have high: "\<not> bit p m" if "24 \<le> m" for m using that by (simp add: assms bit_packed3)
  consider "n < 6" | "6 \<le> n" "n < 12" | "12 \<le> n" "n < 18" | "18 \<le> n" by linarith
  then show "bit ?q n = bit p n"
    unfolding and_3f using high by cases (auto simp: bit_simps \<open>n < LENGTH(32)\<close>)
qed

lemma packed3_bytes:
  "ucast (drop_bit 16 (packed3 a b c) AND 0xff) = a" "ucast (drop_bit 8 (packed3 a b c) AND 0xff) = b"
  "ucast (packed3 a b c AND 0xff) = c"
  unfolding and_ff by (rule bit_word_eqI; auto simp: bit_simps bit_packed3)+

section \<open>Encoding and decoding a group\<close>

lemma pack_bytes_full: "pack_bytes (Suc (Suc (Suc 0))) p rest = (3, p, rest)"
  by (cases rest) (simp_all add: numeral_3_eq_3)

lemma encode_one: "base64encode_bytes [a] = encode_group 1 (ucast a)"
  and encode_two: "base64encode_bytes [a, b] = encode_group 2 (push_bit 8 (ucast a) OR ucast b)"
  and encode_three: "base64encode_bytes (a # b # c # rest) = encode_group 3 (packed3 a b c) @ base64encode_bytes rest"
  by (simp_all add: base64encode_bytes.simps [of "_ # _"] base64encode_bytes.simps [of "[]"] packed3_def pack_bytes_full
      numeral_2_eq_2)

lemma packed_short:
  "(push_bit 8 ^^ 2) (ucast a :: u32) = packed3 a 0 0" "push_bit 8 (push_bit 8 (ucast a) OR ucast b :: u32) = packed3 a b 0"
  by (simp_all add: packed3_def numeral_2_eq_2 push_bit_or)

text \<open>The four characters of a group, the last \<open>pd\<close> of them padding.\<close>

definition group_chars :: "nat \<Rightarrow> u32 \<Rightarrow> string" where
  "group_chars pd p =
     map ((!) base64_table) (take (4 - pd) [unat (drop_bit 18 p), unat (drop_bit 12 p AND 0x3f), unat (drop_bit 6 p AND 0x3f), unat (p AND 0x3f)])
     @ replicate pd (CHR ''='')"

lemma encode_group_chars:
  "encode_group 1 (ucast a) = group_chars 2 (packed3 a 0 0)"
  "encode_group 2 (push_bit 8 (ucast a) OR ucast b) = group_chars 1 (packed3 a b 0)"
  "encode_group 3 p = group_chars 0 p"
  by (simp_all add: encode_group_def group_chars_def Let_def packed_short [symmetric] numeral_2_eq_2)

lemma decode_group_full: "decode_group (Suc (Suc (Suc (Suc 0)))) pd p cs = Some (4, pd, p, cs)"
  by (cases cs) (simp_all add: eval_nat_numeral)

lemma decode_group_chars:
  assumes "p = packed3 a b c" and "pd \<le> 2" and "1 \<le> pd \<Longrightarrow> c = 0" and "2 \<le> pd \<Longrightarrow> b = 0"
  shows "decode_group 0 0 0 (group_chars pd p @ rest) = Some (4, pd, p, rest)"
proof -
  define w where "w = (drop_bit 18 p, drop_bit 12 p AND 0x3f, drop_bit 6 p AND 0x3f, p AND 0x3f)"
  obtain w1 w2 w3 w4 where w: "w = (w1, w2, w3, w4)" by (cases w)
  have less: "w1 < 64" "w2 < 64" "w3 < 64" "w4 < 64" using w assms(1) sextets_less by (auto simp: w_def)
  have ws: "w1 = drop_bit 18 p" "w2 = drop_bit 12 p AND 0x3f" "w3 = drop_bit 6 p AND 0x3f" "w4 = p AND 0x3f"
    using w by (simp_all add: w_def)
  have join: "push_bit 6 (push_bit 6 (push_bit 6 w1 OR w2) OR w3) OR w4 = p"
    unfolding ws by (rule sextets_join [OF assms(1)])
  have "p AND 0x3f = 0" if "c = 0"
    unfolding and_3f by (rule bit_word_eqI) (simp add: bit_simps assms(1) bit_packed3 that)
  then have w4: "w4 = 0" if "c = 0" using that by (simp add: ws)
  have "drop_bit 6 p AND 0x3f = 0" if "c = 0" "b = 0"
    unfolding and_3f by (rule bit_word_eqI) (simp add: bit_simps assms(1) bit_packed3 that)
  then have w3: "w3 = 0" if "c = 0" "b = 0" using that by (simp add: ws)
  have chars: "group_chars pd p = map ((!) base64_table) (take (4 - pd) [unat w1, unat w2, unat w3, unat w4]) @ replicate pd (CHR ''='')"
    using w by (simp add: group_chars_def w_def)
  note steps = less [THEN base64_val_table(1)] less [THEN base64_val_table(2)] decode_group_full numeral_2_eq_2
  consider "pd = 0" | "pd = 1" | "pd = 2" using assms(2) by linarith
  then show ?thesis
  proof cases
    case 1
    then show ?thesis unfolding chars using join by (simp add: steps)
  next
    case 2
    then show ?thesis unfolding chars using join w4 assms(3) by (simp add: steps)
  next
    case 3
    then show ?thesis unfolding chars using join w3 w4 assms(3,4) by (simp add: steps)
  qed
qed

lemma encode_induct [case_names Nil One Two Three]:
  assumes "P []" "\<And>a. P [a]" "\<And>a b. P [a, b]" "\<And>a b c ds. P ds \<Longrightarrow> P (a # b # c # ds)"
  shows "P ds"
  using assms by induction_schema (pat_completeness, lexicographic_order)

lemma decoded_bytes_packed:
  "decoded_bytes 0 (packed3 a b c) = [a, b, c]" "decoded_bytes (Suc 0) (packed3 a b c) = [a, b]" "decoded_bytes 2 (packed3 a b c) = [a]"
  by (simp_all add: decoded_bytes_def packed3_bytes)

lemma group_chars_not_Nil: "pd \<le> 2 \<Longrightarrow> group_chars pd p \<noteq> []"
  by (simp add: group_chars_def)

lemma decode_loop_group:
  assumes "p = packed3 a b c" and "pd \<le> 2" and "1 \<le> pd \<Longrightarrow> c = 0" and "2 \<le> pd \<Longrightarrow> b = 0" and "pd = 0 \<or> rest = []"
  shows "decode_loop buf out (group_chars pd p @ rest) =
           (if buf < length out + length (decoded_bytes pd p) then Inl (Bad_access ''writeBuf'')
            else decode_loop buf (out @ decoded_bytes pd p) rest)"
  using decode_group_chars [OF assms(1-4), of rest] assms(2,5) group_chars_not_Nil [of pd p]
  by (auto simp: decode_loop.simps [of buf out "group_chars pd p @ rest"])

lemma encode_eqs:
  "base64encode_bytes [] = []" "base64encode_bytes [a] = group_chars 2 (packed3 a 0 0)"
  "base64encode_bytes [a, b] = group_chars 1 (packed3 a b 0)"
  "base64encode_bytes (a # b # c # ds) = group_chars 0 (packed3 a b c) @ base64encode_bytes ds"
  unfolding encode_one encode_two encode_three encode_group_chars by (simp_all add: base64encode_bytes.simps)

lemma decode_loop_encode:
  "length out \<le> buf \<Longrightarrow> decode_loop buf out (base64encode_bytes ds) =
     (if length out + length ds \<le> buf then Inr (out @ ds) else Inl (Bad_access ''writeBuf''))"
proof (induction ds arbitrary: out rule: encode_induct)
  case Nil
  then show ?case by (simp add: encode_eqs decode_loop.simps)
next
  case (One a)
  then show ?case
    using decode_loop_group [OF refl, of 2 0 0 "[]" buf out a]
    by (auto simp: encode_eqs decoded_bytes_packed decode_loop.simps [of _ _ "[]"])
next
  case (Two a b)
  then show ?case
    using decode_loop_group [OF refl, of 1 0 b "[]" buf out a]
    by (auto simp: encode_eqs decoded_bytes_packed decode_loop.simps [of _ _ "[]"])
next
  case (Three a b c ds)
  then show ?case
    using decode_loop_group [OF refl, of 0 c b "base64encode_bytes ds" buf out a]
    by (auto simp: encode_eqs decoded_bytes_packed)
qed

lemma length_group_chars: "pd \<le> 2 \<Longrightarrow> length (group_chars pd p) = 4"
  by (simp add: group_chars_def)

lemma length_encode64: "length (base64encode_bytes ds) = 4 * ((length ds + 2) div 3)"
proof (induction ds rule: encode_induct)
  case (Three a b c ds)
  moreover have "(length (a # b # c # ds) + 2) div 3 = Suc ((length ds + 2) div 3)" by (simp add: div_add_self1)
  ultimately show ?case by (simp add: encode_eqs length_group_chars)
qed (simp_all add: encode_eqs length_group_chars)

lemma bytes_chars_chars_bytes [simp]: "bytes_chars (chars_bytes s) = s"
  by (simp add: bytes_chars_def chars_bytes_def comp_def unat_of_nat)

lemma decode_encode64: "length s \<le> sz * 3 div 4 \<Longrightarrow> base64decode sz (base64encode s) = Inr s"
  using decode_loop_encode [of "[]" _ "chars_bytes s"] by (simp add: base64decode_def base64encode_def chars_bytes_def [THEN arg_cong, of length])

lemma length_base64encode: "length (base64encode s) = 4 * ((length s + 2) div 3)"
  using length_encode64 [of "chars_bytes s"] by (simp add: base64encode_def chars_bytes_def)

section \<open>Properties\<close>

text \<open>Decoding gives back what was encoded, for every string that fits the buffer of the decoder; of a longer one
  the decoder writes past the buffer. The text has four characters for every three bytes or part of them.\<close>

theorem base64_roundtrip:
  "base64decode sizeof_string (base64encode s) =
     (if length s \<le> sizeof_string * 3 div 4 then Inr s else Inl (Bad_access ''writeBuf'')) \<and>
   length (base64encode s) = 4 * ((length s + 2) div 3)"
  using decode_loop_encode [of "[]" _ "chars_bytes s"] length_encode64 [of "chars_bytes s"]
  by (auto simp: base64decode_def base64encode_def chars_bytes_def [THEN arg_cong, of length])

end
