(* ===== verification/Lamb_WSServer.thy ===== *)
theory Lamb_WSServer
  imports Lamb_HttpServer Lamb_HttpClient Lamb_Hash
begin

text \<open>
  \<open>lamb/http/ws_servlet.cc\<close>, \<open>ws_server.cc\<close>, and the handshakes of \<open>ws_session.cc\<close> and \<open>ws_connection.cc\<close>: the servlets of
  WebSocket sessions and their dispatcher, the loop that serves one session, and both ends of the upgrade from HTTP.
  Log lines are left out; the receive timeout of a new connection is the socket's and has no part here.
\<close>

section \<open>Servlets\<close>

text \<open>The callbacks may be empty functions, which are options.\<close>

definition FunctionWSServlet ::
  "(HttpRequest \<Rightarrow> WSFrameMessage \<Rightarrow> 's \<Rightarrow> int \<times> HttpRequest \<times> 's) option \<Rightarrow>
   (HttpRequest \<Rightarrow> 's \<Rightarrow> int \<times> HttpRequest \<times> 's) option \<Rightarrow>
   (HttpRequest \<Rightarrow> 's \<Rightarrow> int \<times> HttpRequest \<times> 's) option \<Rightarrow> 's servlet" where
  "FunctionWSServlet cb connect_cb close_cb =
     \<lparr>sv_name = ''FunctionWSServlet'', sv_handle = (\<lambda>request response session. (0, request, response, session)),
      sv_ws = Some
        \<lparr>ws_onConnect = (\<lambda>header session. case connect_cb of Some f \<Rightarrow> f header session | None \<Rightarrow> (0, header, session)),
         ws_onClose = (\<lambda>header session. case close_cb of Some f \<Rightarrow> f header session | None \<Rightarrow> (0, header, session)),
         ws_handle = (\<lambda>header msg session. case cb of Some f \<Rightarrow> f header msg session | None \<Rightarrow> (0, header, session))\<rparr>\<rparr>"

definition newWSServletDispatch :: "'s dispatch" where
  "newWSServletDispatch = newServletDispatch"

definition ws_addServlet where
  "ws_addServlet d uri cb connect_cb close_cb = addServlet d uri (Some (FunctionWSServlet cb connect_cb close_cb))"

definition ws_addGlobServlet where
  "ws_addGlobServlet d uri cb connect_cb close_cb = addGlobServlet d uri (Some (FunctionWSServlet cb connect_cb close_cb))"

definition getWSServlet :: "(string \<Rightarrow> string \<Rightarrow> int) \<Rightarrow> 's dispatch \<Rightarrow> string \<Rightarrow> 's ws_servlet option res" where
  "getWSServlet fnmatch d uri =
     bindR (getMatchedServlet fnmatch d uri) (\<lambda>slt. Inr (case slt of None \<Rightarrow> None | Some slt \<Rightarrow> sv_ws slt))"

section \<open>The handshake of the server\<close>

text \<open>Other code: \<open>lexical_cast<int>\<close>, SHA-1, the byte order of the host, the maximal size of a message.\<close>

record 'p ws_env = "'p server_env" +
  wv_int :: "string \<Rightarrow> int option"
  wv_sha1 :: "u8 list \<Rightarrow> u8 list"
  wv_host :: endian
  wv_max_size :: nat

definition ws_guid :: string where
  "ws_guid = ''258EAFA5-E914-47DA-95CA-C5AB0DC85B11''"

definition ws_accept :: "(u8 list \<Rightarrow> u8 list) \<Rightarrow> string \<Rightarrow> string" where
  "ws_accept sha1 key = base64encode (sha1sum sha1 (key @ ws_guid))"

definition shake_response :: "(u8 list \<Rightarrow> u8 list) \<Rightarrow> HttpRequest \<Rightarrow> string \<Rightarrow> HttpResponse" where
  "shake_response sha1 req key =
     (let rsp = (createResponse req)\<lparr>rs_status := 101, rs_websocket := True, rs_reason := ''Web Socket Protocol Handshake''\<rparr>;
          rsp = rs_setHeader rsp ''Upgrade'' ''websocket'';
          rsp = rs_setHeader rsp ''Connection'' ''Upgrade'' in
      rs_setHeader rsp ''Sec-WebSocket-Accept'' (ws_accept sha1 key))"

definition handleShake :: "'p ws_env \<Rightarrow> sock \<Rightarrow> (HttpRequest option \<times> sock) res" where
  "handleShake env s =
     bindR (HttpSession_recvRequest (ev_lib env) (ev_url env) (ev_methods env) (ev_junk env) s) (\<lambda>(req, s). case req of
       None \<Rightarrow> Inr (None, s)
     | Some req \<Rightarrow>
         if strcasecmp (rq_getHeader req ''Connection'' []) ''keep-alive, Upgrade'' \<noteq> 0 then Inr (None, s)
         else if strcasecmp (rq_getHeader req ''Upgrade'' []) ''websocket'' \<noteq> 0 then Inr (None, s)
         else if getAs (wv_int env) (rq_headers req) ''Sec-webSocket-Version'' 0 \<noteq> 13 then Inr (None, s)
         else let key = rq_getHeader req ''Sec-webSocket-Key'' [] in
         if key = [] then Inr (None, s)
         else let req = req\<lparr>rq_websocket := True\<rparr>;
                  (_, s) = HttpSession_sendResponse (ev_status env) (shake_response (wv_sha1 env) req key) s in
           Inr (Some req, s))"

section \<open>Serving a session\<close>

partial_function (option) ws_loop ::
  "'p ws_env \<Rightarrow> sock ws_servlet \<Rightarrow> HttpRequest \<Rightarrow> sock \<Rightarrow> (HttpRequest \<times> sock) option" where
  "ws_loop env w header s =
     Option.bind (WSSession_recvMessage (wv_host env) (wv_max_size env) s) (\<lambda>r.
       case r of (msg, s) \<Rightarrow>
         (case msg of
            None \<Rightarrow> Some (header, s)
          | Some msg \<Rightarrow>
              (case ws_handle w header msg s of
                 (rt, header, s) \<Rightarrow> if rt \<noteq> 0 then Some (header, s) else ws_loop env w header s)))"

definition WSServer_handleClient :: "'p ws_env \<Rightarrow> sock dispatch \<Rightarrow> sock \<Rightarrow> sock res option" where
  "WSServer_handleClient env d client =
     (case handleShake env client of
        Inl e \<Rightarrow> Some (Inl e)
      | Inr (None, s) \<Rightarrow> Some (Inr (SocketStream_close s))
      | Inr (Some header, s) \<Rightarrow>
          (case getWSServlet (ev_fnmatch env) d (rq_path header) of
             Inl e \<Rightarrow> Some (Inl e)
           | Inr None \<Rightarrow> Some (Inr (SocketStream_close s))
           | Inr (Some w) \<Rightarrow>
               let (rt, header, s) = ws_onConnect w header s in
               if rt \<noteq> 0 then Some (Inr (SocketStream_close s))
               else Option.bind (ws_loop env w header s) (\<lambda>(header, s).
                 let (_, _, s) = ws_onClose w header s in Some (Inr (SocketStream_close s)))))"

section \<open>The handshake of the client\<close>

definition error_number :: "http_error \<Rightarrow> int" where
  "error_number e =
     (case e of OK \<Rightarrow> 0 | INVALID_URL \<Rightarrow> 1 | INVALID_HOST \<Rightarrow> 2 | CONNECT_FAIL \<Rightarrow> 3 | SEND_CLOSE_BY_PEER \<Rightarrow> 4
      | SEND_SOCKET_ERROR \<Rightarrow> 5 | TIMEOUT \<Rightarrow> 6 | CREATE_SOCKET_ERROR \<Rightarrow> 7 | POOL_GET_CONNECTION \<Rightarrow> 8
      | POOL_INVALID_CONNECTION \<Rightarrow> 9)"

text \<open>The loop over the headers: the request, and whether a host and a connection header were given.\<close>

fun ws_add_headers :: "(string \<times> string) list \<Rightarrow> HttpRequest \<times> bool \<times> bool \<Rightarrow> HttpRequest \<times> bool \<times> bool" where
  "ws_add_headers [] (req, has_host, has_conn) = (req, has_host, has_conn)"
| "ws_add_headers ((k, v) # hs) (req, has_host, has_conn) =
     (let (has_host, has_conn) =
        (if strcasecmp k ''connection'' = 0 then (has_host, True)
         else if \<not> has_host \<and> strcasecmp k ''host'' = 0 then (v \<noteq> [], has_conn)
         else (has_host, has_conn)) in
      ws_add_headers hs (rq_setHeader req k v, has_host, has_conn))"

definition key_chars :: string where
  "key_chars = ''0123456789abcdefghijklmnopqrstuvwxyzABCDEFGHIJKLMNOPQRSTUVWXYZ''"

definition ws_build_request ::
  "string list \<Rightarrow> (nat \<Rightarrow> nat) \<Rightarrow> string \<Rightarrow> string \<Rightarrow> string \<Rightarrow> (string \<times> string) list \<Rightarrow> string \<Rightarrow> HttpRequest res" where
  "ws_build_request methods rands path query fragment headers host =
     (let req = (newHttpRequest methods 0x11 True)\<lparr>rq_path := path, rq_query := query, rq_fragment := fragment,
            rq_method := method_number methods ''GET''\<rparr>;
          (req, has_host, has_conn) = ws_add_headers headers (req, False, False);
          req = req\<lparr>rq_websocket := True\<rparr>;
          req = (if \<not> has_conn then rq_setHeader req ''connection'' ''Upgrade'' else req);
          req = rq_setHeader req ''Upgrade'' ''websocket'';
          req = rq_setHeader req ''Sec-webSocket-Version'' ''13'' in
      bindR (random_string rands 16 key_chars) (\<lambda>key.
        let req = rq_setHeader req ''Sec-webSocket-Key'' (base64encode key) in
        Inr (if \<not> has_host then rq_setHeader req ''Host'' host else req)))"

text \<open>A result is the number of the error, 50 when the server does not switch protocols, the response and a text.\<close>

type_synonym ws_result = "int \<times> HttpResponse option \<times> string"

definition WSConnection_Create_uri ::
  "('a, 'p) client_env \<Rightarrow> (nat \<Rightarrow> nat) \<Rightarrow> Uri \<Rightarrow> u64 \<Rightarrow> (string \<times> string) list \<Rightarrow> (ws_result \<times> sock option) res" where
  "WSConnection_Create_uri env rands uri timeout_ms headers =
     (case createAddress env uri of
        None \<Rightarrow> Inr ((error_number INVALID_HOST, None, ''invalid host: '' @ u_host uri), None)
      | Some addr \<Rightarrow>
          (let peer = ce_addr_string env addr in
           case ce_socket env addr of
             None \<Rightarrow> Inr ((error_number CREATE_SOCKET_ERROR, None, ''create socket fail: '' @ peer @ '' errno='' @ ce_errno env), None)
           | Some sock \<Rightarrow>
               let (ok, sock) = ce_connect env addr sock in
               if \<not> ok then Inr ((error_number CONNECT_FAIL, None, ''connect fail: '' @ peer), None)
               else bindR (ws_build_request (ce_methods env) rands (Uri_getPath uri) (u_query uri) (u_fragment uri) headers (u_host uri)) (\<lambda>req.
               let (rt, s) = HttpConnection_sendRequest (ce_methods env) req sock in
               if rt = 0 then Inr ((error_number SEND_CLOSE_BY_PEER, None, ''send request closed by peer: '' @ peer), None)
               else if rt < 0 then
                 Inr ((error_number SEND_SOCKET_ERROR, None, ''send request socket error errno='' @ ce_errno env), None)
               else bindR (HttpConnection_recvResponse (ce_lib env) (ce_buff_size env) (ce_junk env) s) (\<lambda>(rsp, s).
                 Inr (case rsp of
                        None \<Rightarrow> ((error_number TIMEOUT, None, ''recv response timeout: '' @ peer @ '' timeout_ms:''
                          @ show_nat (unat timeout_ms)), None)
                      | Some rsp \<Rightarrow>
                          if rs_status rsp \<noteq> 101 then ((50, Some rsp, ''not websocket server '' @ peer), None)
                          else ((error_number OK, Some rsp, ''ok''), Some s))))))"

definition WSConnection_Create ::
  "('a, 'p) client_env \<Rightarrow> (nat \<Rightarrow> nat) \<Rightarrow> string \<Rightarrow> u64 \<Rightarrow> (string \<times> string) list \<Rightarrow> (ws_result \<times> sock option) res" where
  "WSConnection_Create env rands url timeout_ms headers =
     bindR (Uri_Create (ce_url env) url) (\<lambda>uri. case uri of
       None \<Rightarrow> Inr ((error_number INVALID_URL, None, ''invalid url:'' @ url), None)
     | Some uri \<Rightarrow> WSConnection_Create_uri env rands uri timeout_ms headers)"

section \<open>Sockets through the handshake\<close>

lemma write_duplex: "SocketStream_write s bs = (r, s') \<Longrightarrow> sock_duplex s \<Longrightarrow> sock_duplex s'"
  by (auto simp: SocketStream_write_def Socket_send_def kernel_send_def sock_duplex_def sock_good_def sock_writable_def
      split: if_splits list.splits)

lemma writeFixSize_duplex:
  "writeFixSize_loop SocketStream_write n left buf s = (r, s') \<Longrightarrow> sock_duplex s \<Longrightarrow> sock_duplex s'"
proof (induction SocketStream_write n left buf s arbitrary: r s' rule: writeFixSize_loop.induct)
  case (1 n left buf s)
  obtain len t where w: "SocketStream_write s buf = (len, t)" by (cases "SocketStream_write s buf") auto
  show ?case
  proof (cases "left > 0 \<and> \<not> len \<le> 0")
    case True
    then have "writeFixSize_loop SocketStream_write n (left - len) (drop (nat len) buf) t = (r, s')"
      using 1(2) w by (simp add: writeFixSize_loop.simps)
    with 1(1) [of "(len, t)" len t] w True write_duplex [OF w 1(3)] show ?thesis by simp
  next
    case False
    then show ?thesis
      using 1(2,3) w write_duplex [OF w] by (auto simp: writeFixSize_loop.simps [of _ _ left] split: if_splits)
  qed
qed

lemma sendResponse_duplex: "sock_duplex s \<Longrightarrow> sock_duplex (snd (HttpSession_sendResponse st rsp s))"
  using writeFixSize_duplex by (metis HttpSession_sendResponse_def prod.collapse writeFixSize_def)

lemma recvRequest_received:
  assumes "lib_bounded (ev_lib env)" and "length (ev_junk env) < 2 ^ 31"
  shows "\<exists>req s1. HttpSession_recvRequest (ev_lib env) (ev_url env) (ev_methods env) (ev_junk env) s = Inr (req, s1) \<and>
           (req \<noteq> None \<longrightarrow> sock_duplex s \<longrightarrow> sock_duplex s1)"
proof -
  have "received s (recvRequest_loop (ev_lib env) (ev_url env) (length (ev_junk env)) 0 (ev_junk env)
      (http_parser_init (ev_lib env), newHttpRequestParser (ev_methods env)) s)"
    using assms by (intro recvRequest_loop_safe) simp_all
  then show ?thesis
    by (auto simp: received_def HttpSession_recvRequest_def sock_duplex_def sock_good_def sock_writable_def)
qed

lemma handleShake_duplex:
  assumes "lib_bounded (ev_lib env)" and "length (ev_junk env) < 2 ^ 31" and "sock_duplex s"
  shows "\<exists>req s1. handleShake env s = Inr (req, s1) \<and> (req \<noteq> None \<longrightarrow> sock_duplex s1)"
proof -
  obtain req s1 where r: "HttpSession_recvRequest (ev_lib env) (ev_url env) (ev_methods env) (ev_junk env) s = Inr (req, s1)"
      "req \<noteq> None \<longrightarrow> sock_duplex s1"
    using recvRequest_received [OF assms(1,2), of s] assms(3) by blast
  show ?thesis
  proof (cases req)
    case None
    then show ?thesis using r by (simp add: handleShake_def)
  next
    case (Some q)
    then show ?thesis
      using r sendResponse_duplex [of s1] by (auto simp: handleShake_def Let_def split: prod.split) (metis snd_conv)
  qed
qed

text \<open>Handlers that leave a connection usable and do not give it more to read.\<close>

definition ws_polite :: "sock ws_servlet \<Rightarrow> bool" where
  "ws_polite w \<longleftrightarrow>
     (\<forall>header s. sock_duplex s \<longrightarrow> sock_duplex (snd (snd (ws_onConnect w header s)))) \<and>
     (\<forall>header msg s. sock_duplex s \<longrightarrow> sock_duplex (snd (snd (ws_handle w header msg s))) \<and>
        length (sock_pending (snd (snd (ws_handle w header msg s)))) \<le> length (sock_pending s))"

lemma ws_loop_returns:
  assumes "ws_polite w" and "sock_duplex s"
  shows "\<exists>header' s'. ws_loop env w header s = Some (header', s')"
  using assms(2)
proof (induction "length (sock_pending s)" arbitrary: header s rule: less_induct)
  case less
  obtain m s1 where m: "WSSession_recvMessage (wv_host env) (wv_max_size env) s = Some (m, s1)"
      "m \<noteq> None \<longrightarrow> sock_duplex s1 \<and> length (sock_pending s1) < length (sock_pending s)"
    using wss.WSRecvMessage_loop_returns [OF less.prems] unfolding WSSession_recvMessage_def WSRecvMessage_def by blast
  show ?case
  proof (cases m)
    case None
    then show ?thesis using m by (simp add: ws_loop.simps)
  next
    case (Some msg)
    obtain rt h2 s2 where h: "ws_handle w header msg s1 = (rt, h2, s2)" by (cases "ws_handle w header msg s1") auto
    have "sock_duplex s2" "length (sock_pending s2) < length (sock_pending s)"
      using assms(1) m(2) Some h unfolding ws_polite_def by (metis option.distinct(1) snd_conv, metis le_less_trans option.distinct(1) snd_conv)
    with less.hyps [of s2 h2] show ?thesis using m Some h by (simp add: ws_loop.simps [of env w header s])
  qed
qed

section \<open>Properties\<close>

text \<open>C19: whatever a client sends, serving it as a WebSocket session comes to an end with the connection closed, when the handlers
  leave the connection to the server.\<close>

theorem ws_session_served:
  assumes "lib_bounded (ev_lib env)" and "length (ev_junk env) < 2 ^ 31" and "sock_duplex client"
    and "\<And>path. \<exists>w. getWSServlet (ev_fnmatch env) d path = Inr w \<and> (\<forall>w' \<in> set_option w. ws_polite w')"
  shows "\<exists>s'. WSServer_handleClient env d client = Some (Inr s') \<and> \<not> m_isConnected s'"
proof -
  obtain req s1 where shake: "handleShake env client = Inr (req, s1)" "req \<noteq> None \<longrightarrow> sock_duplex s1"
    using handleShake_duplex [OF assms(1-3)] by blast
  show ?thesis
  proof (cases req)
    case None
    then show ?thesis using shake by (simp add: WSServer_handleClient_def)
  next
    case (Some header)
    obtain w where w: "getWSServlet (ev_fnmatch env) d (rq_path header) = Inr w" "\<forall>w' \<in> set_option w. ws_polite w'"
      using assms(4) by blast
    show ?thesis
    proof (cases w)
      case None
      then show ?thesis using shake Some w by (simp add: WSServer_handleClient_def)
    next
      case wsome: (Some w')
      obtain rt h2 s2 where c: "ws_onConnect w' header s1 = (rt, h2, s2)" by (cases "ws_onConnect w' header s1") auto
      have p: "ws_polite w'" using w wsome by simp
      then have "sock_duplex s2" using shake(2) Some c unfolding ws_polite_def by (metis option.distinct(1) snd_conv)
      then obtain h3 s3 where l: "ws_loop env w' h2 s2 = Some (h3, s3)" using ws_loop_returns [OF p] by blast
      show ?thesis using shake Some w wsome c l by (simp add: WSServer_handleClient_def split: prod.split)
    qed
  qed
qed

text \<open>When the server accepts a request for an upgrade.\<close>

definition wants_websocket :: "(string \<Rightarrow> int option) \<Rightarrow> HttpRequest \<Rightarrow> bool" where
  "wants_websocket int_of req \<longleftrightarrow>
     lower_key (rq_getHeader req ''Connection'' []) = ''keep-alive, upgrade'' \<and>
     lower_key (rq_getHeader req ''Upgrade'' []) = ''websocket'' \<and>
     Option.bind (map_find CaseInsensitiveLess (rq_headers req) ''Sec-webSocket-Version'') int_of = Some 13 \<and>
     rq_getHeader req ''Sec-webSocket-Key'' [] \<noteq> []"

lemma shake_keys:
  "lower_key ''keep-alive, Upgrade'' = ''keep-alive, upgrade''" "lower_key ''websocket'' = ''websocket''"
  by code_simp+

lemma handleShake_iff:
  assumes "HttpSession_recvRequest (ev_lib env) (ev_url env) (ev_methods env) (ev_junk env) s = Inr (Some req, s1)"
  shows "handleShake env s =
    (if wants_websocket (wv_int env) req
     then Inr (Some (req\<lparr>rq_websocket := True\<rparr>), snd (HttpSession_sendResponse (ev_status env)
       (shake_response (wv_sha1 env) req (rq_getHeader req ''Sec-webSocket-Key'' [])) s1))
     else Inr (None, s1))"
  using assms
  by (auto simp: handleShake_def wants_websocket_def strcasecmp_eq shake_keys getAs_def shake_response_def createResponse_def Let_def
      split: prod.split option.splits)

lemma shake_header_keys:
  "lower_key ''Connection'' = ''connection''" "lower_key ''Upgrade'' = ''upgrade''" "lower_key ''upgrade'' = ''upgrade''"
  "lower_key ''Sec-webSocket-Version'' = ''sec-websocket-version''" "lower_key ''Sec-webSocket-Key'' = ''sec-websocket-key''"
  "lower_key ''Sec-WebSocket-Accept'' = ''sec-websocket-accept''"
  by code_simp+

lemma rs_header_set:
  assumes "map_inv CaseInsensitiveLess (rs_headers r)"
  shows "map_inv CaseInsensitiveLess (rs_headers (rs_setHeader r k v))" "rs_getHeader (rs_setHeader r k v) k d = v"
  using assms by (simp_all add: rs_getHeader_def rs_setHeader_def ci.find_put ci.map_inv_put del: map_put.simps)

lemma rq_header_set:
  assumes "map_inv CaseInsensitiveLess (rq_headers r)"
  shows "map_inv CaseInsensitiveLess (rq_headers (rq_setHeader r k v))"
    "map_find CaseInsensitiveLess (rq_headers (rq_setHeader r k v)) k' =
       (if lower_key k' = lower_key k then Some v else map_find CaseInsensitiveLess (rq_headers r) k')"
  using assms by (simp_all add: rq_setHeader_def ci.find_abs ci.abs_put ci.map_inv_put)

text \<open>C20: the handshake of the server: a request that asks for the upgrade in the form the server wants is answered, in full and
  behind what was sent before, with status 101 and the encoded digest of its key and the fixed identifier, from which the digest
  can be decoded; any other request is refused and nothing is sent.\<close>

theorem handshake_answers:
  assumes "HttpSession_recvRequest (ev_lib env) (ev_url env) (ev_methods env) (ev_junk env) s = Inr (Some req, s1)"
    and "rsp = shake_response (wv_sha1 env) req (rq_getHeader req ''Sec-webSocket-Key'' [])"
    and "sock_writable s1" and "length (rs_dump (ev_status env) rsp) < 2 ^ 63"
    and "\<And>bs. length (wv_sha1 env bs) = 20"
  shows "(if wants_websocket (wv_int env) req
          then \<exists>s2. handleShake env s = Inr (Some (req\<lparr>rq_websocket := True\<rparr>), s2) \<and> so_in s2 = so_in s1 \<and>
                 so_out s2 = so_out s1 @ chars_bytes (rs_dump (ev_status env) rsp)
          else handleShake env s = Inr (None, s1)) \<and>
         rs_status rsp = 101 \<and> rs_websocket rsp \<and>
         base64decode 32 (rs_getHeader rsp ''Sec-WebSocket-Accept'' []) =
           Inr (sha1sum (wv_sha1 env) (rq_getHeader req ''Sec-webSocket-Key'' [] @ ws_guid))"
proof -
  let ?key = "rq_getHeader req ''Sec-webSocket-Key'' []" and ?buf = "chars_bytes (rs_dump (ev_status env) rsp)"
  have "length ?buf < 2 ^ 63" using assms(4) by (simp add: chars_bytes_def)
  then obtain r s2 where w: "HttpSession_sendResponse (ev_status env) rsp s1 = (r, s2)" "so_out s2 = so_out s1 @ ?buf"
    using ssink.writeFixSize_all [OF assms(3)] by (fastforce simp: HttpSession_sendResponse_def)
  have "so_in s2 = so_in s1" using sendResponse_keeps_input [of "ev_status env" rsp s1] w(1) by simp
  moreover have "rs_getHeader rsp ''Sec-WebSocket-Accept'' [] = ws_accept (wv_sha1 env) ?key"
    unfolding assms(2) shake_response_def Let_def
    by (intro rs_header_set) (simp add: createResponse_def newHttpResponse_def ci.map_inv_Nil)
  moreover have "length (sha1sum (wv_sha1 env) (?key @ ws_guid)) = 20" by (simp add: sha1sum_def assms(5))
  ultimately show ?thesis
    using handleShake_iff [OF assms(1)] w decode_encode64 [of "sha1sum (wv_sha1 env) (?key @ ws_guid)" 32]
    by (auto simp: assms(2) ws_accept_def shake_response_def rs_setHeader_def createResponse_def Let_def)
qed

definition connection_of :: "(string \<times> string) list \<Rightarrow> string option" where
  "connection_of hs = map_of (rev (map (\<lambda>(k, v). (lower_key k, v)) hs)) ''connection''"

lemma connection_of_simps:
  "connection_of [] = None"
  "connection_of ((k, v) # hs) \<noteq> None \<longleftrightarrow> lower_key k = ''connection'' \<or> connection_of hs \<noteq> None"
  by (auto simp: connection_of_def map_add_def split: option.splits)

lemma ws_add_headers_result:
  "ws_add_headers hs (req, hh, hc) =
     (req\<lparr>rq_headers := put_headers hs (rq_headers req)\<rparr>, hh \<or> names_host hs, hc \<or> connection_of hs \<noteq> None)"
proof (induction hs arbitrary: req hh hc)
  case Nil
  then show ?case by (simp add: names_host_def connection_of_simps)
next
  case (Cons e hs)
  then show ?case
    by (cases e) (auto simp: strcasecmp_eq known_keys names_host_def rq_setHeader_def connection_of_simps(2) simp del: not_None_eq)
qed

lemma random_key: "\<exists>key. random_string rands 16 key_chars = Inr key \<and> length key = 16"
  by (simp add: random_string_def key_chars_def)

lemma ws_request_headers:
  assumes "ws_build_request methods rands path query fragment headers host = Inr req"
  obtains key where "length key = 16"
    "map_find CaseInsensitiveLess (rq_headers req) ''Connection'' = Some (case connection_of headers of None \<Rightarrow> ''Upgrade'' | Some v \<Rightarrow> v)"
    "map_find CaseInsensitiveLess (rq_headers req) ''Upgrade'' = Some ''websocket''"
    "map_find CaseInsensitiveLess (rq_headers req) ''Sec-webSocket-Version'' = Some ''13''"
    "map_find CaseInsensitiveLess (rq_headers req) ''Sec-webSocket-Key'' = Some (base64encode key)"
proof -
  obtain key where key: "random_string rands 16 key_chars = Inr key" "length key = 16" using random_key by blast
  let ?r1 = "(newHttpRequest methods 0x11 True)\<lparr>rq_path := path, rq_query := query, rq_fragment := fragment,
      rq_method := method_number methods ''GET'', rq_headers := put_headers headers [], rq_websocket := True\<rparr>"
  define r2 where "r2 = (if connection_of headers = None then rq_setHeader ?r1 ''connection'' ''Upgrade'' else ?r1)"
  define r5 where "r5 = rq_setHeader (rq_setHeader (rq_setHeader r2 ''Upgrade'' ''websocket'') ''Sec-webSocket-Version'' ''13'')
    ''Sec-webSocket-Key'' (base64encode key)"
  have req: "req = (if names_host headers then r5 else rq_setHeader r5 ''Host'' host)"
    using assms key(1)
    by (cases "connection_of headers"; cases "names_host headers")
       (simp_all add: ws_build_request_def ws_add_headers_result newHttpRequest_def r5_def r2_def Let_def)
  note inv1 = put_headers_inv [OF ci.map_inv_Nil, of headers]
  have inv2: "map_inv CaseInsensitiveLess (rq_headers r2)" using inv1 rq_header_set(1) [of ?r1] by (simp add: r2_def)
  have "map_find CaseInsensitiveLess (rq_headers r2) ''Connection'' = Some (case connection_of headers of None \<Rightarrow> ''Upgrade'' | Some v \<Rightarrow> v)"
    using inv1 rq_header_set(2) [of ?r1]
    by (auto simp: r2_def ci.find_abs put_headers_abs shake_header_keys known_keys connection_of_def split: option.split)
  with that [OF key(2)] show ?thesis
    unfolding req r5_def using inv2 by (simp add: rq_header_set shake_header_keys known_keys)
qed

text \<open>Both ends of the upgrade: a request made by \<open>WSConnection::Create\<close> that arrives with its headers is accepted by the server
  exactly if the caller gave a \<open>Connection\<close> header with the value \<open>keep-alive, Upgrade\<close>. Without one the client sends
  \<open>Upgrade\<close>, which this server refuses.\<close>

theorem client_and_server_handshake:
  assumes "ws_build_request methods rands path query fragment headers host = Inr sent"
    and "HttpSession_recvRequest (ev_lib env) (ev_url env) (ev_methods env) (ev_junk env) s = Inr (Some req, s1)"
    and "rq_headers req = rq_headers sent" and "wv_int env ''13'' = Some 13"
  shows "(case connection_of headers of
            None \<Rightarrow> handleShake env s = Inr (None, s1)
          | Some v \<Rightarrow> if lower_key v = ''keep-alive, upgrade''
              then \<exists>s2. handleShake env s = Inr (Some (req\<lparr>rq_websocket := True\<rparr>), s2)
              else handleShake env s = Inr (None, s1))"
proof -
  obtain key where h: "length key = 16"
    "map_find CaseInsensitiveLess (rq_headers req) ''Connection'' = Some (case connection_of headers of None \<Rightarrow> ''Upgrade'' | Some v \<Rightarrow> v)"
    "map_find CaseInsensitiveLess (rq_headers req) ''Upgrade'' = Some ''websocket''"
    "map_find CaseInsensitiveLess (rq_headers req) ''Sec-webSocket-Version'' = Some ''13''"
    "map_find CaseInsensitiveLess (rq_headers req) ''Sec-webSocket-Key'' = Some (base64encode key)"
    unfolding assms(3) by (rule ws_request_headers [OF assms(1)])
  have "base64encode key \<noteq> []" using length_base64encode [of key] h(1) by auto
  then have "wants_websocket (wv_int env) req \<longleftrightarrow>
      lower_key (case connection_of headers of None \<Rightarrow> ''Upgrade'' | Some v \<Rightarrow> v) = ''keep-alive, upgrade''"
    using h(2-) assms(4) by (simp add: wants_websocket_def rq_getHeader_def shake_keys)
  then show ?thesis using handleShake_iff [OF assms(2)] by (auto simp: shake_header_keys split: option.split)
qed

section \<open>A small server\<close>

text \<open>A parser that takes any piece of input as a request with the headers \<open>hs\<close>, and a digest of zeros.\<close>

definition shake_lib :: "(string \<times> string) list \<Rightarrow> (unit, HttpRequest msg_parser) hp_lib" where
  "shake_lib hs = \<lparr>http_parser_init = (),
     http_parser_execute = (\<lambda>cb p d x. (length x, (), case feed (cb dot_head) (header_events hs @ [Message_complete]) d of
       Some d \<Rightarrow> d | None \<Rightarrow> d)),
     hp_upgrade = (\<lambda>_. False), hp_errno = (\<lambda>_. 0)\<rparr>"

definition shake_env :: "(string \<times> string) list \<Rightarrow> unit ws_env" where
  "shake_env hs = \<lparr>ev_lib = shake_lib hs, ev_url = (\<lambda>_. None), ev_methods = [], ev_status = (\<lambda>_. None),
     ev_fnmatch = (\<lambda>p s. if p = s then 0 else 1), ev_junk = ''junk'', wv_int = (\<lambda>s. if s = ''13'' then Some 13 else None),
     wv_sha1 = (\<lambda>_. replicate 20 0), wv_host = LITTLE_ENDIAN, wv_max_size = 100\<rparr>"

definition shake_request :: "(string \<times> string) list \<Rightarrow> HttpRequest" where
  "shake_request hs = rq_init ((newHttpRequest [] 0x11 True)\<lparr>rq_headers := put_headers hs []\<rparr>)"

lemma shake_recv:
  "HttpSession_recvRequest (shake_lib hs) (\<lambda>_. None) [] ''junk'' dot_sock =
     Inr (Some (shake_request hs), dot_sock\<lparr>so_in := tl (so_in dot_sock)\<rparr>)"
proof -
  let ?m = "newHttpRequestParser []" and ?s = "dot_sock\<lparr>so_in := tl (so_in dot_sock)\<rparr>"
  obtain f where f: "feed (s_request_settings (\<lambda>_. None) dot_head) (header_events hs) ?m =
      Some (?m\<lparr>mp_field := f, mp_data := (mp_data ?m)\<lparr>rq_headers := put_headers hs (rq_headers (mp_data ?m))\<rparr>\<rparr>)"
    using feed_headers by blast
  have rd: "SocketStream_read dot_sock 4 = (2, [0x61, 0x62], ?s)"
    by (simp add: SocketStream_read_def SocketStream_isConnected_def Socket_isConnected_def Socket_recv_def kernel_recv_def dot_sock_def)
  let ?d = "blit 0 (bytes_chars [0x61, 0x62]) ''junk''"
  let ?m' = "?m\<lparr>mp_field := f, mp_data := (mp_data ?m)\<lparr>rq_headers := put_headers hs (rq_headers (mp_data ?m))\<rparr>, mp_finished := True\<rparr>"
  have "feed (s_request_settings (\<lambda>_. None) dot_head) (header_events hs @ [Message_complete]) ?m = Some ?m'"
    by (simp add: feed_append f s_request_settings_def on_request_message_complete_cb_def)
  moreover have "length ?d = 4" by (simp add: blit_def)
  ultimately have e: "HttpRequestParser_execute (shake_lib hs) (\<lambda>_. None) ((), ?m) ?d 2 = (2, ?d, (), ?m')"
    by (simp add: HttpRequestParser_execute_def shake_lib_def del: feed.simps)
  have "recvRequest_loop (shake_lib hs) (\<lambda>_. None) 4 0 ''junk'' ((), ?m) dot_sock = Inr (Some (mp_data ?m'), ?s)"
    using e by (simp add: recvRequest_loop.simps [of _ _ _ _ _ _ dot_sock] rd newHttpRequestParser_def [THEN arg_cong, of mp_error])
  moreover have "http_parser_init (shake_lib hs) = ()" "mp_data ?m' = (newHttpRequest [] 0x11 True)\<lparr>rq_headers := put_headers hs []\<rparr>"
    by (simp_all add: newHttpRequestParser_def newHttpRequest_def)
  ultimately show ?thesis by (simp add: HttpSession_recvRequest_def shake_request_def eval_nat_numeral)
qed

theorem ws_session_served_witness:
  "\<exists>s'. WSServer_handleClient (shake_env []) (ws_addServlet newWSServletDispatch ''/'' None None None) dot_sock = Some (Inr s') \<and>
     \<not> m_isConnected s'"
  by (rule ws_session_served)
     (auto simp: shake_env_def shake_lib_def lib_bounded_def sock_duplex_def sock_good_def sock_writable_def dot_sock_def getWSServlet_def
       getMatchedServlet_def ws_addServlet_def addServlet_def newWSServletDispatch_def newServletDispatch_def NotFoundServlet_def
       creator_get_def FunctionWSServlet_def ws_polite_def)

definition shake_headers :: "(string \<times> string) list" where
  "shake_headers = [(''Connection'', ''keep-alive, Upgrade''), (''Upgrade'', ''websocket''), (''Sec-webSocket-Version'', ''13''),
     (''Sec-webSocket-Key'', ''MDAwMDAwMDAwMDAwMDAwMA=='')]"

lemma shake_headers_wanted: "wants_websocket (\<lambda>s. if s = ''13'' then Some 13 else None) (shake_request shake_headers)"
  by code_simp

lemma shake_dump_short:
  "length (rs_dump (\<lambda>_. None) (shake_response (\<lambda>_. replicate 20 0) (shake_request shake_headers) key)) < 400"
  by code_simp

theorem handshake_answers_witness:
  "\<exists>s2. handleShake (shake_env shake_headers) dot_sock = Inr (Some ((shake_request shake_headers)\<lparr>rq_websocket := True\<rparr>), s2)"
proof -
  have "length (rs_dump (\<lambda>_. None) (shake_response (\<lambda>_. replicate 20 0) (shake_request shake_headers) key)) < 2 ^ 63" for key
    by (rule less_trans [OF shake_dump_short]) simp
  then show ?thesis
    using handshake_answers [where env = "shake_env shake_headers" and s = dot_sock, OF _ refl] shake_recv [of shake_headers] shake_headers_wanted
    by (fastforce simp: shake_env_def sock_writable_def dot_sock_def)
qed

lemma plain_request:
  "case ws_build_request [] (\<lambda>_. 0) ''/'' [] [] [] ''h'' of Inr req \<Rightarrow> put_headers (rq_headers req) [] = rq_headers req | Inl _ \<Rightarrow> False"
  by code_simp

theorem client_and_server_handshake_witness:
  "\<exists>req s1. ws_build_request [] (\<lambda>_. 0) ''/'' [] [] [] ''h'' = Inr req \<and>
     handleShake (shake_env (rq_headers req)) dot_sock = Inr (None, s1)"
proof -
  obtain sent where s: "ws_build_request [] (\<lambda>_. 0) ''/'' [] [] [] ''h'' = Inr sent" "put_headers (rq_headers sent) [] = rq_headers sent"
    using plain_request by (auto split: sum.splits)
  have "rq_headers (shake_request hs) = put_headers hs []" for hs
    by (simp add: shake_request_def rq_init_def newHttpRequest_def Let_def)
  then show ?thesis
    using client_and_server_handshake [OF s(1), of "shake_env (rq_headers sent)" dot_sock] s shake_recv [of "rq_headers sent"]
    by (auto simp: shake_env_def connection_of_def)
qed

end
