(* ===== verification/Lamb_FdManager.thy ===== *)
theory Lamb_FdManager
  imports Lamb_Prelude
begin

text \<open>
  \<open>lamb/fd_manager.cc\<close>: the contexts of file descriptors, with the non-blocking mode the library
  imposes on sockets and the one the user asked for, and their table. The kernel's side of a
  descriptor is \<open>kf_sock\<close>, what \<open>fstat\<close> says (\<open>None\<close> when it fails), and \<open>kf_flags\<close>, its status
  flags; \<open>F_SETFL\<close> does not change the access mode (the two low bits). A \<open>FdCtx::ptr\<close> is an
  address; the contexts live in a heap, so that copies of a pointer share the context.
\<close>

section \<open>The kernel\<close>

record kernel_fds =
  kf_sock :: "int \<Rightarrow> bool option"
  kf_flags :: "int \<Rightarrow> u32"

definition O_NONBLOCK :: u32 where "O_NONBLOCK = 0x800"

definition getfl_f :: "kernel_fds \<Rightarrow> int \<Rightarrow> u32" where
  "getfl_f k fd = kf_flags k fd"

definition setfl_f :: "kernel_fds \<Rightarrow> int \<Rightarrow> u32 \<Rightarrow> kernel_fds" where
  "setfl_f k fd arg = k\<lparr>kf_flags := (kf_flags k)(fd := (kf_flags k fd AND 3) OR (arg AND (NOT 3)))\<rparr>"

definition nonblocking :: "kernel_fds \<Rightarrow> int \<Rightarrow> bool" where
  "nonblocking k fd \<longleftrightarrow> kf_flags k fd AND O_NONBLOCK \<noteq> 0"

section \<open>Contexts\<close>

record FdCtx =
  fd_isInit :: bool
  fd_isSocket :: bool
  fd_sysNonblock :: bool
  fd_userNonblock :: bool
  fd_isClosed :: bool
  fd_fd :: int
  fd_recvTimeout :: u64
  fd_sendTimeout :: u64

datatype timeout_type = SO_RCVTIMEO | SO_SNDTIMEO

text \<open>The result of \<open>fcntl_f (F_GETFL)\<close> is stored in a \<open>bool\<close>.\<close>

definition FdCtx_init :: "kernel_fds \<Rightarrow> FdCtx \<Rightarrow> bool \<times> FdCtx \<times> kernel_fds" where
  "FdCtx_init k c =
     (if fd_isInit c then (True, c, k)
      else
        let c = c\<lparr>fd_recvTimeout := NOT 0, fd_sendTimeout := NOT 0\<rparr>;
            c = (case kf_sock k (fd_fd c) of
                   None \<Rightarrow> c\<lparr>fd_isInit := False, fd_isSocket := False\<rparr>
                 | Some sock \<Rightarrow> c\<lparr>fd_isInit := True, fd_isSocket := sock\<rparr>);
            (c, k) =
              (if fd_isSocket c then
                 let flags = (if getfl_f k (fd_fd c) \<noteq> 0 then 1 else 0 :: u32);
                     k = (if flags AND O_NONBLOCK = 0 then setfl_f k (fd_fd c) (flags OR O_NONBLOCK) else k) in
                 (c\<lparr>fd_sysNonblock := True\<rparr>, k)
               else (c\<lparr>fd_sysNonblock := False\<rparr>, k));
            c = c\<lparr>fd_userNonblock := False, fd_isClosed := False\<rparr> in
        (fd_isInit c, c, k))"

definition newFdCtx :: "kernel_fds \<Rightarrow> int \<Rightarrow> FdCtx \<times> kernel_fds" where
  "newFdCtx k fd =
     snd (FdCtx_init k
       \<lparr>fd_isInit = False, fd_isSocket = False, fd_sysNonblock = False, fd_userNonblock = False,
        fd_isClosed = False, fd_fd = fd, fd_recvTimeout = NOT 0, fd_sendTimeout = NOT 0\<rparr>)"

definition FdCtx_setTimeout :: "FdCtx \<Rightarrow> timeout_type \<Rightarrow> u64 \<Rightarrow> FdCtx" where
  "FdCtx_setTimeout c ty v = (if ty = SO_RCVTIMEO then c\<lparr>fd_recvTimeout := v\<rparr> else c\<lparr>fd_sendTimeout := v\<rparr>)"

definition FdCtx_getTimeout :: "FdCtx \<Rightarrow> timeout_type \<Rightarrow> u64" where
  "FdCtx_getTimeout c ty = (if ty = SO_RCVTIMEO then fd_recvTimeout c else fd_sendTimeout c)"

section \<open>The table\<close>

record fdmanager =
  fm_datas :: "nat option list"
  fm_heap :: "nat \<Rightarrow> FdCtx"

definition newFdManager :: "(nat \<Rightarrow> FdCtx) \<Rightarrow> fdmanager" where
  "newFdManager h = \<lparr>fm_datas = replicate 64 None, fm_heap = h\<rparr>"

text \<open>The part under the read lock: the result, or nothing when a context must be created.\<close>

definition FdManager_look :: "fdmanager \<Rightarrow> int \<Rightarrow> bool \<Rightarrow> nat option option res" where
  "FdManager_look m fd auto_create =
     (if fd = - 1 then Inr (Some None)
      else if int (length (fm_datas m)) \<le> fd then Inr (if \<not> auto_create then Some None else None)
      else if fd < 0 then Inl (Bad_access ''m_datas'')
      else if fm_datas m ! nat fd \<noteq> None \<or> \<not> auto_create then Inr (Some (fm_datas m ! nat fd))
      else Inr None)"

definition resize_table :: "'a option list \<Rightarrow> nat \<Rightarrow> 'a option list" where
  "resize_table xs n = take n xs @ replicate (n - length xs) None"

text \<open>The part under the write lock; \<open>addr\<close> is the address of the new context.\<close>

definition FdManager_create :: "nat \<Rightarrow> kernel_fds \<Rightarrow> fdmanager \<Rightarrow> int \<Rightarrow> (nat \<times> fdmanager \<times> kernel_fds) res" where
  "FdManager_create addr k m fd =
     (let (ctx, k) = newFdCtx k fd;
          datas = (if int (length (fm_datas m)) \<le> fd then resize_table (fm_datas m) (nat (fd * 3 div 2))
                   else fm_datas m) in
      if fd < 0 \<or> length datas \<le> nat fd then Inl (Bad_access ''m_datas'')
      else Inr (addr, m\<lparr>fm_datas := datas[nat fd := Some addr], fm_heap := (fm_heap m)(addr := ctx)\<rparr>, k))"

definition FdManager_get ::
  "nat \<Rightarrow> kernel_fds \<Rightarrow> fdmanager \<Rightarrow> int \<Rightarrow> bool \<Rightarrow> (nat option \<times> fdmanager \<times> kernel_fds) res" where
  "FdManager_get addr k m fd auto_create =
     bindR (FdManager_look m fd auto_create) (\<lambda>r. case r of
       Some p \<Rightarrow> Inr (p, m, k)
     | None \<Rightarrow> bindR (FdManager_create addr k m fd) (\<lambda>(p, m, k). Inr (Some p, m, k)))"

definition FdManager_del :: "fdmanager \<Rightarrow> int \<Rightarrow> fdmanager res" where
  "FdManager_del m fd =
     (if int (length (fm_datas m)) \<le> fd then Inr m
      else if fd < 0 then Inl (Bad_access ''m_datas'')
      else Inr (m\<lparr>fm_datas := (fm_datas m)[nat fd := None]\<rparr>))"

end
