(* ===== verification/Lamb_Hook.thy ===== *)
theory Lamb_Hook
  imports Lamb_FdManager Lamb_IOManager
begin

text \<open>
  \<open>lamb/hook.cc\<close>: the replacements of the blocking system calls. The original functions
  (\<open>read_f\<close> and the others) are the kernel: \<open>kernel_fds\<close> for modes and flags, and the pair of
  result and \<open>errno\<close> of each call for transfers. A fiber inside \<open>do_io\<close> is a control point with the
  state the call shares with the rest of the program: the event manager, the timers and the
  \<open>timer_info\<close>; the step relation interleaves it with the kernel's events, the timeout callback and
  everybody else.
\<close>

section \<open>State\<close>

record hook =
  hk_enable :: bool
  hk_fm :: fdmanager
  hk_k :: kernel_fds
  hk_errno :: int

definition EINTR :: int where "EINTR = 4"
definition EBADF :: int where "EBADF = 9"
definition EAGAIN :: int where "EAGAIN = 11"
definition ETIMEDOUT :: int where "ETIMEDOUT = 110"
definition EINPROGRESS :: int where "EINPROGRESS = 115"

lemmas errno_consts = EINTR_def EBADF_def EAGAIN_def ETIMEDOUT_def EINPROGRESS_def

definition set_hook_enable :: "hook \<Rightarrow> bool \<Rightarrow> hook" where
  "set_hook_enable h flag = h\<lparr>hk_enable := flag\<rparr>"

text \<open>\<open>FdMgr::GetInstance ()->get (fd)\<close>: the pointer and what it points to.\<close>

definition hk_get :: "hook \<Rightarrow> int \<Rightarrow> (nat \<times> FdCtx) option res" where
  "hk_get h fd =
     bindR (FdManager_look (hk_fm h) fd False) (\<lambda>r.
       Inr (case r of Some (Some a) \<Rightarrow> Some (a, fm_heap (hk_fm h) a) | _ \<Rightarrow> None))"

definition hk_set :: "hook \<Rightarrow> nat \<Rightarrow> FdCtx \<Rightarrow> hook" where
  "hk_set h a c = h\<lparr>hk_fm := (hk_fm h)\<lparr>fm_heap := (fm_heap (hk_fm h))(a := c)\<rparr>\<rparr>"

section \<open>Sleeping\<close>

text \<open>The milliseconds of the timer: \<open>seconds * 1000\<close> is on \<open>unsigned int\<close>, and \<open>timeout_ms\<close> of
  \<open>nanosleep\<close> is an \<open>int\<close>.\<close>

definition sleep_ms :: "u32 \<Rightarrow> u64" where
  "sleep_ms seconds = ucast (seconds * 1000)"

definition usleep_ms :: "u32 \<Rightarrow> u64" where
  "usleep_ms usec = ucast (usec div 1000)"

definition c_div :: "int \<Rightarrow> int \<Rightarrow> int" where
  "c_div a b = sgn a * sgn b * (\<bar>a\<bar> div \<bar>b\<bar>)"

definition nanosleep_ms :: "int \<Rightarrow> int \<Rightarrow> u64" where
  "nanosleep_ms tv_sec tv_nsec = scast (word_of_int (tv_sec * 1000 + c_div (c_div tv_nsec 1000) 1000) :: u32)"

text \<open>The common body: \<open>None\<close> when the thread is not hooked and the original function sleeps; otherwise a
  timer that schedules the calling fiber, which yields.\<close>

definition hook_sleep :: "hook \<Rightarrow> u64 \<Rightarrow> nat \<Rightarrow> 'cb timer_manager \<Rightarrow> u64 \<Rightarrow> 'cb \<Rightarrow> 'cb timer_manager option" where
  "hook_sleep h now addr tm ms schedule_fiber =
     (if \<not> hk_enable h then None
      else Some (snd (addTimer now addr tm ms (Some (Plain schedule_fiber)) False)))"

section \<open>Descriptors\<close>

text \<open>\<open>fd\<close> is what \<open>socket_f\<close> or the accepting \<open>do_io\<close> returned.\<close>

definition hook_socket :: "nat \<Rightarrow> hook \<Rightarrow> int \<Rightarrow> (int \<times> hook) res" where
  "hook_socket addr h fd =
     (if \<not> hk_enable h \<or> fd = - 1 then Inr (fd, h)
      else bindR (FdManager_get addr (hk_k h) (hk_fm h) fd True) (\<lambda>(_, fm, k).
        Inr (fd, h\<lparr>hk_fm := fm, hk_k := k\<rparr>)))"

definition hook_accept :: "nat \<Rightarrow> hook \<Rightarrow> int \<Rightarrow> (int \<times> hook) res" where
  "hook_accept addr h fd =
     (if fd \<ge> 0 then bindR (FdManager_get addr (hk_k h) (hk_fm h) fd True) (\<lambda>(_, fm, k).
        Inr (fd, h\<lparr>hk_fm := fm, hk_k := k\<rparr>))
      else Inr (fd, h))"

text \<open>\<open>iom\<close> is \<open>IOManager::GetThis ()\<close>; the kernel's part of \<open>close\<close> is not in the state.\<close>

definition hook_close ::
  "int \<Rightarrow> hook \<Rightarrow> 'cb iomanager option \<Rightarrow> int \<Rightarrow> (hook \<times> 'cb iomanager option) res" where
  "hook_close rt h iom fd =
     (if \<not> hk_enable h then Inr (h, iom)
      else bindR (hk_get h fd) (\<lambda>c. case c of
        None \<Rightarrow> Inr (h, iom)
      | Some _ \<Rightarrow>
          bindR (case iom of None \<Rightarrow> Inr None
                 | Some m \<Rightarrow> bindR (cancelAll rt m fd) (\<lambda>(_, m). Inr (Some m))) (\<lambda>iom.
          bindR (FdManager_del (hk_fm h) fd) (\<lambda>fm. Inr (h\<lparr>hk_fm := fm\<rparr>, iom)))))"

text \<open>The commands of \<open>fcntl\<close> besides the two are handed to the kernel as they are.\<close>

datatype fcntl_cmd = F_SETFL u32 | F_GETFL | F_OTHER int "int option"

definition unmanaged :: "(nat \<times> FdCtx) option \<Rightarrow> bool" where
  "unmanaged c \<longleftrightarrow> (case c of None \<Rightarrow> True | Some (_, c) \<Rightarrow> fd_isClosed c \<or> \<not> fd_isSocket c)"

definition hook_fcntl :: "(int \<Rightarrow> int \<Rightarrow> int option \<Rightarrow> u32) \<Rightarrow> hook \<Rightarrow> int \<Rightarrow> fcntl_cmd \<Rightarrow> (u32 \<times> hook) res" where
  "hook_fcntl other_f h fd cmd =
     (case cmd of
        F_SETFL arg \<Rightarrow>
          bindR (hk_get h fd) (\<lambda>c.
            if unmanaged c then Inr (0, h\<lparr>hk_k := setfl_f (hk_k h) fd arg\<rparr>)
            else let (a, ctx) = the c;
                     ctx = ctx\<lparr>fd_userNonblock := (arg AND O_NONBLOCK \<noteq> 0)\<rparr>;
                     arg = (if fd_sysNonblock ctx then arg OR O_NONBLOCK else arg AND (NOT O_NONBLOCK)) in
              Inr (0, (hk_set h a ctx)\<lparr>hk_k := setfl_f (hk_k h) fd arg\<rparr>))
      | F_GETFL \<Rightarrow>
          let arg = getfl_f (hk_k h) fd in
          bindR (hk_get h fd) (\<lambda>c.
            if unmanaged c then Inr (arg, h)
            else if fd_userNonblock (snd (the c)) then Inr (arg OR O_NONBLOCK, h)
            else Inr (arg AND (NOT O_NONBLOCK), h))
      | F_OTHER n arg \<Rightarrow> Inr (other_f fd n arg, h))"

text \<open>\<open>ioctl (FIONBIO)\<close>: the kernel sets the mode as told.\<close>

definition fionbio_f :: "kernel_fds \<Rightarrow> int \<Rightarrow> bool \<Rightarrow> kernel_fds" where
  "fionbio_f k fd on =
     k\<lparr>kf_flags := (kf_flags k)(fd := if on then kf_flags k fd OR O_NONBLOCK else kf_flags k fd AND (NOT O_NONBLOCK))\<rparr>"

definition hook_ioctl :: "hook \<Rightarrow> int \<Rightarrow> int \<Rightarrow> hook res" where
  "hook_ioctl h d arg =
     (let user_nonblock = (arg \<noteq> 0) in
      bindR (hk_get h d) (\<lambda>c.
        if unmanaged c then Inr (h\<lparr>hk_k := fionbio_f (hk_k h) d user_nonblock\<rparr>)
        else let (a, ctx) = the c in
          Inr ((hk_set h a (ctx\<lparr>fd_userNonblock := user_nonblock\<rparr>))
                 \<lparr>hk_k := fionbio_f (hk_k h) d user_nonblock\<rparr>)))"

text \<open>\<open>setsockopt\<close> of a timeout at \<open>SOL_SOCKET\<close>.\<close>

definition timeval_ms :: "int \<Rightarrow> int \<Rightarrow> u64" where
  "timeval_ms tv_sec tv_usec = word_of_int (tv_sec * 1000 + c_div tv_usec 1000)"

definition hook_setsockopt :: "hook \<Rightarrow> int \<Rightarrow> timeout_type \<Rightarrow> int \<Rightarrow> int \<Rightarrow> hook res" where
  "hook_setsockopt h sockfd optname tv_sec tv_usec =
     (if \<not> hk_enable h then Inr h
      else bindR (hk_get h sockfd) (\<lambda>c. case c of
        None \<Rightarrow> Inr h
      | Some (a, ctx) \<Rightarrow> Inr (hk_set h a (FdCtx_setTimeout ctx optname (timeval_ms tv_sec tv_usec)))))"

section \<open>Transfers\<close>

datatype io_call = Call_accept | Call_read | Call_readv | Call_recv | Call_recvfrom | Call_recvmsg
  | Call_write | Call_writev | Call_send | Call_sendto | Call_sendmsg

definition call_event :: "io_call \<Rightarrow> Event" where
  "call_event c = (if c \<in> {Call_accept, Call_read, Call_readv, Call_recv, Call_recvfrom, Call_recvmsg} then READ else WRITE)"

definition call_timeout :: "io_call \<Rightarrow> timeout_type" where
  "call_timeout c = (if c \<in> {Call_accept, Call_read, Call_readv, Call_recv, Call_recvfrom, Call_recvmsg}
     then SO_RCVTIMEO else SO_SNDTIMEO)"

text \<open>How \<open>do_io\<close> starts: the plain call, an error, or the loop with a timeout.\<close>

datatype io_entry = Direct | Fail int | Hooked u64

definition do_io_enter :: "hook \<Rightarrow> int \<Rightarrow> timeout_type \<Rightarrow> io_entry res" where
  "do_io_enter h fd timeout_so =
     (if \<not> hk_enable h then Inr Direct
      else bindR (hk_get h fd) (\<lambda>c. case c of
        None \<Rightarrow> Inr Direct
      | Some (_, ctx) \<Rightarrow>
          if fd_isClosed ctx then Inr (Fail EBADF)
          else if \<not> fd_isSocket ctx \<or> fd_userNonblock ctx then Inr Direct
          else Inr (Hooked (FdCtx_getTimeout ctx timeout_so))))"

text \<open>Inside the loop: about to call, suspended at \<open>yield\<close>, woken, returned. The waiting states hold the
  timer, if any.\<close>

text \<open>\<open>d_fired\<close> records that the timer manager handed out a timeout callback of this call.\<close>

datatype io_pc = Try | Waiting "nat option" | Woken "nat option" | Done int

type_synonym timeout_cb = "int \<times> Event"

record dio =
  d_io :: "timeout_cb timer_cb iomanager"
  d_tm :: "timeout_cb timer_manager"
  d_cancelled :: int
  d_errno :: int
  d_fired :: bool

record dio_call =
  c_fd :: nat
  c_event :: Event
  c_to :: u64
  c_tinfo :: nat
  c_sched :: nat
  c_fiber :: nat

definition cancel_timer :: "nat option \<Rightarrow> dio \<Rightarrow> dio res" where
  "cancel_timer timer d =
     (case timer of None \<Rightarrow> Inr d
      | Some a \<Rightarrow> bindR (timer_cancel (d_tm d) a) (\<lambda>(_, tm). Inr (d\<lparr>d_tm := tm\<rparr>)))"

text \<open>The branch of \<open>EAGAIN\<close> up to \<open>yield\<close>: \<open>now\<close> and \<open>addr\<close> are the time and address of a new timer,
  \<open>rt\<close> the result of \<open>epoll_ctl\<close>.\<close>

definition do_io_block :: "dio_call \<Rightarrow> u64 \<Rightarrow> nat \<Rightarrow> int \<Rightarrow> dio \<Rightarrow> (io_pc \<times> dio) res" where
  "do_io_block c now addr rt d =
     (let timer = (if c_to c \<noteq> NOT 0 then Some addr else None);
          tm = (if c_to c \<noteq> NOT 0
                then snd (addConditionTimer now addr (d_tm d) (c_to c) (int (c_fd c), c_event c) (c_tinfo c) False)
                else d_tm d) in
      bindR (addEvent rt (Some (c_sched c)) (c_fiber c) RUNNING (d_io d) (int (c_fd c)) (c_event c) None)
        (\<lambda>(r, io).
          let d = d\<lparr>d_io := io, d_tm := tm\<rparr> in
          if r \<noteq> 0 then bindR (cancel_timer timer d) (\<lambda>d. Inr (Done (- 1), d))
          else Inr (Waiting timer, d)))"

text \<open>One call of \<open>fun\<close> that returned \<open>n\<close> and left \<open>e\<close> in \<open>errno\<close>.\<close>

definition do_io_try :: "dio_call \<Rightarrow> int \<Rightarrow> int \<Rightarrow> u64 \<Rightarrow> nat \<Rightarrow> int \<Rightarrow> dio \<Rightarrow> (io_pc \<times> dio) res" where
  "do_io_try c n e now addr rt d =
     (let d = (if n = - 1 then d\<lparr>d_errno := e\<rparr> else d) in
      if n = - 1 \<and> d_errno d = EINTR then Inr (Try, d)
      else if n = - 1 \<and> d_errno d = EAGAIN then do_io_block c now addr rt d
      else Inr (Done n, d))"

definition do_io_resume :: "nat option \<Rightarrow> dio \<Rightarrow> (io_pc \<times> dio) res" where
  "do_io_resume timer d =
     bindR (cancel_timer timer d) (\<lambda>d.
       if d_cancelled d \<noteq> 0 then Inr (Done (- 1), d\<lparr>d_errno := d_cancelled d\<rparr>)
       else Inr (Try, d))"

text \<open>The callback of the timer, while the \<open>timer_info\<close> is alive.\<close>

definition do_io_timeout :: "dio_call \<Rightarrow> int \<Rightarrow> dio \<Rightarrow> dio res" where
  "do_io_timeout c rt d =
     (if d_cancelled d \<noteq> 0 then Inr d
      else bindR (cancelEvent rt (d_io d) (int (c_fd c)) (c_event c)) (\<lambda>(_, io).
        Inr (d\<lparr>d_cancelled := ETIMEDOUT, d_io := io\<rparr>)))"

section \<open>Connecting\<close>

text \<open>\<open>connect_with_timeout\<close> up to the wait: the plain call, a result, or the wait with the timeout.\<close>

datatype connect_entry = Connect_direct | Connect_result int "int option" | Connect_wait u64

definition connect_enter :: "hook \<Rightarrow> int \<Rightarrow> u64 \<Rightarrow> int \<Rightarrow> int \<Rightarrow> connect_entry res" where
  "connect_enter h fd timeout_ms n e =
     (if \<not> hk_enable h then Inr Connect_direct
      else bindR (hk_get h fd) (\<lambda>c. case c of
        None \<Rightarrow> Inr (Connect_result (- 1) (Some EBADF))
      | Some (_, ctx) \<Rightarrow>
          if fd_isClosed ctx then Inr (Connect_result (- 1) (Some EBADF))
          else if \<not> fd_isSocket ctx then Inr Connect_direct
          else if fd_userNonblock ctx then Inr Connect_direct
          else if n = 0 then Inr (Connect_result 0 None)
          else if n \<noteq> - 1 \<or> e \<noteq> EINPROGRESS then Inr (Connect_result n None)
          else Inr (Connect_wait timeout_ms)))"

text \<open>The end: \<open>so\<close> is what \<open>getsockopt (SO_ERROR)\<close> delivers, \<open>None\<close> when it fails.\<close>

definition connect_finish :: "int option \<Rightarrow> dio \<Rightarrow> int \<times> dio" where
  "connect_finish so d =
     (case so of None \<Rightarrow> (- 1, d)
      | Some err \<Rightarrow> if err = 0 then (0, d) else (- 1, d\<lparr>d_errno := err\<rparr>))"

text \<open>The wait: either suspended with the timer, or, when \<open>addEvent\<close> failed, straight to the end.\<close>

definition connect_block :: "dio_call \<Rightarrow> u64 \<Rightarrow> nat \<Rightarrow> int \<Rightarrow> int option \<Rightarrow> dio \<Rightarrow> (io_pc \<times> dio) res" where
  "connect_block c now addr rt so d =
     (let timer = (if c_to c \<noteq> NOT 0 then Some addr else None);
          tm = (if c_to c \<noteq> NOT 0
                then snd (addConditionTimer now addr (d_tm d) (c_to c) (int (c_fd c), WRITE) (c_tinfo c) False)
                else d_tm d) in
      bindR (addEvent rt (Some (c_sched c)) (c_fiber c) RUNNING (d_io d) (int (c_fd c)) WRITE None)
        (\<lambda>(r, io).
          let d = d\<lparr>d_io := io, d_tm := tm\<rparr> in
          if r = 0 then Inr (Waiting timer, d)
          else bindR (cancel_timer timer d) (\<lambda>d. let (n, d) = connect_finish so d in Inr (Done n, d))))"

definition connect_resume :: "nat option \<Rightarrow> int option \<Rightarrow> dio \<Rightarrow> (io_pc \<times> dio) res" where
  "connect_resume timer so d =
     bindR (cancel_timer timer d) (\<lambda>d.
       if d_cancelled d \<noteq> 0 then Inr (Done (- 1), d\<lparr>d_errno := d_cancelled d\<rparr>)
       else let (n, d) = connect_finish so d in Inr (Done n, d))"


section \<open>A call among the others\<close>

definition registered :: "dio_call \<Rightarrow> timeout_cb timer_cb iomanager \<Rightarrow> bool" where
  "registered c io \<longleftrightarrow>
     c_fd c < length (io_fdContexts io) \<and> fc_events (io_fdContexts io ! c_fd c) AND c_event c \<noteq> 0"

definition own_timer :: "dio_call \<Rightarrow> timeout_cb theap \<Rightarrow> nat \<Rightarrow> bool" where
  "own_timer c h a \<longleftrightarrow> (\<exists>x. cb_of h a = Some (OnTimer (c_tinfo c) x))"

text \<open>A suspended fiber is scheduled when its event is gone.\<close>

fun settle :: "dio_call \<Rightarrow> io_pc \<Rightarrow> dio \<Rightarrow> io_pc" where
  "settle c (Waiting t) d = (if registered c (d_io d) then Waiting t else Woken t)"
| "settle c pc d = pc"

text \<open>
  The steps, with their result when an assertion fails: the call itself, an event on the descriptor, the
  expiry of timers, the timeout callback after it was handed out, and anything the rest of the program
  does that respects the invariants, does not register this event and does not touch the timers of this call.
\<close>

inductive do_io_step :: "dio_call \<Rightarrow> io_pc \<times> dio \<Rightarrow> (io_pc \<times> dio) res \<Rightarrow> bool" for c where
  call: "tm_heap (d_tm d) addr = None \<Longrightarrow> do_io_step c (Try, d) (do_io_try c n e now addr rt d)"
| resume: "do_io_step c (Woken t, d) (do_io_resume t d)"
| event: "reported (fc_events (io_fdContexts (d_io d) ! c_fd c)) evs \<Longrightarrow>
    do_io_step c (Waiting t, d)
      (bindR (idle_event rt (d_io d) (c_fd c) evs) (\<lambda>io. Inr (settle c (Waiting t) (d\<lparr>d_io := io\<rparr>), d\<lparr>d_io := io\<rparr>)))"
| expire: "listExpiredCb now nt (d_tm d) = (cbs, tm) \<Longrightarrow> nt \<notin> set (tm_timers (d_tm d)) \<Longrightarrow>
    \<forall>n. pc \<noteq> Done n \<Longrightarrow>
    do_io_step c (pc, d)
      (Inr (pc, d\<lparr>d_tm := tm, d_fired := d_fired d \<or> (\<exists>x. Some (OnTimer (c_tinfo c) x) \<in> set cbs)\<rparr>))"
| timeout: "d_fired d \<Longrightarrow> \<forall>n. pc \<noteq> Done n \<Longrightarrow>
    do_io_step c (pc, d) (bindR (do_io_timeout c rt d) (\<lambda>d. Inr (settle c pc d, d)))"
| others: "io_inv io \<Longrightarrow> tm_inv tm \<Longrightarrow> registered c io \<longrightarrow> registered c (d_io d) \<Longrightarrow>
    \<forall>a. own_timer c (tm_heap tm) a = own_timer c (tm_heap (d_tm d)) a \<Longrightarrow>
    dom (tm_heap (d_tm d)) \<subseteq> dom (tm_heap tm) \<Longrightarrow> \<forall>n. pc \<noteq> Done n \<Longrightarrow>
    do_io_step c (pc, d) (Inr (settle c pc (d\<lparr>d_io := io, d_tm := tm\<rparr>), d\<lparr>d_io := io, d_tm := tm\<rparr>))"

inductive do_io_reach :: "dio_call \<Rightarrow> io_pc \<times> dio \<Rightarrow> bool" for c where
  start: "io_inv (d_io d) \<Longrightarrow> tm_inv (d_tm d) \<Longrightarrow> \<not> registered c (d_io d) \<Longrightarrow>
    \<forall>a. \<not> own_timer c (tm_heap (d_tm d)) a \<Longrightarrow> d_cancelled d = 0 \<Longrightarrow> \<not> d_fired d \<Longrightarrow> do_io_reach c (Try, d)"
| step: "do_io_reach c s \<Longrightarrow> do_io_step c s (Inr s') \<Longrightarrow> do_io_reach c s'"

fun pc_timers :: "io_pc \<Rightarrow> nat set" where
  "pc_timers (Waiting t) = set_option t"
| "pc_timers (Woken t) = set_option t"
| "pc_timers pc = {}"

definition dio_ok :: "dio_call \<Rightarrow> io_pc \<times> dio \<Rightarrow> bool" where
  "dio_ok c s \<longleftrightarrow>
     (case s of (pc, d) \<Rightarrow>
       io_inv (d_io d) \<and> tm_inv (d_tm d) \<and>
       (registered c (d_io d) \<longleftrightarrow> (\<exists>t. pc = Waiting t)) \<and>
       (\<forall>a. own_timer c (tm_heap (d_tm d)) a \<longrightarrow> a \<in> pc_timers pc) \<and>
       pc_timers pc \<subseteq> dom (tm_heap (d_tm d)) \<and>
       (d_cancelled d = 0 \<or> d_cancelled d = ETIMEDOUT \<and> d_fired d) \<and>
       (d_fired d \<longrightarrow> c_to c \<noteq> NOT 0) \<and>
       ((\<exists>a. own_timer c (tm_heap (d_tm d)) a) \<longrightarrow> c_to c \<noteq> NOT 0) \<and>
       (\<forall>n. pc = Done n \<longrightarrow> n = - 1 \<longrightarrow> d_errno d \<noteq> EINTR))"

lemma do_io_timeout_ok:
  assumes "io_inv (d_io d)" and "c_event c = READ \<or> c_event c = WRITE"
  obtains io where "do_io_timeout c rt d = Inr (if d_cancelled d \<noteq> 0 then d else d\<lparr>d_cancelled := ETIMEDOUT, d_io := io\<rparr>)"
    and "io_inv io" and "registered c io \<longrightarrow> registered c (d_io d)"
proof -
  let ?m = "d_io d" and ?i = "c_fd c"
  obtain r io where c: "cancelEvent rt ?m (int ?i) (c_event c) = Inr (r, io)" "io_inv io"
      "registered c io \<longrightarrow> registered c ?m"
  proof (cases "?i < length (io_fdContexts ?m)")
    case False
    then have "cancelEvent rt ?m (int ?i) (c_event c) = Inr (False, ?m)" by (simp add: cancelEvent_def find_ctx_def)
    then show ?thesis using that assms(1) by blast
  next
    case True
    note ok = cancelEvent_ok [OF assms(1) True assms(2), of rt]
    show ?thesis
    proof (cases "fc_events (io_fdContexts ?m ! ?i) AND c_event c = 0 \<or> rt \<noteq> 0")
      case True
      then show ?thesis using that [of False ?m] ok assms(1) by auto
    next
      case False
      then show ?thesis
        using that [of True "without_event ?m ?i (c_event c) True"] ok True
          without_event_inv [OF assms(1) True assms(2), of True]
        by (simp add: registered_def)
    qed
  qed
  then show ?thesis using that [of io] by (simp add: do_io_timeout_def)
qed

lemma cancel_timer_ok:
  assumes "tm_inv (d_tm d)" and "set_option t \<subseteq> dom (tm_heap (d_tm d))"
    and "\<forall>a. own_timer c (tm_heap (d_tm d)) a \<longrightarrow> a \<in> set_option t"
  obtains tm where "cancel_timer t d = Inr (d\<lparr>d_tm := tm\<rparr>)" and "tm_inv tm"
    and "\<forall>a. \<not> own_timer c (tm_heap tm) a"
proof (cases t)
  case None
  then show ?thesis using that [of "d_tm d"] assms by (simp add: cancel_timer_def)
next
  case (Some a)
  with assms(2) obtain tt where tt: "tm_heap (d_tm d) a = Some tt" by auto
  from timer_cancel_ok [OF assms(1) tt] obtain tm where
    tm: "timer_cancel (d_tm d) a = Inr (t_cb tt \<noteq> None, tm)" "tm_inv tm"
      "tm_heap tm = (tm_heap (d_tm d))(a \<mapsto> tt\<lparr>t_cb := None\<rparr>)" by blast
  have "\<not> own_timer c (tm_heap tm) b" for b
    using assms(3) Some by (cases "b = a") (auto simp: own_timer_def cb_of_def tm(3))
  then show ?thesis using that [OF _ tm(2)] tm(1) Some by (simp add: cancel_timer_def)
qed

lemma block_timer:
  assumes "tm_inv (d_tm d)" and "tm_heap (d_tm d) addr = None"
    and "\<forall>a. \<not> own_timer c (tm_heap (d_tm d)) a"
    and tm: "tm = (if c_to c \<noteq> NOT 0
                then snd (addConditionTimer now addr (d_tm d) (c_to c) x (c_tinfo c) False) else d_tm d)"
    and timer: "timer = (if c_to c \<noteq> NOT 0 then Some addr else None)"
  shows "tm_inv tm" and "set_option timer \<subseteq> dom (tm_heap tm)"
    and "\<forall>a. own_timer c (tm_heap tm) a \<longrightarrow> a \<in> set_option timer"
    and "(\<exists>a. own_timer c (tm_heap tm) a) \<longrightarrow> c_to c \<noteq> NOT 0"
proof -
  obtain front m' where a: "addTimer now addr (d_tm d) (c_to c) (Some (OnTimer (c_tinfo c) x)) False = (front, m')"
    by (cases "addTimer now addr (d_tm d) (c_to c) (Some (OnTimer (c_tinfo c) x)) False") auto
  have h: "tm_heap m' = (tm_heap (d_tm d))(addr \<mapsto>
      \<lparr>t_recurring = False, t_ms = c_to c, t_next = now + c_to c, t_cb = Some (OnTimer (c_tinfo c) x)\<rparr>)"
    using a by (auto simp: addTimer_def addTimer_locked_def Let_def)
  note inv = addTimer_inv(1) [OF assms(1,2) a]
  have "tm = (if c_to c \<noteq> NOT 0 then m' else d_tm d)" by (simp add: tm addConditionTimer_def a)
  with h inv assms(1,3) show "tm_inv tm" "set_option timer \<subseteq> dom (tm_heap tm)"
    "\<forall>a. own_timer c (tm_heap tm) a \<longrightarrow> a \<in> set_option timer"
    "(\<exists>a. own_timer c (tm_heap tm) a) \<longrightarrow> c_to c \<noteq> NOT 0"
    by (auto simp: timer own_timer_def cb_of_def split: if_splits)
qed


lemma addEvent_wait:
  assumes "io_inv io" and "\<not> registered c io" and "c_event c = READ \<or> c_event c = WRITE"
  obtains r io' where "addEvent rt (Some sch) f RUNNING io (int (c_fd c)) (c_event c) None = Inr (r, io')"
    and "io_inv io'" and "registered c io' \<longleftrightarrow> r = 0" and "r = 0 \<longleftrightarrow> rt = 0"
proof -
  let ?i = "c_fd c" and ?ev = "c_event c" and ?m = "grown io (c_fd c)"
  let ?ec = "\<lparr>ec_scheduler = Some sch, ec_fiber = Some f, ec_cb = None\<rparr>"
  note g = grown_ok [OF assms(1), of ?i]
  have off: "fc_events (io_fdContexts ?m ! ?i) AND ?ev = 0"
  proof (cases "?i < length (io_fdContexts io)")
    case True
    then show ?thesis using assms(2) g(3) [of ?i] by (simp add: registered_def)
  next
    case False
    with g(2) show ?thesis
      by (simp add: grown_def contextResize_grow nth_append newFdContext_def event_consts)
  qed
  have ok: "addEvent rt (Some sch) f RUNNING io (int ?i) ?ev None =
      (if rt \<noteq> 0 then Inr (- 1, ?m) else Inr (0, with_event ?m ?i ?ev ?ec))"
    using addEvent_ok [OF assms(1,3), of None RUNNING rt "Some sch" f ?i] off by simp
  show ?thesis
  proof (cases "rt \<noteq> 0")
    case True
    then show ?thesis using that [of "- 1" ?m] ok g(1) off by (simp add: registered_def)
  next
    case False
    have "(fc_events (io_fdContexts ?m ! ?i) OR ?ev) AND ?ev \<noteq> 0"
      using assms(3) by (auto simp: event_consts word_ao_dist)
    then have "registered c (with_event ?m ?i ?ev ?ec)"
      using g(2) assms(3) by (auto simp: registered_def with_event_def Let_def setEventContext_def)
    moreover have "io_inv (with_event ?m ?i ?ev ?ec)"
      using with_event_inv [OF g(1,2) assms(3) off, of ?ec] by simp
    ultimately show ?thesis using that [of 0] ok False by simp
  qed
qed

lemma expire_ok:
  assumes "tm_inv tm" and "nt \<notin> set (tm_timers tm)" and "listExpiredCb now nt tm = (cbs, tm')"
  shows "tm_inv tm' \<and> (\<forall>a. own_timer c (tm_heap tm') a \<longrightarrow> own_timer c (tm_heap tm) a) \<and>
         dom (tm_heap tm') = dom (tm_heap tm) \<and>
         ((\<exists>x. Some (OnTimer (c_tinfo c) x) \<in> set cbs) \<longrightarrow> (\<exists>a. own_timer c (tm_heap tm) a))"
proof (cases "tm_timers tm = []")
  case True
  with assms show ?thesis by (simp add: listExpiredCb_def)
next
  case False
  let ?h = "tm_heap tm"
  obtain due where l: "cbs = map (cb_of ?h) (filter due (tm_timers tm))" "tm_inv tm'"
      "tm_heap tm' = (\<lambda>a. if a \<in> set (tm_timers tm) \<and> due a then map_option (fired now) (?h a) else ?h a)"
    using listExpiredCb_ok [OF assms(1,2) refl False, of now] assms(3) by auto
  have "cb_of (tm_heap tm') a = cb_of ?h a \<or> cb_of (tm_heap tm') a = None" for a
    by (auto simp: l(3) cb_of_def fired_def split: option.split)
  then have "own_timer c (tm_heap tm') a \<longrightarrow> own_timer c ?h a" for a
    unfolding own_timer_def by (metis option.distinct(1))
  moreover have "dom (tm_heap tm') = dom ?h" by (auto simp: l(3) split: if_splits)
  moreover have "\<exists>a. own_timer c ?h a" if "Some (OnTimer (c_tinfo c) x) \<in> set cbs" for x
    using that unfolding l(1) own_timer_def by (metis imageE list.set_map)
  ultimately show ?thesis using l(2) by blast
qed


lemma do_io_block_ok:
  assumes "io_inv (d_io d)" and "tm_inv (d_tm d)" and "\<not> registered c (d_io d)"
    and "\<forall>a. \<not> own_timer c (tm_heap (d_tm d)) a" and "tm_heap (d_tm d) addr = None"
    and "c_event c = READ \<or> c_event c = WRITE"
  obtains pc io tm where "do_io_block c now addr rt d = Inr (pc, d\<lparr>d_io := io, d_tm := tm\<rparr>)"
    and "io_inv io" and "tm_inv tm" and "registered c io \<longleftrightarrow> (\<exists>t. pc = Waiting t)"
    and "\<forall>a. own_timer c (tm_heap tm) a \<longrightarrow> a \<in> pc_timers pc" and "pc_timers pc \<subseteq> dom (tm_heap tm)"
    and "(\<exists>a. own_timer c (tm_heap tm) a) \<longrightarrow> c_to c \<noteq> NOT 0" and "pc = Done (- 1) \<or> (\<exists>t. pc = Waiting t)"
proof -
  define tm where "tm = (if c_to c \<noteq> NOT 0
    then snd (addConditionTimer now addr (d_tm d) (c_to c) (int (c_fd c), c_event c) (c_tinfo c) False) else d_tm d)"
  define timer where "timer = (if c_to c \<noteq> NOT 0 then Some addr else None)"
  note b = block_timer [OF assms(2,5,4) tm_def timer_def]
  obtain r io where a: "addEvent rt (Some (c_sched c)) (c_fiber c) RUNNING (d_io d) (int (c_fd c)) (c_event c) None = Inr (r, io)"
      "io_inv io" "registered c io \<longleftrightarrow> r = 0"
    by (rule addEvent_wait [OF assms(1,3,6)])
  have blk: "do_io_block c now addr rt d =
      (if r \<noteq> 0 then bindR (cancel_timer timer (d\<lparr>d_io := io, d_tm := tm\<rparr>)) (\<lambda>d. Inr (Done (- 1), d))
       else Inr (Waiting timer, d\<lparr>d_io := io, d_tm := tm\<rparr>))"
    unfolding do_io_block_def Let_def a(1) bindR.simps prod.case timer_def tm_def ..
  show ?thesis
  proof (cases "r = 0")
    case True
    then show ?thesis
      using that [of "Waiting timer" tm io] a(2,3) b blk by simp
  next
    case False
    let ?d = "d\<lparr>d_io := io, d_tm := tm\<rparr>"
    obtain tm' where "cancel_timer timer ?d = Inr (?d\<lparr>d_tm := tm'\<rparr>)" "tm_inv tm'" "\<forall>a. \<not> own_timer c (tm_heap tm') a"
      using cancel_timer_ok [of ?d timer c] b by auto
    then show ?thesis
      using that [of "Done (- 1)" tm' io] a(2,3) blk False by simp
  qed
qed

lemma settle_timers [simp]: "pc_timers (settle c pc d) = pc_timers pc"
  by (cases pc) simp_all

lemma settle_Done [simp]: "settle c pc d = Done n \<longleftrightarrow> pc = Done n"
  by (cases pc) simp_all

lemma settle_registered:
  assumes "registered c io \<longrightarrow> registered c (d_io d)" and "registered c (d_io d) \<longleftrightarrow> (\<exists>t. pc = Waiting t)"
  shows "registered c io \<longleftrightarrow> (\<exists>t. settle c pc (d\<lparr>d_io := io, d_tm := tm\<rparr>) = Waiting t)"
  using assms by (cases pc) auto

lemma dio_ok_step:
  assumes "do_io_step c s r" and "dio_ok c s" and ev: "c_event c = READ \<or> c_event c = WRITE"
  shows "\<exists>s'. r = Inr s' \<and> dio_ok c s'"
  using assms(1,2)
proof cases
  case (call d addr n e now rt)
  let ?d = "if n = - 1 then d\<lparr>d_errno := e\<rparr> else d"
  have inv: "io_inv (d_io ?d)" "tm_inv (d_tm ?d)" "\<not> registered c (d_io ?d)"
    "\<forall>a. \<not> own_timer c (tm_heap (d_tm ?d)) a" "tm_heap (d_tm ?d) addr = None"
    using assms(2) call by (auto simp: dio_ok_def)
  obtain pc io tm where b: "do_io_block c now addr rt ?d = Inr (pc, ?d\<lparr>d_io := io, d_tm := tm\<rparr>)"
    "io_inv io" "tm_inv tm" "registered c io \<longleftrightarrow> (\<exists>t. pc = Waiting t)"
    "\<forall>a. own_timer c (tm_heap tm) a \<longrightarrow> a \<in> pc_timers pc" "pc_timers pc \<subseteq> dom (tm_heap tm)"
    "(\<exists>a. own_timer c (tm_heap tm) a) \<longrightarrow> c_to c \<noteq> NOT 0" "pc = Done (- 1) \<or> (\<exists>t. pc = Waiting t)"
    by (rule do_io_block_ok [OF inv ev])
  show ?thesis
  proof (cases "n = - 1 \<and> d_errno ?d = EAGAIN")
    case True
    then have "do_io_try c n e now addr rt d = do_io_block c now addr rt ?d"
      unfolding do_io_try_def Let_def by (auto simp: errno_consts)
    then have r: "r = Inr (pc, ?d\<lparr>d_io := io, d_tm := tm\<rparr>)" using call(2) b(1) by simp
    have "d_cancelled d = 0 \<or> d_cancelled d = ETIMEDOUT \<and> d_fired d" "d_fired d \<longrightarrow> c_to c \<noteq> NOT 0"
      using assms(2) call(1) by (simp_all add: dio_ok_def)
    moreover have "d_errno ?d \<noteq> EINTR" using True by (cases "n = - 1") (simp_all add: errno_consts)
    ultimately have "dio_ok c (pc, ?d\<lparr>d_io := io, d_tm := tm\<rparr>)"
      using b(2-7) unfolding dio_ok_def by simp
    with r show ?thesis by blast
  next
    case False
    then show ?thesis
      using assms(2) call by (auto simp: do_io_try_def dio_ok_def Let_def)
  qed
next
  case (resume t d)
  obtain tm where t: "cancel_timer t d = Inr (d\<lparr>d_tm := tm\<rparr>)" "tm_inv tm" "\<forall>a. \<not> own_timer c (tm_heap tm) a"
    using cancel_timer_ok [of d t c] assms(2) resume by (auto simp: dio_ok_def)
  then show ?thesis
    using assms(2) resume by (auto simp: do_io_resume_def dio_ok_def errno_consts)
next
  case (event d evs t rt)
  have "io_inv (d_io d)" "c_fd c < length (io_fdContexts (d_io d))"
    using assms(2) event by (auto simp: dio_ok_def registered_def)
  then obtain io where io: "idle_event rt (d_io d) (c_fd c) evs = Inr io" "io_inv io"
    using idle_event_ok [of "d_io d" "c_fd c" evs rt] idle_event_inv [of "d_io d" "c_fd c"] event(3)
    by (auto split: if_splits)
  then show ?thesis using assms(2) event by (auto simp: dio_ok_def)
next
  case (expire now nt d cbs tm pc)
  then show ?thesis
    using assms(2) expire_ok [of "d_tm d" nt now cbs tm c] by (auto simp: dio_ok_def)
next
  case (timeout d pc rt)
  obtain io where io: "do_io_timeout c rt d = Inr (if d_cancelled d \<noteq> 0 then d else d\<lparr>d_cancelled := ETIMEDOUT, d_io := io\<rparr>)"
      "io_inv io" "registered c io \<longrightarrow> registered c (d_io d)"
    using do_io_timeout_ok [OF _ ev, of d rt] assms(2) timeout by (auto simp: dio_ok_def)
  then show ?thesis using assms(2) timeout by (cases pc) (auto simp: dio_ok_def)
next
  case (others io tm d pc)
  have ok: "registered c (d_io d) \<longleftrightarrow> (\<exists>t. pc = Waiting t)" "\<forall>a. own_timer c (tm_heap (d_tm d)) a \<longrightarrow> a \<in> pc_timers pc"
    "pc_timers pc \<subseteq> dom (tm_heap (d_tm d))" "d_cancelled d = 0 \<or> d_cancelled d = ETIMEDOUT \<and> d_fired d"
    "d_fired d \<longrightarrow> c_to c \<noteq> NOT 0" "(\<exists>a. own_timer c (tm_heap (d_tm d)) a) \<longrightarrow> c_to c \<noteq> NOT 0"
    using assms(2) unfolding others(1) by (simp_all add: dio_ok_def)
  have "pc_timers pc \<subseteq> dom (tm_heap tm)" using ok(3) others(7) by (rule subset_trans)
  with ok(2,4-6) settle_registered [OF others(5) ok(1), of tm] others(3,4,6,8)
  have "dio_ok c (settle c pc (d\<lparr>d_io := io, d_tm := tm\<rparr>), d\<lparr>d_io := io, d_tm := tm\<rparr>)"
    unfolding dio_ok_def prod.case by (intro conjI) (simp_all, blast?)
  with others(2) show ?thesis by blast
qed

lemma do_io_reach_ok: "do_io_reach c s \<Longrightarrow> c_event c = READ \<or> c_event c = WRITE \<Longrightarrow> dio_ok c s"
proof (induction rule: do_io_reach.induct)
  case (start d)
  then show ?case by (auto simp: dio_ok_def)
next
  case (step s s')
  then show ?case using dio_ok_step by blast
qed


section \<open>Managed sockets\<close>

text \<open>The sockets in the table are non-blocking in the kernel and known to be.\<close>

definition hook_inv :: "hook \<Rightarrow> bool" where
  "hook_inv h \<longleftrightarrow> 64 \<le> length (fm_datas (hk_fm h)) \<and>
     (\<forall>fd a. fd < length (fm_datas (hk_fm h)) \<longrightarrow> fm_datas (hk_fm h) ! fd = Some a \<longrightarrow>
        fd_fd (fm_heap (hk_fm h) a) = int fd \<and>
        (fd_isSocket (fm_heap (hk_fm h) a) \<longrightarrow> fd_sysNonblock (fm_heap (hk_fm h) a) \<and> nonblocking (hk_k h) (int fd)))"

lemma hook_invD:
  "hook_inv h \<Longrightarrow> fd < length (fm_datas (hk_fm h)) \<Longrightarrow> fm_datas (hk_fm h) ! fd = Some a \<Longrightarrow>
    fd_fd (fm_heap (hk_fm h) a) = int fd \<and>
    (fd_isSocket (fm_heap (hk_fm h) a) \<longrightarrow> fd_sysNonblock (fm_heap (hk_fm h) a) \<and> nonblocking (hk_k h) (int fd))"
  by (simp add: hook_inv_def)

definition managed :: "hook \<Rightarrow> nat \<Rightarrow> nat \<Rightarrow> bool" where
  "managed h fd a \<longleftrightarrow> fd < length (fm_datas (hk_fm h)) \<and> fm_datas (hk_fm h) ! fd = Some a \<and>
     fd_isSocket (fm_heap (hk_fm h) a) \<and> \<not> fd_isClosed (fm_heap (hk_fm h) a)"

lemma hk_get_managed: "managed h fd a \<Longrightarrow> hk_get h (int fd) = Inr (Some (a, fm_heap (hk_fm h) a))"
  by (simp add: managed_def hk_get_def FdManager_look_def)

lemma bit_nonblock: "bit O_NONBLOCK n \<longleftrightarrow> n = 11"
  using bit_exp_iff [of 11 n, where 'a = u32] by (auto simp: O_NONBLOCK_def)

lemma nonblock_bit: "v AND O_NONBLOCK = 0 \<longleftrightarrow> \<not> bit v 11" for v :: u32
  using and_exp_eq_0_iff_not_bit [of v 11] by (simp add: O_NONBLOCK_def)

lemma bit_3_u32: "bit (3 :: u32) 11 = False"
  by simp

lemmas nonblock_simps = nonblock_bit nonblocking_def bit_or_iff bit_and_iff bit_not_iff bit_nonblock bit_3_u32


lemma nonblocking_setfl: "nonblocking (setfl_f k fd arg) fd' \<longleftrightarrow> (if fd' = fd then arg AND O_NONBLOCK \<noteq> 0 else nonblocking k fd')"
  by (auto simp: setfl_f_def nonblock_simps)

lemma newFdCtx_ok:
  assumes "newFdCtx k fd = (ctx, k')"
  shows "fd_fd ctx = fd" and "fd_isSocket ctx \<longleftrightarrow> kf_sock k fd = Some True"
    and "fd_isSocket ctx \<Longrightarrow> fd_sysNonblock ctx \<and> nonblocking k' fd"
    and "fd' \<noteq> fd \<Longrightarrow> nonblocking k' fd' = nonblocking k fd'"
    and "\<not> fd_userNonblock ctx" and "\<not> fd_isClosed ctx"
  using assms
  by (auto simp: newFdCtx_def FdCtx_init_def Let_def setfl_f_def nonblock_simps bit_1_iff
      split: option.splits if_splits)

lemma hook_inv_create:
  assumes "hook_inv h" and "FdManager_create addr (hk_k h) (hk_fm h) fd = Inr (p, fm, k)"
    and "Some addr \<notin> set (fm_datas (hk_fm h))" and "0 \<le> fd"
  shows "hook_inv (h\<lparr>hk_fm := fm, hk_k := k\<rparr>)"
    and "kf_sock (hk_k h) fd = Some True \<Longrightarrow> managed (h\<lparr>hk_fm := fm, hk_k := k\<rparr>) (nat fd) addr"
proof -
  let ?old = "fm_datas (hk_fm h)"
  obtain ctx where c: "newFdCtx (hk_k h) fd = (ctx, k)"
    using assms(2) by (cases "newFdCtx (hk_k h) fd") (auto simp: FdManager_create_def Let_def split: if_splits)
  define datas where "datas = (if int (length ?old) \<le> fd then resize_table ?old (nat (fd * 3 div 2)) else ?old)"
  have fm: "fm = (hk_fm h)\<lparr>fm_datas := datas[nat fd := Some addr], fm_heap := (fm_heap (hk_fm h))(addr := ctx)\<rparr>"
    and len: "nat fd < length datas"
    using assms(2) c by (auto simp: FdManager_create_def Let_def datas_def split: if_splits)
  have old: "datas ! i = None \<or> i < length ?old \<and> datas ! i = ?old ! i" if "i < length datas" for i
    using that by (auto simp: datas_def resize_table_def nth_append min_def split: if_splits)
  note n = newFdCtx_ok [OF c]
  show "hook_inv (h\<lparr>hk_fm := fm, hk_k := k\<rparr>)"
    unfolding hook_inv_def
  proof (intro conjI [OF _ allI [OF allI]] impI, goal_cases)
    case 1
    then show ?case using assms(1,4) by (auto simp: fm datas_def resize_table_def hook_inv_def)
  next
    case (2 i a)
    show ?case
    proof (cases "i = nat fd")
      case True
      then show ?thesis using 2(2) n(1,3) len assms(4) by (simp add: fm)
    next
      case False
      with 2 have i: "i < length ?old" "?old ! i = Some a" using old [of i] by (auto simp: fm)
      then have "a \<noteq> addr" using assms(3) nth_mem [of i ?old] by auto
      moreover have "nonblocking k (int i) = nonblocking (hk_k h) (int i)"
        using False assms(4) by (intro n(4)) linarith
      ultimately show ?thesis using hook_invD [OF assms(1) i] by (simp add: fm)
    qed
  qed
  show "kf_sock (hk_k h) fd = Some True \<Longrightarrow> managed (h\<lparr>hk_fm := fm, hk_k := k\<rparr>) (nat fd) addr"
    using n(2,6) len by (simp add: managed_def fm)
qed


lemma hk_set_simps [simp]:
  "fm_heap (hk_fm (hk_set h a c)) = (fm_heap (hk_fm h))(a := c)"
  "fm_datas (hk_fm (hk_set h a c)) = fm_datas (hk_fm h)"
  "hk_enable (hk_set h a c) = hk_enable h" "hk_k (hk_set h a c) = hk_k h"
  by (simp_all add: hk_set_def)

lemma hook_inv_set:
  assumes "hook_inv h" and "\<And>fd. nonblocking (hk_k h) fd \<Longrightarrow> nonblocking k fd"
    and "fd_fd ctx = fd_fd (fm_heap (hk_fm h) a)" and "fd_isSocket ctx = fd_isSocket (fm_heap (hk_fm h) a)"
    and "fd_sysNonblock ctx = fd_sysNonblock (fm_heap (hk_fm h) a)"
  shows "hook_inv ((hk_set h a ctx)\<lparr>hk_k := k\<rparr>)"
  using assms by (auto simp: hook_inv_def hk_set_def)

lemma hook_setsockopt_ok:
  assumes "hook_inv h" and "managed h fd a" and "hk_enable h"
  shows "\<exists>h'. hook_setsockopt h (int fd) ty sec usec = Inr h' \<and> hook_inv h' \<and>
           FdCtx_getTimeout (fm_heap (hk_fm h') a) ty = timeval_ms sec usec"
proof -
  let ?c = "FdCtx_setTimeout (fm_heap (hk_fm h) a) ty (timeval_ms sec usec)"
  have "hook_inv ((hk_set h a ?c)\<lparr>hk_k := hk_k h\<rparr>)"
    using assms(1) by (rule hook_inv_set) (simp_all add: FdCtx_setTimeout_def)
  moreover have "(hk_set h a ?c)\<lparr>hk_k := hk_k h\<rparr> = hk_set h a ?c" by (simp add: hk_set_def)
  moreover have "FdCtx_getTimeout ?c ty = timeval_ms sec usec"
    by (simp add: FdCtx_setTimeout_def FdCtx_getTimeout_def)
  moreover have "hook_setsockopt h (int fd) ty sec usec = Inr (hk_set h a ?c)"
    using assms(3) by (simp add: hook_setsockopt_def hk_get_managed [OF assms(2)])
  ultimately show ?thesis by simp
qed

lemma FdManager_get_new:
  assumes "64 \<le> length (fm_datas m)" and "fd < length (fm_datas m) \<longrightarrow> fm_datas m ! fd = None"
  obtains fm k' where "FdManager_get addr k m (int fd) True = Inr (Some addr, fm, k')"
    and "FdManager_create addr k m (int fd) = Inr (addr, fm, k')"
proof -
  have look: "FdManager_look m (int fd) True = Inr None" using assms by (auto simp: FdManager_look_def)
  have "int fd * 3 div 2 > int fd" if "length (fm_datas m) \<le> fd" using that assms(1) by linarith
  then have "nat (int fd * 3 div 2) > fd" if "length (fm_datas m) \<le> fd" using that by linarith
  then have "fd < length (if length (fm_datas m) \<le> fd then resize_table (fm_datas m) (nat (int fd * 3 div 2)) else fm_datas m)"
    by (simp add: resize_table_def)
  moreover obtain ctx k' where "newFdCtx k (int fd) = (ctx, k')" by (cases "newFdCtx k (int fd)")
  ultimately obtain fm k' where "FdManager_create addr k m (int fd) = Inr (addr, fm, k')"
    by (simp add: FdManager_create_def Let_def not_le)
  with that look show ?thesis by (simp add: FdManager_get_def)
qed

section \<open>Properties\<close>


text \<open>A call on descriptor 5 with a timeout of 100 ms, on fresh managers.\<close>

definition sample_call :: dio_call where
  "sample_call = \<lparr>c_fd = 5, c_event = READ, c_to = 100, c_tinfo = 3, c_sched = 0, c_fiber = 7\<rparr>"

definition sample_dio :: dio where
  "sample_dio = \<lparr>d_io = newIOManager, d_tm = newTimerManager 0, d_cancelled = 0, d_errno = 0, d_fired = False\<rparr>"

lemma sample_reach: "do_io_reach sample_call (Try, sample_dio)"
  using tm_inv_new [of 0]
  by (intro do_io_reach.start)
     (simp_all add: sample_call_def sample_dio_def io_inv_new registered_def own_timer_def cb_of_def
        newTimerManager_def nth_new newFdContext_def event_consts)




text \<open>A table with a socket 3, created by \<open>socket\<close>.\<close>

definition sample_kernel :: kernel_fds where
  "sample_kernel = \<lparr>kf_sock = (\<lambda>fd. if fd = 3 then Some True else None), kf_flags = (\<lambda>_. 2)\<rparr>"

definition blank_ctx :: FdCtx where
  "blank_ctx = \<lparr>fd_isInit = False, fd_isSocket = False, fd_sysNonblock = False, fd_userNonblock = False,
     fd_isClosed = False, fd_fd = - 1, fd_recvTimeout = NOT 0, fd_sendTimeout = NOT 0\<rparr>"

definition blank_hook :: hook where
  "blank_hook = \<lparr>hk_enable = True, hk_fm = newFdManager (\<lambda>_. blank_ctx), hk_k = sample_kernel, hk_errno = 0\<rparr>"

definition sample_hook :: hook where
  "sample_hook = (case hook_socket 9 blank_hook 3 of Inr (_, h) \<Rightarrow> h | Inl _ \<Rightarrow> blank_hook)"

lemma blank_hook_inv: "hook_inv blank_hook"
  by (simp add: hook_inv_def blank_hook_def newFdManager_def nth_append split: if_splits)


lemma sample_hook_facts: "hook_inv sample_hook" "managed sample_hook 3 9" "hk_enable sample_hook"
proof -
  obtain fm k where g: "FdManager_get 9 (hk_k blank_hook) (hk_fm blank_hook) (int 3) True = Inr (Some 9, fm, k)"
    "FdManager_create 9 (hk_k blank_hook) (hk_fm blank_hook) (int 3) = Inr (9, fm, k)"
    by (rule FdManager_get_new [of "hk_fm blank_hook" 3 9 "hk_k blank_hook"])
       (simp_all add: blank_hook_def newFdManager_def)
  then have eq: "sample_hook = blank_hook\<lparr>hk_fm := fm, hk_k := k\<rparr>"
    by (simp add: sample_hook_def hook_socket_def blank_hook_def)
  with hook_inv_create [OF blank_hook_inv g(2)] show "hook_inv sample_hook" "managed sample_hook 3 9"
    by (simp_all add: blank_hook_def newFdManager_def sample_kernel_def)
  show "hk_enable sample_hook" unfolding eq by (simp add: blank_hook_def)
qed


lemma cancelAll_clears:
  assumes "io_inv m"
  obtains b m' where "cancelAll 0 m (int fd) = Inr (b, m')" and "io_inv m'"
    and "fd < length (io_fdContexts m) \<longrightarrow> fc_events (io_fdContexts m' ! fd) = 0"
proof (cases "fd < length (io_fdContexts m)")
  case False
  then have "cancelAll 0 m (int fd) = Inr (False, m)" by (simp add: cancelAll_def find_ctx_def)
  with assms False show ?thesis by (intro that) auto
next
  case True
  let ?e = "fc_events (io_fdContexts m ! fd)"
  let ?m' = "take_event (?e AND WRITE \<noteq> 0) WRITE fd (take_event (?e AND READ \<noteq> 0) READ fd m)"
  have "fc_events (io_fdContexts ?m' ! fd) = 0"
    by (cases rule: wf_ctx_cases [OF io_inv_ctx(1) [OF assms True]])
       (simp_all add: take_event_ctx True event_consts)
  with cancelAll_ok [OF assms True, of 0] cancelAll_inv [OF assms True] assms show ?thesis
    by (cases "?e = 0") (auto intro: that)
qed

text \<open>\<open>socket\<close> and \<open>accept\<close> put a new descriptor under management, as a non-blocking socket when the kernel
  says it is one, and keep the invariant of the table; \<open>close\<close> wakes every fiber that waits for the
  descriptor, leaves no event registered on it and forgets its context.\<close>

theorem descriptor_lifecycle:
  assumes "hook_inv h" and "hk_enable h" and "io_inv m"
    and "fd < length (fm_datas (hk_fm h)) \<longrightarrow> fm_datas (hk_fm h) ! fd = None"
    and "Some addr \<notin> set (fm_datas (hk_fm h))"
  shows "\<exists>h'. hook_socket addr h (int fd) = Inr (int fd, h') \<and> hook_accept addr h (int fd) = Inr (int fd, h') \<and>
           hook_inv h' \<and> (kf_sock (hk_k h) (int fd) = Some True \<longrightarrow> managed h' fd addr) \<and>
           (\<exists>h'' m'. hook_close 0 h' (Some m) (int fd) = Inr (h'', Some m') \<and> hook_inv h'' \<and> hk_get h'' (int fd) = Inr None \<and>
              io_inv m' \<and> (fd < length (io_fdContexts m) \<longrightarrow> fc_events (io_fdContexts m' ! fd) = 0))"
proof -
  have "64 \<le> length (fm_datas (hk_fm h))" using assms(1) by (simp add: hook_inv_def)
  then obtain fm k where g: "FdManager_get addr (hk_k h) (hk_fm h) (int fd) True = Inr (Some addr, fm, k)"
    "FdManager_create addr (hk_k h) (hk_fm h) (int fd) = Inr (addr, fm, k)"
    using assms(4) by (rule FdManager_get_new)
  let ?h = "h\<lparr>hk_fm := fm, hk_k := k\<rparr>"
  note c = hook_inv_create [OF assms(1) g(2) assms(5)]
  have fm: "fd < length (fm_datas fm)" "fm_datas fm ! fd = Some addr"
    using g(2) by (auto simp: FdManager_create_def Let_def split: prod.splits if_splits)
  then have get: "hk_get ?h (int fd) = Inr (Some (addr, fm_heap fm addr))"
    by (simp add: hk_get_def FdManager_look_def)
  let ?h2 = "?h\<lparr>hk_fm := fm\<lparr>fm_datas := (fm_datas fm)[fd := None]\<rparr>\<rparr>"
  have inv2: "hook_inv ?h2" using c(1) fm(1) by (auto simp: hook_inv_def nth_list_update split: if_splits)
  have get2: "hk_get ?h2 (int fd) = Inr None" using fm by (simp add: hk_get_def FdManager_look_def)
  obtain b m' where m': "cancelAll 0 m (int fd) = Inr (b, m')" "io_inv m'"
    "fd < length (io_fdContexts m) \<longrightarrow> fc_events (io_fdContexts m' ! fd) = 0"
    by (rule cancelAll_clears [OF assms(3)])
  have "hook_close 0 ?h (Some m) (int fd) = Inr (?h2, Some m')"
    using assms(2) m'(1) get fm(1) by (simp add: hook_close_def FdManager_del_def)
  with inv2 get2 m'(2,3) g(1) c assms(2) show ?thesis
    by (intro exI [of _ ?h]) (auto simp: hook_socket_def hook_accept_def)
qed

theorem descriptor_lifecycle_witness:
  "\<exists>h'. hook_socket 9 blank_hook 3 = Inr (3, h') \<and> managed h' 3 9 \<and>
     (\<exists>h'' m'. hook_close 0 h' (Some (newIOManager :: nat iomanager)) 3 = Inr (h'', Some m') \<and>
        hk_get h'' 3 = Inr None)"
proof -
  have "\<exists>h'. hook_socket 9 blank_hook (int 3) = Inr (int 3, h') \<and>
      (kf_sock (hk_k blank_hook) (int 3) = Some True \<longrightarrow> managed h' 3 9) \<and>
      (\<exists>h'' m'. hook_close 0 h' (Some (newIOManager :: nat iomanager)) (int 3) = Inr (h'', Some m') \<and>
        hk_get h'' (int 3) = Inr None)"
    using descriptor_lifecycle [OF blank_hook_inv _ io_inv_new, of 3 9]
    by (fastforce simp: blank_hook_def newFdManager_def)
  then show ?thesis by (simp add: blank_hook_def sample_kernel_def)
qed

text \<open>A program that has never asked for a non-blocking socket may call \<open>ioctl (FIONBIO, 0)\<close> on a managed
  one: unlike \<open>fcntl\<close>, the wrapper hands the request to the kernel as it is, so the descriptor is a blocking
  one from then on, while \<open>do_io\<close> goes on treating it as a hooked socket. Its next call blocks the thread,
  not the fiber.\<close>

theorem ioctl_unblocks_socket:
  assumes "hook_inv h" and "managed h fd a" and "hk_enable h"
  shows "\<exists>h'. hook_ioctl h (int fd) 0 = Inr h' \<and> \<not> nonblocking (hk_k h') (int fd) \<and> \<not> hook_inv h' \<and>
           (\<forall>ty. \<exists>to. do_io_enter h' (int fd) ty = Inr (Hooked to))"
proof -
  let ?ctx = "fm_heap (hk_fm h) a"
  let ?h = "(hk_set h a (?ctx\<lparr>fd_userNonblock := False\<rparr>))\<lparr>hk_k := fionbio_f (hk_k h) (int fd) False\<rparr>"
  have m: "fd < length (fm_datas (hk_fm h))" "fm_datas (hk_fm h) ! fd = Some a" "fd_isSocket ?ctx" "\<not> fd_isClosed ?ctx"
    using assms(2) by (simp_all add: managed_def)
  have "hook_ioctl h (int fd) 0 = Inr ?h"
    using m by (simp add: hook_ioctl_def hk_get_managed [OF assms(2)] unmanaged_def)
  moreover have nb: "\<not> nonblocking (hk_k ?h) (int fd)" by (simp add: fionbio_f_def nonblock_simps)
  moreover have man: "managed ?h fd a" using m by (simp add: managed_def hk_set_def)
  moreover have "\<not> hook_inv ?h"
    using hook_invD [of ?h fd a] man nb by (auto simp: managed_def)
  moreover have "do_io_enter ?h (int fd) ty = Inr (Hooked (FdCtx_getTimeout ?ctx ty))" for ty
    using m assms(3) hk_get_managed [OF man] by (simp add: do_io_enter_def FdCtx_getTimeout_def hk_set_def)
  ultimately show ?thesis by (intro exI [of _ ?h]) blast
qed

theorem ioctl_unblocks_socket_witness:
  "\<exists>h'. hook_ioctl sample_hook (int 3) 0 = Inr h' \<and> \<not> nonblocking (hk_k h') (int 3)"
  using ioctl_unblocks_socket [OF sample_hook_facts] by blast

text \<open>Single steps of a run: a call that would block, a readable or writable descriptor, the retry, and the
  expiry of the timer of the call.\<close>

lemma run_wait:
  assumes "do_io_reach c (Try, d)" and ev: "c_event c = READ \<or> c_event c = WRITE" and to: "c_to c \<noteq> NOT 0"
    and a: "tm_heap (d_tm d) a = None"
  obtains d' where "do_io_reach c (Waiting (Some a), d')" and "d_cancelled d' = d_cancelled d"
    and "own_timer c (tm_heap (d_tm d')) a" and "\<And>b. b \<noteq> a \<Longrightarrow> tm_heap (d_tm d) b = None \<Longrightarrow> tm_heap (d_tm d') b = None"
proof -
  let ?d = "d\<lparr>d_errno := EAGAIN\<rparr>"
  note ok = do_io_reach_ok [OF assms(1,2)]
  then have "io_inv (d_io d)" "\<not> registered c (d_io d)" by (auto simp: dio_ok_def)
  then obtain r io where io: "addEvent 0 (Some (c_sched c)) (c_fiber c) RUNNING (d_io d) (int (c_fd c)) (c_event c) None = Inr (r, io)"
    "r = 0 \<longleftrightarrow> (0::int) = 0"
    using ev by (rule addEvent_wait)
  define tm where "tm = snd (addConditionTimer 0 a (d_tm d) (c_to c) (int (c_fd c), c_event c) (c_tinfo c) False)"
  let ?d' = "?d\<lparr>d_io := io, d_tm := tm\<rparr>"
  have "do_io_try c (- 1) EAGAIN 0 a 0 d = Inr (Waiting (Some a), ?d')"
    using io to by (simp add: do_io_try_def do_io_block_def tm_def errno_consts)
  with do_io_step.call [OF a, of c "- 1" EAGAIN 0 0] have "do_io_reach c (Waiting (Some a), ?d')"
    by (auto intro: do_io_reach.step [OF assms(1)])
  moreover have "tm_heap tm = (tm_heap (d_tm d))(a \<mapsto> \<lparr>t_recurring = False, t_ms = c_to c, t_next = c_to c,
      t_cb = Some (OnTimer (c_tinfo c) (int (c_fd c), c_event c))\<rparr>)"
    by (simp add: tm_def addConditionTimer_def addTimer_def addTimer_locked_def Let_def)
  ultimately show ?thesis using that [of ?d'] by (simp add: own_timer_def cb_of_def)
qed

lemma run_event:
  assumes "do_io_reach c (Waiting t, d)" and ev: "c_event c = READ \<or> c_event c = WRITE"
  obtains io where "do_io_reach c (Woken t, d\<lparr>d_io := io\<rparr>)"
proof -
  let ?e = "fc_events (io_fdContexts (d_io d) ! c_fd c)"
  have ok: "io_inv (d_io d)" "c_fd c < length (io_fdContexts (d_io d))" "?e AND c_event c \<noteq> 0"
    using do_io_reach_ok [OF assms] by (auto simp: dio_ok_def registered_def)
  have rep: "reported ?e (c_event c)"
    using ev ok(3) by (cases rule: wf_ctx_cases [OF io_inv_ctx(1) [OF ok(1,2)]]) (auto simp: reported_def event_consts)
  let ?io = "without_event (d_io d) (c_fd c) (c_event c) True"
  have "idle_event 0 (d_io d) (c_fd c) (c_event c) = Inr ?io"
    using ev ok(3) by (auto simp: idle_event_ok [OF ok(1,2) rep] take_event_def event_consts)
  moreover have "\<not> registered c ?io"
    using ok(2) ev
    by (auto simp: registered_def without_event_def Let_def cleared_def setEventContext_def word_bw_assocs)
  ultimately show ?thesis
    using do_io_step.event [OF rep, of t 0] by (intro that [of ?io] do_io_reach.step [OF assms(1)]) simp
qed

lemma run_resume:
  assumes "do_io_reach c (Woken (Some a), d)" and ev: "c_event c = READ \<or> c_event c = WRITE" and "d_cancelled d = 0"
  obtains tm where "do_io_reach c (Try, d\<lparr>d_tm := tm\<rparr>)" and "\<And>b. tm_heap (d_tm d) b = None \<Longrightarrow> tm_heap tm b = None"
proof -
  obtain t where t: "tm_inv (d_tm d)" "tm_heap (d_tm d) a = Some t"
    using do_io_reach_ok [OF assms(1,2)] by (auto simp: dio_ok_def)
  from timer_cancel_ok [OF this] obtain tm where tm: "timer_cancel (d_tm d) a = Inr (t_cb t \<noteq> None, tm)"
    "tm_heap tm = (tm_heap (d_tm d))(a \<mapsto> t\<lparr>t_cb := None\<rparr>)" by blast
  then have "do_io_resume (Some a) d = Inr (Try, d\<lparr>d_tm := tm\<rparr>)"
    using assms(3) by (simp add: do_io_resume_def cancel_timer_def)
  with do_io_step.resume [of c "Some a" d] have "do_io_reach c (Try, d\<lparr>d_tm := tm\<rparr>)"
    by (auto intro: do_io_reach.step [OF assms(1)])
  then show ?thesis by (rule that) (use tm(2) t(2) in auto)
qed

lemma run_expire:
  assumes "do_io_reach c (pc, d)" and ev: "c_event c = READ \<or> c_event c = WRITE" and "\<forall>n. pc \<noteq> Done n"
    and own: "own_timer c (tm_heap (d_tm d)) a" and nt: "tm_heap (d_tm d) nt = None"
  obtains tm where "do_io_reach c (pc, d\<lparr>d_tm := tm, d_fired := True\<rparr>)" and "\<And>b. tm_heap (d_tm d) b = None \<Longrightarrow> tm_heap tm b = None"
proof -
  let ?tm = "d_tm d"
  have inv: "tm_inv ?tm" using do_io_reach_ok [OF assms(1,2)] by (auto simp: dio_ok_def)
  obtain x where x: "cb_of (tm_heap ?tm) a = Some (OnTimer (c_tinfo c) x)" using own by (auto simp: own_timer_def)
  then have a: "a \<in> set (tm_timers ?tm)" using inv by (auto simp: tm_inv_def cb_of_def split: option.splits)
  have fresh: "nt \<notin> set (tm_timers ?tm)" using inv nt by (auto simp: tm_inv_def)
  from a have "tm_timers ?tm \<noteq> []" by auto
  from listExpiredCb_ok [OF inv fresh refl this, of "- 1"] obtain tm where
    tm: "listExpiredCb (- 1) nt ?tm = (map (cb_of (tm_heap ?tm)) (tm_timers ?tm), tm)"
      "\<And>b. tm_heap ?tm b = None \<Longrightarrow> tm_heap tm b = None"
    by auto
  moreover have "\<exists>x. Some (OnTimer (c_tinfo c) x) \<in> set (map (cb_of (tm_heap ?tm)) (tm_timers ?tm))"
    using image_eqI [of "Some (OnTimer (c_tinfo c) x)" "cb_of (tm_heap ?tm)" a] a x
    by (intro exI [of _ x]) simp
  ultimately have "do_io_step c (pc, d) (Inr (pc, d\<lparr>d_tm := tm, d_fired := True\<rparr>))"
    using do_io_step.expire [OF tm(1) fresh assms(3), of c] by simp
  then have "do_io_reach c (pc, d\<lparr>d_tm := tm, d_fired := True\<rparr>)" by (rule do_io_reach.step [OF assms(1)])
  then show ?thesis by (rule that) (rule tm(2))
qed

text \<open>A call with a timeout may lose it. When the first timer has expired but the descriptor becomes ready
  before its callback has run, the fiber retries; the callback then marks the call as timed out without
  waking anybody, and if the retry has to wait again, the callback of the second timer sees the mark and
  does nothing: the fiber waits on, although its timer has expired.\<close>

theorem do_io_lost_timeout:
  assumes "do_io_reach c (Try, d)" and "d_cancelled d = 0" and "c_event c = READ \<or> c_event c = WRITE"
    and "c_to c \<noteq> NOT 0" and "tm_heap (d_tm d) a = None" and "tm_heap (d_tm d) b = None" and "a \<noteq> b"
  shows "\<exists>d'. do_io_reach c (Waiting (Some b), d') \<and> own_timer c (tm_heap (d_tm d')) b \<and>
           d_cancelled d' = ETIMEDOUT \<and> registered c (d_io d') \<and> (\<forall>rt. do_io_timeout c rt d' = Inr d')"
proof -
  note ev = assms(3)
  obtain d1 where d1: "do_io_reach c (Waiting (Some a), d1)" "d_cancelled d1 = 0" "own_timer c (tm_heap (d_tm d1)) a"
    "tm_heap (d_tm d1) b = None"
    by (rule run_wait [OF assms(1,3,4,5)]) (use assms(2,6,7) in auto)
  obtain tm where tm: "do_io_reach c (Waiting (Some a), d1\<lparr>d_tm := tm, d_fired := True\<rparr>)" "tm_heap tm b = None"
    by (rule run_expire [OF d1(1) ev _ d1(3,4)]) (use d1(4) in auto)
  obtain io where io: "do_io_reach c (Woken (Some a), d1\<lparr>d_tm := tm, d_fired := True, d_io := io\<rparr>)"
    by (rule run_event [OF tm(1) ev])
  let ?d2 = "\<lambda>tm'. d1\<lparr>d_tm := tm, d_fired := True, d_io := io, d_tm := tm'\<rparr>"
  obtain tm' where tm': "do_io_reach c (Try, ?d2 tm')" "tm_heap tm' b = None"
    by (rule run_resume [OF io ev]) (use d1(2) tm(2) in auto)
  have "io_inv (d_io (?d2 tm'))" using do_io_reach_ok [OF tm'(1) ev] by (simp add: dio_ok_def)
  then obtain io' where "do_io_timeout c 0 (?d2 tm') =
      Inr (if d_cancelled (?d2 tm') \<noteq> 0 then ?d2 tm' else (?d2 tm')\<lparr>d_cancelled := ETIMEDOUT, d_io := io'\<rparr>)"
    by (rule do_io_timeout_ok [OF _ ev])
  then have "do_io_timeout c 0 (?d2 tm') = Inr ((?d2 tm')\<lparr>d_cancelled := ETIMEDOUT, d_io := io'\<rparr>)"
    using d1(2) by simp
  with do_io_step.timeout [of "?d2 tm'" Try c 0]
  have "do_io_reach c (Try, (?d2 tm')\<lparr>d_cancelled := ETIMEDOUT, d_io := io'\<rparr>)"
    by (intro do_io_reach.step [OF tm'(1)]) simp
  then obtain d3 where d3: "do_io_reach c (Waiting (Some b), d3)" "d_cancelled d3 = ETIMEDOUT"
    "own_timer c (tm_heap (d_tm d3)) b"
    by (rule run_wait [OF _ ev assms(4), of _ b]) (use tm'(2) in auto)
  moreover have "registered c (d_io d3)" using do_io_reach_ok [OF d3(1) ev] by (auto simp: dio_ok_def)
  ultimately show ?thesis by (intro exI [of _ d3]) (simp add: do_io_timeout_def errno_consts)
qed

theorem do_io_lost_timeout_witness:
  "\<exists>d'. do_io_reach sample_call (Waiting (Some 2), d') \<and> (\<forall>rt. do_io_timeout sample_call rt d' = Inr d')"
  using do_io_lost_timeout [OF sample_reach, of 1 2]
  by (fastforce simp: sample_call_def sample_dio_def newTimerManager_def)

text \<open>A hooked \<open>sleep\<close> hands the scheduling of the calling fiber to the timers, which run it at the first look
  at the clock that is not before the deadline and not earlier; the deadline is the asked one for at most
  4294967 seconds, and beyond that the product with 1000 wraps at 32 bits.\<close>

theorem sleep_wakes:
  assumes "tm_inv tm" and "tm_heap tm addr = None" and "hk_enable h" and "nt \<notin> insert addr (set (tm_timers tm))"
    and "tm_previouseTime tm \<le> now'"
  shows "\<exists>tm'. hook_sleep h now addr tm (sleep_ms seconds) cb = Some tm' \<and> tm_inv tm' \<and>
           (\<exists>due tm''. listExpiredCb now' nt tm' = (map (cb_of (tm_heap tm')) due, tm'') \<and>
              (addr \<in> set due \<longleftrightarrow> now + sleep_ms seconds \<le> now')) \<and>
           cb_of (tm_heap tm') addr = Some (Plain cb) \<and>
           (unat (sleep_ms seconds) = unat seconds * 1000 \<longleftrightarrow> unat seconds \<le> 4294967)"
proof -
  let ?ms = "sleep_ms seconds"
  obtain front tm' where a: "addTimer now addr tm ?ms (Some (Plain cb)) False = (front, tm')" by fastforce
  note inv = addTimer_inv [OF assms(1,2) a]
  have h: "next_of (tm_heap tm') addr = now + ?ms" "cb_of (tm_heap tm') addr = Some (Plain cb)"
    "tm_previouseTime tm' = tm_previouseTime tm"
    using a by (auto simp: addTimer_def addTimer_locked_def Let_def cb_of_def)
  have ne: "tm_timers tm' \<noteq> []" by (metis inv(2) insert_not_empty list.set(1))
  have fresh: "nt \<notin> set (tm_timers tm')" unfolding inv(2) by (rule assms(4))
  have roll: "\<not> fst (detectClockRollover now' tm')" using assms(5) h(3) by (auto simp: detectClockRollover_def)
  from listExpiredCb_ok [OF inv(1) fresh refl ne, of now'] roll
  obtain tm'' where "listExpiredCb now' nt tm' =
      (map (cb_of (tm_heap tm')) (filter (\<lambda>a. next_of (tm_heap tm') a \<le> now') (tm_timers tm')), tm'')" by auto
  moreover have "addr \<in> set (filter (\<lambda>a. next_of (tm_heap tm') a \<le> now') (tm_timers tm')) \<longleftrightarrow> now + ?ms \<le> now'"
    using inv(2) h(1) by simp
  moreover have "unat ?ms = unat seconds * 1000 \<longleftrightarrow> unat seconds \<le> 4294967"
  proof -
    have eq: "unat ?ms = unat seconds * 1000 mod 4294967296"
      by (simp add: sleep_ms_def unsigned_ucast_eq take_bit_eq_mod unat_word_ariths)
    show ?thesis
    proof (cases "unat seconds \<le> 4294967")
      case True
      then have "unat seconds * 1000 < 4294967296" by simp
      with True eq show ?thesis by simp
    next
      case False
      have "unat seconds * 1000 mod 4294967296 < 4294967296" by (rule mod_less_divisor) simp
      with False eq have "unat ?ms < unat seconds * 1000" by linarith
      with False show ?thesis by simp
    qed
  qed
  moreover have "hook_sleep h now addr tm ?ms cb = Some tm'" using assms(3) a by (simp add: hook_sleep_def)
  ultimately show ?thesis using inv(1) h(2) by (intro exI [of _ tm']) blast
qed

theorem sleep_wakes_witness:
  "\<exists>tm'. hook_sleep blank_hook 5 1 (newTimerManager 0) (sleep_ms 4294968) (7::nat) = Some tm' \<and> tm_inv tm' \<and>
     unat (sleep_ms 4294968) \<noteq> unat (4294968 :: u32) * 1000"
  using sleep_wakes [OF tm_inv_new, of 0 1 blank_hook 0 0 5 4294968 "7 :: nat"]
  by (auto simp: newTimerManager_def blank_hook_def)

end
