(* ===== verification/Lamb_Address.thy ===== *)
theory Lamb_Address
  imports Lamb_Codec Lamb_Http
begin

text \<open>
  \<open>lamb/address.cc\<close>: addresses of the four families, their masks and texts, the splitting of a host into
  node and service, and the order of addresses. The host's byte order is the parameter \<open>host\<close>; \<open>getaddrinfo\<close>,
  \<open>getifaddrs\<close> and \<open>inet_pton\<close> are arguments. A \<open>sockaddr\<close> is a datatype by family, with its bytes in memory
  given by \<open>sockaddr_bytes\<close>.
\<close>

section \<open>Masks\<close>

text \<open>\<open>(1 << (sizeof (T) * 8 - bits)) - 1\<close> is computed on \<open>int\<close>: shifting by 32 or more, or reaching past
  \<open>INT_MIN\<close>, is undefined.\<close>

definition CreateMask :: "nat \<Rightarrow> u32 \<Rightarrow> u32 res" where
  "CreateMask width bits =
     (if width < unat bits \<or> 32 \<le> width - unat bits then Inl (Undefined ''shift'')
      else if width - unat bits = 31 then Inl (Undefined ''signed overflow'')
      else Inr (push_bit (width - unat bits) 1 - 1))"

function CountBits_loop :: "'a::len word \<Rightarrow> u32 \<Rightarrow> u32" where
  "CountBits_loop value res = (if value = 0 then res else CountBits_loop (value AND (value - 1)) (res + 1))"
  by pat_completeness auto
termination
proof (relation "measure (\<lambda>(v, res). unat v)")
  fix v :: "'a word" and res :: u32
  assume "v \<noteq> 0"
  then have "unat (v AND (v - 1)) \<le> unat (v - 1)" and "unat (v - 1) < unat v"
    by (simp_all add: word_and_le1 flip: word_le_nat_alt) (simp add: unat_minus_one unat_gt_0)
  then show "((v AND (v - 1), res + 1), v, res) \<in> measure (\<lambda>(v, res). unat v)" by simp
qed simp

declare CountBits_loop.simps [simp del]

definition CountBits :: "'a::len word \<Rightarrow> u32" where
  "CountBits value = CountBits_loop value 0"

section \<open>Socket addresses\<close>

record sockaddr_in =
  sin_port :: u16
  s_addr :: u32
  sin_zero :: "u8 list"

record sockaddr_in6 =
  sin6_port :: u16
  sin6_flowinfo :: u32
  s6_addr :: "u8 list"
  sin6_scope_id :: u32

record sockaddr_un =
  sun_path :: string
  un_length :: u32

datatype address = IPv4Address sockaddr_in | IPv6Address sockaddr_in6 | UnixAddress sockaddr_un
  | UnknownAddress u16 "u8 list"

definition AF_UNSPEC :: u16 where "AF_UNSPEC = 0"
definition AF_UNIX :: u16 where "AF_UNIX = 1"
definition AF_INET :: u16 where "AF_INET = 2"
definition AF_INET6 :: u16 where "AF_INET6 = 10"

lemmas families = AF_UNSPEC_def AF_UNIX_def AF_INET_def AF_INET6_def

fun getFamily :: "address \<Rightarrow> u16" where
  "getFamily (IPv4Address _) = AF_INET"
| "getFamily (IPv6Address _) = AF_INET6"
| "getFamily (UnixAddress _) = AF_UNIX"
| "getFamily (UnknownAddress f _) = f"

text \<open>The \<open>getAddrLen ()\<close> bytes at \<open>getAddr ()\<close>.\<close>

fun addr_bytes :: "endian \<Rightarrow> address \<Rightarrow> u8 list" where
  "addr_bytes host (IPv4Address a) = mem_bytes host AF_INET @ mem_bytes host (sin_port a) @ mem_bytes host (s_addr a) @ sin_zero a"
| "addr_bytes host (IPv6Address a) =
     mem_bytes host AF_INET6 @ mem_bytes host (sin6_port a) @ mem_bytes host (sin6_flowinfo a) @ s6_addr a @ mem_bytes host (sin6_scope_id a)"
| "addr_bytes host (UnixAddress a) =
     take (unat (un_length a)) (mem_bytes host AF_UNIX @ map (\<lambda>c. word_of_nat (of_char c)) (sun_path a))"
| "addr_bytes host (UnknownAddress f d) = mem_bytes host f @ d"

section \<open>Comparison\<close>

fun memcmp :: "u8 list \<Rightarrow> u8 list \<Rightarrow> int" where
  "memcmp (a # as) (b # bs) = (if a < b then - 1 else if b < a then 1 else memcmp as bs)"
| "memcmp _ _ = 0"

definition Address_less :: "endian \<Rightarrow> address \<Rightarrow> address \<Rightarrow> bool" where
  "Address_less host lhs rhs =
     (let a = addr_bytes host lhs; b = addr_bytes host rhs; minlen = min (length a) (length b);
          result = memcmp (take minlen a) (take minlen b) in
      if result < 0 then True else if result > 0 then False
      else if length a < length b then True else False)"

definition Address_eq :: "endian \<Rightarrow> address \<Rightarrow> address \<Rightarrow> bool" where
  "Address_eq host lhs rhs =
     (let a = addr_bytes host lhs; b = addr_bytes host rhs in length a = length b \<and> memcmp a b = 0)"

definition Address_neq :: "endian \<Rightarrow> address \<Rightarrow> address \<Rightarrow> bool" where
  "Address_neq host lhs rhs = (\<not> Address_eq host lhs rhs)"

section \<open>IPv4\<close>

definition newIPv4Address :: "endian \<Rightarrow> u32 \<Rightarrow> u16 \<Rightarrow> sockaddr_in" where
  "newIPv4Address host adr port =
     \<lparr>sin_port = byteswapOnLittleEndian host port, s_addr = byteswapOnLittleEndian host adr, sin_zero = replicate 8 0\<rparr>"

text \<open>\<open>pton\<close> is the address \<open>inet_pton\<close> stores, if it accepts the text.\<close>

definition IPv4Address_Create :: "endian \<Rightarrow> (string \<Rightarrow> u32 option) \<Rightarrow> string \<Rightarrow> u16 \<Rightarrow> sockaddr_in option" where
  "IPv4Address_Create host pton text port =
     map_option (\<lambda>a. (newIPv4Address host 0 0)\<lparr>sin_port := byteswapOnLittleEndian host port, s_addr := a\<rparr>) (pton text)"

definition IPv4Address_insert :: "endian \<Rightarrow> sockaddr_in \<Rightarrow> string" where
  "IPv4Address_insert host a =
     (let adr = byteswapOnLittleEndian host (s_addr a) in
      show_nat (unat (drop_bit 24 adr AND 0xff)) @ ''.'' @ show_nat (unat (drop_bit 16 adr AND 0xff)) @ ''.''
      @ show_nat (unat (drop_bit 8 adr AND 0xff)) @ ''.'' @ show_nat (unat (adr AND 0xff))
      @ '':'' @ show_nat (unat (byteswapOnLittleEndian host (sin_port a))))"

definition IPv4Address_broadcastAddress :: "endian \<Rightarrow> sockaddr_in \<Rightarrow> u32 \<Rightarrow> sockaddr_in option res" where
  "IPv4Address_broadcastAddress host a prefix_len =
     (if 32 < prefix_len then Inr None
      else bindR (CreateMask 32 prefix_len) (\<lambda>m.
        Inr (Some (a\<lparr>s_addr := s_addr a OR byteswapOnLittleEndian host m\<rparr>))))"

definition IPv4Address_networkAddress :: "endian \<Rightarrow> sockaddr_in \<Rightarrow> u32 \<Rightarrow> sockaddr_in option res" where
  "IPv4Address_networkAddress host a prefix_len =
     (if 32 < prefix_len then Inr None
      else bindR (CreateMask 32 prefix_len) (\<lambda>m.
        Inr (Some (a\<lparr>s_addr := s_addr a AND byteswapOnLittleEndian host (NOT m)\<rparr>))))"

definition IPv4Address_subnetMask :: "endian \<Rightarrow> u32 \<Rightarrow> sockaddr_in res" where
  "IPv4Address_subnetMask host prefix_len =
     bindR (CreateMask 32 prefix_len) (\<lambda>m.
       Inr \<lparr>sin_port = 0, s_addr = NOT (byteswapOnLittleEndian host m), sin_zero = replicate 8 0\<rparr>)"

definition IPv4Address_getPort :: "endian \<Rightarrow> sockaddr_in \<Rightarrow> u16" where
  "IPv4Address_getPort host a = byteswapOnLittleEndian host (sin_port a)"

definition IPv4Address_setPort :: "endian \<Rightarrow> sockaddr_in \<Rightarrow> u16 \<Rightarrow> sockaddr_in" where
  "IPv4Address_setPort host a v = a\<lparr>sin_port := byteswapOnLittleEndian host v\<rparr>"

section \<open>IPv6\<close>

definition newIPv6Address :: sockaddr_in6 where
  "newIPv6Address = \<lparr>sin6_port = 0, sin6_flowinfo = 0, s6_addr = replicate 16 0, sin6_scope_id = 0\<rparr>"

definition newIPv6Address_bytes :: "endian \<Rightarrow> u8 list \<Rightarrow> u16 \<Rightarrow> sockaddr_in6" where
  "newIPv6Address_bytes host adr port = newIPv6Address\<lparr>sin6_port := byteswapOnLittleEndian host port, s6_addr := take 16 adr\<rparr>"

definition IPv6Address_Create :: "endian \<Rightarrow> (string \<Rightarrow> u8 list option) \<Rightarrow> string \<Rightarrow> u16 \<Rightarrow> sockaddr_in6 option" where
  "IPv6Address_Create host pton text port =
     map_option (\<lambda>a. newIPv6Address\<lparr>sin6_port := byteswapOnLittleEndian host port, s6_addr := a\<rparr>) (pton text)"

text \<open>The masks work on byte \<open>prefix_len / 8\<close>; there is none for 128.\<close>

definition IPv6Address_broadcastAddress :: "sockaddr_in6 \<Rightarrow> u32 \<Rightarrow> sockaddr_in6 res" where
  "IPv6Address_broadcastAddress a prefix_len =
     (let i = unat prefix_len div 8; bs = s6_addr a in
      if 16 \<le> i then Inl (Bad_access ''s6_addr'')
      else bindR (CreateMask 8 (prefix_len mod 8)) (\<lambda>m.
        Inr (a\<lparr>s6_addr := take i bs @ [bs ! i OR ucast m] @ replicate (15 - i) 0xff\<rparr>)))"

definition IPv6Address_networkAddress :: "sockaddr_in6 \<Rightarrow> u32 \<Rightarrow> sockaddr_in6 res" where
  "IPv6Address_networkAddress a prefix_len =
     (let i = unat prefix_len div 8; bs = s6_addr a in
      if 16 \<le> i then Inl (Bad_access ''s6_addr'')
      else bindR (CreateMask 8 (prefix_len mod 8)) (\<lambda>m.
        Inr (a\<lparr>s6_addr := take i bs @ [bs ! i AND ucast m] @ replicate (15 - i) 0\<rparr>)))"

definition IPv6Address_subnetMask :: "u32 \<Rightarrow> sockaddr_in6 res" where
  "IPv6Address_subnetMask prefix_len =
     (let i = unat prefix_len div 8 in
      if 16 \<le> i then Inl (Bad_access ''s6_addr'')
      else bindR (CreateMask 8 (prefix_len mod 8)) (\<lambda>m.
        Inr (newIPv6Address\<lparr>s6_addr := replicate i 0xff @ [NOT (ucast m)] @ replicate (15 - i) 0\<rparr>)))"

definition IPv6Address_getPort :: "endian \<Rightarrow> sockaddr_in6 \<Rightarrow> u16" where
  "IPv6Address_getPort host a = byteswapOnLittleEndian host (sin6_port a)"

definition IPv6Address_setPort :: "endian \<Rightarrow> sockaddr_in6 \<Rightarrow> u16 \<Rightarrow> sockaddr_in6" where
  "IPv6Address_setPort host a v = a\<lparr>sin6_port := byteswapOnLittleEndian host v\<rparr>"

fun show_hex :: "nat \<Rightarrow> string" where
  "show_hex n = (let d = n mod 16; c = char_of (if d < 10 then 48 + d else 87 + d) in
     if n < 16 then [c] else show_hex (n div 16) @ [c])"

declare show_hex.simps [simp del]

text \<open>The eight groups as \<open>uint16_t\<close> in memory, and the loop that prints them from the \<open>i\<close>-th on.\<close>

definition groups :: "endian \<Rightarrow> u8 list \<Rightarrow> u16 list" where
  "groups host bs = map (\<lambda>i. mem_word host [bs ! (2 * i), bs ! (2 * i + 1)]) [0..<8]"

fun insert_groups :: "endian \<Rightarrow> u16 option \<Rightarrow> u16 list \<Rightarrow> bool \<Rightarrow> string \<times> bool" where
  "insert_groups host prev [] used_zeros = ([], used_zeros)"
| "insert_groups host prev (g # gs) used_zeros =
     (if g = 0 \<and> \<not> used_zeros then insert_groups host (Some g) gs used_zeros
      else
        let compress = (prev = Some 0 \<and> \<not> used_zeros); used_zeros = (used_zeros \<or> compress);
            (s, z) = insert_groups host (Some g) gs used_zeros in
        ((if compress then '':'' else []) @ (if prev \<noteq> None then '':'' else [])
         @ show_hex (unat (byteswapOnLittleEndian host g)) @ s, z))"

definition IPv6Address_insert :: "endian \<Rightarrow> sockaddr_in6 \<Rightarrow> string" where
  "IPv6Address_insert host a =
     (let gs = groups host (s6_addr a); (s, used_zeros) = insert_groups host None gs False in
      ''['' @ s @ (if \<not> used_zeros \<and> gs ! 7 = 0 then ''::'' else [])
      @ '']:'' @ show_nat (unat (byteswapOnLittleEndian host (sin6_port a))))"

section \<open>Unix and unknown addresses\<close>

text \<open>\<open>sizeof (sun_path)\<close> is 108, \<open>offsetof (sockaddr_un, sun_path)\<close> is 2. Copying takes the terminating \<open>0\<close> of
  \<open>c_str ()\<close> along.\<close>

definition newUnixAddress :: sockaddr_un where
  "newUnixAddress = \<lparr>sun_path = replicate 108 (CHR 0x00), un_length = 2 + 107\<rparr>"

definition newUnixAddress_path :: "string \<Rightarrow> sockaddr_un res" where
  "newUnixAddress_path path =
     (let len = word_of_nat (length path) + 1 :: u32;
          len = (if path \<noteq> [] \<and> hd path = CHR 0x00 then len - 1 else len) in
      if 108 < len then Inl (Logic_error ''path too long'')
      else Inr \<lparr>sun_path = blit 0 (take (unat len) (path @ [CHR 0x00])) (replicate 108 (CHR 0x00)), un_length = len + 2\<rparr>)"

definition setAddrLen :: "sockaddr_un \<Rightarrow> u32 \<Rightarrow> sockaddr_un" where
  "setAddrLen a v = a\<lparr>un_length := v\<rparr>"

text \<open>The length may be set past the structure, and the kernel may fill \<open>sun_path\<close> without a terminating \<open>0\<close>:
  then the text is read out of bounds.\<close>

definition UnixAddress_getPath :: "sockaddr_un \<Rightarrow> string res" where
  "UnixAddress_getPath a =
     (if 2 < un_length a \<and> hd (sun_path a) = CHR 0x00
      then if 110 < un_length a then Inl (Bad_access ''sun_path'')
        else Inr (CHR 0x5C # CHR ''0'' # take (unat (un_length a - 2 - 1)) (drop 1 (sun_path a)))
      else if CHR 0x00 \<notin> set (sun_path a) then Inl (Bad_access ''sun_path'')
      else Inr (c_str (sun_path a)))"

definition UnixAddress_insert :: "sockaddr_un \<Rightarrow> string res" where
  "UnixAddress_insert a =
     (if 2 < un_length a \<and> hd (sun_path a) = CHR 0x00
      then if 110 < un_length a then Inl (Bad_access ''sun_path'')
        else Inr (CHR 0x5C # CHR ''0'' # take (unat (un_length a - 2 - 1)) (drop 1 (sun_path a)))
      else if CHR 0x00 \<notin> set (sun_path a) then Inl (Bad_access ''sun_path'')
      else Inr (c_str (sun_path a)))"

definition UnknownAddress_insert :: "u16 \<Rightarrow> string" where
  "UnknownAddress_insert f = ''[UnknownAddress family='' @ show_nat (unat f) @ '']''"

fun Address_toString :: "endian \<Rightarrow> address \<Rightarrow> string res" where
  "Address_toString host (IPv4Address a) = Inr (IPv4Address_insert host a)"
| "Address_toString host (IPv6Address a) = Inr (IPv6Address_insert host a)"
| "Address_toString host (UnixAddress a) = UnixAddress_insert a"
| "Address_toString host (UnknownAddress f _) = Inr (UnknownAddress_insert f)"

section \<open>Creation and look-up\<close>

text \<open>What \<open>const sockaddr *\<close> points to: the family selects how it is read.\<close>

datatype sockaddr = Sa_in sockaddr_in | Sa_in6 sockaddr_in6 | Sa_other u16 "u8 list"

definition Address_Create :: "sockaddr option \<Rightarrow> address option" where
  "Address_Create addr =
     (case addr of
        None \<Rightarrow> None
      | Some (Sa_in a) \<Rightarrow> Some (IPv4Address a)
      | Some (Sa_in6 a) \<Rightarrow> Some (IPv6Address a)
      | Some (Sa_other f d) \<Rightarrow> Some (UnknownAddress f d))"

text \<open>The position of a character in a part of a string, as \<open>memchr\<close> finds it.\<close>

definition memchr_from :: "string \<Rightarrow> nat \<Rightarrow> char \<Rightarrow> nat option" where
  "memchr_from s i c = str_find s c i"

text \<open>The node, and the service if any; a pointer into \<open>host\<close> is the text from there to its end, as \<open>getaddrinfo\<close>
  reads it.\<close>

definition split_host :: "string \<Rightarrow> string \<times> string option" where
  "split_host h =
     (let (node, service) =
            (if h \<noteq> [] \<and> hd h = CHR ''['' then
               (case memchr_from h 1 (CHR '']'') of
                  None \<Rightarrow> ([], None)
                | Some i \<Rightarrow>
                    (take (i - 1) (drop 1 h),
                     if drop (i + 1) h \<noteq> [] \<and> h ! (i + 1) = CHR '':'' then Some (drop (i + 2) h) else None))
             else ([], None));
          (node, service) =
            (if node = [] then
               (case memchr_from h 0 (CHR '':'') of
                  None \<Rightarrow> (node, None)
                | Some i \<Rightarrow>
                    if memchr_from h (i + 1) (CHR '':'') = None then (take i h, Some (drop (i + 1) h))
                    else (node, Some (drop i h)))
             else (node, service)) in
      (if node = [] then h else node, service))"

type_synonym resolver = "string \<Rightarrow> string option \<Rightarrow> u16 \<Rightarrow> int \<Rightarrow> int \<Rightarrow> sockaddr option list option"

definition Address_Lookup ::
  "resolver \<Rightarrow> address option list \<Rightarrow> string \<Rightarrow> u16 \<Rightarrow> int \<Rightarrow> int \<Rightarrow> bool \<times> address option list" where
  "Address_Lookup getaddrinfo result h family type protocol =
     (let (node, service) = split_host h in
      case getaddrinfo (c_str node) (map_option c_str service) family type protocol of
        None \<Rightarrow> (False, result)
      | Some rs \<Rightarrow> let result = result @ map Address_Create rs in (result \<noteq> [], result))"

definition LookupAny :: "resolver \<Rightarrow> string \<Rightarrow> u16 \<Rightarrow> int \<Rightarrow> int \<Rightarrow> address option" where
  "LookupAny getaddrinfo h family type protocol =
     (let (ok, result) = Address_Lookup getaddrinfo [] h family type protocol in
      if ok then hd result else None)"

fun first_ip :: "address option list \<Rightarrow> address option" where
  "first_ip [] = None"
| "first_ip (Some (IPv4Address a) # _) = Some (IPv4Address a)"
| "first_ip (Some (IPv6Address a) # _) = Some (IPv6Address a)"
| "first_ip (_ # as) = first_ip as"

definition LookupAnyIPAddress :: "resolver \<Rightarrow> string \<Rightarrow> u16 \<Rightarrow> int \<Rightarrow> int \<Rightarrow> address option" where
  "LookupAnyIPAddress getaddrinfo h family type protocol =
     (let (ok, result) = Address_Lookup getaddrinfo [] h family type protocol in
      if ok then first_ip result else None)"

definition IPAddress_setPort :: "endian \<Rightarrow> address \<Rightarrow> u16 \<Rightarrow> address" where
  "IPAddress_setPort host a v =
     (case a of IPv4Address a \<Rightarrow> IPv4Address (IPv4Address_setPort host a v)
      | IPv6Address a \<Rightarrow> IPv6Address (IPv6Address_setPort host a v) | _ \<Rightarrow> a)"

text \<open>\<open>IPAddress::Create\<close>; \<open>numeric\<close> is \<open>getaddrinfo\<close> with \<open>AI_NUMERICHOST\<close>, its first result.\<close>

definition IPAddress_Create :: "endian \<Rightarrow> (string \<Rightarrow> sockaddr option) \<Rightarrow> string \<Rightarrow> u16 \<Rightarrow> address option" where
  "IPAddress_Create host numeric text port =
     (case numeric text of None \<Rightarrow> None
      | Some sa \<Rightarrow> map_option (\<lambda>a. IPAddress_setPort host a port) (first_ip [Address_Create (Some sa)]))"

text \<open>An entry of the list of \<open>getifaddrs\<close>: its name, address and netmask, which is of the family of the address.\<close>

datatype ifaddr = If_in string sockaddr_in sockaddr_in | If_in6 string sockaddr_in6 sockaddr_in6 | If_other string u16

fun ifa_family :: "ifaddr \<Rightarrow> u16" where
  "ifa_family (If_in _ _ _) = AF_INET"
| "ifa_family (If_in6 _ _ _) = AF_INET6"
| "ifa_family (If_other _ f) = f"

definition interface_entry :: "u16 \<Rightarrow> ifaddr \<Rightarrow> (string \<times> address \<times> u32) option" where
  "interface_entry family i =
     (if family \<noteq> AF_UNSPEC \<and> family \<noteq> ifa_family i then None
      else case i of
        If_in name a msk \<Rightarrow> Some (name, IPv4Address a, CountBits (s_addr msk))
      | If_in6 name a msk \<Rightarrow> Some (name, IPv6Address a, sum_list (map CountBits (s6_addr msk)))
      | If_other _ _ \<Rightarrow> None)"

text \<open>The result is a \<open>multimap\<close>: the entries of a name in the order of insertion.\<close>

definition GetInterfaceAddresses_all ::
  "ifaddr list option \<Rightarrow> (string \<times> address \<times> u32) list \<Rightarrow> u16 \<Rightarrow> bool \<times> (string \<times> address \<times> u32) list" where
  "GetInterfaceAddresses_all ifs result family =
     (case ifs of None \<Rightarrow> (False, result)
      | Some l \<Rightarrow> let result = result @ List.map_filter (interface_entry family) l in (result \<noteq> [], result))"

definition GetInterfaceAddresses ::
  "endian \<Rightarrow> ifaddr list option \<Rightarrow> (address \<times> u32) list \<Rightarrow> string \<Rightarrow> u16 \<Rightarrow> bool \<times> (address \<times> u32) list" where
  "GetInterfaceAddresses host ifs result iface family =
     (if iface = [] \<or> iface = ''*'' then
        (True, result @ (if family = AF_INET \<or> family = AF_UNSPEC then [(IPv4Address (newIPv4Address host 0 0), 0)] else [])
                      @ (if family = AF_INET6 \<or> family = AF_UNSPEC then [(IPv6Address newIPv6Address, 0)] else []))
      else let (ok, results) = GetInterfaceAddresses_all ifs [] family in
        if \<not> ok then (False, result)
        else let result = result @ map snd (filter (\<lambda>e. fst e = iface) results) in (result \<noteq> [], result))"

section \<open>The number of set bits\<close>

fun ones :: "nat \<Rightarrow> nat" where
  "ones n = (if n = 0 then 0 else n mod 2 + ones (n div 2))"

declare ones.simps [simp del]

lemma ones_0 [simp]: "ones 0 = 0"
  by (simp add: ones.simps)

lemma ones_double [simp]: "ones (2 * n) = ones n" "ones (Suc (2 * n)) = Suc (ones n)"
  by (simp_all add: ones.simps [of "2 * n"] ones.simps [of "Suc (2 * n)"])

lemma and_pred_nat: "0 < n \<Longrightarrow> ones (n AND (n - 1)) = ones n - 1 \<and> 0 < ones n" for n :: nat
proof (induction n rule: less_induct)
  case (less n)
  show ?case
  proof (cases "even n")
    case True
    then obtain m where m: "n = 2 * m" by blast
    with less.prems have "0 < m" by simp
    then have "n - 1 = Suc (2 * (m - 1))" using m by simp
    then have "n AND (n - 1) = 2 * (m AND (m - 1))"
      using m by (simp add: and_nat_unfold [of "2 * m"] flip: One_nat_def)
    with less.IH [of m] m \<open>0 < m\<close> show ?thesis by simp
  next
    case False
    then obtain m where m: "n = Suc (2 * m)" by (metis oddE Suc_eq_plus1)
    then have "n AND (n - 1) = 2 * m"
      by (simp add: and_nat_unfold [of "Suc (2 * m)"])
    with m show ?thesis by simp
  qed
qed

lemma CountBits_loop_ones: "CountBits_loop v r = r + word_of_nat (ones (unat v))"
proof (induction v r rule: CountBits_loop.induct)
  case (1 v r)
  show ?case
  proof (cases "v = 0")
    case False
    then have "unat (v AND (v - 1)) = unat v AND (unat v - 1)"
      by (simp add: unsigned_and_eq unat_minus_one)
    with and_pred_nat [of "unat v"] False 1 show ?thesis
      by (simp add: CountBits_loop.simps [of v r] unat_gt_0 of_nat_diff Suc_le_eq)
  qed (simp add: CountBits_loop.simps)
qed

lemma ones_shift: "ones (2 ^ k * n) = ones n"
  by (induction k) (simp_all add: mult.assoc)

lemma ones_full: "ones (2 ^ k - 1) = k"
proof (induction k)
  case (Suc k)
  obtain m :: nat where m: "2 ^ k = Suc m" by (cases "2 ^ k :: nat") simp_all
  with Suc show ?case by simp
qed simp

section \<open>Network byte order\<close>

lemma bit_byteswap:
  assumes "8 dvd LENGTH('a)" and "k < LENGTH('a)"
  shows "bit (byteswap w :: 'a::len word) k = bit w (8 * (sizeof TYPE('a word) - 1 - k div 8) + k mod 8)"
proof -
  have n: "8 * sizeof TYPE('a word) = LENGTH('a)" using assms(1) by (simp add: sizeof_def)
  then have k: "k div 8 < sizeof TYPE('a word)" using assms(2) by linarith
  then have "bit (byteswap w) k = bit (rev (le_bytes w) ! (k div 8)) (k mod 8)"
    using assms n by (simp add: byteswap_def bit_le_word)
  also have "\<dots> = bit (le_bytes w ! (sizeof TYPE('a word) - 1 - k div 8)) (k mod 8)"
    using k by (simp add: rev_nth)
  also have "\<dots> = bit w (8 * (sizeof TYPE('a word) - 1 - k div 8) + k mod 8)"
    using k by (simp add: le_bytes_def bit_simps)
  finally show ?thesis .
qed

lemma swap_index:
  assumes "8 dvd LENGTH('a::len)" and "k < LENGTH('a)"
  shows "8 * (sizeof TYPE('a word) - 1 - k div 8) + k mod 8 < LENGTH('a)"
proof -
  have "8 * sizeof TYPE('a word) = LENGTH('a)" using assms(1) by (simp add: sizeof_def)
  then show ?thesis using assms(2) by linarith
qed

text \<open>The conversion to network order is its own inverse and acts bit by bit.\<close>

locale bit_permutation =
  fixes sw :: "'a::len word \<Rightarrow> 'a word" and perm :: "nat \<Rightarrow> nat"
  assumes bit_sw: "k < LENGTH('a) \<Longrightarrow> bit (sw w) k = bit w (perm k)"
    and perm_less: "k < LENGTH('a) \<Longrightarrow> perm k < LENGTH('a)"
    and perm_perm: "k < LENGTH('a) \<Longrightarrow> perm (perm k) = k"
begin

lemma sw_sw [simp]: "sw (sw w) = w"
  by (rule bit_word_eqI) (simp add: bit_sw perm_less perm_perm)

lemma sw_or: "sw (v OR w) = sw v OR sw w"
  by (rule bit_word_eqI) (simp add: bit_sw bit_or_iff)

lemma sw_and: "sw (v AND w) = sw v AND sw w"
  by (rule bit_word_eqI) (simp add: bit_sw bit_and_iff)

lemma sw_not: "sw (NOT w) = NOT (sw w)"
  by (rule bit_word_eqI) (simp add: bit_sw bit_not_iff perm_less)

lemma sw_bits: "{k. bit (sw w) k} = perm ` {k. bit w k}"
proof (rule set_eqI, rule iffI)
  fix k assume "k \<in> {k. bit (sw w) k}"
  then have k: "bit (sw w) k" "k < LENGTH('a)" by (simp_all add: bit_imp_le_length)
  then have "bit w (perm k)" by (simp add: bit_sw)
  with perm_perm [OF k(2)] show "k \<in> perm ` {k. bit w k}" by (metis image_eqI mem_Collect_eq)
next
  fix k assume "k \<in> perm ` {k. bit w k}"
  then obtain j where "bit w j" "k = perm j" by blast
  then show "k \<in> {k. bit (sw w) k}"
    using bit_sw [of k w] perm_less [of j] perm_perm [of j] by (simp add: bit_imp_le_length)
qed

lemma card_sw: "card {k. bit (sw w) k} = card {k. bit w k}"
  unfolding sw_bits
proof (rule card_image, rule inj_onI)
  fix j k assume "j \<in> {k. bit w k}" "k \<in> {k. bit w k}" "perm j = perm k"
  then show "j = k" by (metis bit_imp_le_length mem_Collect_eq perm_perm)
qed

end

definition swap_perm :: "endian \<Rightarrow> nat \<Rightarrow> nat \<Rightarrow> nat" where
  "swap_perm host n k = (if host = BIG_ENDIAN then k else 8 * (n - 1 - k div 8) + k mod 8)"

lemma swap_perm_perm:
  assumes "k < 8 * n"
  shows "swap_perm host n (swap_perm host n k) = k"
proof -
  have "k div 8 < n" using assms by linarith
  moreover have "(8 * (n - 1 - k div 8) + k mod 8) div 8 = n - 1 - k div 8" by simp
  ultimately show ?thesis by (simp add: swap_perm_def)
qed

interpretation net32: bit_permutation "byteswapOnLittleEndian host :: u32 \<Rightarrow> u32" "swap_perm host 4" for host
proof unfold_locales
  fix k and w :: u32 assume "k < LENGTH(32)"
  then show "bit (byteswapOnLittleEndian host w) k = bit w (swap_perm host 4 k)"
    using bit_byteswap [of k w] by (simp add: byteswapOnLittleEndian_def swap_perm_def sizeof_def)
  show "swap_perm host 4 k < LENGTH(32)"
    using swap_index [where 'a = 32, of k] \<open>k < LENGTH(32)\<close> by (simp add: swap_perm_def sizeof_def)
  show "swap_perm host 4 (swap_perm host 4 k) = k"
    using swap_perm_perm [of k 4] \<open>k < LENGTH(32)\<close> by simp
qed

interpretation net16: bit_permutation "byteswapOnLittleEndian host :: u16 \<Rightarrow> u16" "swap_perm host 2" for host
proof unfold_locales
  fix k and w :: u16 assume "k < LENGTH(16)"
  then show "bit (byteswapOnLittleEndian host w) k = bit w (swap_perm host 2 k)"
    using bit_byteswap [of k w] by (simp add: byteswapOnLittleEndian_def swap_perm_def sizeof_def)
  show "swap_perm host 2 k < LENGTH(16)"
    using swap_index [where 'a = 16, of k] \<open>k < LENGTH(16)\<close> by (simp add: swap_perm_def sizeof_def)
  show "swap_perm host 2 (swap_perm host 2 k) = k"
    using swap_perm_perm [of k 2] \<open>k < LENGTH(16)\<close> by simp
qed

lemma ones_bits: "finite {k. bit n k} \<and> ones n = card {k. bit n k}" for n :: nat
proof (induction n rule: less_induct)
  case (less n)
  show ?case
  proof (cases "n = 0")
    case False
    have split: "{k. bit n k} = {k. k = 0 \<and> odd n} \<union> Suc ` {k. bit (n div 2) k}" (is "_ = ?A \<union> Suc ` ?B")
    proof (rule set_eqI)
      fix k show "k \<in> {k. bit n k} \<longleftrightarrow> k \<in> ?A \<union> Suc ` ?B" by (cases k) (auto simp: bit_0 bit_Suc)
    qed
    have IH: "finite ?B" "ones (n div 2) = card ?B" using less.IH [of "n div 2"] False by simp_all
    have A: "finite ?A" "card ?A = n mod 2" by (cases "odd n"; simp add: odd_iff_mod_2_eq_one even_iff_mod_2_eq_zero)+
    have "card (?A \<union> Suc ` ?B) = card ?A + card (Suc ` ?B)" using A IH by (intro card_Un_disjoint) auto
    then show ?thesis using A IH False unfolding split by (simp add: ones.simps [of n] card_image)
  qed simp
qed

lemma CountBits_card: "CountBits (w :: 'a::len word) = word_of_nat (card {k. bit w k})"
  by (simp add: CountBits_def CountBits_loop_ones ones_bits bit_unsigned_iff)

lemma CountBits_net: "CountBits (byteswapOnLittleEndian host (w :: u32)) = CountBits w"
  by (simp add: CountBits_card net32.card_sw)

lemma CreateMask_ok:
  assumes "unat p \<le> width" and "width - unat p < 31"
  shows "CreateMask width p = Inr (mask (width - unat p))"
  using assms by (simp add: CreateMask_def mask_eq_exp_minus_1 push_bit_of_1)

lemma CountBits_prefix:
  assumes "p \<le> 32"
  shows "CountBits (NOT (mask (32 - p)) :: u32) = word_of_nat p"
proof -
  have "{k. bit (NOT (mask (32 - p)) :: u32) k} = {32 - p..<32}"
    using bit_imp_le_length by (auto simp: bit_not_iff bit_mask_iff)
  then show ?thesis using assms by (simp add: CountBits_card)
qed

text \<open>C36: for a prefix of 2 to 32 bits, on hosts of either byte order, the network address has exactly the bits of the
  address in the prefix, the broadcast address all bits behind it in addition, both keep the port, and the netmask has
  exactly the bits of the prefix, as many as are counted in it for an interface. A longer prefix gives no
  address, and for a prefix of 0 or 1 bits the mask is undefined.\<close>

theorem ipv4_subnet:
  assumes "n = byteswapOnLittleEndian host (s_addr a)"
  shows "(2 \<le> p \<and> p \<le> 32 \<longrightarrow>
           (\<exists>nw bc sm. IPv4Address_networkAddress host a p = Inr (Some nw) \<and> IPv4Address_broadcastAddress host a p = Inr (Some bc) \<and>
              IPv4Address_subnetMask host p = Inr sm \<and> sin_port nw = sin_port a \<and> sin_port bc = sin_port a \<and>
              (\<forall>k<32. (bit (byteswapOnLittleEndian host (s_addr nw)) k \<longleftrightarrow> 32 - unat p \<le> k \<and> bit n k) \<and>
                      (bit (byteswapOnLittleEndian host (s_addr bc)) k \<longleftrightarrow> k < 32 - unat p \<or> bit n k) \<and>
                      (bit (byteswapOnLittleEndian host (s_addr sm)) k \<longleftrightarrow> 32 - unat p \<le> k)) \<and>
              CountBits (s_addr sm) = p)) \<and>
         (32 < p \<longrightarrow> IPv4Address_networkAddress host a p = Inr None \<and> IPv4Address_broadcastAddress host a p = Inr None) \<and>
         (p < 2 \<longrightarrow> (\<exists>e. IPv4Address_networkAddress host a p = Inl (Undefined e)) \<and> (\<exists>e. IPv4Address_broadcastAddress host a p = Inl (Undefined e)) \<and>
            (\<exists>e. IPv4Address_subnetMask host p = Inl (Undefined e)))"
proof (intro conjI impI)
  let ?sw = "byteswapOnLittleEndian host :: u32 \<Rightarrow> u32" and ?m = "mask (32 - unat p) :: u32"
  assume "2 \<le> p \<and> p \<le> 32"
  then have p: "2 \<le> unat p" "unat p \<le> 32" by (simp_all add: word_le_nat_alt)
  then have m: "CreateMask 32 p = Inr ?m" by (intro CreateMask_ok) simp_all
  have eqs: "IPv4Address_networkAddress host a p = Inr (Some (a\<lparr>s_addr := s_addr a AND ?sw (NOT ?m)\<rparr>))"
    "IPv4Address_broadcastAddress host a p = Inr (Some (a\<lparr>s_addr := s_addr a OR ?sw ?m\<rparr>))"
    "IPv4Address_subnetMask host p = Inr \<lparr>sin_port = 0, s_addr = NOT (?sw ?m), sin_zero = replicate 8 0\<rparr>"
    using m p by (simp_all add: IPv4Address_networkAddress_def IPv4Address_broadcastAddress_def IPv4Address_subnetMask_def
        word_less_nat_alt)
  have "CountBits (NOT (?sw ?m)) = p"
    using CountBits_net [of host "NOT ?m"] CountBits_prefix [OF p(2)] by (simp add: net32.sw_not)
  moreover have "(bit (?sw (s_addr a AND ?sw (NOT ?m))) k \<longleftrightarrow> 32 - unat p \<le> k \<and> bit n k) \<and>
      (bit (?sw (s_addr a OR ?sw ?m)) k \<longleftrightarrow> k < 32 - unat p \<or> bit n k) \<and> (bit (?sw (NOT (?sw ?m))) k \<longleftrightarrow> 32 - unat p \<le> k)"
    if "k < 32" for k
    using that assms by (auto simp: net32.sw_and net32.sw_or net32.sw_not bit_and_iff bit_or_iff bit_not_iff bit_mask_iff)
  ultimately show "\<exists>nw bc sm. IPv4Address_networkAddress host a p = Inr (Some nw) \<and> IPv4Address_broadcastAddress host a p = Inr (Some bc) \<and>
      IPv4Address_subnetMask host p = Inr sm \<and> sin_port nw = sin_port a \<and> sin_port bc = sin_port a \<and>
      (\<forall>k<32. (bit (?sw (s_addr nw)) k \<longleftrightarrow> 32 - unat p \<le> k \<and> bit n k) \<and>
              (bit (?sw (s_addr bc)) k \<longleftrightarrow> k < 32 - unat p \<or> bit n k) \<and>
              (bit (?sw (s_addr sm)) k \<longleftrightarrow> 32 - unat p \<le> k)) \<and>
      CountBits (s_addr sm) = p"
    unfolding eqs by simp
next
  assume "32 < p"
  then show "IPv4Address_networkAddress host a p = Inr None" "IPv4Address_broadcastAddress host a p = Inr None"
    by (simp_all add: IPv4Address_networkAddress_def IPv4Address_broadcastAddress_def)
next
  assume "p < 2"
  then have "unat p = 0 \<or> unat p = 1" by (auto simp: word_less_nat_alt)
  then have c: "\<exists>e. CreateMask 32 p = Inl (Undefined e)" and l: "\<not> 32 < p"
    by (auto simp: CreateMask_def word_less_nat_alt)
  then show "\<exists>e. IPv4Address_networkAddress host a p = Inl (Undefined e)" "\<exists>e. IPv4Address_broadcastAddress host a p = Inl (Undefined e)"
    "\<exists>e. IPv4Address_subnetMask host p = Inl (Undefined e)"
    by (auto simp: IPv4Address_networkAddress_def IPv4Address_broadcastAddress_def IPv4Address_subnetMask_def)
qed

theorem ipv4_subnet_witness:
  "\<exists>nw sm. IPv4Address_networkAddress LITTLE_ENDIAN (newIPv4Address LITTLE_ENDIAN 0xC0A8010A 80) 24 = Inr (Some nw) \<and>
     IPv4Address_subnetMask LITTLE_ENDIAN 24 = Inr sm \<and> CountBits (s_addr sm) = 24 \<and>
     \<not> bit (byteswapOnLittleEndian LITTLE_ENDIAN (s_addr nw)) 1"
  using ipv4_subnet [OF refl, where host = LITTLE_ENDIAN and a = "newIPv4Address LITTLE_ENDIAN 0xC0A8010A 80" and p = 24]
  by (auto simp: word_le_nat_alt)

section \<open>The order of addresses\<close>

lemma Nil_less_iff: "[] < xs \<longleftrightarrow> xs \<noteq> []" for xs :: "u8 list"
  by (cases xs) simp_all

lemma memcmp_lexicographic:
  "(let m = min (length xs) (length ys); r = memcmp (take m xs) (take m ys) in
     if r < 0 then True else if r > 0 then False else if length xs < length ys then True else False) \<longleftrightarrow> xs < ys"
proof (induction xs ys rule: memcmp.induct)
  case (1 a as b bs)
  then show ?case by (auto simp: Let_def)
qed (auto simp: Let_def Nil_less_iff)

lemma memcmp_equal: "length xs = length ys \<Longrightarrow> memcmp xs ys = 0 \<longleftrightarrow> xs = ys"
  by (induction xs ys rule: memcmp.induct) auto

text \<open>The comparison of addresses is the lexicographic order of their bytes, and equality is that of the bytes; so
  addresses can be the keys of ordered containers.\<close>

theorem address_order:
  "Address_less host a b = (addr_bytes host a < addr_bytes host b) \<and>
   Address_eq host a b = (addr_bytes host a = addr_bytes host b) \<and>
   Address_neq host a b = (Address_less host a b \<or> Address_less host b a)"
proof -
  have less: "Address_less host a b = (addr_bytes host a < addr_bytes host b)" for a b
    unfolding Address_less_def Let_def memcmp_lexicographic [symmetric] ..
  have eq: "Address_eq host a b = (addr_bytes host a = addr_bytes host b)"
    using memcmp_equal [of "addr_bytes host a" "addr_bytes host b"] by (auto simp: Address_eq_def Let_def)
  show ?thesis by (auto simp: less eq Address_neq_def)
qed

section \<open>Hosts and paths\<close>

lemma str_find_at: "f \<notin> set a \<Longrightarrow> i = length pre \<Longrightarrow> str_find (pre @ a @ f # b) f i = Some (i + length a)"
  using str_find_skip [of pre "a @ f # b" f] str_find_first(1) [of f a b] by simp

lemma str_find_none: "f \<notin> set a \<Longrightarrow> i = length pre \<Longrightarrow> str_find (pre @ a) f i = None"
  using str_find_skip [of pre a f] str_find_first(2) [of f a] by simp

text \<open>A host is taken apart as written: a name or number with or without a port, and an IPv6 number in brackets
  with or without one. An IPv6 number without brackets is looked up as a whole, but with the text from its first
  colon on as the service.\<close>

theorem host_split:
  assumes "node \<noteq> []" and "hd node \<noteq> CHR ''[''" and "CHR '':'' \<notin> set node" and "CHR '':'' \<notin> set port"
    and "v6 \<noteq> []" and "CHR '']'' \<notin> set v6" and "CHR '':'' \<in> set rest"
  shows "split_host node = (node, None) \<and> split_host (node @ '':'' @ port) = (node, Some port) \<and>
         split_host (''['' @ v6 @ '']'') = (v6, None) \<and> split_host (''['' @ v6 @ '']:'' @ port) = (v6, Some port) \<and>
         split_host (node @ '':'' @ rest) = (node @ '':'' @ rest, Some ('':'' @ rest))"
proof (intro conjI)
  have hd: "hd (node @ xs) \<noteq> CHR ''[''" for xs using assms(1,2) by simp
  show "split_host node = (node, None)"
    using assms str_find_none [of "CHR '':''" node 0 "[]"] by (simp add: split_host_def memchr_from_def)
  have colon: "str_find (node @ CHR '':'' # xs) (CHR '':'') 0 = Some (length node)" for xs
    using str_find_at [of "CHR '':''" node 0 "[]" xs] assms(3) by simp
  show "split_host (node @ '':'' @ port) = (node, Some port)"
    using colon [of port] str_find_none [of "CHR '':''" port "Suc (length node)" "node @ '':''"] assms hd [of "'':'' @ port"]
    by (simp add: split_host_def memchr_from_def)
  obtain x y where xy: "rest = x @ CHR '':'' # y" "CHR '':'' \<notin> set x" using assms(7) by (meson split_list_first)
  show "split_host (node @ '':'' @ rest) = (node @ '':'' @ rest, Some ('':'' @ rest))"
    using colon [of rest] str_find_at [of "CHR '':''" x "Suc (length node)" "node @ '':''" y] xy assms hd [of "'':'' @ rest"]
    by (simp add: split_host_def memchr_from_def)
  have bracket: "str_find (CHR ''['' # v6 @ CHR '']'' # xs) (CHR '']'') 1 = Some (Suc (length v6))" for xs
    using str_find_at [of "CHR '']''" v6 1 "''[''" xs] assms(6) by simp
  show "split_host (''['' @ v6 @ '']'') = (v6, None)"
    using bracket [of "[]"] assms(5) by (simp add: split_host_def memchr_from_def)
  show "split_host (''['' @ v6 @ '']:'' @ port) = (v6, Some port)"
    using bracket [of "CHR '':'' # port"] assms(5) by (simp add: split_host_def memchr_from_def nth_append)
qed

theorem host_split_witness:
  "split_host ''fe80::1'' = (''fe80::1'', Some ''::1'')"
  using host_split [of "''fe80''" "''80''" "''fe80''" "'':1''"] by simp

text \<open>The path of a Unix address is the one it was made from, if that is not empty and fits; the zero that
  starts an abstract name is printed as \<open>\0\<close>, and longer paths are refused.\<close>

lemma sun_path_blit: "length xs \<le> 108 \<Longrightarrow> blit 0 xs (replicate 108 c) = xs @ replicate (108 - length xs) c"
  by (simp add: blit_def)

lemma unat_of_nat_u32: "n < 2 ^ 32 \<Longrightarrow> unat (word_of_nat n :: u32) = n"
  by (simp add: unat_of_nat)

theorem unix_path:
  assumes "length path < 2 ^ 32 - 1"
  shows "(path \<noteq> [] \<and> CHR 0x00 \<notin> set path \<and> length path \<le> 107 \<longrightarrow>
            (\<exists>a. newUnixAddress_path path = Inr a \<and> UnixAddress_getPath a = Inr path)) \<and>
         (\<forall>name. path = CHR 0x00 # name \<and> length name \<le> 107 \<longrightarrow>
            (\<exists>a. newUnixAddress_path path = Inr a \<and> UnixAddress_getPath a = Inr (CHR 0x5C # CHR ''0'' # name))) \<and>
         (108 < length path \<longrightarrow> newUnixAddress_path path = Inl (Logic_error ''path too long''))"
proof (intro conjI impI allI; (elim conjE)?)
  define len :: u32 where "len = word_of_nat (length path) + 1"
  have len: "unat len = length path + 1" "unat (len - 1) = length path"
    using assms unat_of_nat_u32 [of "Suc (length path)"] unat_of_nat_u32 [of "length path"]
    by (simp_all add: len_def add.commute)
  {
    assume p: "path \<noteq> []" "CHR 0x00 \<notin> set path" "length path \<le> 107"
    have "hd path \<noteq> CHR 0x00" using p by (cases path) auto
    then have "newUnixAddress_path path = Inr \<lparr>sun_path = path @ replicate (108 - length path) (CHR 0x00), un_length = len + 2\<rparr>"
      using p len sun_path_blit [of "path @ [CHR 0x00]" "CHR 0x00"]
      by (simp add: newUnixAddress_path_def Let_def len_def [symmetric] word_less_nat_alt replicate_app_Cons_same
        flip: replicate_Suc)
    then show "\<exists>a. newUnixAddress_path path = Inr a \<and> UnixAddress_getPath a = Inr path"
      using p by (auto simp: UnixAddress_getPath_def c_str_def hd_append takeWhile_append \<open>hd path \<noteq> CHR 0x00\<close>)
  next
    fix name
    assume p: "path = CHR 0x00 # name" "length name \<le> 107"
    have l: "len = word_of_nat (length name + 2)" using p by (simp add: len_def)
    have l1: "len - 1 = word_of_nat (length path)" by (simp add: len_def)
    then have "\<not> 108 < len - 1" "take (unat (len - 1)) (path @ [CHR 0x00]) = path" "path \<noteq> [] \<and> hd path = CHR 0x00"
      using p len by (simp_all add: word_less_nat_alt)
    then have made: "newUnixAddress_path path = Inr \<lparr>sun_path = path @ replicate (108 - length path) (CHR 0x00), un_length = len - 1 + 2\<rparr>"
      using p sun_path_blit [of path "CHR 0x00"]
      unfolding newUnixAddress_path_def Let_def len_def [symmetric] by (simp only: if_True if_False simp_thms) simp
    have "unat (len - 1 + 2) = length name + 3" "unat (len - 1 + 2 - 2 - 1) = length name"
      using p(2) unat_of_nat_u32 [of "length name + 3"] unat_of_nat_u32 [of "length name"] by (simp_all add: l add.commute)
    then show "\<exists>a. newUnixAddress_path path = Inr a \<and> UnixAddress_getPath a = Inr (CHR 0x5C # CHR ''0'' # name)"
      using p unfolding made by (auto simp: UnixAddress_getPath_def word_less_nat_alt)
  next
    assume "108 < length path"
    then show "newUnixAddress_path path = Inl (Logic_error ''path too long'')"
      using len by (simp add: newUnixAddress_path_def Let_def len_def [symmetric] word_less_nat_alt)
  }
qed

theorem unix_path_witness:
  "\<exists>a. newUnixAddress_path ''/tmp/s'' = Inr a \<and> UnixAddress_getPath a = Inr ''/tmp/s''"
  using unix_path [of "''/tmp/s''"] by simp

end
