(* ===== verification/Lamb_Log.thy ===== *)
theory Lamb_Log
  imports Lamb_Http
begin

text \<open>
  \<open>lamb/log.cc\<close>: levels, events, the patterns of the formatter, appenders and loggers. Appenders are objects of a heap, shared
  by pointer; a logger is identified by its name, under which the manager keeps it. The terminal and the files are texts that
  grow. \<open>strftime\<close> after \<open>localtime_r\<close> is the argument \<open>tm\<close>, giving the whole text of a time in a format; whether a file can be
  opened and whether a write succeeds are arguments too.
\<close>

section \<open>Levels\<close>

text \<open>Levels are kept as numbers, since the code casts numbers to levels.\<close>

type_synonym level = nat

definition UNKNOW :: level where "UNKNOW = 0"
definition DEBUG :: level where "DEBUG = 1"
definition INFO :: level where "INFO = 2"
definition WARN :: level where "WARN = 3"
definition ERROR :: level where "ERROR = 4"
definition FATAL :: level where "FATAL = 5"
definition NOTSET :: level where "NOTSET = 6"

lemmas level_defs = UNKNOW_def DEBUG_def INFO_def WARN_def ERROR_def FATAL_def NOTSET_def

definition LogLevel_ToString :: "level \<Rightarrow> string" where
  "LogLevel_ToString l =
     (if l = DEBUG then ''DEBUG'' else if l = INFO then ''INFO'' else if l = WARN then ''WARN''
      else if l = ERROR then ''ERROR'' else if l = FATAL then ''FATAL'' else ''UNKNOW'')"

definition LogLevel_FromString :: "string \<Rightarrow> level" where
  "LogLevel_FromString str =
     (if str = ''debug'' then DEBUG else if str = ''info'' then INFO else if str = ''warn'' then WARN
      else if str = ''error'' then ERROR else if str = ''fatal'' then FATAL
      else if str = ''DEBUG'' then DEBUG else if str = ''INFO'' then INFO else if str = ''WARN'' then WARN
      else if str = ''ERROR'' then ERROR else if str = ''FATAL'' then FATAL
      else UNKNOW)"

section \<open>Events\<close>

record LogEvent =
  le_loggerName :: string
  le_level :: level
  le_file :: string
  le_line :: int
  le_elapse :: u32
  le_threadId :: u32
  le_fiberId :: u32
  le_time :: u64
  le_threadName :: string
  le_ss :: string

definition newLogEvent :: "string \<Rightarrow> level \<Rightarrow> string \<Rightarrow> int \<Rightarrow> u32 \<Rightarrow> u32 \<Rightarrow> u32 \<Rightarrow> u64 \<Rightarrow> string \<Rightarrow> LogEvent" where
  "newLogEvent logName lvl file line elapse thread_id fiber_id time threadName =
     \<lparr>le_loggerName = logName, le_level = lvl, le_file = file, le_line = line, le_elapse = elapse, le_threadId = thread_id,
      le_fiberId = fiber_id, le_time = time, le_threadName = threadName, le_ss = []\<rparr>"

text \<open>\<open>text\<close> is the result of \<open>vasprintf\<close>, if it succeeds.\<close>

definition LogEvent_vprintf :: "string option \<Rightarrow> LogEvent \<Rightarrow> LogEvent" where
  "LogEvent_vprintf text e = (case text of None \<Rightarrow> e | Some s \<Rightarrow> e\<lparr>le_ss := le_ss e @ s\<rparr>)"

section \<open>Format items\<close>

datatype FormatItem = MessageItem | LevelItem | ElapseItem | ThreadIdItem | FiberIdItem | DateTimeItem string | FilenameItem
  | LineItem | LoggerNameItem | NewLineItem | TabItem | PercentSignItem | StringItem string | ThreadNameItem

definition newDateTimeItem :: "string \<Rightarrow> FormatItem" where
  "newDateTimeItem format = DateTimeItem (if format = [] then ''%Y-%m-%d %H:%M:%S'' else format)"

text \<open>\<open>strftime\<close> fills a buffer of 64 characters; of a text that does not fit, with its terminating \<open>0\<close>, the content of the
  buffer is indeterminate.\<close>

fun item_format :: "(string \<Rightarrow> u64 \<Rightarrow> string) \<Rightarrow> FormatItem \<Rightarrow> LogEvent \<Rightarrow> string res" where
  "item_format tm MessageItem e = Inr (le_ss e)"
| "item_format tm LevelItem e = Inr (LogLevel_ToString (le_level e))"
| "item_format tm ElapseItem e = Inr (show_nat (unat (le_elapse e)))"
| "item_format tm ThreadIdItem e = Inr (show_nat (unat (le_threadId e)))"
| "item_format tm FiberIdItem e = Inr (show_nat (unat (le_fiberId e)))"
| "item_format tm (DateTimeItem format) e =
     (let t = tm (c_str format) (le_time e) in if 64 \<le> length t then Inl (Undefined ''buf'') else Inr t)"
| "item_format tm FilenameItem e = Inr (le_file e)"
| "item_format tm LineItem e = Inr (show_int (le_line e))"
| "item_format tm LoggerNameItem e = Inr (le_loggerName e)"
| "item_format tm NewLineItem e = Inr [CHR 0x0A]"
| "item_format tm TabItem e = Inr [CHR 0x09]"
| "item_format tm PercentSignItem e = Inr ''%''"
| "item_format tm (StringItem s) e = Inr s"
| "item_format tm ThreadNameItem e = Inr (le_threadName e)"

section \<open>The formatter\<close>

record LogFormatter =
  lf_pattern :: string
  lf_items :: "FormatItem list"
  lf_error :: bool

definition default_pattern :: string where
  "default_pattern = ''%d{%Y-%m-%d %H:%M:%S} [%rms]%T%t%T%N%T%F%T[%p]%T[%c]%T%f:%l:%m%n''"

text \<open>The inner loop over the format of a date.\<close>

function date_loop :: "string \<Rightarrow> nat \<Rightarrow> string \<Rightarrow> nat \<times> string" where
  "date_loop p i df = (if i < length p \<and> p ! i \<noteq> CHR ''}'' then date_loop p (Suc i) (df @ [p ! i]) else (i, df))"
  by pat_completeness auto
termination by (relation "measure (\<lambda>(p, i, df). length p - i)") auto

declare date_loop.simps [simp del]

lemma date_loop_le: "i \<le> fst (date_loop p i df)"
  by (induction p i df rule: date_loop.induct) (subst date_loop.simps, auto)

text \<open>The loop over the pattern. Its result is the flag \<open>error\<close>, the collected parts, the rest of the literal text and the
  format of dates; a part is literal (0) or a conversion (1). \<open>m_pattern[i]\<close> for \<open>i = size ()\<close> is the terminating \<open>0\<close>, and beyond
  that there is none.\<close>

function init_loop ::
  "string \<Rightarrow> nat \<Rightarrow> bool \<Rightarrow> string \<Rightarrow> string \<Rightarrow> (nat \<times> string) list \<Rightarrow> (bool \<times> (nat \<times> string) list \<times> string \<times> string) res" where
  "init_loop p i parsing_string tmp df patterns =
     (if \<not> i < length p then Inr (False, patterns, tmp, df)
      else let c = p ! i in
      if c = CHR ''%'' then
        if parsing_string then
          init_loop p (Suc i) False [] df (if tmp \<noteq> [] then patterns @ [(0, tmp)] else patterns)
        else init_loop p (Suc i) True tmp df (patterns @ [(1, [c])])
      else if parsing_string then init_loop p (Suc i) True (tmp @ [c]) df patterns
      else if c \<noteq> CHR ''d'' then init_loop p (Suc i) True tmp df (patterns @ [(1, [c])])
      else if Suc i < length p \<and> p ! Suc i \<noteq> CHR ''{'' then init_loop p (Suc i) True tmp df (patterns @ [(1, [c])])
      else let (j, df) = date_loop p (Suc (Suc i)) df in
      if length p < j then Inl (Bad_access ''m_pattern'')
      else if j = length p \<or> p ! j \<noteq> CHR ''}'' then Inr (True, patterns @ [(1, [c])], tmp, df)
      else init_loop p (Suc j) True tmp df (patterns @ [(1, [c])]))"
  by pat_completeness auto
termination
proof (relation "measure (\<lambda>(p, i, parsing_string, tmp, df, patterns). length p - i)")
  fix p i parsing_string tmp df patterns c x j df'
  assume "\<not> \<not> i < length p" "x = date_loop p (Suc (Suc i)) df" "(j, df') = x"
  then show "((p, Suc j, True, tmp, df', patterns @ [(1, [c])]), p, i, parsing_string, tmp, df, patterns) \<in>
      measure (\<lambda>(p, i, parsing_string, tmp, df, patterns). length p - i)" for df'
    using date_loop_le [of "Suc (Suc i)" p df] by (auto simp: prod_eq_iff)
qed auto

declare init_loop.simps [simp del]

text \<open>The table \<open>s_format_items\<close>.\<close>

definition s_format_items :: "string \<Rightarrow> FormatItem option" where
  "s_format_items s =
     map_of [(''m'', MessageItem), (''p'', LevelItem), (''c'', LoggerNameItem), (''r'', ElapseItem), (''f'', FilenameItem),
       (''l'', LineItem), (''t'', ThreadIdItem), (''F'', FiberIdItem), (''N'', ThreadNameItem), (''n'', NewLineItem),
       (''T'', TabItem), (''%'', PercentSignItem)] s"

fun add_items :: "string \<Rightarrow> (nat \<times> string) list \<Rightarrow> FormatItem list \<Rightarrow> FormatItem list \<times> bool" where
  "add_items df [] items = (items, False)"
| "add_items df ((k, s) # ps) items =
     (if k = 0 then add_items df ps (items @ [StringItem s])
      else if s = ''d'' then add_items df ps (items @ [newDateTimeItem df])
      else case s_format_items s of None \<Rightarrow> (items, True) | Some it \<Rightarrow> add_items df ps (items @ [it]))"

definition LogFormatter_init :: "LogFormatter \<Rightarrow> LogFormatter res" where
  "LogFormatter_init f =
     bindR (init_loop (lf_pattern f) 0 True [] [] []) (\<lambda>(err, patterns, tmp, df).
       if err then Inr (f\<lparr>lf_error := True\<rparr>)
       else let patterns = (if tmp \<noteq> [] then patterns @ [(0, tmp)] else patterns);
                (items, err) = add_items df patterns (lf_items f) in
         Inr (f\<lparr>lf_items := items, lf_error := (lf_error f \<or> err)\<rparr>))"

definition newLogFormatter :: "string \<Rightarrow> LogFormatter res" where
  "newLogFormatter pattern = LogFormatter_init \<lparr>lf_pattern = pattern, lf_items = [], lf_error = False\<rparr>"

fun format_items :: "(string \<Rightarrow> u64 \<Rightarrow> string) \<Rightarrow> FormatItem list \<Rightarrow> LogEvent \<Rightarrow> string res" where
  "format_items tm [] e = Inr []"
| "format_items tm (it # its) e = bindR (item_format tm it e) (\<lambda>s. bindR (format_items tm its e) (\<lambda>t. Inr (s @ t)))"

definition LogFormatter_format :: "(string \<Rightarrow> u64 \<Rightarrow> string) \<Rightarrow> LogFormatter \<Rightarrow> LogEvent \<Rightarrow> string res" where
  "LogFormatter_format tm f e = format_items tm (lf_items f) e"

section \<open>The meaning of a pattern\<close>

datatype token = Lit string | Conv char | Date string | Plain_date

fun show_token :: "token \<Rightarrow> string" where
  "show_token (Lit s) = s"
| "show_token (Conv c) = [CHR ''%'', c]"
| "show_token (Date f) = ''%d{'' @ f @ ''}''"
| "show_token Plain_date = ''%d''"

abbreviation show_tokens :: "token list \<Rightarrow> string" where
  "show_tokens ts \<equiv> concat (map show_token ts)"

text \<open>A date without a format must be followed by something else than a brace.\<close>

fun wf_tokens :: "token list \<Rightarrow> bool" where
  "wf_tokens [] = True"
| "wf_tokens (t # ts) = ((case t of Lit s \<Rightarrow> CHR ''%'' \<notin> set s | Conv c \<Rightarrow> s_format_items [c] \<noteq> None
     | Date f \<Rightarrow> CHR ''}'' \<notin> set f | Plain_date \<Rightarrow> show_tokens ts \<noteq> [] \<and> hd (show_tokens ts) \<noteq> CHR ''{'') \<and> wf_tokens ts)"

fun dates :: "token list \<Rightarrow> string" where
  "dates [] = []"
| "dates (t # ts) = (case t of Date f \<Rightarrow> f | _ \<Rightarrow> []) @ dates ts"

fun token_item :: "string \<Rightarrow> token \<Rightarrow> FormatItem" where
  "token_item df (Lit s) = StringItem s"
| "token_item df (Conv c) = the (s_format_items [c])"
| "token_item df _ = newDateTimeItem df"

definition flush :: "string \<Rightarrow> (nat \<times> string) list" where
  "flush tmp = (if tmp \<noteq> [] then [(0, tmp)] else [])"

fun parts :: "string \<Rightarrow> token list \<Rightarrow> (nat \<times> string) list" where
  "parts tmp [] = flush tmp"
| "parts tmp (t # ts) = (case t of Lit s \<Rightarrow> parts (tmp @ s) ts | Conv c \<Rightarrow> flush tmp @ (1, [c]) # parts [] ts
     | _ \<Rightarrow> flush tmp @ (1, ''d'') # parts [] ts)"

lemma Conv_chars: "s_format_items [c] \<noteq> None \<Longrightarrow> c \<noteq> CHR ''d''"
  by (auto simp: s_format_items_def)

lemma date_loop_ok:
  "CHR ''}'' \<notin> set f \<Longrightarrow> date_loop (pre @ f @ CHR ''}'' # rest) (length pre) df = (length pre + length f, df @ f)"
proof (induction f arbitrary: pre df)
  case Nil
  then show ?case by (simp add: date_loop.simps)
next
  case (Cons c f)
  then show ?case
    using Cons.IH [of "pre @ [c]" "df @ [c]"] by (auto simp: date_loop.simps [of _ "length pre"])
qed

lemma init_loop_literal:
  "CHR ''%'' \<notin> set s \<Longrightarrow>
   init_loop (pre @ s @ rest) (length pre) True tmp df ps = init_loop (pre @ s @ rest) (length (pre @ s)) True (tmp @ s) df ps"
proof (induction s arbitrary: pre tmp)
  case (Cons c s)
  then show ?case
    using Cons.IH [of "pre @ [c]" "tmp @ [c]"] by (auto simp: init_loop.simps [of _ "length pre"])
qed simp

lemma init_loop_conv:
  assumes "s_format_items [c] \<noteq> None"
  shows "init_loop (pre @ CHR ''%'' # c # rest) (length pre) True tmp df ps =
         init_loop (pre @ CHR ''%'' # c # rest) (length (pre @ [CHR ''%'', c])) True [] df (ps @ flush tmp @ [(1, [c])])"
  using Conv_chars [OF assms]
  by (cases "c = CHR ''%''")
     (simp_all add: init_loop.simps [of _ "length pre"] init_loop.simps [of _ "Suc (length pre)"] nth_append flush_def Let_def)

lemma init_loop_date:
  assumes "CHR ''}'' \<notin> set f"
  shows "init_loop (pre @ ''%d{'' @ f @ CHR ''}'' # rest) (length pre) True tmp df ps =
         init_loop (pre @ ''%d{'' @ f @ CHR ''}'' # rest) (length (pre @ ''%d{'' @ f @ ''}'')) True [] (df @ f) (ps @ flush tmp @ [(1, ''d'')])"
  using date_loop_ok [OF assms, of "pre @ ''%d{''" rest df] nth_append_length [of "pre @ ''%d{'' @ f" "CHR ''}''" rest]
  by (simp add: init_loop.simps [of _ "length pre"] init_loop.simps [of _ "Suc (length pre)"] nth_append flush_def add.assoc Let_def)

lemma init_loop_plain:
  assumes "rest \<noteq> []" and "hd rest \<noteq> CHR ''{''"
  shows "init_loop (pre @ ''%d'' @ rest) (length pre) True tmp df ps =
         init_loop (pre @ ''%d'' @ rest) (length (pre @ ''%d'')) True [] df (ps @ flush tmp @ [(1, ''d'')])"
  using assms
  by (simp add: init_loop.simps [of _ "length pre"] init_loop.simps [of _ "Suc (length pre)"] nth_append flush_def hd_conv_nth Let_def)

lemma init_loop_tokens:
  assumes "wf_tokens ts" and "rest = [] \<or> hd rest = CHR ''%''"
  shows "\<exists>P T. init_loop (pre @ show_tokens ts @ rest) (length pre) True tmp df ps =
           init_loop (pre @ show_tokens ts @ rest) (length (pre @ show_tokens ts)) True T (df @ dates ts) P \<and>
           P @ flush T = ps @ parts tmp ts"
  using assms
proof (induction ts arbitrary: pre tmp df ps)
  case Nil
  then show ?case by (intro exI [of _ ps] exI [of _ tmp]) simp
next
  case (Cons t ts)
  show ?case
  proof (cases t)
    case (Lit s)
    then show ?thesis
      using Cons.IH [of "pre @ s" "tmp @ s" df ps] Cons.prems init_loop_literal [of s pre "show_tokens ts @ rest" tmp df ps] by simp
  next
    case (Conv c)
    then show ?thesis
      using Cons.IH [of "pre @ [CHR ''%'', c]" "[]" df "ps @ flush tmp @ [(1, [c])]"] Cons.prems
        init_loop_conv [of c pre "show_tokens ts @ rest" tmp df ps] by simp
  next
    case (Date f)
    then show ?thesis
      using Cons.IH [of "pre @ ''%d{'' @ f @ ''}''" "[]" "df @ f" "ps @ flush tmp @ [(1, ''d'')]"] Cons.prems
        init_loop_date [of f pre "show_tokens ts @ rest" tmp df ps] by simp
  next
    case Plain_date
    then show ?thesis
      using Cons.IH [of "pre @ ''%d''" "[]" df "ps @ flush tmp @ [(1, ''d'')]"] Cons.prems
        init_loop_plain [of "show_tokens ts @ rest" pre tmp df ps] by simp
  qed
qed

fun meaning :: "(string \<Rightarrow> u64 \<Rightarrow> string) \<Rightarrow> string \<Rightarrow> token list \<Rightarrow> LogEvent \<Rightarrow> string res" where
  "meaning tm df [] e = Inr []"
| "meaning tm df (t # ts) e = bindR (item_format tm (token_item df t) e) (\<lambda>s. bindR (meaning tm df ts e) (\<lambda>r. Inr (s @ r)))"

lemma add_items_flush: "add_items df (flush tmp @ ps) items = add_items df ps (items @ (if tmp \<noteq> [] then [StringItem tmp] else []))"
  by (simp add: flush_def)

lemma bindR_prefix: "bindR (bindR m (\<lambda>r. Inr (s @ r))) (\<lambda>r. Inr (t @ r)) = bindR m (\<lambda>r. Inr ((t @ s) @ r))"
  by (cases m) simp_all

lemma add_items_parts:
  "wf_tokens ts \<Longrightarrow> \<exists>its. add_items df (parts tmp ts) items = (items @ its, False) \<and>
     (\<forall>tm e. format_items tm its e = bindR (meaning tm df ts e) (\<lambda>r. Inr (tmp @ r)))"
proof (induction ts arbitrary: tmp items)
  case Nil
  then show ?case by (simp add: flush_def)
next
  case (Cons t ts)
  let ?pre = "if tmp \<noteq> [] then [StringItem tmp] else []"
  have step: "\<exists>its. add_items df (flush tmp @ x # parts [] ts) items = (items @ its, False) \<and>
      (\<forall>tm e. format_items tm its e = bindR (meaning tm df (t # ts) e) (\<lambda>r. Inr (tmp @ r)))"
    if "\<And>items. add_items df (x # parts [] ts) items = add_items df (parts [] ts) (items @ [token_item df t])" for x
  proof -
    obtain its where its: "add_items df (parts [] ts) (items @ ?pre @ [token_item df t]) = ((items @ ?pre @ [token_item df t]) @ its, False)"
      "\<And>tm e. format_items tm its e = meaning tm df ts e"
      using Cons by fastforce
    have "format_items tm (?pre @ token_item df t # its) e = bindR (meaning tm df (t # ts) e) (\<lambda>r. Inr (tmp @ r))" for tm e
      using its(2) by (cases "item_format tm (token_item df t) e"; cases "meaning tm df ts e") simp_all
    then show ?thesis
      using its(1) by (intro exI [of _ "?pre @ token_item df t # its"]) (simp add: add_items_flush that del: add_items.simps)
  qed
  show ?case
  proof (cases t)
    case (Lit s)
    then show ?thesis using Cons.IH [of "tmp @ s" items] Cons.prems by (simp add: bindR_prefix)
  next
    case (Conv c)
    then obtain it where "s_format_items [c] = Some it" using Cons.prems by auto
    then show ?thesis using Conv step [of "(1, [c])"] Conv_chars [of c] by simp
  qed (use step [of "(1, ''d'')"] in simp_all)
qed

lemma newLogFormatter_tokens:
  assumes "wf_tokens ts"
  shows "\<exists>f. newLogFormatter (show_tokens ts) = Inr f \<and> \<not> lf_error f \<and> lf_pattern f = show_tokens ts \<and>
           (\<forall>tm e. LogFormatter_format tm f e = meaning tm (dates ts) ts e)"
proof -
  obtain P T where loop: "init_loop (show_tokens ts) 0 True [] [] [] = init_loop (show_tokens ts) (length (show_tokens ts)) True T (dates ts) P"
      "P @ flush T = parts [] ts"
    using init_loop_tokens [OF assms, of "[]" "[]" "[]" "[]" "[]"] by auto
  then have "init_loop (show_tokens ts) 0 True [] [] [] = Inr (False, P, T, dates ts)" by (simp add: init_loop.simps)
  moreover obtain its where "add_items (dates ts) (P @ flush T) [] = (its, False)"
      "\<forall>tm e. format_items tm its e = meaning tm (dates ts) ts e"
    using add_items_parts [OF assms, of "dates ts" "[]" "[]"] loop(2) by auto
  ultimately show ?thesis
    by (auto simp: newLogFormatter_def LogFormatter_init_def LogFormatter_format_def flush_def split: if_splits)
qed

text \<open>C33: a pattern written from literal text, conversions of the table and dates is accepted, and events are formatted as
  the texts of its parts in order. All dates of a pattern share one format, the formats given in it joined together.\<close>

theorem formatter_meaning:
  assumes "wf_tokens ts"
  shows "\<exists>f. newLogFormatter (show_tokens ts) = Inr f \<and> \<not> lf_error f \<and> lf_pattern f = show_tokens ts \<and>
           (\<forall>tm e. LogFormatter_format tm f e = meaning tm (dates ts) ts e)"
  by (rule newLogFormatter_tokens [OF assms])

lemma add_items_append:
  "add_items df ps items = (its, False) \<Longrightarrow> add_items df (ps @ qs) items = add_items df qs its"
  by (induction df ps items rule: add_items.induct) (auto split: if_splits option.splits)

lemma date_loop_open: "CHR ''}'' \<notin> set f \<Longrightarrow> date_loop (pre @ f) (length pre) df = (length pre + length f, df @ f)"
proof (induction f arbitrary: pre df)
  case Nil
  then show ?case by (simp add: date_loop.simps)
next
  case (Cons c f)
  then show ?case
    using Cons.IH [of "pre @ [c]" "df @ [c]"] by (auto simp: date_loop.simps [of _ "length pre"])
qed

text \<open>C34: what follows an accepted pattern may make it wrong: an unknown conversion or a date format without its closing brace sets the
  error flag, and a date at the very end, without a format, makes the parser read behind the pattern.\<close>

theorem formatter_errors:
  assumes "wf_tokens ts" and "c \<noteq> CHR ''d''" and "s_format_items [c] = None" and "CHR ''}'' \<notin> set f"
  shows "(\<exists>g. newLogFormatter (show_tokens ts @ [CHR ''%'', c]) = Inr g \<and> lf_error g) \<and>
         (\<exists>g. newLogFormatter (show_tokens ts @ ''%d{'' @ f) = Inr g \<and> lf_error g \<and> lf_items g = []) \<and>
         newLogFormatter (show_tokens ts @ ''%d'') = Inl (Bad_access ''m_pattern'')"
proof -
  define n where "n = length (show_tokens ts)"
  have loop: "init_loop (show_tokens ts @ CHR ''%'' # xs) 0 True [] [] [] =
      init_loop (show_tokens ts @ CHR ''%'' # xs) (Suc n) False [] (dates ts) (parts [] ts)" for xs
    using init_loop_tokens [OF assms(1), of "CHR ''%'' # xs" "[]" "[]" "[]" "[]"]
    by (auto simp: init_loop.simps [of _ n] n_def [symmetric] nth_append flush_def)
  note defs = newLogFormatter_def LogFormatter_init_def init_loop.simps [of _ "Suc n"] nth_append n_def [symmetric]
  obtain its where its: "add_items (dates ts) (parts [] ts) [] = (its, False)"
    using add_items_parts [OF assms(1), of "dates ts" "[]" "[]"] by auto
  have "\<exists>g. newLogFormatter (show_tokens ts @ [CHR ''%'', c]) = Inr g \<and> lf_error g"
    using loop [of "[c]"] assms(2,3) add_items_append [OF its, of "[(1, [c])]"]
    by (auto simp: defs init_loop.simps [of _ "Suc (Suc n)"] s_format_items_def)
  moreover have "\<exists>g. newLogFormatter (show_tokens ts @ ''%d{'' @ f) = Inr g \<and> lf_error g \<and> lf_items g = []"
    using loop [of "''d{'' @ f"] date_loop_open [OF assms(4), of "show_tokens ts @ ''%d{''" "dates ts"] by (auto simp: defs)
  moreover have "newLogFormatter (show_tokens ts @ ''%d'') = Inl (Bad_access ''m_pattern'')"
    using loop [of "''d''"] by (auto simp: defs date_loop.simps)
  ultimately show ?thesis by blast
qed

definition sample_tokens :: "token list" where
  "sample_tokens = [Date ''%H'', Lit '' ['', Conv (CHR ''p''), Lit ''] '', Plain_date, Lit '' '', Conv (CHR ''m''), Conv (CHR ''n'')]"

lemma sample_tokens_wf: "wf_tokens sample_tokens"
  by (simp add: sample_tokens_def s_format_items_def)

theorem formatter_meaning_witness:
  "\<exists>f. newLogFormatter ''%d{%H} [%p] %d %m%n'' = Inr f \<and> \<not> lf_error f"
  using formatter_meaning [OF sample_tokens_wf] by (auto simp: sample_tokens_def)

theorem formatter_errors_witness:
  "newLogFormatter ''%d{%H} [%p] %d %m%n%d'' = Inl (Bad_access ''m_pattern'')"
  using formatter_errors [OF sample_tokens_wf, of "CHR ''x''" "''%Y''"] by (simp add: sample_tokens_def s_format_items_def)

end
