(* ===== verification/Lamb_Logger.thy ===== *)
theory Lamb_Logger
  imports Lamb_Log
begin

text \<open>
  The appenders, loggers and the manager of \<open>lamb/log.cc\<close>. The state holds the heap of appenders, the loggers under their
  names, and what has been printed to the terminal and written to each file. An environment says which files can be opened
  and how many characters of a text the stream of a file takes before it fails; it may differ from call to call.
\<close>

section \<open>Appenders\<close>

text \<open>A \<open>StdoutLogAppender\<close> has no file. The stream of a \<open>FileLogAppender\<close> is open or not, and has its failure bits set or not.
  \<open>m_level\<close> has no initial value.\<close>

record LogAppender =
  ap_file :: "string option"
  ap_level :: level
  ap_formatter :: "LogFormatter option"
  ap_defaultFormatter :: LogFormatter
  ap_stream_open :: bool
  ap_stream_fail :: bool
  ap_lastTime :: u64
  ap_reopenError :: bool

record Logger =
  lg_name :: string
  lg_level :: level
  lg_appenders :: "nat list"

record log_state =
  ls_heap :: "nat \<Rightarrow> LogAppender option"
  ls_next :: nat
  ls_loggers :: "string \<rightharpoonup> Logger"
  ls_stdout :: string
  ls_files :: "string \<Rightarrow> string"

record log_env =
  lv_tm :: "string \<Rightarrow> u64 \<Rightarrow> string"
  lv_open :: "string \<Rightarrow> bool"
  lv_accepts :: "string \<Rightarrow> string \<Rightarrow> nat"

definition cout :: "string \<Rightarrow> log_state \<Rightarrow> log_state" where
  "cout s st = st\<lparr>ls_stdout := ls_stdout st @ s\<rparr>"

text \<open>\<open>close ()\<close> on a stream that is not open and \<open>open ()\<close> on one that is open both fail; opening successfully clears the
  failure bits.\<close>

definition FileLogAppender_reopen :: "log_env \<Rightarrow> LogAppender \<Rightarrow> LogAppender" where
  "FileLogAppender_reopen env a =
     (let a = (if \<not> ap_stream_fail a
               then if ap_stream_open a then a\<lparr>ap_stream_open := False\<rparr> else a\<lparr>ap_stream_fail := True\<rparr>
               else a);
          a = (if ap_stream_open a then a\<lparr>ap_stream_fail := True\<rparr>
               else if lv_open env (the (ap_file a)) then a\<lparr>ap_stream_open := True, ap_stream_fail := False\<rparr>
               else a\<lparr>ap_stream_fail := True\<rparr>) in
      a\<lparr>ap_reopenError := ap_stream_fail a\<rparr>)"

definition reopen_message :: "LogAppender \<Rightarrow> string" where
  "reopen_message a = (if ap_reopenError a then ''reopen file'' @ the (ap_file a) @ '' error'' @ [CHR 0x0A] else [])"

text \<open>What the constructor of a formatter prints if its pattern is wrong.\<close>

definition init_report :: "string \<Rightarrow> string" where
  "init_report p =
     (case init_loop p 0 True [] [] [] of
        Inl _ \<Rightarrow> []
      | Inr (err, patterns, tmp, df) \<Rightarrow>
          let start = ''[ERROR] LogFormatter::init() pattern: ['' @ p @ ''] '' in
          if err then start @ [CHR 0x27, CHR ''{'', CHR 0x27] @ '' not closed'' @ [CHR 0x0A]
          else case find (\<lambda>(k, s). k \<noteq> 0 \<and> s \<noteq> ''d'' \<and> s_format_items s = None) patterns of
            None \<Rightarrow> [] | Some (_, s) \<Rightarrow> start @ ''unknown format item: '' @ s @ [CHR 0x0A])"

definition newLogAppender :: "level \<Rightarrow> string option \<Rightarrow> LogAppender res" where
  "newLogAppender junk file =
     bindR (newLogFormatter default_pattern) (\<lambda>f.
       Inr \<lparr>ap_file = file, ap_level = junk, ap_formatter = None, ap_defaultFormatter = f, ap_stream_open = False,
            ap_stream_fail = False, ap_lastTime = 0, ap_reopenError = False\<rparr>)"

text \<open>Making an appender; the result is its address.\<close>

definition new_appender :: "LogAppender \<Rightarrow> log_state \<Rightarrow> nat \<times> log_state" where
  "new_appender a st = (ls_next st, st\<lparr>ls_heap := (ls_heap st)(ls_next st \<mapsto> a), ls_next := Suc (ls_next st)\<rparr>)"

definition newFileLogAppender :: "log_env \<Rightarrow> level \<Rightarrow> string \<Rightarrow> log_state \<Rightarrow> (nat \<times> log_state) res" where
  "newFileLogAppender env junk filename st =
     bindR (newLogAppender junk (Some filename)) (\<lambda>a.
       let a = FileLogAppender_reopen env a in Inr (new_appender a (cout (reopen_message a) st)))"

definition newStdoutLogAppender :: "level \<Rightarrow> log_state \<Rightarrow> (nat \<times> log_state) res" where
  "newStdoutLogAppender junk st = bindR (newLogAppender junk None) (\<lambda>a. Inr (new_appender a st))"

definition setFormatter :: "nat \<Rightarrow> LogFormatter \<Rightarrow> log_state \<Rightarrow> log_state res" where
  "setFormatter p f st =
     (case ls_heap st p of None \<Rightarrow> Inl Null_deref
      | Some a \<Rightarrow> Inr (st\<lparr>ls_heap := (ls_heap st)(p \<mapsto> a\<lparr>ap_formatter := Some f\<rparr>)\<rparr>))"

definition the_formatter :: "LogAppender \<Rightarrow> LogFormatter" where
  "the_formatter a = (case ap_formatter a of Some f \<Rightarrow> f | None \<Rightarrow> ap_defaultFormatter a)"

definition format_error :: string where
  "format_error = ''[ERROR] FileLogAppender::log() format error'' @ [CHR 0x0A]"

definition FileLogAppender_log :: "log_env \<Rightarrow> nat \<Rightarrow> LogAppender \<Rightarrow> LogEvent \<Rightarrow> log_state \<Rightarrow> log_state res" where
  "FileLogAppender_log env p a e st =
     (let (a, st) =
        (if ap_lastTime a + 3 \<le> le_time e
         then let a = FileLogAppender_reopen env a in (a\<lparr>ap_lastTime := le_time e\<rparr>, cout (reopen_message a) st)
         else (a, st));
          put = (\<lambda>a st. st\<lparr>ls_heap := (ls_heap st)(p \<mapsto> a)\<rparr>); file = the (ap_file a) in
      if ap_reopenError a then Inr (put a st)
      else bindR (LogFormatter_format (lv_tm env) (the_formatter a) e) (\<lambda>s.
        let k = (if ap_stream_fail a then 0 else min (lv_accepts env file s) (length s));
            st = st\<lparr>ls_files := (ls_files st)(file := ls_files st file @ take k s)\<rparr>;
            a = a\<lparr>ap_stream_fail := (ap_stream_fail a \<or> k < length s)\<rparr> in
        Inr (put a (if ap_stream_fail a then cout format_error st else st))))"

definition StdoutLogAppender_log :: "log_env \<Rightarrow> LogAppender \<Rightarrow> LogEvent \<Rightarrow> log_state \<Rightarrow> log_state res" where
  "StdoutLogAppender_log env a e st =
     (if ap_level a \<le> le_level e
      then bindR (LogFormatter_format (lv_tm env) (the_formatter a) e) (\<lambda>s. Inr (cout s st))
      else Inr st)"

definition LogAppender_log :: "log_env \<Rightarrow> nat \<Rightarrow> LogEvent \<Rightarrow> log_state \<Rightarrow> log_state res" where
  "LogAppender_log env p e st =
     (case ls_heap st p of
        None \<Rightarrow> Inl Null_deref
      | Some a \<Rightarrow> if ap_file a = None then StdoutLogAppender_log env a e st else FileLogAppender_log env p a e st)"

section \<open>Loggers\<close>

definition newLogger :: "string \<Rightarrow> Logger" where
  "newLogger name = \<lparr>lg_name = name, lg_level = DEBUG, lg_appenders = []\<rparr>"

definition addAppender :: "nat \<Rightarrow> Logger \<Rightarrow> Logger" where
  "addAppender p l = l\<lparr>lg_appenders := lg_appenders l @ [p]\<rparr>"

definition delAppender :: "nat \<Rightarrow> Logger \<Rightarrow> Logger" where
  "delAppender p l = l\<lparr>lg_appenders := remove1 p (lg_appenders l)\<rparr>"

definition clearAppenders :: "Logger \<Rightarrow> Logger" where
  "clearAppenders l = l\<lparr>lg_appenders := []\<rparr>"

definition Logger_setLevel :: "level \<Rightarrow> Logger \<Rightarrow> Logger" where
  "Logger_setLevel lvl l = l\<lparr>lg_level := lvl\<rparr>"

fun log_all :: "log_env \<Rightarrow> nat list \<Rightarrow> LogEvent \<Rightarrow> log_state \<Rightarrow> log_state res" where
  "log_all env [] e st = Inr st"
| "log_all env (p # ps) e st = bindR (LogAppender_log env p e st) (log_all env ps e)"

definition Logger_log :: "log_env \<Rightarrow> Logger \<Rightarrow> LogEvent \<Rightarrow> log_state \<Rightarrow> log_state res" where
  "Logger_log env l e st = (if lg_level l \<le> le_level e then log_all env (lg_appenders l) e st else Inr st)"

section \<open>The manager\<close>

definition newLoggerManager :: "level \<Rightarrow> log_state res" where
  "newLoggerManager junk =
     bindR (newStdoutLogAppender junk \<lparr>ls_heap = (\<lambda>_. None), ls_next = 0, ls_loggers = Map.empty, ls_stdout = [], ls_files = (\<lambda>_. [])\<rparr>)
       (\<lambda>(p, st). Inr (st\<lparr>ls_loggers := (ls_loggers st)(''root'' \<mapsto> addAppender p (newLogger ''root''))\<rparr>))"

definition getLogger :: "string \<Rightarrow> log_state \<Rightarrow> Logger \<times> log_state" where
  "getLogger name st =
     (case ls_loggers st name of
        Some l \<Rightarrow> (l, st)
      | None \<Rightarrow> (newLogger name, st\<lparr>ls_loggers := (ls_loggers st)(name \<mapsto> newLogger name)\<rparr>))"

text \<open>Changing the logger a name stands for.\<close>

definition with_logger :: "string \<Rightarrow> (Logger \<Rightarrow> Logger) \<Rightarrow> log_state \<Rightarrow> log_state" where
  "with_logger name f st = (let (l, st) = getLogger name st in st\<lparr>ls_loggers := (ls_loggers st)(name \<mapsto> f l)\<rparr>)"

text \<open>The macro \<open>LOG_LEVEL\<close>: the wrapper of the event logs it when the statement ends, with the text \<open>s\<close> inserted meanwhile.\<close>

definition LOG_LEVEL :: "log_env \<Rightarrow> string \<Rightarrow> level \<Rightarrow> (string \<Rightarrow> level \<Rightarrow> LogEvent) \<Rightarrow> string \<Rightarrow> log_state \<Rightarrow> log_state res" where
  "LOG_LEVEL env name lvl mk s st =
     (let (l, st) = getLogger name st in
      if lg_level l \<le> lvl
      then let e = mk (lg_name l) lvl in Logger_log env l (e\<lparr>le_ss := le_ss e @ s\<rparr>) st
      else Inr st)"

section \<open>Lemmas\<close>

fun log_run :: "nat \<Rightarrow> (log_env \<times> LogEvent) list \<Rightarrow> log_state \<Rightarrow> log_state res" where
  "log_run p [] st = Inr st"
| "log_run p ((env, e) # evs) st = bindR (LogAppender_log env p e st) (log_run p evs)"

definition stuck :: "string \<Rightarrow> LogAppender \<Rightarrow> bool" where
  "stuck file a \<longleftrightarrow> ap_file a = Some file \<and> ap_stream_open a \<and> ap_stream_fail a"

lemma cout_simps [simp]: "ls_heap (cout s st) = ls_heap st" "ls_files (cout s st) = ls_files st" "ls_loggers (cout s st) = ls_loggers st"
  "ls_next (cout s st) = ls_next st" "ls_stdout (cout s st) = ls_stdout st @ s"
  by (simp_all add: cout_def)

lemma reopen_simps [simp]: "ap_file (FileLogAppender_reopen env a) = ap_file a" "ap_formatter (FileLogAppender_reopen env a) = ap_formatter a"
  "ap_defaultFormatter (FileLogAppender_reopen env a) = ap_defaultFormatter a" "ap_level (FileLogAppender_reopen env a) = ap_level a"
  by (simp_all add: FileLogAppender_reopen_def Let_def)

lemma stuck_step:
  assumes "LogAppender_log env p e st = Inr st'" and "ls_heap st p = Some a" and "stuck file a"
  shows "ls_files st' = ls_files st \<and> (\<exists>a'. ls_heap st' p = Some a' \<and> stuck file a')"
  using assms
  by (auto simp: LogAppender_log_def FileLogAppender_log_def FileLogAppender_reopen_def stuck_def Let_def res_simps fun_upd_triv
      split: if_splits prod.splits)

lemma stuck_run:
  "log_run p evs st = Inr st' \<Longrightarrow> ls_heap st p = Some a \<Longrightarrow> stuck file a \<Longrightarrow> ls_files st' = ls_files st"
proof (induction p evs st arbitrary: a rule: log_run.induct)
  case (2 p env e evs st)
  then obtain st1 where 1: "LogAppender_log env p e st = Inr st1" "log_run p evs st1 = Inr st'" by (auto simp: res_simps)
  from stuck_step [OF 1(1) 2(3,4)] obtain a' where "ls_files st1 = ls_files st" "ls_heap st1 p = Some a'" "stuck file a'" by blast
  with 2(1) [OF 1] show ?case by simp
qed simp

text \<open>An appender whose stream works, or whose file was never open.\<close>

definition sound :: "string \<Rightarrow> LogFormatter \<Rightarrow> LogAppender \<Rightarrow> bool" where
  "sound file f a \<longleftrightarrow> ap_file a = Some file \<and> the_formatter a = f \<and> ap_stream_open a \<and> \<not> ap_stream_fail a \<and> \<not> ap_reopenError a"

definition file_works :: "string \<Rightarrow> log_env \<Rightarrow> bool" where
  "file_works file env \<longleftrightarrow> lv_open env file \<and> (\<forall>s. length s \<le> lv_accepts env file s)"

text \<open>What an open appender does with an event, once it has reopened its file or not.\<close>

lemma file_log_step:
  assumes "ls_heap st p = Some a" and "ap_file a = Some file"
    and "(if ap_lastTime a + 3 \<le> le_time e
          then let a = FileLogAppender_reopen env a in (a\<lparr>ap_lastTime := le_time e\<rparr>, cout (reopen_message a) st) else (a, st)) = (a', st)"
    and "sound file f a'" and "LogFormatter_format (lv_tm env) f e = Inr s" and "k = min (lv_accepts env file s) (length s)"
  shows "LogAppender_log env p e st =
    Inr ((if k < length s then cout format_error else id)
      (st\<lparr>ls_files := (ls_files st)(file := ls_files st file @ take k s), ls_heap := (ls_heap st)(p \<mapsto> a'\<lparr>ap_stream_fail := (k < length s)\<rparr>)\<rparr>))"
proof -
  have "LogAppender_log env p e st = FileLogAppender_log env p a e st" using assms(1,2) by (simp add: LogAppender_log_def)
  then show ?thesis
    unfolding FileLogAppender_log_def assms(3) using assms(4,5) by (simp add: sound_def assms(6) [symmetric] cout_def)
qed

lemma sound_step:
  assumes "ls_heap st p = Some a" and "sound file f a" and "file_works file env" and "LogFormatter_format (lv_tm env) f e = Inr s"
  shows "\<exists>a'. LogAppender_log env p e st = Inr (st\<lparr>ls_heap := (ls_heap st)(p \<mapsto> a'), ls_files := (ls_files st)(file := ls_files st file @ s)\<rparr>) \<and>
           sound file f a'"
proof -
  define a' where "a' = (if ap_lastTime a + 3 \<le> le_time e then (FileLogAppender_reopen env a)\<lparr>ap_lastTime := le_time e\<rparr> else a)"
  have a': "sound file f a'"
    using assms(2,3) by (auto simp: a'_def sound_def FileLogAppender_reopen_def file_works_def the_formatter_def split: option.split)
  have msg: "reopen_message (FileLogAppender_reopen env a) = []"
    using assms(2,3) by (simp add: sound_def FileLogAppender_reopen_def file_works_def reopen_message_def)
  have re: "(if ap_lastTime a + 3 \<le> le_time e
      then let a = FileLogAppender_reopen env a in (a\<lparr>ap_lastTime := le_time e\<rparr>, cout (reopen_message a) st) else (a, st)) = (a', st)"
    by (simp add: a'_def Let_def msg cout_def)
  have k: "length s = min (lv_accepts env file s) (length s)" using assms(3) by (simp add: file_works_def min_absorb2)
  have "ap_file a = Some file" using assms(2) by (simp add: sound_def)
  from file_log_step [OF assms(1) this re a' assms(4) k] show ?thesis
    using a' by (intro exI [of _ "a'\<lparr>ap_stream_fail := False\<rparr>"]) (simp add: sound_def the_formatter_def cong: option.case_cong)
qed

section \<open>Properties\<close>

text \<open>While its file can be opened and written, a file appender adds the texts of all events to the file, in order and
  nothing else, however often it reopens the file meanwhile.\<close>

theorem file_appender_writes:
  assumes "ls_heap st p = Some a" and "sound file f a"
    and "\<forall>(env, e) \<in> set evs. file_works file env" and "map (\<lambda>(env, e). LogFormatter_format (lv_tm env) f e) evs = map Inr texts"
  shows "\<exists>a'. log_run p evs st = Inr (st\<lparr>ls_heap := (ls_heap st)(p \<mapsto> a'),
           ls_files := (ls_files st)(file := ls_files st file @ concat texts)\<rparr>) \<and> sound file f a'"
  using assms
proof (induction evs arbitrary: st a texts)
  case Nil
  then show ?case by (intro exI [of _ a]) (simp add: fun_upd_idem)
next
  case (Cons ev evs)
  obtain env e where ev: "ev = (env, e)" by (cases ev)
  obtain t ts where texts: "texts = t # ts" using Cons.prems(4) by (cases texts) auto
  obtain a' where 1: "LogAppender_log env p e st = Inr (st\<lparr>ls_heap := (ls_heap st)(p \<mapsto> a'), ls_files := (ls_files st)(file := ls_files st file @ t)\<rparr>)"
      "sound file f a'"
    using sound_step [OF Cons.prems(1,2), of env e t] Cons.prems(3,4) ev texts by auto
  let ?st = "st\<lparr>ls_heap := (ls_heap st)(p \<mapsto> a'), ls_files := (ls_files st)(file := ls_files st file @ t)\<rparr>"
  have "ls_heap ?st p = Some a'" "\<forall>(env, e) \<in> set evs. file_works file env"
      "map (\<lambda>(env, e). LogFormatter_format (lv_tm env) f e) evs = map Inr ts"
    using Cons.prems(3,4) ev texts by simp_all
  from Cons.IH [OF this(1) 1(2) this(2,3)] obtain b where "sound file f b"
      "log_run p evs ?st = Inr (?st\<lparr>ls_heap := (ls_heap ?st)(p \<mapsto> b), ls_files := (ls_files ?st)(file := ls_files ?st file @ concat ts)\<rparr>)"
    by (elim exE conjE)
  then show ?case using 1(1) by (intro exI [of _ b]) (simp add: ev texts fun_upd_upd fun_upd_same del: fun_upd_apply)
qed

text \<open>After a write to its file has failed once, a file appender never writes to it again, whatever events come and
  even if the file works again: the stream stays open, so that opening it again fails.\<close>

theorem file_appender_stuck:
  assumes "ls_heap st p = Some a" and "sound file f a" and "\<not> ap_lastTime a + 3 \<le> le_time e"
    and "LogFormatter_format (lv_tm env) f e = Inr s" and "lv_accepts env file s < length s"
    and "log_run p ((env, e) # evs) st = Inr st'"
  shows "ls_files st' = (ls_files st)(file := ls_files st file @ take (lv_accepts env file s) s)"
proof -
  let ?k = "lv_accepts env file s" and ?a = "a\<lparr>ap_stream_fail := True\<rparr>"
  let ?st = "cout format_error (st\<lparr>ls_files := (ls_files st)(file := ls_files st file @ take ?k s), ls_heap := (ls_heap st)(p \<mapsto> ?a)\<rparr>)"
  have "ap_file a = Some file" using assms(2) by (simp add: sound_def)
  moreover have "(if ap_lastTime a + 3 \<le> le_time e
      then let a = FileLogAppender_reopen env a in (a\<lparr>ap_lastTime := le_time e\<rparr>, cout (reopen_message a) st) else (a, st)) = (a, st)"
    using assms(3) by (rule if_not_P)
  moreover have "?k = min ?k (length s)" using assms(5) by linarith
  ultimately have "LogAppender_log env p e st = Inr ((if ?k < length s then cout format_error else id)
      (st\<lparr>ls_files := (ls_files st)(file := ls_files st file @ take ?k s), ls_heap := (ls_heap st)(p \<mapsto> a\<lparr>ap_stream_fail := (?k < length s)\<rparr>)\<rparr>))"
    using file_log_step [OF assms(1) _ _ assms(2,4)] by blast
  also have "\<dots> = Inr ?st" using assms(5) by simp
  finally have "LogAppender_log env p e st = Inr ?st" .
  then have "log_run p evs ?st = Inr st'" using assms(6) by simp
  moreover have "ls_heap ?st p = Some ?a" "stuck file ?a" using assms(2) by (simp_all add: sound_def stuck_def)
  ultimately have "ls_files st' = ls_files ?st" by (rule stuck_run)
  then show ?thesis by (simp add: cout_def)
qed

text \<open>A statement that logs has no effect but to create its logger if the level of that is higher than its own; otherwise
  each terminal appender of the logger, in order, prints the event unless the level of the appender is higher.\<close>

theorem log_threshold:
  assumes "ls_loggers st name = Some l"
    and "e = (mk (lg_name l) lvl)\<lparr>le_ss := le_ss (mk (lg_name l) lvl) @ s\<rparr>" and "le_level e = lvl"
    and "\<forall>p \<in> set (lg_appenders l). \<exists>a. ls_heap st p = Some a \<and> ap_file a = None \<and> LogFormatter_format (lv_tm env) (the_formatter a) e = Inr (text p)"
  shows "LOG_LEVEL env name lvl mk s st =
    (if lvl < lg_level l then Inr st
     else Inr (cout (concat (map text (filter (\<lambda>p. ap_level (the (ls_heap st p)) \<le> lvl) (lg_appenders l)))) st))"
proof -
  have "log_all env ps e st' = Inr (cout (concat (map text (filter (\<lambda>p. ap_level (the (ls_heap st p)) \<le> lvl) ps))) st')"
    if "ls_heap st' = ls_heap st" "set ps \<subseteq> set (lg_appenders l)" for ps st'
    using that
  proof (induction ps arbitrary: st')
    case Nil
    then show ?case by (simp add: cout_def)
  next
    case (Cons p ps)
    then obtain a where "ls_heap st' p = Some a" "ap_file a = None" "LogFormatter_format (lv_tm env) (the_formatter a) e = Inr (text p)"
      using assms(4) by auto
    with Cons assms(3) show ?case by (auto simp: LogAppender_log_def StdoutLogAppender_log_def cout_def)
  qed
  then show ?thesis
    using assms(1-3) by (auto simp: LOG_LEVEL_def getLogger_def Logger_log_def Let_def)
qed

section \<open>Witnesses\<close>

definition sample_formatter :: LogFormatter where
  "sample_formatter = \<lparr>lf_pattern = ''%m%n'', lf_items = [MessageItem, NewLineItem], lf_error = False\<rparr>"

definition sample_appender :: "string option \<Rightarrow> level \<Rightarrow> LogAppender" where
  "sample_appender file lvl =
     \<lparr>ap_file = file, ap_level = lvl, ap_formatter = Some sample_formatter, ap_defaultFormatter = sample_formatter, ap_stream_open = True,
      ap_stream_fail = False, ap_lastTime = 0, ap_reopenError = False\<rparr>"

definition sample_log_state :: log_state where
  "sample_log_state =
     \<lparr>ls_heap = [0 \<mapsto> sample_appender (Some ''a.log'') 0, 1 \<mapsto> sample_appender None WARN, 2 \<mapsto> sample_appender None INFO], ls_next = 3,
      ls_loggers = [''x'' \<mapsto> \<lparr>lg_name = ''x'', lg_level = INFO, lg_appenders = [1, 2]\<rparr>], ls_stdout = [], ls_files = (\<lambda>_. [])\<rparr>"

definition sample_log_env :: "nat \<Rightarrow> log_env" where
  "sample_log_env n = \<lparr>lv_tm = (\<lambda>f t. f), lv_open = (\<lambda>_. True), lv_accepts = (\<lambda>_ s. n)\<rparr>"

definition full_log_env :: log_env where
  "full_log_env = (sample_log_env 0)\<lparr>lv_accepts := (\<lambda>_ s. length s)\<rparr>"

definition sample_event :: "string \<Rightarrow> u64 \<Rightarrow> LogEvent" where
  "sample_event s t = (newLogEvent ''x'' INFO ''f.cc'' 1 0 0 0 t [])\<lparr>le_ss := s\<rparr>"

lemmas sample_log_defs = sample_formatter_def sample_appender_def sample_log_state_def sample_log_env_def full_log_env_def
  sample_event_def newLogEvent_def

theorem file_appender_writes_witness:
  "\<exists>a'. log_run 0 [(full_log_env, sample_event ''one'' 1), (full_log_env, sample_event ''two'' 9)] sample_log_state =
     Inr (sample_log_state\<lparr>ls_heap := (ls_heap sample_log_state)(0 \<mapsto> a'),
       ls_files := (ls_files sample_log_state)(''a.log'' := ''one'' @ [CHR 0x0A] @ ''two'' @ [CHR 0x0A])\<rparr>)"
proof -
  have 1: "ls_heap sample_log_state 0 = Some (sample_appender (Some ''a.log'') 0)" by (simp add: sample_log_state_def)
  have 2: "sound ''a.log'' sample_formatter (sample_appender (Some ''a.log'') 0)"
    by (simp add: sample_appender_def sound_def the_formatter_def)
  have 3: "\<forall>(env, e) \<in> set [(full_log_env, sample_event ''one'' 1), (full_log_env, sample_event ''two'' 9)]. file_works ''a.log'' env"
    by (simp add: file_works_def full_log_env_def sample_log_env_def)
  have 4: "map (\<lambda>(env, e). LogFormatter_format (lv_tm env) sample_formatter e) [(full_log_env, sample_event ''one'' 1), (full_log_env, sample_event ''two'' 9)] =
      map Inr [''one'' @ [CHR 0x0A], ''two'' @ [CHR 0x0A]]"
    by (simp add: LogFormatter_format_def sample_formatter_def sample_event_def)
  have 5: "ls_files sample_log_state ''a.log'' = []" by (simp add: sample_log_state_def)
  from file_appender_writes [OF 1 2 3 4] 5 show ?thesis by (elim exE) (auto simp del: fun_upd_apply)
qed

theorem file_appender_stuck_witness:
  "\<exists>st'. log_run 0 [(sample_log_env 2, sample_event ''one'' 1), (full_log_env, sample_event ''two'' 9)] sample_log_state = Inr st' \<and>
     ls_files st' = (ls_files sample_log_state)(''a.log'' := ''on'')"
proof -
  let ?evs = "[(full_log_env, sample_event ''two'' 9)]" and ?a = "sample_appender (Some ''a.log'') 0"
  have "case log_run 0 ((sample_log_env 2, sample_event ''one'' 1) # ?evs) sample_log_state of Inl _ \<Rightarrow> False | Inr _ \<Rightarrow> True"
    by code_simp
  then obtain st' where run: "log_run 0 ((sample_log_env 2, sample_event ''one'' 1) # ?evs) sample_log_state = Inr st'"
    by (auto split: sum.splits)
  have "ls_heap sample_log_state 0 = Some ?a" "sound ''a.log'' sample_formatter ?a"
      "\<not> ap_lastTime ?a + 3 \<le> le_time (sample_event ''one'' 1)"
      "LogFormatter_format (lv_tm (sample_log_env 2)) sample_formatter (sample_event ''one'' 1) = Inr (''one'' @ [CHR 0x0A])"
      "lv_accepts (sample_log_env 2) ''a.log'' (''one'' @ [CHR 0x0A]) < length (''one'' @ [CHR 0x0A])"
    by (simp_all add: sample_log_defs sound_def the_formatter_def LogFormatter_format_def word_le_nat_alt)
  from file_appender_stuck [OF this run] run show ?thesis by (simp add: sample_log_env_def sample_log_state_def)
qed

theorem log_threshold_witness:
  "LOG_LEVEL full_log_env ''x'' INFO (\<lambda>n lvl. newLogEvent n lvl ''f.cc'' 1 0 0 0 5 []) ''hi'' sample_log_state =
     Inr (cout (''hi'' @ [CHR 0x0A]) sample_log_state)"
proof -
  let ?l = "\<lparr>lg_name = ''x'', lg_level = INFO, lg_appenders = [1, 2]\<rparr>" and ?mk = "\<lambda>n lvl. newLogEvent n lvl ''f.cc'' 1 0 0 0 5 []"
  have "ls_loggers sample_log_state ''x'' = Some ?l" by (simp add: sample_log_state_def)
  moreover have "\<forall>p \<in> set (lg_appenders ?l). \<exists>a. ls_heap sample_log_state p = Some a \<and> ap_file a = None \<and>
      LogFormatter_format (lv_tm full_log_env) (the_formatter a) (sample_event ''hi'' 5) = Inr (''hi'' @ [CHR 0x0A])"
    by (simp add: sample_log_defs the_formatter_def LogFormatter_format_def)
  ultimately show ?thesis
    using log_threshold [of sample_log_state "''x''" ?l "sample_event ''hi'' 5" ?mk INFO "''hi''" full_log_env "\<lambda>_. ''hi'' @ [CHR 0x0A]"]
    by (simp add: sample_log_defs level_defs)
qed

end
