(* ===== verification/Lamb_Config.thy ===== *)
theory Lamb_Config
  imports Lamb_Timer Lamb_StringUtil
begin

text \<open>
  \<open>lamb/config.cc\<close> and \<open>include/config.h\<close>: configuration variables with their listeners, the registry, and the loading of YAML
  documents. A variable of type \<open>ConfigVar<T>\<close> carries the two conversions of \<open>T\<close> and the name of \<open>T\<close>; the values of all
  types are those of one type \<open>'v\<close>. Listeners act on a state \<open>'s\<close>. The library yaml-cpp is the argument \<open>lib\<close>: reading a text,
  printing a node, and the access to members. What is printed or logged on the way is left out.
\<close>

section \<open>YAML\<close>

datatype yaml = YNull | YScalar string | YSeq "yaml list" | YMap "(yaml \<times> yaml) list"

record yaml_lib =
  yl_load :: "string \<Rightarrow> yaml res"
  yl_emit :: "yaml \<Rightarrow> string"
  yl_size :: "yaml \<Rightarrow> nat"
  yl_index :: "yaml \<Rightarrow> nat \<Rightarrow> yaml res"
  yl_get :: "yaml \<Rightarrow> string \<Rightarrow> (yaml option) res"
  yl_string :: "yaml \<Rightarrow> string res"

text \<open>\<open>Scalar ()\<close> is empty for other nodes, and iterating over anything but a map gives no keys.\<close>

fun yaml_scalar :: "yaml \<Rightarrow> string" where
  "yaml_scalar (YScalar s) = s"
| "yaml_scalar _ = []"

fun yaml_pairs :: "yaml \<Rightarrow> (yaml \<times> yaml) list" where
  "yaml_pairs (YMap kvs) = kvs"
| "yaml_pairs _ = []"

section \<open>Conversions of containers\<close>

text \<open>\<open>from\<close> and \<open>to\<close> are the conversions of the elements. The loop over the elements of a node:\<close>

function elements_from :: "yaml_lib \<Rightarrow> (string \<Rightarrow> 'a res) \<Rightarrow> ('a \<Rightarrow> 'c \<Rightarrow> 'c) \<Rightarrow> yaml \<Rightarrow> nat \<Rightarrow> 'c \<Rightarrow> 'c res" where
  "elements_from lib from ins node i c =
     (if i < yl_size lib node
      then bindR (yl_index lib node i) (\<lambda>n. bindR (from (yl_emit lib n)) (\<lambda>x. elements_from lib from ins node (Suc i) (ins x c)))
      else Inr c)"
  by pat_completeness auto
termination by (relation "measure (\<lambda>(lib, from, ins, node, i, c). yl_size lib node - i)") auto

declare elements_from.simps [simp del]

fun elements_to :: "yaml_lib \<Rightarrow> ('a \<Rightarrow> string res) \<Rightarrow> 'a list \<Rightarrow> yaml list res" where
  "elements_to lib to [] = Inr []"
| "elements_to lib to (x # xs) =
     bindR (to x) (\<lambda>s. bindR (yl_load lib s) (\<lambda>n. bindR (elements_to lib to xs) (\<lambda>ns. Inr (n # ns))))"

text \<open>A node stays null until something is added.\<close>

definition seq_node :: "yaml list \<Rightarrow> yaml" where
  "seq_node ns = (if ns = [] then YNull else YSeq ns)"

definition vector_from :: "yaml_lib \<Rightarrow> (string \<Rightarrow> 'a res) \<Rightarrow> string \<Rightarrow> 'a list res" where
  "vector_from lib from v = bindR (yl_load lib v) (\<lambda>node. elements_from lib from (\<lambda>x c. c @ [x]) node 0 [])"

definition vector_to :: "yaml_lib \<Rightarrow> ('a \<Rightarrow> string res) \<Rightarrow> 'a list \<Rightarrow> string res" where
  "vector_to lib to v = bindR (elements_to lib to v) (\<lambda>ns. Inr (yl_emit lib (seq_node ns)))"

definition list_from :: "yaml_lib \<Rightarrow> (string \<Rightarrow> 'a res) \<Rightarrow> string \<Rightarrow> 'a list res" where
  "list_from lib from v = bindR (yl_load lib v) (\<lambda>node. elements_from lib from (\<lambda>x c. c @ [x]) node 0 [])"

definition list_to :: "yaml_lib \<Rightarrow> ('a \<Rightarrow> string res) \<Rightarrow> 'a list \<Rightarrow> string res" where
  "list_to lib to v = bindR (elements_to lib to v) (\<lambda>ns. Inr (yl_emit lib (seq_node ns)))"

text \<open>A \<open>std::set\<close> is the list of its elements in the order of \<open>lt\<close>; inserting an element equivalent to one that is there
  changes nothing.\<close>

definition set_from :: "yaml_lib \<Rightarrow> ('a \<Rightarrow> 'a \<Rightarrow> bool) \<Rightarrow> (string \<Rightarrow> 'a res) \<Rightarrow> string \<Rightarrow> 'a list res" where
  "set_from lib lt from v = bindR (yl_load lib v) (\<lambda>node. elements_from lib from (set_insert lt) node 0 [])"

definition set_to :: "yaml_lib \<Rightarrow> ('a \<Rightarrow> string res) \<Rightarrow> 'a list \<Rightarrow> string res" where
  "set_to lib to v = bindR (elements_to lib to v) (\<lambda>ns. Inr (yl_emit lib (seq_node ns)))"

text \<open>A \<open>std::unordered_set\<close> is read as a set; it is printed in the order \<open>v\<close> in which it lists its elements.\<close>

definition unordered_set_from :: "yaml_lib \<Rightarrow> (string \<Rightarrow> 'a res) \<Rightarrow> string \<Rightarrow> 'a set res" where
  "unordered_set_from lib from v = bindR (yl_load lib v) (\<lambda>node. elements_from lib from insert node 0 {})"

definition unordered_set_to :: "yaml_lib \<Rightarrow> ('a \<Rightarrow> string res) \<Rightarrow> 'a list \<Rightarrow> string res" where
  "unordered_set_to lib to v = bindR (elements_to lib to v) (\<lambda>ns. Inr (yl_emit lib (seq_node ns)))"

text \<open>Maps from strings; \<open>insert\<close> keeps the first of several values of a key.\<close>

fun pairs_from :: "yaml_lib \<Rightarrow> (string \<Rightarrow> 'a res) \<Rightarrow> (yaml \<times> yaml) list \<Rightarrow> (string \<rightharpoonup> 'a) \<Rightarrow> (string \<rightharpoonup> 'a) res" where
  "pairs_from lib from [] m = Inr m"
| "pairs_from lib from ((k, n) # kvs) m =
     bindR (from (yl_emit lib n)) (\<lambda>x.
       pairs_from lib from kvs (if m (yaml_scalar k) = None then m(yaml_scalar k \<mapsto> x) else m))"

definition map_from :: "yaml_lib \<Rightarrow> (string \<Rightarrow> 'a res) \<Rightarrow> string \<Rightarrow> (string \<rightharpoonup> 'a) res" where
  "map_from lib from v = bindR (yl_load lib v) (\<lambda>node. pairs_from lib from (yaml_pairs node) Map.empty)"

text \<open>\<open>v\<close> lists the pairs of the map in the order of the container; their keys differ.\<close>

fun pairs_to :: "yaml_lib \<Rightarrow> ('a \<Rightarrow> string res) \<Rightarrow> (string \<times> 'a) list \<Rightarrow> (yaml \<times> yaml) list res" where
  "pairs_to lib to [] = Inr []"
| "pairs_to lib to ((k, x) # xs) =
     bindR (to x) (\<lambda>s. bindR (yl_load lib s) (\<lambda>n. bindR (pairs_to lib to xs) (\<lambda>ns. Inr ((YScalar k, n) # ns))))"

definition map_node :: "(yaml \<times> yaml) list \<Rightarrow> yaml" where
  "map_node kvs = (if kvs = [] then YNull else YMap kvs)"

definition map_to :: "yaml_lib \<Rightarrow> ('a \<Rightarrow> string res) \<Rightarrow> (string \<times> 'a) list \<Rightarrow> string res" where
  "map_to lib to v = bindR (pairs_to lib to v) (\<lambda>kvs. Inr (yl_emit lib (map_node kvs)))"

section \<open>Variables\<close>

text \<open>A listener returns the new state and, if it throws, the exception; the left results are undefined behaviour.\<close>

type_synonym ('v, 's) on_change_cb = "'v \<Rightarrow> 'v \<Rightarrow> 's \<Rightarrow> ('s \<times> exn option) res"

record ('v, 's) ConfigVar =
  cv_name :: string
  cv_description :: string
  cv_val :: 'v
  cv_cbs :: "(u64 \<times> ('v, 's) on_change_cb) list"
  cv_type :: string
  cv_from :: "string \<Rightarrow> 'v res"
  cv_to :: "'v \<Rightarrow> string res"

text \<open>What a type \<open>T\<close> brings: its name and conversions.\<close>

record 'v config_type =
  ct_name :: string
  ct_from :: "string \<Rightarrow> 'v res"
  ct_to :: "'v \<Rightarrow> string res"

definition newConfigVar :: "'v config_type \<Rightarrow> string \<Rightarrow> 'v \<Rightarrow> string \<Rightarrow> ('v, 's) ConfigVar" where
  "newConfigVar T name default_value description =
     \<lparr>cv_name = map to_lower name, cv_description = description, cv_val = default_value, cv_cbs = [], cv_type = ct_name T,
      cv_from = ct_from T, cv_to = ct_to T\<rparr>"

text \<open>\<open>m_cbs\<close> is ordered by the identifiers.\<close>

definition cbs_put :: "u64 \<Rightarrow> 'c \<Rightarrow> (u64 \<times> 'c) list \<Rightarrow> (u64 \<times> 'c) list" where
  "cbs_put k cb cbs = filter (\<lambda>(j, _). j < k) cbs @ (k, cb) # filter (\<lambda>(j, _). k < j) cbs"

text \<open>\<open>ids\<close> is the counter \<open>s_fun_id\<close>, one for each type.\<close>

definition addListener :: "('v, 's) on_change_cb \<Rightarrow> u64 \<Rightarrow> ('v, 's) ConfigVar \<Rightarrow> u64 \<times> ('v, 's) ConfigVar" where
  "addListener cb ids var = (let ids = ids + 1 in (ids, var\<lparr>cv_cbs := cbs_put ids cb (cv_cbs var)\<rparr>))"

definition delListener :: "u64 \<Rightarrow> ('v, 's) ConfigVar \<Rightarrow> ('v, 's) ConfigVar" where
  "delListener key var = var\<lparr>cv_cbs := filter (\<lambda>(j, _). j \<noteq> key) (cv_cbs var)\<rparr>"

definition getListener :: "u64 \<Rightarrow> ('v, 's) ConfigVar \<Rightarrow> ('v, 's) on_change_cb option" where
  "getListener key var = map_of (cv_cbs var) key"

definition clearListener :: "('v, 's) ConfigVar \<Rightarrow> ('v, 's) ConfigVar" where
  "clearListener var = var\<lparr>cv_cbs := []\<rparr>"

fun call_listeners :: "(u64 \<times> ('v, 's) on_change_cb) list \<Rightarrow> 'v \<Rightarrow> 'v \<Rightarrow> 's \<Rightarrow> ('s \<times> exn option) res" where
  "call_listeners [] old v s = Inr (s, None)"
| "call_listeners ((k, cb) # cbs) old v s =
     bindR (cb old v s) (\<lambda>(s, e). case e of None \<Rightarrow> call_listeners cbs old v s | Some _ \<Rightarrow> Inr (s, e))"

definition setValue :: "'v \<Rightarrow> ('v, 's) ConfigVar \<Rightarrow> 's \<Rightarrow> (('v, 's) ConfigVar \<times> 's \<times> exn option) res" where
  "setValue v var s =
     (if v = cv_val var then Inr (var, s, None)
      else bindR (call_listeners (cv_cbs var) (cv_val var) v s) (\<lambda>(s, e).
        Inr (if e = None then var\<lparr>cv_val := v\<rparr> else var, s, e)))"

definition toString :: "('v, 's) ConfigVar \<Rightarrow> string" where
  "toString var = (case cv_to var (cv_val var) of Inl _ \<Rightarrow> [] | Inr s \<Rightarrow> s)"

text \<open>Every exception is caught, and the result is always \<open>false\<close>.\<close>

definition fromString :: "string \<Rightarrow> ('v, 's) ConfigVar \<Rightarrow> 's \<Rightarrow> (bool \<times> ('v, 's) ConfigVar \<times> 's) res" where
  "fromString val var s =
     (case cv_from var val of
        Inl _ \<Rightarrow> Inr (False, var, s)
      | Inr v \<Rightarrow> bindR (setValue v var s) (\<lambda>(var, s, e). Inr (False, var, s)))"

section \<open>The registry\<close>

type_synonym ('v, 's) ConfigVarMap = "string \<rightharpoonup> ('v, 's) ConfigVar"

definition config_chars :: string where
  "config_chars = ''abcdefghikjlmnopqrstuvwxyz._0123456789''"

definition valid_name :: "string \<Rightarrow> bool" where
  "valid_name s \<longleftrightarrow> list_all (\<lambda>c. c \<in> set config_chars) s"

text \<open>The result is the variable, shared with the registry, under its name; \<open>None\<close> is the null pointer.\<close>

definition Config_Lookup :: "'v config_type \<Rightarrow> string \<Rightarrow> 'v \<Rightarrow> string \<Rightarrow> ('v, 's) ConfigVarMap \<Rightarrow>
    (('v, 's) ConfigVar option \<times> ('v, 's) ConfigVarMap) res" where
  "Config_Lookup T name default_value description datas =
     (case datas name of
        Some var \<Rightarrow> Inr (if cv_type var = ct_name T then Some var else None, datas)
      | None \<Rightarrow>
          if \<not> valid_name name then Inl (Invalid_argument name)
          else let v = newConfigVar T name default_value description in Inr (Some v, datas(name \<mapsto> v)))"

definition Config_Lookup_existing :: "'v config_type \<Rightarrow> string \<Rightarrow> ('v, 's) ConfigVarMap \<Rightarrow> ('v, 's) ConfigVar option" where
  "Config_Lookup_existing T name datas =
     (case datas name of None \<Rightarrow> None | Some var \<Rightarrow> if cv_type var = ct_name T then Some var else None)"

definition LookupBase :: "string \<Rightarrow> ('v, 's) ConfigVarMap \<Rightarrow> ('v, 's) ConfigVar option" where
  "LookupBase name datas = datas name"

section \<open>Loading\<close>

text \<open>All members of a node with their dotted names, in the order of the document.\<close>

definition member_name :: "string \<Rightarrow> string \<Rightarrow> string" where
  "member_name prefix k = (if prefix = [] then k else prefix @ ''.'' @ k)"

fun ListAllMember :: "string \<Rightarrow> yaml \<Rightarrow> (string \<times> yaml) list"
  and list_members :: "string \<Rightarrow> (yaml \<times> yaml) list \<Rightarrow> (string \<times> yaml) list" where
  "ListAllMember prefix (YMap kvs) =
     (if \<not> valid_name prefix then [] else (prefix, YMap kvs) # list_members prefix kvs)"
| "ListAllMember prefix node = (if \<not> valid_name prefix then [] else [(prefix, node)])"
| "list_members prefix [] = []"
| "list_members prefix ((k, v) # kvs) = ListAllMember (member_name prefix (yaml_scalar k)) v @ list_members prefix kvs"

text \<open>The text a variable is set from.\<close>

definition node_text :: "yaml_lib \<Rightarrow> yaml \<Rightarrow> string" where
  "node_text lib n = (case n of YScalar s \<Rightarrow> s | _ \<Rightarrow> yl_emit lib n)"

fun load_nodes :: "yaml_lib \<Rightarrow> (string \<times> yaml) list \<Rightarrow> ('v, 's) ConfigVarMap \<times> 's \<Rightarrow> (('v, 's) ConfigVarMap \<times> 's) res" where
  "load_nodes lib [] (datas, s) = Inr (datas, s)"
| "load_nodes lib ((key, n) # ns) (datas, s) =
     (if key = [] then load_nodes lib ns (datas, s)
      else let key = map to_lower key in
        case LookupBase key datas of
          None \<Rightarrow> load_nodes lib ns (datas, s)
        | Some var \<Rightarrow> bindR (fromString (node_text lib n) var s) (\<lambda>(_, var, s). load_nodes lib ns (datas(key \<mapsto> var), s)))"

definition LoadFromYaml :: "yaml_lib \<Rightarrow> yaml \<Rightarrow> ('v, 's) ConfigVarMap \<times> 's \<Rightarrow> (('v, 's) ConfigVarMap \<times> 's) res" where
  "LoadFromYaml lib root = load_nodes lib (ListAllMember [] root)"

text \<open>Loading the files of a directory. \<open>lstat\<close> gives the time of the last change of a file, if it succeeds, and otherwise leaves the
  structure indeterminate; \<open>LoadFile\<close> may throw, which is caught.\<close>

fun load_files :: "yaml_lib \<Rightarrow> (string \<Rightarrow> u64 option) \<Rightarrow> (string \<Rightarrow> yaml res) \<Rightarrow> bool \<Rightarrow> string list \<Rightarrow>
    (string \<rightharpoonup> u64) \<times> ('v, 's) ConfigVarMap \<times> 's \<Rightarrow> ((string \<rightharpoonup> u64) \<times> ('v, 's) ConfigVarMap \<times> 's) res" where
  "load_files lib lstat LoadFile force [] (mtimes, c) = Inr (mtimes, c)"
| "load_files lib lstat LoadFile force (i # files) (mtimes, c) =
     (case lstat (c_str i) of
        None \<Rightarrow> Inl (Undefined ''st'')
      | Some t \<Rightarrow>
          if \<not> force \<and> (case mtimes i of None \<Rightarrow> 0 | Some t \<Rightarrow> t) = t
          then load_files lib lstat LoadFile force files (mtimes(i \<mapsto> t), c)
          else let mtimes = mtimes(i \<mapsto> t) in
            case LoadFile i of
              Inl _ \<Rightarrow> load_files lib lstat LoadFile force files (mtimes, c)
            | Inr root \<Rightarrow> bindR (LoadFromYaml lib root c) (\<lambda>c. load_files lib lstat LoadFile force files (mtimes, c)))"

definition Config_Visit :: "(('v, 's) ConfigVar \<Rightarrow> 's \<Rightarrow> 's) \<Rightarrow> ('v, 's) ConfigVarMap \<Rightarrow> string list \<Rightarrow> 's \<Rightarrow> 's" where
  "Config_Visit cb datas order s = fold (\<lambda>name s. case datas name of None \<Rightarrow> s | Some var \<Rightarrow> cb var s) order s"

section \<open>The members of a document\<close>

text \<open>\<open>n\<close> is reached from a node by following keys.\<close>

inductive member :: "yaml \<Rightarrow> string list \<Rightarrow> yaml \<Rightarrow> bool" where
  member_self: "member n [] n"
| member_key: "(k, v) \<in> set kvs \<Longrightarrow> member v ks n \<Longrightarrow> member (YMap kvs) (yaml_scalar k # ks) n"

inductive_simps member_simps: "member YNull ks n" "member (YScalar s) ks n" "member (YSeq ns) ks n" "member (YMap kvs) ks n"

lemma valid_name_member: "valid_name (member_name prefix k) \<Longrightarrow> valid_name prefix"
  by (auto simp: valid_name_def member_name_def split: if_splits)

lemma valid_name_prefix: "valid_name (foldl member_name prefix ks) \<Longrightarrow> valid_name prefix"
  by (induction ks arbitrary: prefix) (auto dest: valid_name_member)

lemma ListAllMember_iff:
  "(p, n) \<in> set (ListAllMember prefix root) \<longleftrightarrow> (\<exists>ks. member root ks n \<and> p = foldl member_name prefix ks \<and> valid_name p)"
  and list_members_iff:
  "(p, n) \<in> set (list_members prefix kvs) \<longleftrightarrow>
     (\<exists>k v ks. (k, v) \<in> set kvs \<and> member v ks n \<and> p = foldl member_name (member_name prefix (yaml_scalar k)) ks \<and> valid_name p)"
proof (induction prefix root and prefix kvs rule: ListAllMember_list_members.induct)
  case (1 prefix kvs)
  show ?case
  proof (cases "valid_name prefix")
    case True
    with 1 have IH: "(p, n) \<in> set (list_members prefix kvs) \<longleftrightarrow>
       (\<exists>k v ks. (k, v) \<in> set kvs \<and> member v ks n \<and> p = foldl member_name (member_name prefix (yaml_scalar k)) ks \<and> valid_name p)"
      by simp
    have "(\<exists>ks. member (YMap kvs) ks n \<and> p = foldl member_name prefix ks \<and> valid_name p) \<longleftrightarrow>
        n = YMap kvs \<and> p = prefix \<or> (p, n) \<in> set (list_members prefix kvs)" (is "?L \<longleftrightarrow> ?R")
    proof
      assume ?L
      then show ?R unfolding IH by (auto simp: member_simps; metis)
    next
      assume ?R
      then show ?L
      proof
        assume "n = YMap kvs \<and> p = prefix"
        with True show ?L by (auto intro!: exI [of _ "[]"] member_self)
      next
        assume "(p, n) \<in> set (list_members prefix kvs)"
        then obtain k v ks where "(k, v) \<in> set kvs" "member v ks n" "p = foldl member_name (member_name prefix (yaml_scalar k)) ks" "valid_name p"
          unfolding IH by blast
        then show ?L by (auto intro!: exI [of _ "yaml_scalar k # ks"] member_key)
      qed
    qed
    with True show ?thesis by auto
  qed (auto dest: valid_name_prefix)
next
  case (4 prefix k v kvs)
  then show ?case by (simp only: list_members.simps set_append Un_iff list.set(2) insert_iff prod.inject) blast
qed (auto simp: member_simps dest: valid_name_prefix)

text \<open>Valid names have no upper-case letters.\<close>

lemma lower_valid_name: "valid_name s \<Longrightarrow> map to_lower s = s"
  by (induction s) (auto simp: valid_name_def config_chars_def to_lower_def)

lemma ListAllMember_valid: "(p, n) \<in> set (ListAllMember prefix root) \<Longrightarrow> valid_name p"
  unfolding ListAllMember_iff by blast

section \<open>Loading a document\<close>

text \<open>Listeners that do not throw.\<close>

definition quiet :: "('v, 's) ConfigVar \<Rightarrow> bool" where
  "quiet var \<longleftrightarrow> (\<forall>(k, cb) \<in> set (cv_cbs var). \<forall>old v s. \<exists>s'. cb old v s = Inr (s', None))"

lemma call_listeners_quiet:
  "\<forall>(k, cb) \<in> set cbs. \<forall>old v s. \<exists>s'. cb old v s = Inr (s', None) \<Longrightarrow> \<exists>s'. call_listeners cbs old v s = Inr (s', None)"
proof (induction cbs arbitrary: s)
  case (Cons c cbs)
  obtain k cb where c: "c = (k, cb)" by (cases c)
  obtain s1 where "cb old v s = Inr (s1, None)" using Cons.prems c by fastforce
  moreover obtain s2 where "call_listeners cbs old v s1 = Inr (s2, None)" using Cons.IH [of s1] Cons.prems by auto
  ultimately show ?case by (simp add: c)
qed simp

text \<open>The value a text gives a variable: texts that cannot be converted are skipped.\<close>

definition text_value :: "('v, 's) ConfigVar \<Rightarrow> 'v \<Rightarrow> string \<Rightarrow> 'v" where
  "text_value var old t = (case cv_from var t of Inl _ \<Rightarrow> old | Inr v \<Rightarrow> v)"

lemma fromString_quiet:
  assumes "quiet var"
  shows "\<exists>s'. fromString t var s = Inr (False, var\<lparr>cv_val := text_value var (cv_val var) t\<rparr>, s')"
proof (cases "cv_from var t")
  case (Inr v)
  obtain s' where "call_listeners (cv_cbs var) (cv_val var) v s = Inr (s', None)"
    using call_listeners_quiet [of "cv_cbs var"] assms unfolding quiet_def by blast
  with Inr show ?thesis by (simp add: fromString_def setValue_def text_value_def)
qed (simp add: fromString_def text_value_def)

definition texts_at :: "yaml_lib \<Rightarrow> string \<Rightarrow> (string \<times> yaml) list \<Rightarrow> string list" where
  "texts_at lib name ns = map (\<lambda>(k, n). node_text lib n) (filter (\<lambda>(k, n). k = name) ns)"

lemma load_nodes_values:
  assumes "\<forall>(p, n) \<in> set ns. valid_name p" and "\<forall>name var. datas name = Some var \<longrightarrow> name \<noteq> [] \<and> quiet var"
  shows "\<exists>datas' s'. load_nodes lib ns (datas, s) = Inr (datas', s') \<and>
    (\<forall>name. datas' name = map_option (\<lambda>var. var\<lparr>cv_val := foldl (text_value var) (cv_val var) (texts_at lib name ns)\<rparr>) (datas name))"
  using assms
proof (induction ns arbitrary: datas s)
  case Nil
  then show ?case by (auto simp: texts_at_def map_option_idI)
next
  case (Cons x ns)
  obtain key n where x: "x = (key, n)" by (cases x)
  have key: "map to_lower key = key" using Cons.prems(1) x by (simp add: lower_valid_name)
  have ns: "\<forall>(p, n) \<in> set ns. valid_name p" using Cons.prems(1) by simp
  show ?case
  proof (cases "datas key")
    case None
    obtain datas' s' where 1: "load_nodes lib ns (datas, s) = Inr (datas', s')"
        "\<And>name. datas' name = map_option (\<lambda>var. var\<lparr>cv_val := foldl (text_value var) (cv_val var) (texts_at lib name ns)\<rparr>) (datas name)"
      using Cons.IH [OF ns Cons.prems(2)] by blast
    have "load_nodes lib (x # ns) (datas, s) = Inr (datas', s')" using 1(1) None by (simp add: x key LookupBase_def)
    moreover have "datas' name = map_option (\<lambda>var. var\<lparr>cv_val := foldl (text_value var) (cv_val var) (texts_at lib name (x # ns))\<rparr>) (datas name)"
      for name using 1(2) [of name] None by (cases "name = key") (simp_all add: x texts_at_def)
    ultimately show ?thesis by blast
  next
    case (Some var)
    then have var: "key \<noteq> []" "quiet var" using Cons.prems(2) by auto
    let ?t = "node_text lib n" and ?v = "text_value var (cv_val var) (node_text lib n)"
    obtain s1 where step: "fromString ?t var s = Inr (False, var\<lparr>cv_val := ?v\<rparr>, s1)"
      using fromString_quiet [OF var(2)] by blast
    let ?datas = "datas(key \<mapsto> var\<lparr>cv_val := ?v\<rparr>)"
    have tv: "text_value (var\<lparr>cv_val := w\<rparr>) = text_value var" for w by (intro ext) (simp add: text_value_def)
    have "\<forall>name var'. ?datas name = Some var' \<longrightarrow> name \<noteq> [] \<and> quiet var'"
      using Cons.prems(2) var by (auto simp: quiet_def split: if_splits)
    then obtain datas' s' where 1: "load_nodes lib ns (?datas, s1) = Inr (datas', s')"
        "\<And>name. datas' name = map_option (\<lambda>var. var\<lparr>cv_val := foldl (text_value var) (cv_val var) (texts_at lib name ns)\<rparr>) (?datas name)"
      using Cons.IH [OF ns] by blast
    have "load_nodes lib (x # ns) (datas, s) = Inr (datas', s')" using 1(1) Some var(1) step by (simp add: x key LookupBase_def)
    moreover have "datas' name = map_option (\<lambda>var. var\<lparr>cv_val := foldl (text_value var) (cv_val var) (texts_at lib name (x # ns))\<rparr>) (datas name)"
      for name using 1(2) [of name] Some by (cases "name = key") (simp_all add: x texts_at_def tv)
    ultimately show ?thesis by blast
  qed
qed

section \<open>Round trips of containers\<close>

text \<open>What is relied on of the library: the access to the elements of a sequence.\<close>

definition yaml_access :: "yaml_lib \<Rightarrow> bool" where
  "yaml_access lib \<longleftrightarrow> yl_size lib YNull = 0 \<and> (\<forall>ns. yl_size lib (YSeq ns) = length ns \<and> (\<forall>i < length ns. yl_index lib (YSeq ns) i = Inr (ns ! i)))"

text \<open>A value is printed as a text that is read as the node \<open>n\<close>, and the text of \<open>n\<close> is converted back to the value.\<close>

definition cast_ok :: "yaml_lib \<Rightarrow> ('a \<Rightarrow> string res) \<Rightarrow> (string \<Rightarrow> 'a res) \<Rightarrow> 'a \<Rightarrow> yaml \<Rightarrow> bool" where
  "cast_ok lib to from x n \<longleftrightarrow> (\<exists>s. to x = Inr s \<and> yl_load lib s = Inr n) \<and> from (yl_emit lib n) = Inr x"

lemma elements_to_ok: "list_all2 (cast_ok lib to from) xs ns \<Longrightarrow> elements_to lib to xs = Inr ns"
  by (induction rule: list_all2_induct) (auto simp: cast_ok_def)

lemma elements_from_ok:
  assumes "yaml_access lib" and "list_all2 (cast_ok lib to from) xs ns" and "i \<le> length ns"
  shows "elements_from lib from ins (seq_node ns) i c = Inr (fold ins (drop i xs) c)"
  using assms(3)
proof (induction "length ns - i" arbitrary: i c)
  case 0
  then show ?case
    using assms(1) list_all2_lengthD [OF assms(2)] by (simp add: elements_from.simps [of _ _ _ _ i] yaml_access_def seq_node_def)
next
  case (Suc k)
  then have i: "i < length ns" "seq_node ns = YSeq ns" by (auto simp: seq_node_def)
  then have x: "cast_ok lib to from (xs ! i) (ns ! i)" "drop i xs = xs ! i # drop (Suc i) xs"
    using assms(2) by (simp_all add: list_all2_conv_all_nth Cons_nth_drop_Suc)
  have "elements_from lib from ins (seq_node ns) i c = elements_from lib from ins (seq_node ns) (Suc i) (ins (xs ! i) c)"
    using assms(1) i x(1) by (simp add: elements_from.simps [of _ _ _ _ i] yaml_access_def cast_ok_def)
  also have "\<dots> = Inr (fold ins (drop i xs) c)" using Suc(1) [of "Suc i"] Suc(2,3) i x(2) by simp
  finally show ?case .
qed

lemma set_insert_above: "\<forall>y \<in> set ys. lt y x \<Longrightarrow> set_insert lt x ys = ys @ [x]"
  by (simp add: set_insert_def set_find_def set_lower_bound_def dropWhile_eq_Nil_conv [THEN iffD2])

lemma fold_set_insert: "sorted_wrt lt (ys @ xs) \<Longrightarrow> fold (set_insert lt) xs ys = ys @ xs"
  by (induction xs arbitrary: ys) (simp_all add: set_insert_above sorted_wrt_append)

lemma fold_snoc: "fold (\<lambda>x c. c @ [x]) xs ys = ys @ xs"
  by (induction xs arbitrary: ys) simp_all

lemma fold_insert_set: "fold insert xs A = set xs \<union> A"
  by (induction xs arbitrary: A) auto

lemma pairs_to_ok: "list_all2 (\<lambda>(k, x) (k', n). k' = YScalar k \<and> cast_ok lib to from x n) xs kvs \<Longrightarrow> pairs_to lib to xs = Inr kvs"
  by (induction rule: list_all2_induct) (auto simp: cast_ok_def)

lemma pairs_from_ok:
  "list_all2 (\<lambda>(k, x) (k', n). k' = YScalar k \<and> cast_ok lib to from x n) xs kvs \<Longrightarrow> distinct (map fst xs) \<Longrightarrow>
     dom m \<inter> set (map fst xs) = {} \<Longrightarrow> pairs_from lib from kvs m = Inr (m ++ map_of xs)"
proof (induction arbitrary: m rule: list_all2_induct)
  case (Cons x xs kv kvs)
  obtain k v where x: "x = (k, v)" by (cases x)
  obtain n where kv: "kv = (YScalar k, n)" "cast_ok lib to from v n" using Cons(1) x by (cases kv) auto
  have m: "m k = None" using Cons.prems(2) x by auto
  have "dom (m(k \<mapsto> v)) \<inter> set (map fst xs) = {}" using Cons.prems x by auto
  then have "pairs_from lib from kvs (m(k \<mapsto> v)) = Inr (m(k \<mapsto> v) ++ map_of xs)" using Cons.IH Cons.prems(1) x by simp
  moreover have "m(k \<mapsto> v) ++ map_of xs = m ++ map_of (x # xs)"
    using Cons.prems(1) x by (simp add: map_add_upd_left dom_map_of_conv_image_fst)
  ultimately show ?case using kv m by (simp add: x cast_ok_def del: fun_upd_apply)
qed simp

text \<open>C31: containers are printed and read back to the same contents if their elements are, to any depth of nesting: the printed
  text of the container is read as a node whose text is converted back.\<close>

theorem containers_roundtrip:
  assumes "yaml_access lib" and "list_all2 (cast_ok lib to from) xs ns" and "yl_load lib (yl_emit lib (seq_node ns)) = Inr (seq_node ns)"
    and "list_all2 (\<lambda>(k, x) (k', n). k' = YScalar k \<and> cast_ok lib to from x n) ps kvs" and "distinct (map fst ps)"
    and "yl_load lib (yl_emit lib (map_node kvs)) = Inr (map_node kvs)"
  shows "cast_ok lib (vector_to lib to) (vector_from lib from) xs (seq_node ns) \<and>
         cast_ok lib (list_to lib to) (list_from lib from) xs (seq_node ns) \<and>
         (sorted_wrt lt xs \<longrightarrow> cast_ok lib (set_to lib to) (set_from lib lt from) xs (seq_node ns)) \<and>
         (\<exists>s. unordered_set_to lib to xs = Inr s \<and> unordered_set_from lib from s = Inr (set xs)) \<and>
         (\<exists>s. map_to lib to ps = Inr s \<and> map_from lib from s = Inr (map_of ps))"
proof -
  note elems = elements_to_ok [OF assms(2)] elements_from_ok [OF assms(1,2) le0]
  have "yaml_pairs (map_node kvs) = kvs" by (simp add: map_node_def)
  then show ?thesis
    using assms(3,6) pairs_to_ok [OF assms(4)] pairs_from_ok [OF assms(4,5), of Map.empty]
    by (simp add: elems cast_ok_def vector_to_def vector_from_def list_to_def list_from_def set_to_def set_from_def unordered_set_to_def
        unordered_set_from_def map_to_def map_from_def fold_snoc fold_set_insert fold_insert_set)
qed

section \<open>Properties\<close>

text \<open>The members listed of a document are exactly the nodes that keys lead to, under their dotted names, of those whose name
  has only the permitted characters.\<close>

theorem members_listed:
  "(p, n) \<in> set (ListAllMember [] root) \<longleftrightarrow> (\<exists>ks. member root ks n \<and> p = foldl member_name [] ks \<and> valid_name p)"
  by (rule ListAllMember_iff)


lemma call_listeners_append:
  "call_listeners (cbs @ cbs') old v s =
     bindR (call_listeners cbs old v s) (\<lambda>(s, e). case e of None \<Rightarrow> call_listeners cbs' old v s | Some _ \<Rightarrow> Inr (s, e))"
proof (induction cbs arbitrary: s)
  case (Cons c cbs)
  obtain k cb where c: "c = (k, cb)" by (cases c)
  show ?case using Cons by (cases "cb old v s") (auto simp: c split: option.split)
qed simp

text \<open>A listener that throws keeps the value from changing and those after it from being called, although those before it
  have already been told of the new value; the failure is not reported, as \<open>fromString\<close> returns \<open>false\<close> in any case.\<close>

theorem listener_vetoes:
  assumes "cv_from var t = Inr v" and "v \<noteq> cv_val var" and "cv_cbs var = cbs @ (k, cb) # cbs'"
    and "call_listeners cbs (cv_val var) v s = Inr (s1, None)" and "cb (cv_val var) v s1 = Inr (s2, Some e)"
  shows "fromString t var s = Inr (False, var, s2)"
  using assms by (simp add: fromString_def setValue_def call_listeners_append)

section \<open>The registry over time\<close>

text \<open>What the program does with the registry: looking up variables, loading documents, setting values and changing listeners. A
  value set or given as a default has the type of the variable, as the compiler checks; \<open>carrier\<close> gives the values of a
  type, into which its conversion leads.\<close>

inductive config_step :: "yaml_lib \<Rightarrow> (string \<Rightarrow> 'v set) \<Rightarrow> ('v, 's) ConfigVarMap \<times> 's \<Rightarrow> ('v, 's) ConfigVarMap \<times> 's \<Rightarrow> bool"
  for lib carrier where
  step_lookup: "Config_Lookup T name v desc datas = Inr (r, datas') \<Longrightarrow> v \<in> carrier (ct_name T) \<Longrightarrow>
    (\<And>t w. ct_from T t = Inr w \<Longrightarrow> w \<in> carrier (ct_name T)) \<Longrightarrow> config_step lib carrier (datas, s) (datas', s)"
| step_load: "LoadFromYaml lib root (datas, s) = Inr (datas', s') \<Longrightarrow> config_step lib carrier (datas, s) (datas', s')"
| step_set: "Config_Lookup_existing T name datas = Some var \<Longrightarrow> v \<in> carrier (ct_name T) \<Longrightarrow> setValue v var s = Inr (var', s', e) \<Longrightarrow>
    config_step lib carrier (datas, s) (datas(name \<mapsto> var'), s')"
| step_listen: "datas name = Some var \<Longrightarrow> addListener cb ids var = (ids', var') \<or> var' = delListener key var \<or> var' = clearListener var \<Longrightarrow>
    config_step lib carrier (datas, s) (datas(name \<mapsto> var'), s)"

definition var_ok :: "(string \<Rightarrow> 'v set) \<Rightarrow> string \<Rightarrow> ('v, 's) ConfigVar \<Rightarrow> bool" where
  "var_ok carrier name var \<longleftrightarrow> cv_name var = name \<and> valid_name name \<and> cv_val var \<in> carrier (cv_type var) \<and>
     (\<forall>t w. cv_from var t = Inr w \<longrightarrow> w \<in> carrier (cv_type var)) \<and> sorted_wrt (<) (map fst (cv_cbs var))"

definition registry_ok :: "(string \<Rightarrow> 'v set) \<Rightarrow> ('v, 's) ConfigVarMap \<Rightarrow> bool" where
  "registry_ok carrier datas \<longleftrightarrow> (\<forall>name var. datas name = Some var \<longrightarrow> var_ok carrier name var)"

lemma registry_ok_upd: "registry_ok carrier datas \<Longrightarrow> var_ok carrier name var \<Longrightarrow> registry_ok carrier (datas(name \<mapsto> var))"
  by (simp add: registry_ok_def)

lemma registry_okD: "registry_ok carrier datas \<Longrightarrow> datas name = Some var \<Longrightarrow> var_ok carrier name var"
  by (simp add: registry_ok_def)

lemma setValue_ok:
  "setValue v var s = Inr (var', s', e) \<Longrightarrow> var_ok carrier name var \<Longrightarrow> v \<in> carrier (cv_type var) \<Longrightarrow>
   var_ok carrier name var' \<and> cv_type var' = cv_type var"
  by (auto simp: setValue_def var_ok_def res_simps split: if_splits)

lemma fromString_ok:
  assumes "fromString t var s = Inr (b, var', s')" and "var_ok carrier name var"
  shows "var_ok carrier name var' \<and> cv_type var' = cv_type var"
proof (cases "cv_from var t")
  case (Inr v)
  then have "v \<in> carrier (cv_type var)" using assms(2) by (simp add: var_ok_def)
  then show ?thesis using assms Inr by (auto simp: fromString_def res_simps dest: setValue_ok)
qed (use assms in \<open>simp add: fromString_def\<close>)

lemma load_nodes_ok:
  "load_nodes lib ns (datas, s) = Inr (datas', s') \<Longrightarrow> registry_ok carrier datas \<Longrightarrow>
   registry_ok carrier datas' \<and> (\<forall>name. map_option cv_type (datas' name) = map_option cv_type (datas name))"
proof (induction ns arbitrary: datas s)
  case (Cons x ns)
  obtain key n where x: "x = (key, n)" by (cases x)
  show ?case
  proof (cases "key = [] \<or> datas (map to_lower key) = None")
    case True
    then have "load_nodes lib ns (datas, s) = Inr (datas', s')" using Cons.prems(1) by (auto simp: x LookupBase_def Let_def split: if_splits)
    then show ?thesis using Cons.IH Cons.prems(2) by blast
  next
    case False
    then obtain var where var: "datas (map to_lower key) = Some var" "key \<noteq> []" by auto
    then obtain b var1 s1 where 1: "fromString (node_text lib n) var s = Inr (b, var1, s1)"
        "load_nodes lib ns (datas(map to_lower key \<mapsto> var1), s1) = Inr (datas', s')"
      using Cons.prems(1) by (auto simp: x LookupBase_def Let_def res_simps)
    note ok = fromString_ok [OF 1(1) registry_okD [OF Cons.prems(2) var(1)]]
    from Cons.IH [OF 1(2) registry_ok_upd [OF Cons.prems(2)]] ok var(1) show ?thesis by auto
  qed
qed simp

lemma cbs_put_sorted: "sorted_wrt (<) (map fst cbs) \<Longrightarrow> sorted_wrt (<) (map fst (cbs_put k cb cbs))"
  by (auto simp: cbs_put_def sorted_wrt_append sorted_wrt_map sorted_wrt_filter)

text \<open>C25: at any time, every variable of the registry is kept under its own, valid name, holds a value of its type, and has its
  listeners in the order of their identifiers; and no step changes the type of a variable or removes it.\<close>

theorem registry_typed:
  assumes "(config_step lib carrier)\<^sup>*\<^sup>* (Map.empty, s0) (datas, s)"
  shows "registry_ok carrier datas \<and>
    (\<forall>datas' s' name var. config_step lib carrier (datas, s) (datas', s') \<longrightarrow> datas name = Some var \<longrightarrow>
       (\<exists>var'. datas' name = Some var' \<and> cv_type var' = cv_type var))"
proof -
  have step: "registry_ok carrier (fst c') \<and>
      (\<forall>name var. fst c name = Some var \<longrightarrow> (\<exists>var'. fst c' name = Some var' \<and> cv_type var' = cv_type var))"
    if "config_step lib carrier c c'" "registry_ok carrier (fst c)" for c c'
    using that
  proof (induction rule: config_step.induct)
    case (step_lookup T name v desc datas r datas' s)
    have "var_ok carrier name (newConfigVar T name v desc)" if "valid_name name"
      using that step_lookup(2,3) by (simp add: var_ok_def newConfigVar_def lower_valid_name)
    then show ?case
      using step_lookup(1,4) by (auto simp: Config_Lookup_def Let_def registry_ok_def split: option.splits if_splits)
  next
    case (step_load root datas s datas' s')
    then have "registry_ok carrier datas' \<and> (\<forall>name. map_option cv_type (datas' name) = map_option cv_type (datas name))"
      unfolding LoadFromYaml_def by (metis fst_conv load_nodes_ok)
    then show ?case by (metis fst_conv map_option_eq_Some)
  next
    case (step_set T name datas var v s var' s' e)
    then have "datas name = Some var" "cv_type var = ct_name T" by (auto simp: Config_Lookup_existing_def split: option.splits if_splits)
    with step_set(2,4) have "var_ok carrier name var" "v \<in> carrier (cv_type var)" by (simp_all add: registry_okD)
    from setValue_ok [OF step_set(3) this] have "var_ok carrier name var' \<and> cv_type var' = cv_type var" .
    with \<open>datas name = Some var\<close> step_set(4) show ?case by (auto simp: registry_ok_def)
  next
    case (step_listen datas name var cb ids ids' var' key s)
    have "var_ok carrier name var" using step_listen(1,3) by (simp add: registry_okD)
    then have "var_ok carrier name var' \<and> cv_type var' = cv_type var"
      using step_listen(2) by (auto simp: var_ok_def addListener_def delListener_def clearListener_def Let_def
          cbs_put_sorted [unfolded sorted_wrt_map] sorted_wrt_map sorted_wrt_filter)
    with step_listen show ?case by (auto simp: registry_ok_def)
  qed
  have "registry_ok carrier (fst (datas, s))"
    using assms by (induction rule: rtranclp_induct) (auto simp: registry_ok_def dest: step [rule_format])
  with step show ?thesis by fastforce
qed

section \<open>Witnesses\<close>

text \<open>A small library: texts with commas are sequences, texts with a colon are maps of one pair.\<close>

definition tiny_yaml :: yaml_lib where
  "tiny_yaml =
     \<lparr>yl_load = (\<lambda>s. Inr (if s = ''1,2'' then YSeq [YScalar ''1'', YScalar ''2''] else if s = ''a: 1'' then YMap [(YScalar ''a'', YScalar ''1'')] else YScalar s)),
      yl_emit = (\<lambda>n. case n of YScalar s \<Rightarrow> s | YSeq _ \<Rightarrow> ''1,2'' | YMap _ \<Rightarrow> ''a: 1'' | YNull \<Rightarrow> ''~''),
      yl_size = (\<lambda>n. case n of YSeq ns \<Rightarrow> length ns | YMap kvs \<Rightarrow> length kvs | _ \<Rightarrow> 0),
      yl_index = (\<lambda>n i. case n of YSeq ns \<Rightarrow> if i < length ns then Inr (ns ! i) else Inl (Invalid_argument ''node'') | _ \<Rightarrow> Inl (Invalid_argument ''node'')),
      yl_get = (\<lambda>n k. case n of YMap kvs \<Rightarrow> Inr (map_of kvs (YScalar k)) | _ \<Rightarrow> Inl (Invalid_argument ''node'')),
      yl_string = (\<lambda>n. case n of YScalar s \<Rightarrow> Inr s | _ \<Rightarrow> Inl (Invalid_argument ''node''))\<rparr>"

theorem containers_roundtrip_witness:
  "\<exists>s. vector_to tiny_yaml Inr [''1'', ''2''] = Inr s \<and> vector_from tiny_yaml Inr s = Inr [''1'', ''2'']"
proof -
  have "yaml_access tiny_yaml" by (simp add: yaml_access_def tiny_yaml_def)
  moreover have "list_all2 (cast_ok tiny_yaml Inr Inr) [''1'', ''2''] [YScalar ''1'', YScalar ''2'']"
    "yl_load tiny_yaml (yl_emit tiny_yaml (seq_node [YScalar ''1'', YScalar ''2''])) = Inr (seq_node [YScalar ''1'', YScalar ''2''])"
    "list_all2 (\<lambda>(k, x) (k', n). k' = YScalar k \<and> cast_ok tiny_yaml Inr Inr x n) [(''a'', ''1'')] [(YScalar ''a'', YScalar ''1'')]"
    "distinct (map fst [(''a'', ''1'')])"
    "yl_load tiny_yaml (yl_emit tiny_yaml (map_node [(YScalar ''a'', YScalar ''1'')])) = Inr (map_node [(YScalar ''a'', YScalar ''1'')])"
    by (simp_all add: cast_ok_def tiny_yaml_def seq_node_def map_node_def)
  ultimately show ?thesis
    using containers_roundtrip [of tiny_yaml Inr Inr "[''1'', ''2'']" "[YScalar ''1'', YScalar ''2'']" "[(''a'', ''1'')]" "[(YScalar ''a'', YScalar ''1'')]"]
    by (auto simp: cast_ok_def vector_to_def res_simps)
qed

definition sample_type :: "string config_type" where
  "sample_type = \<lparr>ct_name = ''string'', ct_from = (\<lambda>s. if s = [] then Inl (Invalid_argument s) else Inr s), ct_to = Inr\<rparr>"

definition sample_doc :: yaml where
  "sample_doc = YMap [(YScalar ''tcp'', YMap [(YScalar ''port'', YScalar ''80'')]), (YScalar ''TCP'', YScalar ''9'')]"

definition note_cb :: "(string, string list) on_change_cb" where
  "note_cb old v s = Inr (s @ [v], None)"

definition throw_cb :: "(string, string list) on_change_cb" where
  "throw_cb old v s = Inr (s, Some (Invalid_argument v))"

definition sample_var :: "(string, string list) ConfigVar" where
  "sample_var = snd (addListener note_cb 0 (newConfigVar sample_type ''tcp.port'' ''1'' []))"


theorem listener_vetoes_witness:
  "fromString ''5'' (snd (addListener throw_cb 1 sample_var)) [] = Inr (False, snd (addListener throw_cb 1 sample_var), [''5''])"
proof -
  let ?var = "snd (addListener throw_cb 1 sample_var)"
  have var: "cv_from ?var ''5'' = Inr ''5''" "''5'' \<noteq> cv_val ?var" "cv_cbs ?var = [(1, note_cb)] @ (2, throw_cb) # []"
    by (simp_all add: sample_var_def addListener_def newConfigVar_def sample_type_def cbs_put_def Let_def)
  have "call_listeners [(1, note_cb)] (cv_val ?var) ''5'' [] = Inr ([''5''], None)" "throw_cb (cv_val ?var) ''5'' [''5''] = Inr ([''5''], Some (Invalid_argument ''5''))"
    by (simp_all add: note_cb_def throw_cb_def)
  from listener_vetoes [OF var this] show ?thesis .
qed

theorem registry_typed_witness:
  "registry_ok (\<lambda>_. {s. s \<noteq> []}) [''tcp.port'' \<mapsto> (newConfigVar sample_type ''tcp.port'' ''1'' [] :: (string, unit) ConfigVar)]"
proof -
  let ?var = "newConfigVar sample_type ''tcp.port'' ''1'' [] :: (string, unit) ConfigVar" and ?carrier = "\<lambda>_ :: string. {s :: string. s \<noteq> []}"
  have "Config_Lookup sample_type ''tcp.port'' ''1'' [] Map.empty = Inr (Some ?var, [''tcp.port'' \<mapsto> ?var])"
    by (simp add: Config_Lookup_def valid_name_def config_chars_def Let_def)
  then have "config_step tiny_yaml ?carrier (Map.empty, ()) ([''tcp.port'' \<mapsto> ?var], ())"
    by (rule step_lookup) (auto simp: sample_type_def split: if_splits)
  then show ?thesis using registry_typed [of tiny_yaml ?carrier "()" "[''tcp.port'' \<mapsto> ?var]" "()"] by blast
qed

end
