(* ===== verification/Lamb_LogConfig.thy ===== *)
theory Lamb_LogConfig
  imports Lamb_Logger Lamb_Config
begin

text \<open>
  The part of \<open>lamb/log.cc\<close> that ties loggers to the configuration: definitions of loggers, their conversions from and to YAML, the
  variable \<open>logs\<close>, and the listener that changes the loggers when the variable changes.
\<close>

section \<open>Definitions of loggers\<close>

record LogAppendDefine =
  lad_type :: nat
  lad_pattern :: string
  lad_file :: string

record LogDefine =
  ld_name :: string
  ld_level :: level
  ld_appenders :: "LogAppendDefine list"

text \<open>\<open>operator<\<close> of \<open>std::string\<close> compares characters as unsigned numbers.\<close>

definition str_less :: "string \<Rightarrow> string \<Rightarrow> bool" where
  "str_less s t = ord_class.lexordp (map (of_char :: char \<Rightarrow> nat) s) (map of_char t)"

definition LogDefine_less :: "LogDefine \<Rightarrow> LogDefine \<Rightarrow> bool" where
  "LogDefine_less d e = str_less (ld_name d) (ld_name e)"

text \<open>An appender of a document; \<open>None\<close> is one that is skipped.\<close>

definition pattern_from :: "yaml_lib \<Rightarrow> yaml \<Rightarrow> string res" where
  "pattern_from lib a = bindR (yl_get lib a ''pattern'') (\<lambda>p. case p of None \<Rightarrow> Inr [] | Some p \<Rightarrow> yl_string lib p)"

definition appender_from :: "yaml_lib \<Rightarrow> yaml \<Rightarrow> (LogAppendDefine option) res" where
  "appender_from lib a =
     bindR (yl_get lib a ''type'') (\<lambda>t. case t of None \<Rightarrow> Inr None | Some t \<Rightarrow>
       bindR (yl_string lib t) (\<lambda>type.
         if type = ''FileLogAppender'' then
           bindR (yl_get lib a ''file'') (\<lambda>f. case f of None \<Rightarrow> Inr None | Some f \<Rightarrow>
             bindR (yl_string lib f) (\<lambda>file. bindR (pattern_from lib a) (\<lambda>p. Inr (Some \<lparr>lad_type = 1, lad_pattern = p, lad_file = file\<rparr>))))
         else if type = ''StdoutLogAppender'' then
           bindR (pattern_from lib a) (\<lambda>p. Inr (Some \<lparr>lad_type = 2, lad_pattern = p, lad_file = []\<rparr>))
         else Inr None))"

function appenders_from :: "yaml_lib \<Rightarrow> yaml \<Rightarrow> nat \<Rightarrow> LogAppendDefine list \<Rightarrow> LogAppendDefine list res" where
  "appenders_from lib as x acc =
     (if x < yl_size lib as
      then bindR (yl_index lib as x) (\<lambda>a. bindR (appender_from lib a) (\<lambda>d.
        appenders_from lib as (Suc x) (case d of None \<Rightarrow> acc | Some d \<Rightarrow> acc @ [d])))
      else Inr acc)"
  by pat_completeness auto
termination by (relation "measure (\<lambda>(lib, as, x, acc). yl_size lib as - x)") auto

declare appenders_from.simps [simp del]

definition LogDefine_from :: "yaml_lib \<Rightarrow> string \<Rightarrow> LogDefine res" where
  "LogDefine_from lib v =
     bindR (yl_load lib v) (\<lambda>n. bindR (yl_get lib n ''name'') (\<lambda>nm. case nm of
       None \<Rightarrow> Inl (Logic_error ''log config name is null'')
     | Some nm \<Rightarrow> bindR (yl_string lib nm) (\<lambda>name. bindR (yl_get lib n ''level'') (\<lambda>l.
         bindR (case l of None \<Rightarrow> Inr [] | Some l \<Rightarrow> yl_string lib l) (\<lambda>l. bindR (yl_get lib n ''appenders'') (\<lambda>as.
           bindR (case as of None \<Rightarrow> Inr [] | Some as \<Rightarrow> appenders_from lib as 0 []) (\<lambda>as.
             Inr \<lparr>ld_name = name, ld_level = LogLevel_FromString l, ld_appenders = as\<rparr>)))))))"

definition yaml_str :: "string \<Rightarrow> string \<Rightarrow> yaml \<times> yaml" where
  "yaml_str k s = (YScalar k, YScalar s)"

definition level_pairs :: "level \<Rightarrow> (yaml \<times> yaml) list" where
  "level_pairs l = (if l \<noteq> UNKNOW then [yaml_str ''level'' (LogLevel_ToString l)] else [])"

definition appender_node :: "LogAppendDefine \<Rightarrow> yaml" where
  "appender_node a =
     map_node ((if lad_type a = 1 then [yaml_str ''type'' ''FileLogAppender'', yaml_str ''file'' (lad_file a)]
                else if lad_type a = 2 then [yaml_str ''type'' ''StdoutLogAppender''] else []) @
               (if lad_pattern a \<noteq> [] then [yaml_str ''pattern'' (lad_pattern a)] else []))"

definition LogDefine_node :: "LogDefine \<Rightarrow> yaml" where
  "LogDefine_node d =
     YMap (yaml_str ''name'' (ld_name d) # level_pairs (ld_level d) @
           (if ld_appenders d \<noteq> [] then [(YScalar ''appender'', YSeq (map appender_node (ld_appenders d)))] else []))"

definition LogDefine_to :: "yaml_lib \<Rightarrow> LogDefine \<Rightarrow> string res" where
  "LogDefine_to lib d = Inr (yl_emit lib (LogDefine_node d))"

section \<open>Printing loggers\<close>

definition LogAppender_node :: "LogAppender \<Rightarrow> yaml" where
  "LogAppender_node a =
     YMap ((case ap_file a of Some f \<Rightarrow> [yaml_str ''type'' ''FileLogAppender'', yaml_str ''file'' f]
            | None \<Rightarrow> [yaml_str ''type'' ''StdoutLogAppender'']) @ [yaml_str ''pattern'' (lf_pattern (the_formatter a))])"

definition LogAppender_toYamlString :: "yaml_lib \<Rightarrow> LogAppender \<Rightarrow> string" where
  "LogAppender_toYamlString lib a = yl_emit lib (LogAppender_node a)"

fun appender_nodes :: "yaml_lib \<Rightarrow> log_state \<Rightarrow> nat list \<Rightarrow> yaml list res" where
  "appender_nodes lib st [] = Inr []"
| "appender_nodes lib st (p # ps) =
     (case ls_heap st p of None \<Rightarrow> Inl Null_deref
      | Some a \<Rightarrow> bindR (yl_load lib (LogAppender_toYamlString lib a)) (\<lambda>n. bindR (appender_nodes lib st ps) (\<lambda>ns. Inr (n # ns))))"

definition Logger_toYamlString :: "yaml_lib \<Rightarrow> log_state \<Rightarrow> Logger \<Rightarrow> string res" where
  "Logger_toYamlString lib st l =
     bindR (appender_nodes lib st (lg_appenders l)) (\<lambda>ns.
       Inr (yl_emit lib (YMap (yaml_str ''name'' (lg_name l) # level_pairs (lg_level l) @
         (if ns \<noteq> [] then [(YScalar ''appenders'', YSeq ns)] else [])))))"

text \<open>\<open>names\<close> lists the names of the loggers in order.\<close>

fun logger_nodes :: "yaml_lib \<Rightarrow> log_state \<Rightarrow> string list \<Rightarrow> yaml list res" where
  "logger_nodes lib st [] = Inr []"
| "logger_nodes lib st (name # names) =
     (case ls_loggers st name of None \<Rightarrow> logger_nodes lib st names
      | Some l \<Rightarrow> bindR (Logger_toYamlString lib st l) (\<lambda>s. bindR (yl_load lib s) (\<lambda>n. bindR (logger_nodes lib st names) (\<lambda>ns. Inr (n # ns)))))"

definition LoggerManager_toYamlString :: "yaml_lib \<Rightarrow> string list \<Rightarrow> log_state \<Rightarrow> string res" where
  "LoggerManager_toYamlString lib names st = bindR (logger_nodes lib st names) (\<lambda>ns. Inr (yl_emit lib (seq_node ns)))"

section \<open>The listener\<close>

definition define_pattern :: "LogAppendDefine \<Rightarrow> string" where
  "define_pattern a = (if lad_pattern a \<noteq> [] then lad_pattern a else default_pattern)"

text \<open>\<open>junk\<close> is the content of the memory from which the level of an appender is read before it is set.\<close>

definition define_appender :: "log_env \<Rightarrow> (nat \<Rightarrow> level) \<Rightarrow> string \<Rightarrow> LogAppendDefine \<Rightarrow> log_state \<Rightarrow> log_state res" where
  "define_appender env junk name a st =
     bindR (if lad_type a = 1 then newFileLogAppender env (junk (ls_next st)) (lad_file a) st
            else if lad_type a = 2 then newStdoutLogAppender (junk (ls_next st)) st
            else Inl Null_deref) (\<lambda>(p, st).
       bindR (newLogFormatter (define_pattern a)) (\<lambda>f.
         bindR (setFormatter p f (cout (init_report (define_pattern a)) st)) (\<lambda>st. Inr (with_logger name (addAppender p) st))))"

fun define_appenders :: "log_env \<Rightarrow> (nat \<Rightarrow> level) \<Rightarrow> string \<Rightarrow> LogAppendDefine list \<Rightarrow> log_state \<Rightarrow> log_state res" where
  "define_appenders env junk name [] st = Inr st"
| "define_appenders env junk name (a # as) st = bindR (define_appender env junk name a st) (define_appenders env junk name as)"

fun apply_new :: "log_env \<Rightarrow> (nat \<Rightarrow> level) \<Rightarrow> LogDefine list \<Rightarrow> LogDefine list \<Rightarrow> log_state \<Rightarrow> log_state res" where
  "apply_new env junk old [] st = Inr st"
| "apply_new env junk old (i # is) st =
     (if set_find LogDefine_less old i = Some i then apply_new env junk old is st
      else bindR (define_appenders env junk (ld_name i) (ld_appenders i)
             (with_logger (ld_name i) (\<lambda>l. clearAppenders (Logger_setLevel (ld_level i) l)) st)) (apply_new env junk old is))"

fun remove_old :: "LogDefine list \<Rightarrow> LogDefine list \<Rightarrow> log_state \<Rightarrow> log_state" where
  "remove_old new [] st = st"
| "remove_old new (i # is) st =
     remove_old new is (if set_find LogDefine_less new i = None
       then with_logger (ld_name i) (\<lambda>l. clearAppenders (Logger_setLevel 100 l)) st else st)"

definition on_logger_conf_changed :: "log_env \<Rightarrow> (nat \<Rightarrow> level) \<Rightarrow> (string \<Rightarrow> level \<Rightarrow> LogEvent) \<Rightarrow> LogDefine list \<Rightarrow> LogDefine list \<Rightarrow>
    log_state \<Rightarrow> log_state res" where
  "on_logger_conf_changed env junk mk old_value new_value st =
     bindR (LOG_LEVEL env ''root'' INFO mk ''on_logger_conf_changed'' st) (\<lambda>st.
       bindR (apply_new env junk old_value new_value st) (\<lambda>st. Inr (remove_old new_value old_value st)))"

text \<open>The variable \<open>g_log_defines\<close> with its listener.\<close>

definition g_log_defines :: "yaml_lib \<Rightarrow> log_env \<Rightarrow> (nat \<Rightarrow> level) \<Rightarrow> (string \<Rightarrow> level \<Rightarrow> LogEvent) \<Rightarrow> (LogDefine list, log_state) ConfigVar" where
  "g_log_defines lib env junk mk =
     snd (addListener (\<lambda>old v st. bindR (on_logger_conf_changed env junk mk old v st) (\<lambda>st. Inr (st, None))) 0
       (newConfigVar \<lparr>ct_name = ''std::set<LogDefine>'', ct_from = set_from lib LogDefine_less (LogDefine_from lib), ct_to = set_to lib (LogDefine_to lib)\<rparr>
          ''logs'' [] ''logs config''))"

section \<open>Sets ordered by a key\<close>

interpretation strs: total_cmp str_less
proof unfold_locales
  fix x y z
  show "\<not> str_less x x" by (simp add: str_less_def lexordp_irreflexive')
  show "str_less x y \<Longrightarrow> str_less y z \<Longrightarrow> str_less x z" by (auto simp: str_less_def intro: lexordp_trans)
  show "str_less x y \<or> x = y \<or> str_less y x"
    using lexordp_linear [of "map (of_char :: char \<Rightarrow> nat) x" "map of_char y"] by (auto simp: str_less_def dest: map_injective [OF _ inj_of_char])
qed

lemma sorted_names: "sorted_wrt LogDefine_less ds \<longleftrightarrow> sorted_wrt str_less (map ld_name ds)"
  by (simp add: sorted_wrt_map LogDefine_less_def [abs_def])

lemma set_find_name: "map_option ld_name (set_find LogDefine_less ds d) = set_find str_less (map ld_name ds) (ld_name d)"
proof -
  have "map ld_name (dropWhile (\<lambda>e. LogDefine_less e d) ds) = dropWhile (\<lambda>n. str_less n (ld_name d)) (map ld_name ds)"
    by (simp add: dropWhile_map LogDefine_less_def comp_def)
  from this [symmetric] show ?thesis
    unfolding set_find_def set_lower_bound_def
    by (cases "dropWhile (\<lambda>e. LogDefine_less e d) ds") (simp_all only: list.map list.case option.map if_distrib [of "map_option ld_name"] LogDefine_less_def)
qed

lemma set_find_defined:
  assumes "sorted_wrt LogDefine_less ds"
  shows "set_find LogDefine_less ds d = None \<longleftrightarrow> ld_name d \<notin> ld_name ` set ds"
    and "set_find LogDefine_less ds d = Some e \<Longrightarrow> e \<in> set ds"
proof -
  show "set_find LogDefine_less ds d = None \<longleftrightarrow> ld_name d \<notin> ld_name ` set ds"
    using set_find_name [of ds d] strs.find_iff [of "map ld_name ds" "ld_name d"] assms by (auto simp: sorted_names split: if_splits)
  show "set_find LogDefine_less ds d = Some e \<Longrightarrow> e \<in> set ds"
    by (auto simp: set_find_def set_lower_bound_def split: list.splits if_splits) (metis list.set_intros(1) set_dropWhileD)
qed

lemma set_insert_sorted_names:
  assumes "sorted_wrt LogDefine_less ds"
  shows "sorted_wrt LogDefine_less (set_insert LogDefine_less d ds)"
proof -
  have "map ld_name (set_insert LogDefine_less d ds) = set_insert str_less (ld_name d) (map ld_name ds)"
    using set_find_name [of ds d]
    by (auto simp: set_insert_def set_lower_bound_def takeWhile_map dropWhile_map LogDefine_less_def comp_def)
  then show ?thesis using strs.set_insert_sorted [of "map ld_name ds" "ld_name d"] assms by (simp add: sorted_names)
qed

lemma set_insert_subset: "set (set_insert lt x xs) \<subseteq> insert x (set xs)"
  by (auto simp: set_insert_def set_lower_bound_def dest: set_takeWhileD set_dropWhileD)

section \<open>The types of appenders read from a document\<close>

definition typed_define :: "LogDefine \<Rightarrow> bool" where
  "typed_define d \<longleftrightarrow> (\<forall>a \<in> set (ld_appenders d). lad_type a = 1 \<or> lad_type a = 2)"

lemma appender_from_typed: "appender_from lib n = Inr (Some a) \<Longrightarrow> lad_type a = 1 \<or> lad_type a = 2"
  by (auto simp: appender_from_def res_simps split: option.splits if_splits)

lemma appenders_from_typed:
  "appenders_from lib nd x acc = Inr ds \<Longrightarrow> \<forall>a \<in> set acc. lad_type a = 1 \<or> lad_type a = 2 \<Longrightarrow> \<forall>a \<in> set ds. lad_type a = 1 \<or> lad_type a = 2"
proof (induction lib nd x acc rule: appenders_from.induct)
  case (1 lib nd x acc)
  show ?case
  proof (cases "x < yl_size lib nd")
    case True
    then obtain n d where 2: "yl_index lib nd x = Inr n" "appender_from lib n = Inr d"
        "appenders_from lib nd (Suc x) (case d of None \<Rightarrow> acc | Some d \<Rightarrow> acc @ [d]) = Inr ds"
      using 1(2) by (auto simp: appenders_from.simps [of _ _ x] res_simps)
    have "\<forall>a \<in> set (case d of None \<Rightarrow> acc | Some d \<Rightarrow> acc @ [d]). lad_type a = 1 \<or> lad_type a = 2"
      using 1(3) 2(2) appender_from_typed by (auto split: option.split)
    then show ?thesis using 1(1) [OF True 2] by blast
  qed (use 1 in \<open>simp add: appenders_from.simps [of _ _ x]\<close>)
qed

lemma appenders_from_typed0: "appenders_from lib nd 0 [] = Inr ds \<Longrightarrow> typed_define \<lparr>ld_name = n, ld_level = l, ld_appenders = ds\<rparr>"
  using appenders_from_typed [of lib nd 0 "[]" ds] by (simp add: typed_define_def)

lemma typed_define_empty: "typed_define \<lparr>ld_name = n, ld_level = l, ld_appenders = []\<rparr>"
  by (simp add: typed_define_def)

lemma LogDefine_from_typed: "LogDefine_from lib t = Inr d \<Longrightarrow> typed_define d"
  by (auto simp: LogDefine_from_def res_simps typed_define_empty split: option.splits) (erule appenders_from_typed0)+

lemma elements_from_inv:
  "elements_from lib conv ins node i c = Inr c' \<Longrightarrow> I c \<Longrightarrow> (\<And>t x c. conv t = Inr x \<Longrightarrow> I c \<Longrightarrow> I (ins x c)) \<Longrightarrow> I c'"
proof (induction lib conv ins node i c rule: elements_from.induct)
  case (1 lib conv ins node i c)
  show ?case
  proof (cases "i < yl_size lib node")
    case True
    then obtain n x where "yl_index lib node i = Inr n" "conv (yl_emit lib n) = Inr x" "elements_from lib conv ins node (Suc i) (ins x c) = Inr c'"
      using 1(2) by (auto simp: elements_from.simps [of _ _ _ _ i] res_simps)
    then show ?thesis using 1(1) [OF True _ _ _ 1(4)] 1(3,4) by blast
  qed (use 1 in \<open>simp add: elements_from.simps [of _ _ _ _ i]\<close>)
qed

lemma defines_from_ok:
  assumes "set_from lib LogDefine_less (LogDefine_from lib) t = Inr ds"
  shows "sorted_wrt LogDefine_less ds \<and> (\<forall>d \<in> set ds. typed_define d)"
proof -
  obtain node where "elements_from lib (LogDefine_from lib) (set_insert LogDefine_less) node 0 [] = Inr ds"
    using assms by (auto simp: set_from_def res_simps)
  then show ?thesis
    by (rule elements_from_inv) (auto simp: set_insert_sorted_names dest: set_mp [OF set_insert_subset] LogDefine_from_typed)
qed

section \<open>Loggers that follow their definitions\<close>

text \<open>What matters of an appender: its file and its formatter.\<close>

definition ap_kind :: "log_state \<Rightarrow> nat \<Rightarrow> (string option \<times> LogFormatter option) option" where
  "ap_kind st p = map_option (\<lambda>a. (ap_file a, ap_formatter a)) (ls_heap st p)"

definition define_kind :: "LogAppendDefine \<Rightarrow> string option \<times> LogFormatter option" where
  "define_kind a = (if lad_type a = 1 then Some (lad_file a) else None,
     case newLogFormatter (define_pattern a) of Inl _ \<Rightarrow> None | Inr f \<Rightarrow> Some f)"

definition wf_log :: "log_state \<Rightarrow> bool" where
  "wf_log st \<longleftrightarrow> (\<forall>p. ls_heap st p \<noteq> None \<longrightarrow> p < ls_next st)"

text \<open>The logger of a definition has the level and, in order, the appenders it says.\<close>

definition follows :: "log_state \<Rightarrow> LogDefine \<Rightarrow> bool" where
  "follows st d \<longleftrightarrow> (\<exists>l. ls_loggers st (ld_name d) = Some l \<and> lg_level l = ld_level d \<and>
     map (ap_kind st) (lg_appenders l) = map (Some \<circ> define_kind) (ld_appenders d))"

definition silent :: "log_state \<Rightarrow> string \<Rightarrow> bool" where
  "silent st name \<longleftrightarrow> (\<exists>l. ls_loggers st name = Some l \<and> lg_level l = 100 \<and> lg_appenders l = [])"

text \<open>Appenders that are there stay as they are.\<close>

definition kinds_kept :: "log_state \<Rightarrow> log_state \<Rightarrow> bool" where
  "kinds_kept st st' \<longleftrightarrow> (\<forall>p. ap_kind st p \<noteq> None \<longrightarrow> ap_kind st' p = ap_kind st p)"

lemma kinds_kept_refl [simp]: "kinds_kept st st"
  by (simp add: kinds_kept_def)

lemma kinds_kept_trans: "kinds_kept st st1 \<Longrightarrow> kinds_kept st1 st2 \<Longrightarrow> kinds_kept st st2"
  by (auto simp: kinds_kept_def)

lemma kinds_kept_map:
  "kinds_kept st st' \<Longrightarrow> None \<notin> ap_kind st ` set ps \<Longrightarrow> map (ap_kind st') ps = map (ap_kind st) ps"
  unfolding kinds_kept_def by (intro map_cong refl) (metis imageI)

lemma follows_kept:
  assumes "follows st d" and "kinds_kept st st'" and "ls_loggers st' (ld_name d) = ls_loggers st (ld_name d)"
  shows "follows st' d"
proof -
  obtain l where l: "ls_loggers st (ld_name d) = Some l" "lg_level l = ld_level d"
      "map (ap_kind st) (lg_appenders l) = map (Some \<circ> define_kind) (ld_appenders d)"
    using assms(1) by (auto simp: follows_def)
  have "None \<notin> set (map (ap_kind st) (lg_appenders l))" unfolding l(3) by auto
  then have "map (ap_kind st') (lg_appenders l) = map (ap_kind st) (lg_appenders l)"
    using kinds_kept_map [OF assms(2), of "lg_appenders l"] by simp
  with l assms(3) show ?thesis by (auto simp: follows_def)
qed

lemma default_pattern_ok: "\<exists>f. newLogFormatter default_pattern = Inr f"
proof -
  define ts where "ts = [Date ''%Y-%m-%d %H:%M:%S'', Lit '' ['', Conv (CHR ''r''), Lit ''ms]'', Conv (CHR ''T''), Conv (CHR ''t''), Conv (CHR ''T''),
    Conv (CHR ''N''), Conv (CHR ''T''), Conv (CHR ''F''), Conv (CHR ''T''), Lit ''['', Conv (CHR ''p''), Lit '']'', Conv (CHR ''T''), Lit ''['', Conv (CHR ''c''),
    Lit '']'', Conv (CHR ''T''), Conv (CHR ''f''), Lit '':'', Conv (CHR ''l''), Lit '':'', Conv (CHR ''m''), Conv (CHR ''n'')]"
  have "show_tokens ts = default_pattern" by (simp add: ts_def default_pattern_def)
  moreover have "wf_tokens ts" by (simp add: ts_def s_format_items_def)
  ultimately show ?thesis using newLogFormatter_tokens [of ts] by auto
qed

lemma with_logger_simps [simp]: "ls_heap (with_logger name f st) = ls_heap st" "ls_next (with_logger name f st) = ls_next st"
  "ls_loggers (with_logger name f st) = (ls_loggers st)(name \<mapsto> f (fst (getLogger name st)))"
  by (auto simp: with_logger_def getLogger_def split: option.split)

lemma define_appender_ok:
  assumes "wf_log st" and "lad_type a = 1 \<or> lad_type a = 2" and "newLogFormatter (define_pattern a) = Inr f"
  shows "\<exists>st'. define_appender env junk name a st = Inr st' \<and> wf_log st' \<and> kinds_kept st st' \<and>
    ap_kind st' (ls_next st) = Some (define_kind a) \<and>
    ls_loggers st' = (ls_loggers st)(name \<mapsto> addAppender (ls_next st) (fst (getLogger name st)))"
proof -
  obtain g where g: "newLogFormatter default_pattern = Inr g" using default_pattern_ok by blast
  have fresh: "ls_heap st (ls_next st) = None" using assms(1) unfolding wf_log_def by blast
  have "\<exists>ap st1. (if lad_type a = 1 then newFileLogAppender env (junk (ls_next st)) (lad_file a) st
            else if lad_type a = 2 then newStdoutLogAppender (junk (ls_next st)) st else Inl Null_deref) = Inr (ls_next st, st1) \<and>
      ls_heap st1 = (ls_heap st)(ls_next st \<mapsto> ap) \<and> ls_next st1 = Suc (ls_next st) \<and> ls_loggers st1 = ls_loggers st \<and>
      ap_file ap = fst (define_kind a)"
    using assms(2) by (auto simp: newFileLogAppender_def newStdoutLogAppender_def newLogAppender_def new_appender_def g define_kind_def Let_def)
  then obtain ap st1 where 1: "(if lad_type a = 1 then newFileLogAppender env (junk (ls_next st)) (lad_file a) st
            else if lad_type a = 2 then newStdoutLogAppender (junk (ls_next st)) st else Inl Null_deref) = Inr (ls_next st, st1)"
      "ls_heap st1 = (ls_heap st)(ls_next st \<mapsto> ap)" "ls_next st1 = Suc (ls_next st)" "ls_loggers st1 = ls_loggers st"
      "ap_file ap = fst (define_kind a)" by blast
  let ?st2 = "(cout (init_report (define_pattern a)) st1)\<lparr>ls_heap := (ls_heap st)(ls_next st \<mapsto> ap\<lparr>ap_formatter := Some f\<rparr>)\<rparr>"
  have "define_appender env junk name a st = Inr (with_logger name (addAppender (ls_next st)) ?st2)"
    unfolding define_appender_def 1(1) by (simp add: assms(3) setFormatter_def 1(2))
  moreover have "wf_log (with_logger name (addAppender (ls_next st)) ?st2)"
    using assms(1) 1(3) by (auto simp: wf_log_def less_Suc_eq)
  moreover have "kinds_kept st (with_logger name (addAppender (ls_next st)) ?st2)"
    using fresh by (auto simp: kinds_kept_def ap_kind_def)
  moreover have "ap_kind (with_logger name (addAppender (ls_next st)) ?st2) (ls_next st) = Some (define_kind a)"
    using 1(5) assms(3) by (simp add: ap_kind_def define_kind_def)
  moreover have "fst (getLogger name ?st2) = fst (getLogger name st)" using 1(4) by (simp add: getLogger_def split: option.split)
  ultimately show ?thesis using 1(4) by auto
qed

text \<open>Definitions whose patterns the parser of the formatter gets through.\<close>

definition usable :: "LogDefine \<Rightarrow> bool" where
  "usable d \<longleftrightarrow> typed_define d \<and> (\<forall>a \<in> set (ld_appenders d). \<exists>f. newLogFormatter (define_pattern a) = Inr f)"

lemma define_appenders_ok:
  assumes "wf_log st" and "usable \<lparr>ld_name = name, ld_level = lvl, ld_appenders = ds\<rparr>"
    and "ls_loggers st name = Some l" and "None \<notin> ap_kind st ` set (lg_appenders l)"
  shows "\<exists>st' l'. define_appenders env junk name ds st = Inr st' \<and> wf_log st' \<and> kinds_kept st st' \<and>
    (\<forall>n. n \<noteq> name \<longrightarrow> ls_loggers st' n = ls_loggers st n) \<and> ls_loggers st' name = Some l' \<and> lg_level l' = lg_level l \<and>
    map (ap_kind st') (lg_appenders l') = map (ap_kind st) (lg_appenders l) @ map (Some \<circ> define_kind) ds"
  using assms
proof (induction ds arbitrary: st l)
  case Nil
  then show ?case by (intro exI [of _ st] exI [of _ l]) simp
next
  case (Cons a ds)
  let ?l = "addAppender (ls_next st) l"
  obtain f where "lad_type a = 1 \<or> lad_type a = 2" "newLogFormatter (define_pattern a) = Inr f"
    using Cons.prems(2) by (auto simp: usable_def typed_define_def)
  from define_appender_ok [OF Cons.prems(1) this, of env junk name] Cons.prems(3)
  obtain st1 where 1: "define_appender env junk name a st = Inr st1" "wf_log st1" "kinds_kept st st1"
      "ap_kind st1 (ls_next st) = Some (define_kind a)" "ls_loggers st1 = (ls_loggers st)(name \<mapsto> ?l)"
    by (auto simp: getLogger_def)
  have kinds: "map (ap_kind st1) (lg_appenders ?l) = map (ap_kind st) (lg_appenders l) @ [Some (define_kind a)]"
    using kinds_kept_map [OF 1(3) Cons.prems(4)] 1(4) by (simp add: addAppender_def)
  have "None \<notin> set (map (ap_kind st1) (lg_appenders ?l))" unfolding kinds using Cons.prems(4) by simp
  then obtain st' l' where 2: "define_appenders env junk name ds st1 = Inr st'" "wf_log st'" "kinds_kept st1 st'"
      "\<forall>n. n \<noteq> name \<longrightarrow> ls_loggers st' n = ls_loggers st1 n" "ls_loggers st' name = Some l'" "lg_level l' = lg_level ?l"
      "map (ap_kind st') (lg_appenders l') = map (ap_kind st1) (lg_appenders ?l) @ map (Some \<circ> define_kind) ds"
    using Cons.IH [OF 1(2), of ?l] Cons.prems(2) 1(5) by (auto simp: usable_def typed_define_def)
  have "define_appenders env junk name (a # ds) st = Inr st'" using 1(1) 2(1) by simp
  moreover have "kinds_kept st st'" using 1(3) 2(3) by (rule kinds_kept_trans)
  moreover have "lg_level l' = lg_level l" using 2(6) by (simp add: addAppender_def)
  moreover have "\<forall>n. n \<noteq> name \<longrightarrow> ls_loggers st' n = ls_loggers st n" using 2(4) 1(5) by simp
  moreover have "map (ap_kind st') (lg_appenders l') = map (ap_kind st) (lg_appenders l) @ map (Some \<circ> define_kind) (a # ds)"
    using 2(7) unfolding kinds by simp
  ultimately show ?case using 2(2,5) by blast
qed

lemma configure_ok:
  assumes "wf_log st" and "usable d"
  shows "\<exists>st'. define_appenders env junk (ld_name d) (ld_appenders d)
      (with_logger (ld_name d) (\<lambda>l. clearAppenders (Logger_setLevel (ld_level d) l)) st) = Inr st' \<and>
    wf_log st' \<and> kinds_kept st st' \<and> (\<forall>n. n \<noteq> ld_name d \<longrightarrow> ls_loggers st' n = ls_loggers st n) \<and> follows st' d"
proof -
  let ?l = "clearAppenders (Logger_setLevel (ld_level d) (fst (getLogger (ld_name d) st)))"
  let ?st = "with_logger (ld_name d) (\<lambda>l. clearAppenders (Logger_setLevel (ld_level d) l)) st"
  have wf: "wf_log ?st" and kept: "kinds_kept st ?st" using assms(1) by (simp_all add: wf_log_def kinds_kept_def ap_kind_def)
  have "usable \<lparr>ld_name = ld_name d, ld_level = ld_level d, ld_appenders = ld_appenders d\<rparr>"
    using assms(2) by (simp add: usable_def typed_define_def)
  from define_appenders_ok [OF wf this, of ?l env junk]
  obtain st' l' where 1: "define_appenders env junk (ld_name d) (ld_appenders d) ?st = Inr st'" "wf_log st'" "kinds_kept ?st st'"
      "\<forall>n. n \<noteq> ld_name d \<longrightarrow> ls_loggers st' n = ls_loggers ?st n" "ls_loggers st' (ld_name d) = Some l'" "lg_level l' = ld_level d"
      "map (ap_kind st') (lg_appenders l') = map (Some \<circ> define_kind) (ld_appenders d)"
    by (auto simp: clearAppenders_def Logger_setLevel_def)
  then show ?thesis using kinds_kept_trans [OF kept] by (auto simp: follows_def)
qed

lemma apply_new_ok:
  assumes "wf_log st" and "\<forall>i \<in> set ds. usable i" and "distinct (map ld_name ds)"
    and "\<forall>i \<in> set ds. set_find LogDefine_less old i = Some i \<longrightarrow> follows st i"
  shows "\<exists>st'. apply_new env junk old ds st = Inr st' \<and> wf_log st' \<and> kinds_kept st st' \<and>
    (\<forall>n. n \<notin> ld_name ` set ds \<longrightarrow> ls_loggers st' n = ls_loggers st n) \<and> (\<forall>i \<in> set ds. follows st' i)"
  using assms
proof (induction ds arbitrary: st)
  case (Cons i ds)
  obtain st1 where 1: "apply_new env junk old (i # ds) st = apply_new env junk old ds st1" "wf_log st1" "kinds_kept st st1"
      "\<forall>n. n \<noteq> ld_name i \<longrightarrow> ls_loggers st1 n = ls_loggers st n" "follows st1 i"
  proof (cases "set_find LogDefine_less old i = Some i")
    case True
    then show ?thesis using that [of st] Cons.prems by simp
  next
    case False
    then show ?thesis using configure_ok [of st i env junk] Cons.prems(1,2) that by auto
  qed
  have rest: "follows st1 j" if "j \<in> set ds" "follows st j" for j
  proof -
    have "ld_name j \<noteq> ld_name i" using Cons.prems(3) that(1) by (force simp: image_iff)
    then show ?thesis using follows_kept [OF that(2) 1(3)] 1(4) by blast
  qed
  then obtain st' where 2: "apply_new env junk old ds st1 = Inr st'" "wf_log st'" "kinds_kept st1 st'"
      "\<forall>n. n \<notin> ld_name ` set ds \<longrightarrow> ls_loggers st' n = ls_loggers st1 n" "\<forall>i \<in> set ds. follows st' i"
    using Cons.IH [OF 1(2)] Cons.prems(2-4) by auto
  have "follows st' i" using follows_kept [OF 1(5) 2(3)] 2(4) Cons.prems(3) by auto
  then show ?case using 1 2 kinds_kept_trans [OF 1(3) 2(3)] by auto
qed auto

lemma remove_old_loggers:
  "ls_loggers (remove_old new ds st) n =
     (if n \<in> ld_name ` {d \<in> set ds. set_find LogDefine_less new d = None}
      then Some (the (ls_loggers (remove_old new ds st) n)) else ls_loggers st n) \<and>
   (n \<in> ld_name ` {d \<in> set ds. set_find LogDefine_less new d = None} \<longrightarrow> silent (remove_old new ds st) n) \<and>
   ls_heap (remove_old new ds st) = ls_heap st \<and> ls_next (remove_old new ds st) = ls_next st"
proof (induction ds arbitrary: st)
  case (Cons d ds)
  let ?st = "if set_find LogDefine_less new d = None then with_logger (ld_name d) (\<lambda>l. clearAppenders (Logger_setLevel 100 l)) st else st"
  note IH = Cons.IH [of ?st]
  show ?case
  proof (cases "n \<in> ld_name ` {d \<in> set ds. set_find LogDefine_less new d = None}")
    case True
    then show ?thesis using IH by auto
  next
    case False
    then show ?thesis using IH by (auto simp: silent_def clearAppenders_def Logger_setLevel_def)
  qed
qed simp

text \<open>Logging changes neither the loggers nor what their appenders are.\<close>

definition log_kept :: "log_state \<Rightarrow> log_state \<Rightarrow> bool" where
  "log_kept st st' \<longleftrightarrow> ls_loggers st' = ls_loggers st \<and> ls_next st' = ls_next st \<and> ap_kind st' = ap_kind st"

lemma FileLogAppender_log_kept:
  assumes "FileLogAppender_log env p a e st = Inr st'" and "ls_heap st p = Some a"
  shows "log_kept st st'"
proof -
  define a1 where "a1 = (if ap_lastTime a + 3 \<le> le_time e then (FileLogAppender_reopen env a)\<lparr>ap_lastTime := le_time e\<rparr> else a)"
  define st1 where "st1 = (if ap_lastTime a + 3 \<le> le_time e then cout (reopen_message (FileLogAppender_reopen env a)) st else st)"
  have pair: "(if ap_lastTime a + 3 \<le> le_time e
      then let a = FileLogAppender_reopen env a in (a\<lparr>ap_lastTime := le_time e\<rparr>, cout (reopen_message a) st) else (a, st)) = (a1, st1)"
    by (simp add: a1_def st1_def Let_def)
  have a1: "ap_file a1 = ap_file a" "ap_formatter a1 = ap_formatter a" by (simp_all add: a1_def)
  have st1: "ls_heap st1 = ls_heap st" "ls_next st1 = ls_next st" "ls_loggers st1 = ls_loggers st" by (simp_all add: st1_def)
  have "\<exists>b. ls_next st' = ls_next st \<and> ls_loggers st' = ls_loggers st \<and>
      ls_heap st' = (ls_heap st)(p \<mapsto> b) \<and> ap_file b = ap_file a \<and> ap_formatter b = ap_formatter a"
    using assms(1) unfolding FileLogAppender_log_def pair
    by (auto simp: res_simps Let_def a1 st1 cout_def split: if_splits)
  then show ?thesis using assms(2) by (auto simp: log_kept_def ap_kind_def fun_eq_iff)
qed

lemma LogAppender_log_kept: "LogAppender_log env p e st = Inr st' \<Longrightarrow> log_kept st st'"
  by (auto simp: LogAppender_log_def StdoutLogAppender_log_def res_simps log_kept_def ap_kind_def [abs_def] split: option.splits if_splits
      dest: FileLogAppender_log_kept)

lemma log_all_kept: "log_all env ps e st = Inr st' \<Longrightarrow> log_kept st st'"
proof (induction ps arbitrary: st)
  case (Cons p ps)
  then obtain st1 where "LogAppender_log env p e st = Inr st1" "log_all env ps e st1 = Inr st'" by (auto simp: res_simps)
  then show ?case using LogAppender_log_kept [of env p e st st1] Cons.IH [of st1] by (simp add: log_kept_def)
qed (simp add: log_kept_def)

lemma LOG_LEVEL_kept:
  assumes "LOG_LEVEL env name lvl mk s st = Inr st'"
  shows "ls_next st' = ls_next st \<and> ap_kind st' = ap_kind st \<and> (\<forall>n. ls_loggers st n \<noteq> None \<longrightarrow> ls_loggers st' n = ls_loggers st n)"
proof -
  obtain l st1 where g: "getLogger name st = (l, st1)" by (cases "getLogger name st")
  then have st1: "ls_next st1 = ls_next st" "ls_heap st1 = ls_heap st" "\<forall>n. ls_loggers st n \<noteq> None \<longrightarrow> ls_loggers st1 n = ls_loggers st n"
    by (auto simp: getLogger_def split: option.splits)
  have "log_kept st1 st'"
    using assms log_all_kept by (auto simp: LOG_LEVEL_def g Logger_log_def Let_def log_kept_def split: if_splits)
  with st1 show ?thesis by (simp add: log_kept_def ap_kind_def [abs_def])
qed

lemma wf_log_kind: "wf_log st \<longleftrightarrow> (\<forall>p. ap_kind st p \<noteq> None \<longrightarrow> p < ls_next st)"
  by (simp add: wf_log_def ap_kind_def)

lemma conf_changed_ok:
  assumes "wf_log st" and "sorted_wrt LogDefine_less old" and "\<forall>d \<in> set old. follows st d"
    and "sorted_wrt LogDefine_less new" and "\<forall>d \<in> set new. usable d"
    and "LOG_LEVEL env ''root'' INFO mk ''on_logger_conf_changed'' st = Inr st0"
  shows "\<exists>st'. on_logger_conf_changed env junk mk old new st = Inr st' \<and> wf_log st' \<and> (\<forall>d \<in> set new. follows st' d) \<and>
    (\<forall>d \<in> set old. ld_name d \<notin> ld_name ` set new \<longrightarrow> silent st' (ld_name d))"
proof -
  have st0: "ls_next st0 = ls_next st" "ap_kind st0 = ap_kind st" "\<forall>n. ls_loggers st n \<noteq> None \<longrightarrow> ls_loggers st0 n = ls_loggers st n"
    using LOG_LEVEL_kept [OF assms(6)] by auto
  have wf0: "wf_log st0" using assms(1) st0 by (simp add: wf_log_kind)
  have follows0: "follows st0 d" if "d \<in> set old" for d
  proof (rule follows_kept)
    show "follows st d" using assms(3) that by blast
    then show "ls_loggers st0 (ld_name d) = ls_loggers st (ld_name d)" using st0(3) by (auto simp: follows_def)
  qed (simp add: kinds_kept_def st0(2))
  have "\<forall>i \<in> set new. set_find LogDefine_less old i = Some i \<longrightarrow> follows st0 i"
    using follows0 set_find_defined(2) [OF assms(2)] by blast
  moreover have "distinct (map ld_name new)" using assms(4) strs.sorted_distinct by (simp add: sorted_names)
  ultimately obtain st1 where 1: "apply_new env junk old new st0 = Inr st1" "wf_log st1" "\<forall>i \<in> set new. follows st1 i"
    using apply_new_ok [OF wf0 assms(5)] by blast
  let ?st = "remove_old new old st1"
  have kept: "kinds_kept st1 ?st" using remove_old_loggers [of new old st1] by (simp add: kinds_kept_def ap_kind_def)
  have "follows ?st d" if "d \<in> set new" for d
  proof -
    have "ls_loggers ?st (ld_name d) = ls_loggers st1 (ld_name d)"
    proof -
      have "ld_name d \<notin> ld_name ` {d \<in> set old. set_find LogDefine_less new d = None}"
        using set_find_defined(1) [OF assms(4)] imageI [OF that, of ld_name] by auto
      then show ?thesis using remove_old_loggers [of new old st1 "ld_name d"] by simp
    qed
    then show ?thesis using follows_kept [OF _ kept] 1(3) that by blast
  qed
  moreover have "wf_log ?st" using 1(2) remove_old_loggers [of new old st1] by (simp add: wf_log_def)
  moreover have "silent ?st (ld_name d)" if "d \<in> set old" "ld_name d \<notin> ld_name ` set new" for d
  proof -
    have "ld_name d \<in> ld_name ` {d \<in> set old. set_find LogDefine_less new d = None}"
      using set_find_defined(1) [OF assms(4), of d] that by blast
    then show ?thesis using remove_old_loggers [of new old st1 "ld_name d"] by blast
  qed
  moreover have "on_logger_conf_changed env junk mk old new st = Inr ?st"
    by (simp add: on_logger_conf_changed_def assms(6) 1(1))
  ultimately show ?thesis by blast
qed

section \<open>Properties\<close>

text \<open>C27: setting the variable \<open>logs\<close> from a document makes the loggers follow it: every logger defined has the level and, in order,
  the appenders of its definition, and every logger no longer defined is silent. Loggers whose definition has not changed are
  left alone and still follow it.\<close>

theorem loggers_follow_config:
  assumes "var = (g_log_defines lib env junk mk)\<lparr>cv_val := old\<rparr>" and "wf_log st" and "sorted_wrt LogDefine_less old"
    and "\<forall>d \<in> set old. follows st d" and "set_from lib LogDefine_less (LogDefine_from lib) t = Inr new"
    and "\<forall>d \<in> set new. \<forall>a \<in> set (ld_appenders d). \<exists>f. newLogFormatter (define_pattern a) = Inr f"
    and "LOG_LEVEL env ''root'' INFO mk ''on_logger_conf_changed'' st = Inr st0"
  shows "\<exists>st'. fromString t var st = Inr (False, var\<lparr>cv_val := new\<rparr>, st') \<and> wf_log st' \<and> (\<forall>d \<in> set new. follows st' d) \<and>
    (\<forall>d \<in> set old. ld_name d \<notin> ld_name ` set new \<longrightarrow> silent st' (ld_name d))"
proof (cases "new = old")
  case True
  then show ?thesis using assms by (simp add: fromString_def setValue_def g_log_defines_def addListener_def newConfigVar_def Let_def)
next
  case False
  have "sorted_wrt LogDefine_less new" "\<forall>d \<in> set new. usable d"
    using defines_from_ok [OF assms(5)] assms(6) by (auto simp: usable_def)
  then obtain st' where "on_logger_conf_changed env junk mk old new st = Inr st'" "wf_log st'" "\<forall>d \<in> set new. follows st' d"
      "\<forall>d \<in> set old. ld_name d \<notin> ld_name ` set new \<longrightarrow> silent st' (ld_name d)"
    using conf_changed_ok [OF assms(2-4) _ _ assms(7)] by blast
  then show ?thesis
    using False assms(1,5)
    by (auto simp: fromString_def setValue_def g_log_defines_def addListener_def newConfigVar_def cbs_put_def Let_def)
qed

section \<open>Definitions and YAML\<close>

text \<open>What is relied on of the library: the access to the members of a map and to the text of a scalar.\<close>

definition yaml_maps :: "yaml_lib \<Rightarrow> bool" where
  "yaml_maps lib \<longleftrightarrow> (\<forall>kvs k. yl_get lib (YMap kvs) k = Inr (map_of kvs (YScalar k))) \<and> (\<forall>s. yl_string lib (YScalar s) = Inr s)"

definition read_level :: "level \<Rightarrow> level" where
  "read_level l = (if DEBUG \<le> l \<and> l \<le> FATAL then l else UNKNOW)"

lemma level_roundtrip: "LogLevel_FromString (LogLevel_ToString l) = read_level l" "LogLevel_FromString [] = UNKNOW"
  by (auto simp: LogLevel_FromString_def LogLevel_ToString_def read_level_def level_defs)

text \<open>The definition a printed appender is read as.\<close>

definition define_of :: "LogAppender \<Rightarrow> LogAppendDefine" where
  "define_of a = (case ap_file a of
     Some f \<Rightarrow> \<lparr>lad_type = 1, lad_pattern = lf_pattern (the_formatter a), lad_file = f\<rparr>
   | None \<Rightarrow> \<lparr>lad_type = 2, lad_pattern = lf_pattern (the_formatter a), lad_file = []\<rparr>)"

lemma appender_from_node: "yaml_maps lib \<Longrightarrow> appender_from lib (LogAppender_node a) = Inr (Some (define_of a))"
  by (auto simp: appender_from_def pattern_from_def LogAppender_node_def define_of_def yaml_maps_def yaml_str_def split: option.split)

lemma appenders_from_nodes:
  assumes "yaml_access lib" and "yaml_maps lib" and "i \<le> length as"
  shows "appenders_from lib (YSeq (map LogAppender_node as)) i acc = Inr (acc @ map define_of (drop i as))"
  using assms(3)
proof (induction "length as - i" arbitrary: i acc)
  case 0
  then show ?case using assms(1) by (simp add: appenders_from.simps [of _ _ i] yaml_access_def)
next
  case (Suc k)
  then have i: "i < length as" by simp
  then have "appenders_from lib (YSeq (map LogAppender_node as)) i acc =
      appenders_from lib (YSeq (map LogAppender_node as)) (Suc i) (acc @ [define_of (as ! i)])"
    using assms(1) by (simp add: appenders_from.simps [of _ _ i] yaml_access_def appender_from_node [OF assms(2)])
  also have "\<dots> = Inr (acc @ map define_of (drop i as))"
    using Suc(1) [of "Suc i" "acc @ [define_of (as ! i)]"] Suc(2) i by (simp add: Cons_nth_drop_Suc [symmetric])
  finally show ?case .
qed

lemma appender_nodes_ok:
  "list_all2 (\<lambda>p a. ls_heap st p = Some a) ps as \<Longrightarrow> \<forall>a \<in> set as. yl_load lib (yl_emit lib (LogAppender_node a)) = Inr (LogAppender_node a) \<Longrightarrow>
   appender_nodes lib st ps = Inr (map LogAppender_node as)"
  by (induction rule: list_all2_induct) (auto simp: LogAppender_toYamlString_def)

text \<open>What a logger prints of itself is read back as its definition with the same name and level and all of its appenders; a
  definition that is printed loses its appenders, which are printed under another key than the one they are read from. In both
  cases a level other than the five named ones becomes \<open>UNKNOW\<close>.\<close>

theorem log_yaml_roundtrip:
  assumes "yaml_access lib" and "yaml_maps lib" and "list_all2 (\<lambda>p a. ls_heap st p = Some a) (lg_appenders l) as" and "as \<noteq> []"
    and "\<forall>a \<in> set as. yl_load lib (yl_emit lib (LogAppender_node a)) = Inr (LogAppender_node a)"
    and "n = YMap (yaml_str ''name'' (lg_name l) # level_pairs (lg_level l) @ [(YScalar ''appenders'', YSeq (map LogAppender_node as))])"
    and "yl_load lib (yl_emit lib n) = Inr n" and "yl_load lib (yl_emit lib (LogDefine_node d)) = Inr (LogDefine_node d)"
  shows "(\<exists>s. Logger_toYamlString lib st l = Inr s \<and>
           LogDefine_from lib s = Inr \<lparr>ld_name = lg_name l, ld_level = read_level (lg_level l), ld_appenders = map define_of as\<rparr>) \<and>
         (\<exists>s. LogDefine_to lib d = Inr s \<and>
           LogDefine_from lib s = Inr \<lparr>ld_name = ld_name d, ld_level = read_level (ld_level d), ld_appenders = []\<rparr>)"
proof -
  have unk: "read_level UNKNOW = UNKNOW" by (simp add: read_level_def)
  have "Logger_toYamlString lib st l = Inr (yl_emit lib n)"
    using appender_nodes_ok [OF assms(3,5)] assms(4,6) by (simp add: Logger_toYamlString_def)
  moreover have "LogDefine_from lib (yl_emit lib n) = Inr \<lparr>ld_name = lg_name l, ld_level = read_level (lg_level l), ld_appenders = map define_of as\<rparr>"
    using assms(2) appenders_from_nodes [OF assms(1,2) le0, of as "[]"]
    by (simp add: LogDefine_from_def assms(7)) (simp add: assms(6) yaml_maps_def yaml_str_def level_pairs_def level_roundtrip unk)
  moreover have "LogDefine_from lib (yl_emit lib (LogDefine_node d)) = Inr \<lparr>ld_name = ld_name d, ld_level = read_level (ld_level d), ld_appenders = []\<rparr>"
    using assms(2)
    by (simp add: LogDefine_from_def assms(8)) (simp add: LogDefine_node_def yaml_maps_def yaml_str_def level_pairs_def level_roundtrip unk)
  ultimately show ?thesis by (simp add: LogDefine_to_def)
qed

section \<open>Witnesses\<close>

definition sample_define_node :: yaml where
  "sample_define_node = YMap [yaml_str ''name'' ''x'', yaml_str ''level'' ''warn'',
     (YScalar ''appenders'', YSeq [YMap [yaml_str ''type'' ''StdoutLogAppender'', yaml_str ''pattern'' ''%m%n'']])]"

definition log_yaml :: yaml_lib where
  "log_yaml = tiny_yaml\<lparr>yl_load := (\<lambda>s. Inr (if s = ''logs'' then YSeq [sample_define_node] else sample_define_node)), yl_emit := (\<lambda>_. ''x'')\<rparr>"

definition sample_define :: LogDefine where
  "sample_define = \<lparr>ld_name = ''x'', ld_level = WARN, ld_appenders = [\<lparr>lad_type = 2, lad_pattern = ''%m%n'', lad_file = []\<rparr>]\<rparr>"

lemma sample_defines: "set_from log_yaml LogDefine_less (LogDefine_from log_yaml) ''logs'' = Inr [sample_define]"
  by (simp add: set_from_def elements_from.simps appenders_from.simps log_yaml_def tiny_yaml_def LogDefine_from_def sample_define_node_def
      yaml_str_def appender_from_def pattern_from_def set_insert_def set_find_def set_lower_bound_def LogLevel_FromString_def sample_define_def)

theorem loggers_follow_config_witness:
  "\<exists>st'. fromString ''logs'' (g_log_defines log_yaml full_log_env (\<lambda>_. 0) (\<lambda>n l. sample_event [] 5)) sample_log_state =
       Inr (False, (g_log_defines log_yaml full_log_env (\<lambda>_. 0) (\<lambda>n l. sample_event [] 5))\<lparr>cv_val := [sample_define]\<rparr>, st') \<and>
     follows st' sample_define"
proof -
  let ?mk = "\<lambda>(n :: string) (l :: level). sample_event [] 5"
  let ?var = "g_log_defines log_yaml full_log_env (\<lambda>_. 0) ?mk"
  have var: "?var = ?var\<lparr>cv_val := []\<rparr>" by (simp add: g_log_defines_def addListener_def newConfigVar_def Let_def)
  have wf: "wf_log sample_log_state" by (auto simp: wf_log_def sample_log_state_def split: if_splits)
  have "define_pattern \<lparr>lad_type = 2, lad_pattern = ''%m%n'', lad_file = []\<rparr> = show_tokens [Conv (CHR ''m''), Conv (CHR ''n'')]"
    by (simp add: define_pattern_def)
  then have "\<forall>d \<in> set [sample_define]. \<forall>a \<in> set (ld_appenders d). \<exists>f. newLogFormatter (define_pattern a) = Inr f"
    using newLogFormatter_tokens [of "[Conv (CHR ''m''), Conv (CHR ''n'')]"] by (auto simp: sample_define_def s_format_items_def)
  moreover obtain st0 where "LOG_LEVEL full_log_env ''root'' INFO ?mk ''on_logger_conf_changed'' sample_log_state = Inr st0"
    by (simp add: LOG_LEVEL_def getLogger_def sample_log_state_def newLogger_def Logger_log_def Let_def level_defs sample_event_def newLogEvent_def)
  ultimately show ?thesis
    using loggers_follow_config [OF var wf _ _ sample_defines] by auto
qed

definition text_yaml :: "yaml \<Rightarrow> yaml \<Rightarrow> yaml \<Rightarrow> yaml_lib" where
  "text_yaml a l d = tiny_yaml\<lparr>yl_load := (\<lambda>s. Inr (if s = ''a'' then a else if s = ''l'' then l else d)),
     yl_emit := (\<lambda>n. if n = a then ''a'' else if n = l then ''l'' else ''d'')\<rparr>"

theorem log_yaml_roundtrip_witness:
  "\<exists>lib s. LogDefine_to lib sample_define = Inr s \<and> LogDefine_from lib s = Inr (sample_define\<lparr>ld_appenders := []\<rparr>)"
proof -
  let ?a = "sample_appender None INFO" and ?l = "\<lparr>lg_name = ''y'', lg_level = INFO, lg_appenders = [2 :: nat]\<rparr>"
  let ?n = "YMap (yaml_str ''name'' (lg_name ?l) # level_pairs (lg_level ?l) @ [(YScalar ''appenders'', YSeq (map LogAppender_node [?a]))])"
  define lib where "lib = text_yaml (LogAppender_node ?a) ?n (LogDefine_node sample_define)"
  have "yaml_access lib" "yaml_maps lib" by (simp_all add: lib_def text_yaml_def tiny_yaml_def yaml_access_def yaml_maps_def)
  moreover have "list_all2 (\<lambda>p a. ls_heap sample_log_state p = Some a) (lg_appenders ?l) [?a]" by (simp add: sample_log_state_def)
  moreover have "\<forall>a \<in> set [?a]. yl_load lib (yl_emit lib (LogAppender_node a)) = Inr (LogAppender_node a)"
    "yl_load lib (yl_emit lib ?n) = Inr ?n" "yl_load lib (yl_emit lib (LogDefine_node sample_define)) = Inr (LogDefine_node sample_define)"
    by (simp_all add: lib_def text_yaml_def)
  ultimately show ?thesis
    using log_yaml_roundtrip [of lib sample_log_state ?l "[?a]" ?n sample_define]
    by (auto simp: sample_define_def read_level_def level_defs)
qed

end
