(* ===== verification/Lamb_Env.thy ===== *)
theory Lamb_Env
  imports Lamb_Config
begin

text \<open>
  \<open>lamb/env.cc\<close> (command line, paths), the directory listing of \<open>lamb/util.cc\<close>, the loading of a configuration directory and
  \<open>lamb/daemon.cc\<close>. The system is an argument: the target of the link of the executable, the entries of directories, the results of
  \<open>fork\<close> and \<open>waitpid\<close>.
\<close>

section \<open>The environment\<close>

record Env =
  ev_args :: "string \<rightharpoonup> string"
  ev_helps :: "(string \<times> string) list"
  ev_program :: string
  ev_exe :: string
  ev_cwd :: string

definition Env_add :: "string \<Rightarrow> string \<Rightarrow> Env \<Rightarrow> Env" where
  "Env_add key val e = e\<lparr>ev_args := (ev_args e)(key \<mapsto> val)\<rparr>"

definition Env_has :: "string \<Rightarrow> Env \<Rightarrow> bool" where
  "Env_has key e \<longleftrightarrow> ev_args e key \<noteq> None"

definition Env_del :: "string \<Rightarrow> Env \<Rightarrow> Env" where
  "Env_del key e = e\<lparr>ev_args := (ev_args e)(key := None)\<rparr>"

definition Env_get :: "string \<Rightarrow> string \<Rightarrow> Env \<Rightarrow> string" where
  "Env_get key default_value e = (case ev_args e key of Some v \<Rightarrow> v | None \<Rightarrow> default_value)"

definition removeHelp :: "string \<Rightarrow> Env \<Rightarrow> Env" where
  "removeHelp key e = e\<lparr>ev_helps := filter (\<lambda>(k, _). k \<noteq> key) (ev_helps e)\<rparr>"

definition addHelp :: "string \<Rightarrow> string \<Rightarrow> Env \<Rightarrow> Env" where
  "addHelp key desc e = (let e = removeHelp key e in e\<lparr>ev_helps := ev_helps e @ [(key, desc)]\<rparr>)"

definition printHelp :: "Env \<Rightarrow> string" where
  "printHelp e = ''Usage: '' @ ev_program e @ '' [options]'' @ [CHR 0x0A] @
     concat (map (\<lambda>(k, d). ''    -'' @ k @ '' : '' @ d @ [CHR 0x0A]) (ev_helps e))"

text \<open>The loop over the arguments, with the option that waits for its value.\<close>

fun init_args :: "string list \<Rightarrow> string option \<Rightarrow> Env \<Rightarrow> bool \<times> Env" where
  "init_args [] now_key e = (True, case now_key of None \<Rightarrow> e | Some k \<Rightarrow> Env_add k [] e)"
| "init_args (a # args) now_key e =
     (if a \<noteq> [] \<and> hd a = CHR ''-''
      then if 1 < length a
        then init_args args (Some (tl a)) (case now_key of None \<Rightarrow> e | Some k \<Rightarrow> Env_add k [] e)
        else (False, e)
      else case now_key of
        Some k \<Rightarrow> init_args args None (Env_add k a e)
      | None \<Rightarrow> (False, e))"

text \<open>\<open>link\<close> is what \<open>readlink\<close> finds; a longer text than the buffer of 1024 bytes is cut, and has no terminator.\<close>

definition Env_init :: "string option \<Rightarrow> string list \<Rightarrow> Env \<Rightarrow> (bool \<times> Env) res" where
  "Env_init link argv e =
     (let path = (case link of None \<Rightarrow> [] | Some l \<Rightarrow> l) in
      if 1024 \<le> length path then Inl (Bad_access ''path'')
      else let exe = c_str path;
               cwd = (case rfind exe (CHR ''/'') of None \<Rightarrow> exe | Some pos \<Rightarrow> substr exe 0 pos) @ ''/'';
               e = e\<lparr>ev_exe := exe, ev_cwd := cwd\<rparr> in
      case argv of
        [] \<Rightarrow> Inl Null_deref
      | program # args \<Rightarrow> Inr (init_args args None (e\<lparr>ev_program := program\<rparr>)))"

text \<open>The variables of the process.\<close>

definition Env_getEnv :: "(string \<rightharpoonup> string) \<Rightarrow> string \<Rightarrow> string \<Rightarrow> string" where
  "Env_getEnv getenv key default_value = (case getenv (c_str key) of None \<Rightarrow> default_value | Some v \<Rightarrow> v)"

definition getAbsolutePath :: "string \<Rightarrow> Env \<Rightarrow> string" where
  "getAbsolutePath path e = (if path = [] then ''/'' else if hd path = CHR ''/'' then path else ev_cwd e @ path)"

text \<open>\<open>work_path\<close> is the variable \<open>server.work_path\<close> when the function is first called, \<open>None\<close> if there is none.\<close>

definition getAbsoluteWorkPath :: "string config_type \<Rightarrow> (string, 's) ConfigVarMap \<Rightarrow> string \<Rightarrow> string res" where
  "getAbsoluteWorkPath T datas path =
     (if path = [] then Inr ''/'' else if hd path = CHR ''/'' then Inr path
      else case Config_Lookup_existing T ''server.work_path'' datas of
        None \<Rightarrow> Inl Null_deref
      | Some var \<Rightarrow> Inr (cv_val var @ ''/'' @ path))"

definition getConfigPath :: "Env \<Rightarrow> string" where
  "getConfigPath e = getAbsolutePath (Env_get ''c'' ''conf'' e) e"

section \<open>Listing a directory\<close>

datatype d_type = DT_DIR | DT_REG | DT_OTHER

text \<open>\<open>dirs\<close> gives the entries of a directory that exists and can be opened.\<close>

type_synonym dirs = "string \<Rightarrow> (d_type \<times> string) list option"

definition has_subfix :: "string \<Rightarrow> string \<Rightarrow> bool" where
  "has_subfix filename subfix \<longleftrightarrow>
     subfix = [] \<or> \<not> length filename < length subfix \<and> drop (length filename - length subfix) filename = subfix"

text \<open>The recursion goes as deep as \<open>fuel\<close>; \<open>None\<close> if that does not do.\<close>

fun ListAllFile :: "dirs \<Rightarrow> nat \<Rightarrow> string \<Rightarrow> string \<Rightarrow> string list option"
  and list_entries :: "dirs \<Rightarrow> nat \<Rightarrow> string \<Rightarrow> string \<Rightarrow> (d_type \<times> string) list \<Rightarrow> string list option" where
  "ListAllFile dirs fuel path subfix = (case dirs (c_str path) of None \<Rightarrow> Some [] | Some es \<Rightarrow> list_entries dirs fuel path subfix es)"
| "list_entries dirs fuel path subfix [] = Some []"
| "list_entries dirs fuel path subfix ((t, name) # es) =
     (let here = (if t = DT_DIR
         then if name = ''.'' \<or> name = ''..'' then Some []
              else case fuel of 0 \<Rightarrow> None | Suc n \<Rightarrow> ListAllFile dirs n (path @ ''/'' @ name) subfix
         else if t = DT_REG \<and> has_subfix name subfix then Some [path @ ''/'' @ name] else Some []) in
      case here of None \<Rightarrow> None | Some fs \<Rightarrow> map_option ((@) fs) (list_entries dirs fuel path subfix es))"

text \<open>Loading all configuration files below a directory.\<close>

definition LoadFromConfDir :: "yaml_lib \<Rightarrow> dirs \<Rightarrow> nat \<Rightarrow> (string \<Rightarrow> u64 option) \<Rightarrow> (string \<Rightarrow> yaml res) \<Rightarrow> Env \<Rightarrow> string \<Rightarrow> bool \<Rightarrow>
    (string \<rightharpoonup> u64) \<times> ('v, 's) ConfigVarMap \<times> 's \<Rightarrow> ((string \<rightharpoonup> u64) \<times> ('v, 's) ConfigVarMap \<times> 's) res option" where
  "LoadFromConfDir lib dirs fuel lstat LoadFile env path force c =
     map_option (\<lambda>files. load_files lib lstat LoadFile force files c) (ListAllFile dirs fuel (getAbsolutePath path env) ''.yml'')"

section \<open>The daemon\<close>

record ProcessInfo =
  pi_parent_id :: int
  pi_main_id :: int
  pi_parent_start_time :: u64
  pi_main_start_time :: u64
  pi_restart_count :: u32

text \<open>What \<open>fork\<close> does: it makes this process the child, with its identifier and the time; it fails; or the parent goes on and waits for a
  child that ends with a status.\<close>

datatype fork_result = Fork_child int u64 | Fork_failed | Fork_parent int

text \<open>The loop with the results of its calls of \<open>fork\<close>; the state holds the seconds slept. \<open>None\<close> if the results do not end it.\<close>

fun real_daemon :: "(ProcessInfo \<Rightarrow> int) \<Rightarrow> u32 \<Rightarrow> fork_result list \<Rightarrow> ProcessInfo \<times> nat \<Rightarrow> (int \<times> ProcessInfo \<times> nat) option" where
  "real_daemon main_cb interval [] (pi, slept) = None"
| "real_daemon main_cb interval (r # rs) (pi, slept) =
     (case r of
        Fork_child pid now \<Rightarrow> let pi = pi\<lparr>pi_main_id := pid, pi_main_start_time := now\<rparr> in Some (main_cb pi, pi, slept)
      | Fork_failed \<Rightarrow> Some (- 1, pi, slept)
      | Fork_parent status \<Rightarrow>
          if status \<noteq> 0
          then real_daemon main_cb interval rs (pi\<lparr>pi_restart_count := pi_restart_count pi + 1\<rparr>, slept + unat interval)
          else Some (0, pi, slept))"

definition start_daemon :: "(ProcessInfo \<Rightarrow> int) \<Rightarrow> u32 \<Rightarrow> int \<Rightarrow> u64 \<Rightarrow> fork_result list \<Rightarrow> bool \<Rightarrow> ProcessInfo \<Rightarrow> (int \<times> ProcessInfo \<times> nat) option" where
  "start_daemon main_cb interval pid now rs is_daemon pi =
     (if \<not> is_daemon then Some (main_cb pi, pi, 0)
      else real_daemon main_cb interval rs (pi\<lparr>pi_parent_id := pid, pi_parent_start_time := now\<rparr>, 0))"

section \<open>Command lines\<close>

text \<open>A command line is written as a list of options, each with or without a value. Values do not start with a hyphen.\<close>

fun show_option :: "string \<times> string option \<Rightarrow> string list" where
  "show_option (k, v) = (CHR ''-'' # k) # (case v of None \<Rightarrow> [] | Some v \<Rightarrow> [v])"

abbreviation show_options :: "(string \<times> string option) list \<Rightarrow> string list" where
  "show_options opts \<equiv> concat (map show_option opts)"

definition wf_option :: "string \<times> string option \<Rightarrow> bool" where
  "wf_option = (\<lambda>(k, v). k \<noteq> [] \<and> (case v of None \<Rightarrow> True | Some v \<Rightarrow> v = [] \<or> hd v \<noteq> CHR ''-''))"

definition option_value :: "string \<times> string option \<Rightarrow> string \<times> string" where
  "option_value = (\<lambda>(k, v). (k, case v of None \<Rightarrow> [] | Some v \<Rightarrow> v))"

lemma init_args_pending:
  "init_args (show_options opts) (Some k) e = init_args (show_options opts) None (Env_add k [] e)"
  if "\<forall>opt \<in> set opts. wf_option opt"
  using that by (cases opts) (auto simp: wf_option_def)

lemma init_args_options:
  assumes "\<forall>opt \<in> set opts. wf_option opt"
  shows "init_args (show_options opts) None e = (True, fold (\<lambda>(k, v). Env_add k v) (map option_value opts) e)"
  using assms
proof (induction opts arbitrary: e)
  case (Cons opt opts)
  obtain k v where opt: "opt = (k, v)" by (cases opt)
  show ?case
  proof (cases v)
    case None
    then show ?thesis
      using Cons opt init_args_pending [of opts k e] by (simp add: wf_option_def option_value_def)
  next
    case (Some w)
    then show ?thesis using Cons opt by (auto simp: wf_option_def option_value_def)
  qed
qed simp

lemma init_args_accepted:
  "fst (init_args args now e) \<Longrightarrow> (case now of None \<Rightarrow> True | Some k \<Rightarrow> k \<noteq> []) \<Longrightarrow>
   \<exists>opts. (\<forall>opt \<in> set opts. wf_option opt) \<and> (case now of None \<Rightarrow> [] | Some k \<Rightarrow> [CHR ''-'' # k]) @ args = show_options opts"
proof (induction args now e rule: init_args.induct)
  case (1 now_key e)
  then show ?case
    by (intro exI [of _ "case now_key of None \<Rightarrow> [] | Some k \<Rightarrow> [(k, None)]"]) (auto simp: wf_option_def split: option.splits)
next
  case (2 a args now_key e)
  show ?case
  proof (cases "a \<noteq> [] \<and> hd a = CHR ''-''")
    case True
    then have len: "1 < length a" using 2(3) by (auto split: if_splits)
    then obtain opts where opts: "\<forall>opt \<in> set opts. wf_option opt" "[CHR ''-'' # tl a] @ args = show_options opts"
      using 2(1) [OF True len] 2(3) True by (cases a) auto
    then show ?thesis
      using True 2(4) by (intro exI [of _ "(case now_key of None \<Rightarrow> [] | Some k \<Rightarrow> [(k, None)]) @ opts"])
        (cases a; auto simp: wf_option_def split: option.splits)
  next
    case False
    then obtain k where k: "now_key = Some k" "fst (init_args args None (Env_add k a e))" using 2(3) by (auto split: option.splits)
    then obtain opts where "\<forall>opt \<in> set opts. wf_option opt" "args = show_options opts"
      using 2(2) [OF False k(1)] by auto
    then show ?thesis using False k(1) 2(4) by (intro exI [of _ "(k, Some a) # opts"]) (auto simp: wf_option_def)
  qed
qed

section \<open>Trees of files\<close>

datatype ftree = File string | Dir string "ftree list"

fun tree_files :: "string \<Rightarrow> string \<Rightarrow> ftree \<Rightarrow> string list" where
  "tree_files path subfix (File n) = (if has_subfix n subfix then [path @ ''/'' @ n] else [])"
| "tree_files path subfix (Dir n ts) = concat (map (tree_files (path @ ''/'' @ n) subfix) ts)"

fun tree_depth :: "ftree \<Rightarrow> nat" where
  "tree_depth (File n) = 0"
| "tree_depth (Dir n ts) = Suc (fold max (map tree_depth ts) 0)"

fun tree_entry :: "ftree \<Rightarrow> d_type \<times> string" where
  "tree_entry (File n) = (DT_REG, n)"
| "tree_entry (Dir n ts) = (DT_DIR, n)"

text \<open>A directory has the entries of its trees, and others that are neither files nor directories but itself and its parent.\<close>

definition real_entry :: "d_type \<times> string \<Rightarrow> bool" where
  "real_entry = (\<lambda>(t, n). t = DT_REG \<or> t = DT_DIR \<and> n \<noteq> ''.'' \<and> n \<noteq> ''..'')"

fun tree_at :: "dirs \<Rightarrow> string \<Rightarrow> ftree \<Rightarrow> bool" where
  "tree_at dirs path (File n) = True"
| "tree_at dirs path (Dir n ts) =
     ((\<exists>es. dirs (c_str (path @ ''/'' @ n)) = Some es \<and> filter real_entry es = map tree_entry ts) \<and> n \<noteq> ''.'' \<and> n \<noteq> ''..'' \<and>
      list_all (tree_at dirs (path @ ''/'' @ n)) ts)"

lemma fold_max_le: "x \<in> set xs \<Longrightarrow> x \<le> fold max xs (a :: nat)" and fold_max_ge: "a \<le> fold max xs (a :: nat)"
proof -
  have ge: "a \<le> fold max xs (a :: nat)" for a xs by (induction xs arbitrary: a) (auto intro: order_trans [OF max.cobounded2])
  then show "a \<le> fold max xs a" .
  show "x \<in> set xs \<Longrightarrow> x \<le> fold max xs a"
    by (induction xs arbitrary: a) (auto intro: order_trans [OF max.cobounded1 ge])
qed

lemma list_entries_trees:
  assumes "\<And>t. t \<in> set ts \<Longrightarrow> (case t of File n \<Rightarrow> True | Dir n us \<Rightarrow>
      (case fuel of 0 \<Rightarrow> None | Suc m \<Rightarrow> ListAllFile dirs m (path @ ''/'' @ n) subfix) = Some (tree_files path subfix t) \<and> n \<noteq> ''.'' \<and> n \<noteq> ''..'')"
    and "filter real_entry es = map tree_entry ts"
  shows "list_entries dirs fuel path subfix es = Some (concat (map (tree_files path subfix) ts))"
  using assms
proof (induction es arbitrary: ts)
  case (Cons e es)
  obtain ty name where e: "e = (ty, name)" by (cases e)
  show ?case
  proof (cases "real_entry e")
    case False
    then have "list_entries dirs fuel path subfix (e # es) = list_entries dirs fuel path subfix es"
      by (cases ty) (auto simp: e real_entry_def map_option_case split: option.split)
    then show ?thesis using Cons.IH [OF Cons.prems(1)] Cons.prems(2) False by simp
  next
    case True
    then obtain t us where ts: "ts = t # us" "tree_entry t = e" "filter real_entry es = map tree_entry us"
      using Cons.prems(2) by (cases ts) auto
    then have IH: "list_entries dirs fuel path subfix es = Some (concat (map (tree_files path subfix) us))"
      using Cons.IH [of us] Cons.prems(1) by simp
    show ?thesis using Cons.prems(1) [of t] ts IH by (cases t) (auto simp: e)
  qed
qed simp

lemma ListAllFile_tree:
  "tree_at dirs path (Dir n ts) \<Longrightarrow> tree_depth (Dir n ts) \<le> Suc fuel \<Longrightarrow>
   ListAllFile dirs fuel (path @ ''/'' @ n) subfix = Some (tree_files path subfix (Dir n ts))"
proof (induction fuel arbitrary: path n ts)
  case (0 path n ts)
  obtain es where es: "dirs (c_str (path @ ''/'' @ n)) = Some es" "filter real_entry es = map tree_entry ts" using 0(1) by auto
  have "Dir m us \<notin> set ts" for m us
  proof
    assume "Dir m us \<in> set ts"
    then have "tree_depth (Dir m us) \<in> set (map tree_depth ts)" by (metis imageI set_map)
    from fold_max_le [OF this, of 0] 0(2) show False by simp
  qed
  then have "list_entries dirs 0 (path @ ''/'' @ n) subfix es = Some (concat (map (tree_files (path @ ''/'' @ n) subfix) ts))"
    using es(2) by (intro list_entries_trees) (auto split: ftree.split)
  with es(1) show ?case by simp
next
  case (Suc fuel path n ts)
  obtain es where es: "dirs (c_str (path @ ''/'' @ n)) = Some es" "filter real_entry es = map tree_entry ts" using Suc(2) by auto
  have "case t of File n \<Rightarrow> True | Dir m us \<Rightarrow>
      (case Suc fuel of 0 \<Rightarrow> None | Suc k \<Rightarrow> ListAllFile dirs k ((path @ ''/'' @ n) @ ''/'' @ m) subfix) = Some (tree_files (path @ ''/'' @ n) subfix t) \<and>
      m \<noteq> ''.'' \<and> m \<noteq> ''..''" if "t \<in> set ts" for t
  proof (cases t)
    case (Dir m us)
    have "tree_at dirs (path @ ''/'' @ n) t" using Suc(2) that by (simp add: list_all_iff)
    moreover have "tree_depth t \<le> Suc fuel" using Suc(3) fold_max_le [of "tree_depth t" "map tree_depth ts" 0] that by simp
    ultimately show ?thesis using Suc(1) [of "path @ ''/'' @ n" m us] Dir by simp
  qed simp
  then have "list_entries dirs (Suc fuel) (path @ ''/'' @ n) subfix es = Some (concat (map (tree_files (path @ ''/'' @ n) subfix) ts))"
    using es(2) by (intro list_entries_trees) auto
  with es(1) show ?case by simp
qed

section \<open>Loading a directory again\<close>

lemma load_files_times:
  assumes "load_files lib lstat LoadFile force files (ts, c) = Inr (ts', c')"
  shows "(\<forall>i \<in> set files. \<exists>t. lstat (c_str i) = Some t \<and> ts' i = Some t) \<and> (\<forall>i. i \<notin> set files \<longrightarrow> ts' i = ts i)"
  using assms
proof (induction files arbitrary: ts c)
  case (Cons i files)
  then obtain t c1 where 1: "lstat (c_str i) = Some t" "load_files lib lstat LoadFile force files (ts(i \<mapsto> t), c1) = Inr (ts', c')"
    by (auto simp: Let_def res_simps split: option.splits if_splits sum.splits)
  show ?case
  proof (cases "i \<in> set files")
    case True
    then show ?thesis using Cons.IH [OF 1(2)] by auto
  next
    case False
    then have "ts' i = Some t" using Cons.IH [OF 1(2)] by auto
    then show ?thesis using Cons.IH [OF 1(2)] 1(1) by auto
  qed
qed simp

lemma load_files_skips:
  assumes "\<forall>i \<in> set files. \<exists>t. lstat (c_str i) = Some t \<and> ts i = Some t"
  shows "load_files lib lstat LoadFile False files (ts, c) = Inr (ts, c)"
  using assms
proof (induction files)
  case (Cons i files)
  then obtain t where t: "lstat (c_str i) = Some t" "ts i = Some t" by auto
  then have "ts(i \<mapsto> t) = ts" by (intro ext) simp
  then show ?case using Cons t by simp
qed simp

section \<open>Properties\<close>

text \<open>A command line is accepted just if it is a sequence of options, each with a value or without one, and then each
  option has the last value given for it, the empty text if it is given without one.\<close>

theorem command_line:
  "((\<exists>e'. init_args args None e = (True, e')) \<longleftrightarrow> (\<exists>opts. (\<forall>opt \<in> set opts. wf_option opt) \<and> args = show_options opts)) \<and>
   ((\<forall>opt \<in> set opts. wf_option opt) \<longrightarrow>
      (\<exists>e'. init_args (show_options opts) None e = (True, e') \<and> ev_args e' = ev_args e ++ map_of (rev (map option_value opts))))"
proof -
  have fold_args: "ev_args (fold (\<lambda>(k, v). Env_add k v) xs e) = ev_args e ++ map_of (rev xs)" for xs e
    by (induction xs arbitrary: e) (auto simp: Env_add_def map_add_def fun_eq_iff split: option.split)
  have "\<exists>opts. (\<forall>opt \<in> set opts. wf_option opt) \<and> args = show_options opts" if "init_args args None e = (True, e')" for e'
    using init_args_accepted [of args None e] that by simp
  then show ?thesis using init_args_options fold_args by auto
qed


text \<open>The daemon restarts its child as long as it ends with another status than 0, counts the restarts and waits the interval
  before each; it ends with 0 as soon as the child does.\<close>

theorem daemon_restarts:
  assumes "\<forall>s \<in> set crashes. s \<noteq> 0"
  shows "start_daemon main_cb interval pid now (map Fork_parent crashes @ [Fork_parent 0]) True pi =
    Some (0, pi\<lparr>pi_parent_id := pid, pi_parent_start_time := now, pi_restart_count := pi_restart_count pi + of_nat (length crashes)\<rparr>,
      length crashes * unat interval)"
proof -
  have "real_daemon main_cb interval (map Fork_parent crashes @ [Fork_parent 0]) (pi, slept) =
      Some (0, pi\<lparr>pi_restart_count := pi_restart_count pi + of_nat (length crashes)\<rparr>, slept + length crashes * unat interval)" for pi slept
    using assms by (induction crashes arbitrary: pi slept) (simp_all add: algebra_simps)
  then show ?thesis by (simp add: start_daemon_def)
qed

section \<open>Witnesses\<close>

definition empty_env :: Env where
  "empty_env = \<lparr>ev_args = Map.empty, ev_helps = [], ev_program = [], ev_exe = [], ev_cwd = ''/x/''\<rparr>"

theorem command_line_witness:
  "\<exists>e'. init_args [''-c'', ''conf'', ''-d''] None empty_env = (True, e') \<and> ev_args e' = ev_args empty_env ++ [''c'' \<mapsto> ''conf'', ''d'' \<mapsto> []]"
  using command_line [of "[]" empty_env "[(''c'', Some ''conf''), (''d'', None)]"] by (auto simp: wf_option_def option_value_def)

definition sample_dirs :: dirs where
  "sample_dirs p = (if p = ''/x/conf'' then Some [(DT_DIR, ''.''), (DT_DIR, ''..''), (DT_REG, ''a.yml''), (DT_DIR, ''sub''), (DT_REG, ''b.txt'')]
     else if p = ''/x/conf/sub'' then Some [(DT_REG, ''c.yml''), (DT_DIR, ''.''), (DT_DIR, ''..'')] else None)"


theorem daemon_restarts_witness:
  "start_daemon (\<lambda>_. 0) 5 10 0 [Fork_parent 9, Fork_parent 11, Fork_parent 0] True
     \<lparr>pi_parent_id = 0, pi_main_id = 0, pi_parent_start_time = 0, pi_main_start_time = 0, pi_restart_count = 0\<rparr> =
   Some (0, \<lparr>pi_parent_id = 10, pi_main_id = 0, pi_parent_start_time = 0, pi_main_start_time = 0, pi_restart_count = 2\<rparr>, 10)"
  using daemon_restarts [of "[9, 11]" "\<lambda>_. 0" 5 10 0] by simp

end
