(* ===== verification/Lamb_Socket.thy ===== *)
theory Lamb_Socket
  imports Lamb_Hook Lamb_Address
begin

text \<open>
  \<open>lamb/socket.cc\<close>: the class \<open>Socket\<close>. An operation acts on the object and on the network state: the descriptor table and the
  modes of \<open>Lamb_Hook\<close>, the event manager of the thread, the descriptors that are open in the kernel, the options set, and the
  paths unlinked. The calls of the system are hooked: descriptors enter and leave the table. What the kernel answers is the argument
  \<open>sys\<close>; the suspension of a fiber inside a call is the matter of \<open>Lamb_Hook\<close>, here a call is its result. Log lines are left out.
\<close>

section \<open>State\<close>

record Socket =
  sk_sock :: int
  sk_family :: u16
  sk_type :: int
  sk_protocol :: int
  sk_isConnected :: bool
  sk_localAddress :: "address option"
  sk_remoteAddress :: "address option"

record 'cb net =
  nt_hook :: hook
  nt_io :: "'cb iomanager option"
  nt_open :: "int set"
  nt_next :: nat
  nt_opts :: "int \<times> int \<times> int \<Rightarrow> int option"
  nt_unlinked :: "string list"

record msghdr =
  msg_iov :: "u8 list list"
  msg_name :: "address option"

text \<open>The answers of the kernel. A new descriptor may depend on those that are open; \<open>sy_epoll\<close> is what \<open>epoll_ctl\<close> returns.\<close>

record sock_sys =
  sy_socket :: "int set \<Rightarrow> u16 \<Rightarrow> int \<Rightarrow> int \<Rightarrow> int"
  sy_accept :: "int set \<Rightarrow> int \<Rightarrow> int"
  sy_bind :: "int \<Rightarrow> address \<Rightarrow> int"
  sy_connect :: "int \<Rightarrow> address \<Rightarrow> u64 \<Rightarrow> int"
  sy_listen :: "int \<Rightarrow> int \<Rightarrow> int"
  sy_setsockopt :: "int \<Rightarrow> int \<Rightarrow> int \<Rightarrow> int"
  sy_getsockopt :: "int \<Rightarrow> int \<Rightarrow> int \<Rightarrow> int option"
  sy_getsockname :: "int \<Rightarrow> (address \<times> u32) option"
  sy_getpeername :: "int \<Rightarrow> (address \<times> u32) option"
  sy_sendmsg :: "int \<Rightarrow> msghdr \<Rightarrow> int \<Rightarrow> int"
  sy_recvmsg :: "int \<Rightarrow> nat list \<Rightarrow> int \<Rightarrow> int \<times> msghdr"
  sy_epoll :: int
  sy_errno :: int

definition SOCK_STREAM :: int where "SOCK_STREAM = 1"
definition SOCK_DGRAM :: int where "SOCK_DGRAM = 2"
definition SOL_SOCKET :: int where "SOL_SOCKET = 1"
definition SO_REUSEADDR :: int where "SO_REUSEADDR = 2"
definition SO_ERROR :: int where "SO_ERROR = 4"
definition IPPROTO_TCP :: int where "IPPROTO_TCP = 6"
definition TCP_NODELAY :: int where "TCP_NODELAY = 1"

section \<open>Options\<close>

definition newSocket :: "u16 \<Rightarrow> int \<Rightarrow> int \<Rightarrow> Socket" where
  "newSocket family type protocol =
     \<lparr>sk_sock = - 1, sk_family = family, sk_type = type, sk_protocol = protocol, sk_isConnected = False, sk_localAddress = None,
      sk_remoteAddress = None\<rparr>"

definition isValid :: "Socket \<Rightarrow> bool" where
  "isValid s \<longleftrightarrow> sk_sock s \<noteq> - 1"

definition setOption :: "sock_sys \<Rightarrow> int \<Rightarrow> int \<Rightarrow> int \<Rightarrow> Socket \<Rightarrow> 'cb net \<Rightarrow> bool \<times> 'cb net" where
  "setOption sys level opt v s n =
     (if sy_setsockopt sys (sk_sock s) level opt \<noteq> 0 then (False, n)
      else (True, n\<lparr>nt_opts := (nt_opts n)((sk_sock s, level, opt) \<mapsto> v)\<rparr>))"

definition getOption :: "sock_sys \<Rightarrow> int \<Rightarrow> int \<Rightarrow> Socket \<Rightarrow> bool \<times> int option" where
  "getOption sys level opt s =
     (case sy_getsockopt sys (sk_sock s) level opt of None \<Rightarrow> (False, None) | Some v \<Rightarrow> (True, Some v))"

definition getError :: "sock_sys \<Rightarrow> Socket \<Rightarrow> int" where
  "getError sys s = (case getOption sys SOL_SOCKET SO_ERROR s of (True, Some e) \<Rightarrow> e | _ \<Rightarrow> sy_errno sys)"

text \<open>Timeouts are split into seconds and microseconds of type \<open>int\<close>; the hooked \<open>setsockopt\<close> keeps them in the table.\<close>

definition to_int :: "int \<Rightarrow> int" where
  "to_int v = sint (word_of_int v :: u32)"

definition c_mod :: "int \<Rightarrow> int \<Rightarrow> int" where
  "c_mod a b = a - c_div a b * b"

definition setTimeout :: "timeout_type \<Rightarrow> int \<Rightarrow> Socket \<Rightarrow> 'cb net \<Rightarrow> 'cb net res" where
  "setTimeout ty v s n =
     bindR (hook_setsockopt (nt_hook n) (sk_sock s) ty (to_int (c_div v 1000)) (to_int (c_mod v 1000 * 1000))) (\<lambda>h. Inr (n\<lparr>nt_hook := h\<rparr>))"

definition getTimeout :: "timeout_type \<Rightarrow> Socket \<Rightarrow> 'cb net \<Rightarrow> int res" where
  "getTimeout ty s n =
     bindR (hk_get (nt_hook n) (sk_sock s)) (\<lambda>c. Inr (case c of None \<Rightarrow> - 1 | Some (_, ctx) \<Rightarrow> sint (FdCtx_getTimeout ctx ty)))"

definition initSock :: "sock_sys \<Rightarrow> Socket \<Rightarrow> 'cb net \<Rightarrow> 'cb net" where
  "initSock sys s n =
     (let n = snd (setOption sys SOL_SOCKET SO_REUSEADDR 1 s n) in
      if sk_type s = SOCK_STREAM then snd (setOption sys IPPROTO_TCP TCP_NODELAY 1 s n) else n)"

definition newSock :: "sock_sys \<Rightarrow> Socket \<Rightarrow> 'cb net \<Rightarrow> (Socket \<times> 'cb net) res" where
  "newSock sys s n =
     bindR (hook_socket (nt_next n) (nt_hook n) (sy_socket sys (nt_open n) (sk_family s) (sk_type s) (sk_protocol s))) (\<lambda>(fd, h).
       let s = s\<lparr>sk_sock := fd\<rparr>; n = n\<lparr>nt_hook := h, nt_next := Suc (nt_next n)\<rparr> in
       Inr (if fd \<noteq> - 1 then (s, initSock sys s (n\<lparr>nt_open := insert fd (nt_open n)\<rparr>)) else (s, n)))"

section \<open>Addresses\<close>

definition unknown_address :: "u16 \<Rightarrow> address" where
  "unknown_address family = UnknownAddress family (replicate 14 0)"

text \<open>An address filled by the kernel, with the length it reports.\<close>

definition filled_address :: "address \<times> u32 \<Rightarrow> address" where
  "filled_address = (\<lambda>(a, len). case a of UnixAddress u \<Rightarrow> UnixAddress (setAddrLen u len) | _ \<Rightarrow> a)"

definition getRemoteAddress :: "sock_sys \<Rightarrow> Socket \<Rightarrow> address \<times> Socket" where
  "getRemoteAddress sys s =
     (case sk_remoteAddress s of
        Some a \<Rightarrow> (a, s)
      | None \<Rightarrow> (case sy_getpeername sys (sk_sock s) of
          None \<Rightarrow> (unknown_address (sk_family s), s)
        | Some r \<Rightarrow> (filled_address r, s\<lparr>sk_remoteAddress := Some (filled_address r)\<rparr>)))"

definition getLocalAddress :: "sock_sys \<Rightarrow> Socket \<Rightarrow> address \<times> Socket" where
  "getLocalAddress sys s =
     (case sk_localAddress s of
        Some a \<Rightarrow> (a, s)
      | None \<Rightarrow> (case sy_getsockname sys (sk_sock s) of
          None \<Rightarrow> (unknown_address (sk_family s), s)
        | Some r \<Rightarrow> (filled_address r, s\<lparr>sk_localAddress := Some (filled_address r)\<rparr>)))"

section \<open>Life cycle\<close>

definition Socket_init :: "sock_sys \<Rightarrow> int \<Rightarrow> Socket \<Rightarrow> 'cb net \<Rightarrow> (bool \<times> Socket \<times> 'cb net) res" where
  "Socket_init sys sock s n =
     bindR (hk_get (nt_hook n) sock) (\<lambda>c. case c of
       Some (_, ctx) \<Rightarrow>
         if fd_isSocket ctx \<and> \<not> fd_isClosed ctx
         then let s = s\<lparr>sk_sock := sock, sk_isConnected := True\<rparr>; n = initSock sys s n;
                  s = snd (getLocalAddress sys s); s = snd (getRemoteAddress sys s) in Inr (True, s, n)
         else Inr (False, s, n)
     | None \<Rightarrow> Inr (False, s, n))"

definition Socket_accept :: "sock_sys \<Rightarrow> Socket \<Rightarrow> 'cb net \<Rightarrow> (Socket option \<times> 'cb net) res" where
  "Socket_accept sys s n =
     bindR (hook_accept (nt_next n) (nt_hook n) (sy_accept sys (nt_open n) (sk_sock s))) (\<lambda>(newsock, h).
       let n = n\<lparr>nt_hook := h, nt_next := Suc (nt_next n)\<rparr> in
       if newsock = - 1 then Inr (None, n)
       else bindR (Socket_init sys newsock (newSocket (sk_family s) (sk_type s) (sk_protocol s)) (n\<lparr>nt_open := insert newsock (nt_open n)\<rparr>))
         (\<lambda>(ok, sock, n). Inr (if ok then Some sock else None, n)))"

definition Socket_close_fd :: "sock_sys \<Rightarrow> Socket \<Rightarrow> 'cb net \<Rightarrow> (bool \<times> Socket \<times> 'cb net) res" where
  "Socket_close_fd sys s n =
     (if \<not> sk_isConnected s \<and> sk_sock s = - 1 then Inr (True, s, n)
      else let s = s\<lparr>sk_isConnected := False\<rparr> in
        if sk_sock s \<noteq> - 1
        then bindR (hook_close (sy_epoll sys) (nt_hook n) (nt_io n) (sk_sock s)) (\<lambda>(h, io).
          Inr (False, s\<lparr>sk_sock := - 1\<rparr>, n\<lparr>nt_hook := h, nt_io := io, nt_open := nt_open n - {sk_sock s}\<rparr>))
        else Inr (False, s, n))"

definition Socket_connect :: "sock_sys \<Rightarrow> address \<Rightarrow> u64 \<Rightarrow> Socket \<Rightarrow> 'cb net \<Rightarrow> (bool \<times> Socket \<times> 'cb net) res" where
  "Socket_connect sys addr timeout_ms s n =
     bindR (let s = s\<lparr>sk_remoteAddress := Some addr\<rparr> in if \<not> isValid s then newSock sys s n else Inr (s, n)) (\<lambda>(s, n).
       if \<not> isValid s then Inr (False, s, n)
       else if getFamily addr \<noteq> sk_family s then Inr (False, s, n)
       else if sy_connect sys (sk_sock s) addr timeout_ms \<noteq> 0
       then bindR (Socket_close_fd sys s n) (\<lambda>(_, s, n). Inr (False, s, n))
       else Inr (True, snd (getLocalAddress sys (snd (getRemoteAddress sys (s\<lparr>sk_isConnected := True\<rparr>)))), n))"

definition Socket_reconnect :: "sock_sys \<Rightarrow> u64 \<Rightarrow> Socket \<Rightarrow> 'cb net \<Rightarrow> (bool \<times> Socket \<times> 'cb net) res" where
  "Socket_reconnect sys timeout_ms s n =
     (case sk_remoteAddress s of
        None \<Rightarrow> Inr (False, s, n)
      | Some a \<Rightarrow> Socket_connect sys a timeout_ms (s\<lparr>sk_localAddress := None\<rparr>) n)"

text \<open>The socket that tries whether somebody listens at a Unix address is destroyed at the end of its block.\<close>

definition probe_unix :: "sock_sys \<Rightarrow> address \<Rightarrow> sockaddr_un \<Rightarrow> 'cb net \<Rightarrow> (bool \<times> 'cb net) res" where
  "probe_unix sys addr u n =
     bindR (Socket_connect sys addr (NOT 0) (newSocket AF_UNIX SOCK_STREAM 0) n) (\<lambda>(ok, sock, n).
       bindR (if ok then Inr n else bindR (UnixAddress_getPath u) (\<lambda>p. Inr (n\<lparr>nt_unlinked := nt_unlinked n @ [p]\<rparr>))) (\<lambda>n.
         bindR (Socket_close_fd sys sock n) (\<lambda>(_, _, n). Inr (ok, n))))"

definition Socket_bind :: "sock_sys \<Rightarrow> address \<Rightarrow> Socket \<Rightarrow> 'cb net \<Rightarrow> (bool \<times> Socket \<times> 'cb net) res" where
  "Socket_bind sys addr s n =
     bindR (let s = s\<lparr>sk_localAddress := Some addr\<rparr> in if \<not> isValid s then newSock sys s n else Inr (s, n)) (\<lambda>(s, n).
       if \<not> isValid s then Inr (False, s, n)
       else if getFamily addr \<noteq> sk_family s then Inr (False, s, n)
       else bindR (case addr of UnixAddress u \<Rightarrow> probe_unix sys addr u n | _ \<Rightarrow> Inr (False, n)) (\<lambda>(listening, n).
         if listening then Inr (False, s, n)
         else if sy_bind sys (sk_sock s) addr \<noteq> 0 then Inr (False, s, n)
         else Inr (True, snd (getLocalAddress sys s), n)))"

definition Socket_listen :: "sock_sys \<Rightarrow> int \<Rightarrow> Socket \<Rightarrow> bool" where
  "Socket_listen sys backlog s \<longleftrightarrow> isValid s \<and> sy_listen sys (sk_sock s) backlog \<noteq> - 1"

section \<open>Creating sockets\<close>

definition CreateTCP :: "address \<Rightarrow> Socket" where
  "CreateTCP a = newSocket (getFamily a) SOCK_STREAM 0"

definition CreateUDP_family :: "sock_sys \<Rightarrow> u16 \<Rightarrow> 'cb net \<Rightarrow> (Socket \<times> 'cb net) res" where
  "CreateUDP_family sys family n =
     bindR (newSock sys (newSocket family SOCK_DGRAM 0) n) (\<lambda>(s, n). Inr (s\<lparr>sk_isConnected := True\<rparr>, n))"

definition CreateUDP :: "sock_sys \<Rightarrow> address \<Rightarrow> 'cb net \<Rightarrow> (Socket \<times> 'cb net) res" where
  "CreateUDP sys a n = CreateUDP_family sys (getFamily a) n"

definition CreateTCPSocket :: Socket where "CreateTCPSocket = newSocket AF_INET SOCK_STREAM 0"

definition CreateTCPSocket6 :: Socket where "CreateTCPSocket6 = newSocket AF_INET6 SOCK_STREAM 0"

definition CreateUnixTCPSocket :: Socket where "CreateUnixTCPSocket = newSocket AF_UNIX SOCK_STREAM 0"

definition CreateUnixUDPSocket :: Socket where "CreateUnixUDPSocket = newSocket AF_UNIX SOCK_DGRAM 0"

definition CreateUDPSocket :: "sock_sys \<Rightarrow> 'cb net \<Rightarrow> (Socket \<times> 'cb net) res" where
  "CreateUDPSocket sys n = CreateUDP_family sys AF_INET n"

definition CreateUDPSocket6 :: "sock_sys \<Rightarrow> 'cb net \<Rightarrow> (Socket \<times> 'cb net) res" where
  "CreateUDPSocket6 sys n = CreateUDP_family sys AF_INET6 n"

section \<open>Transfers\<close>

text \<open>The message handed to the kernel, if the socket is connected.\<close>

definition Socket_sendmsg :: "sock_sys \<Rightarrow> u8 list list \<Rightarrow> int \<Rightarrow> Socket \<Rightarrow> int" where
  "Socket_sendmsg sys buffers flags s =
     (if sk_isConnected s then sy_sendmsg sys (sk_sock s) \<lparr>msg_iov = buffers, msg_name = None\<rparr> flags else - 1)"

definition Socket_sendTo :: "sock_sys \<Rightarrow> u8 list \<Rightarrow> address \<Rightarrow> int \<Rightarrow> Socket \<Rightarrow> int" where
  "Socket_sendTo sys buffer to flags s =
     (if sk_isConnected s then sy_sendmsg sys (sk_sock s) \<lparr>msg_iov = [buffer], msg_name = Some to\<rparr> flags else - 1)"

definition Socket_sendmsgTo :: "sock_sys \<Rightarrow> u8 list list \<Rightarrow> address \<Rightarrow> int \<Rightarrow> Socket \<Rightarrow> int" where
  "Socket_sendmsgTo sys buffers to flags s =
     (if sk_isConnected s then sy_sendmsg sys (sk_sock s) \<lparr>msg_iov = buffers, msg_name = Some to\<rparr> flags else - 1)"

definition Socket_recvmsg :: "sock_sys \<Rightarrow> nat list \<Rightarrow> int \<Rightarrow> Socket \<Rightarrow> int \<times> msghdr option" where
  "Socket_recvmsg sys lens flags s =
     (if sk_isConnected s then let (r, msg) = sy_recvmsg sys (sk_sock s) lens flags in (r, Some msg) else (- 1, None))"

text \<open>\<open>recvFrom\<close> has the kernel write the sender over the address it is given, if the kernel knows the sender.\<close>

definition Socket_recvmsgFrom :: "sock_sys \<Rightarrow> nat list \<Rightarrow> address \<Rightarrow> int \<Rightarrow> Socket \<Rightarrow> int \<times> u8 list list \<times> address" where
  "Socket_recvmsgFrom sys lens sender flags s =
     (if sk_isConnected s
      then let (r, msg) = sy_recvmsg sys (sk_sock s) lens flags in (r, msg_iov msg, case msg_name msg of None \<Rightarrow> sender | Some a \<Rightarrow> a)
      else (- 1, [], sender))"

definition Socket_recvFrom :: "sock_sys \<Rightarrow> nat \<Rightarrow> address \<Rightarrow> int \<Rightarrow> Socket \<Rightarrow> int \<times> u8 list list \<times> address" where
  "Socket_recvFrom sys len sender flags s =
     (if sk_isConnected s
      then let (r, msg) = sy_recvmsg sys (sk_sock s) [len] flags in (r, msg_iov msg, case msg_name msg of None \<Rightarrow> sender | Some a \<Rightarrow> a)
      else (- 1, [], sender))"

section \<open>Cancelling and printing\<close>

definition Socket_cancel :: "sock_sys \<Rightarrow> Event \<Rightarrow> Socket \<Rightarrow> 'cb net \<Rightarrow> (bool \<times> 'cb net) res" where
  "Socket_cancel sys ev s n =
     (case nt_io n of None \<Rightarrow> Inl Null_deref
      | Some m \<Rightarrow> bindR (cancelEvent (sy_epoll sys) m (sk_sock s) ev) (\<lambda>(b, m). Inr (b, n\<lparr>nt_io := Some m\<rparr>)))"

definition Socket_cancelRead :: "sock_sys \<Rightarrow> Socket \<Rightarrow> 'cb net \<Rightarrow> (bool \<times> 'cb net) res" where
  "Socket_cancelRead sys = Socket_cancel sys READ"

definition Socket_cancelWrite :: "sock_sys \<Rightarrow> Socket \<Rightarrow> 'cb net \<Rightarrow> (bool \<times> 'cb net) res" where
  "Socket_cancelWrite sys = Socket_cancel sys WRITE"

definition Socket_cancelAccept :: "sock_sys \<Rightarrow> Socket \<Rightarrow> 'cb net \<Rightarrow> (bool \<times> 'cb net) res" where
  "Socket_cancelAccept sys = Socket_cancel sys READ"

definition Socket_cancelAll :: "sock_sys \<Rightarrow> Socket \<Rightarrow> 'cb net \<Rightarrow> (bool \<times> 'cb net) res" where
  "Socket_cancelAll sys s n =
     (case nt_io n of None \<Rightarrow> Inl Null_deref
      | Some m \<Rightarrow> bindR (cancelAll (sy_epoll sys) m (sk_sock s)) (\<lambda>(b, m). Inr (b, n\<lparr>nt_io := Some m\<rparr>)))"

definition Socket_toString :: "endian \<Rightarrow> Socket \<Rightarrow> string res" where
  "Socket_toString host s =
     (let opt = (\<lambda>label a. case a of None \<Rightarrow> Inr [] | Some a \<Rightarrow> bindR (Address_toString host a) (\<lambda>t. Inr (label @ t))) in
      bindR (opt '' local_address='' (sk_localAddress s)) (\<lambda>l. bindR (opt '' remote_address='' (sk_remoteAddress s)) (\<lambda>r.
        Inr (''[Socket sock='' @ show_int (sk_sock s) @ '' is_connected='' @ (if sk_isConnected s then ''1'' else ''0'') @
          '' family='' @ show_nat (unat (sk_family s)) @ '' type='' @ show_int (sk_type s) @ '' protocol='' @ show_int (sk_protocol s) @
          l @ r @ '']''))))"

text \<open>The addresses of a \<open>SocketStream\<close>, whose socket may be null; asking for an address may store it in the socket.\<close>

definition SocketStream_getRemoteAddress :: "sock_sys \<Rightarrow> Socket option \<Rightarrow> address option \<times> Socket option" where
  "SocketStream_getRemoteAddress sys m_socket =
     (case m_socket of None \<Rightarrow> (None, None) | Some s \<Rightarrow> (case getRemoteAddress sys s of (a, s) \<Rightarrow> (Some a, Some s)))"

definition SocketStream_getLocalAddress :: "sock_sys \<Rightarrow> Socket option \<Rightarrow> address option \<times> Socket option" where
  "SocketStream_getLocalAddress sys m_socket =
     (case m_socket of None \<Rightarrow> (None, None) | Some s \<Rightarrow> (case getLocalAddress sys s of (a, s) \<Rightarrow> (Some a, Some s)))"

definition getRemoteAddressString :: "endian \<Rightarrow> sock_sys \<Rightarrow> Socket option \<Rightarrow> (string \<times> Socket option) res" where
  "getRemoteAddressString host sys m_socket =
     (case SocketStream_getRemoteAddress sys m_socket of
        (None, s) \<Rightarrow> Inr ([], s)
      | (Some addr, s) \<Rightarrow> bindR (Address_toString host addr) (\<lambda>t. Inr (t, s)))"

definition getLocalAddressString :: "endian \<Rightarrow> sock_sys \<Rightarrow> Socket option \<Rightarrow> (string \<times> Socket option) res" where
  "getLocalAddressString host sys m_socket =
     (case SocketStream_getLocalAddress sys m_socket of
        (None, s) \<Rightarrow> Inr ([], s)
      | (Some addr, s) \<Rightarrow> bindR (Address_toString host addr) (\<lambda>t. Inr (t, s)))"

section \<open>Descriptors and their owners\<close>

text \<open>What is relied on of the kernel: a new descriptor is not open yet.\<close>

definition fresh_fds :: "sock_sys \<Rightarrow> bool" where
  "fresh_fds sys \<longleftrightarrow>
     (\<forall>A f t p. sy_socket sys A f t p = - 1 \<or> sy_socket sys A f t p \<notin> A) \<and> (\<forall>A fd. sy_accept sys A fd = - 1 \<or> sy_accept sys A fd \<notin> A)"

definition owned :: "Socket \<Rightarrow> int set" where
  "owned s = (if sk_sock s = - 1 then {} else {sk_sock s})"

text \<open>An operation on a socket touches no descriptor but its own.\<close>

definition frames :: "Socket \<times> 'cb net \<Rightarrow> Socket \<times> 'cb net \<Rightarrow> bool" where
  "frames c c' \<longleftrightarrow> (owned (fst c) \<subseteq> nt_open (snd c) \<longrightarrow>
     owned (fst c') \<subseteq> nt_open (snd c') \<and> nt_open (snd c') - owned (fst c') = nt_open (snd c) - owned (fst c))"

lemma frames_trans: "frames c c1 \<Longrightarrow> frames c1 c2 \<Longrightarrow> frames c c2"
  by (simp add: frames_def)

lemma frames_same: "owned s' = owned s \<Longrightarrow> nt_open n' = nt_open n \<Longrightarrow> frames (s, n) (s', n')"
  by (simp add: frames_def)

lemma owned_simps [simp]:
  "owned (s\<lparr>sk_isConnected := b\<rparr>) = owned s" "owned (s\<lparr>sk_localAddress := a\<rparr>) = owned s" "owned (s\<lparr>sk_remoteAddress := a\<rparr>) = owned s"
  "owned (newSocket f t p) = {}" "owned (snd (getLocalAddress sys s)) = owned s" "owned (snd (getRemoteAddress sys s)) = owned s"
  by (auto simp: owned_def newSocket_def getLocalAddress_def getRemoteAddress_def split: option.split)

lemma initSock_open [simp]: "nt_open (initSock sys s n) = nt_open n"
  by (simp add: initSock_def setOption_def Let_def)

lemma hook_socket_fd: "hook_socket a h fd = Inr (fd', h') \<Longrightarrow> fd' = fd"
  by (auto simp: hook_socket_def res_simps split: if_splits)

lemma hook_accept_fd: "hook_accept a h fd = Inr (fd', h') \<Longrightarrow> fd' = fd"
  by (auto simp: hook_accept_def res_simps split: if_splits)

lemma newSock_frames:
  assumes "fresh_fds sys" and "newSock sys s n = Inr (s', n')" and "\<not> isValid s"
  shows "frames (s, n) (s', n')"
proof -
  obtain h where 1: "hook_socket (nt_next n) (nt_hook n) (sy_socket sys (nt_open n) (sk_family s) (sk_type s) (sk_protocol s)) =
      Inr (sy_socket sys (nt_open n) (sk_family s) (sk_type s) (sk_protocol s), h)"
    using assms(2) by (auto simp: newSock_def res_simps dest: hook_socket_fd)
  have "sy_socket sys (nt_open n) (sk_family s) (sk_type s) (sk_protocol s) = - 1 \<or>
      sy_socket sys (nt_open n) (sk_family s) (sk_type s) (sk_protocol s) \<notin> nt_open n"
    using assms(1) by (simp add: fresh_fds_def)
  then show ?thesis
    using assms(2,3) by (auto simp: newSock_def 1 frames_def owned_def isValid_def Let_def split: if_splits)
qed

lemma close_frames:
  assumes "Socket_close_fd sys s n = Inr (b, s', n')"
  shows "frames (s, n) (s', n') \<and> owned s' = {} \<and> \<not> sk_isConnected s'"
  using assms by (auto simp: Socket_close_fd_def frames_def owned_def Let_def res_simps split: if_splits)

lemma ensure_frames:
  assumes "fresh_fds sys" and "(if \<not> isValid s then newSock sys s n else Inr (s, n)) = Inr (s', n')"
  shows "frames (s, n) (s', n')"
  using assms(2) newSock_frames [OF assms(1)] by (cases "isValid s") (auto simp: frames_same)

lemma connect_frames:
  assumes "fresh_fds sys" and "Socket_connect sys a t s n = Inr (b, s', n')"
  shows "frames (s, n) (s', n')"
proof -
  let ?s = "s\<lparr>sk_remoteAddress := Some a\<rparr>"
  obtain s1 n1 where 1: "(if \<not> isValid ?s then newSock sys ?s n else Inr (?s, n)) = Inr (s1, n1)"
    using assms(2) by (auto simp: Socket_connect_def res_simps Let_def)
  have 2: "frames (s, n) (s1, n1)" using ensure_frames [OF assms(1) 1] by (simp add: frames_def)
  have "frames (s1, n1) (s', n')"
    using assms(2) by (auto simp: Socket_connect_def Let_def 1 res_simps frames_same split: if_splits dest: close_frames)
  with 2 show ?thesis by (rule frames_trans)
qed

lemma reconnect_frames:
  assumes "fresh_fds sys" and "Socket_reconnect sys t s n = Inr (b, s', n')"
  shows "frames (s, n) (s', n')"
proof (cases "sk_remoteAddress s")
  case (Some a)
  then have "frames (s\<lparr>sk_localAddress := None\<rparr>, n) (s', n')"
    using assms(2) connect_frames [OF assms(1)] by (simp add: Socket_reconnect_def)
  then show ?thesis by (simp add: frames_def)
qed (use assms(2) in \<open>simp add: Socket_reconnect_def frames_same\<close>)

lemma probe_open:
  assumes "fresh_fds sys" and "probe_unix sys a u n = Inr (b, n')"
  shows "nt_open n' = nt_open n"
proof -
  obtain s1 n1 where 1: "Socket_connect sys a (NOT 0) (newSocket AF_UNIX SOCK_STREAM 0) n = Inr (b, s1, n1)"
    using assms(2) by (auto simp: probe_unix_def res_simps)
  then obtain n2 x where n2: "(if b then Inr n1 else bindR (UnixAddress_getPath u) (\<lambda>p. Inr (n1\<lparr>nt_unlinked := nt_unlinked n1 @ [p]\<rparr>))) = Inr n2"
      "Socket_close_fd sys s1 n2 = Inr x" "(case x of (_, _, n) \<Rightarrow> Inr (b, n)) = (Inr (b, n') :: (bool \<times> 'a net) res)"
    using assms(2) [unfolded probe_unix_def 1 bindR.simps prod.case] by (auto simp only: bindR_Inr_iff)
  have "nt_open n2 = nt_open n1" using n2(1) by (cases b) (auto simp: res_simps)
  moreover obtain r s2 where "Socket_close_fd sys s1 n2 = Inr (r, s2, n')" using n2(2,3) by (cases x) auto
  ultimately have 2: "nt_open n2 = nt_open n1" "Socket_close_fd sys s1 n2 = Inr (r, s2, n')" by simp_all
  then show ?thesis using connect_frames [OF assms(1) 1] close_frames [OF 2(2)] by (auto simp: frames_def)
qed

lemma bind_frames:
  assumes "fresh_fds sys" and "Socket_bind sys a s n = Inr (b, s', n')"
  shows "frames (s, n) (s', n')"
proof -
  let ?s = "s\<lparr>sk_localAddress := Some a\<rparr>"
  obtain s1 n1 where 1: "(if \<not> isValid ?s then newSock sys ?s n else Inr (?s, n)) = Inr (s1, n1)"
    using assms(2) by (auto simp: Socket_bind_def res_simps Let_def)
  have 2: "frames (s, n) (s1, n1)" using ensure_frames [OF assms(1) 1] by (simp add: frames_def)
  have "owned s' = owned s1 \<and> nt_open n' = nt_open n1"
    using assms(2) by (auto simp: Socket_bind_def Let_def 1 res_simps split: if_splits address.splits dest!: probe_open [OF assms(1)])
  with 2 show ?thesis by (simp add: frames_def)
qed

text \<open>A program with several sockets. \<open>accept\<close> is taken to give a socket or nothing; a descriptor that the table does not know as a
  socket is the matter of \<open>accept_leaks\<close>.\<close>

type_synonym 'cb world = "(nat \<rightharpoonup> Socket) \<times> 'cb net"

inductive sock_step :: "sock_sys \<Rightarrow> 'cb world \<Rightarrow> 'cb world \<Rightarrow> bool" for sys where
  step_tcp: "ss p = None \<Longrightarrow> s = newSocket f SOCK_STREAM 0 \<or> s = CreateUnixUDPSocket \<Longrightarrow> sock_step sys (ss, n) (ss(p \<mapsto> s), n)"
| step_udp: "ss p = None \<Longrightarrow> CreateUDP_family sys f n = Inr (s, n') \<Longrightarrow> sock_step sys (ss, n) (ss(p \<mapsto> s), n')"
| step_bind: "ss p = Some s \<Longrightarrow> Socket_bind sys a s n = Inr (b, s', n') \<Longrightarrow> sock_step sys (ss, n) (ss(p \<mapsto> s'), n')"
| step_connect: "ss p = Some s \<Longrightarrow> Socket_connect sys a t s n = Inr (b, s', n') \<Longrightarrow> sock_step sys (ss, n) (ss(p \<mapsto> s'), n')"
| step_reconnect: "ss p = Some s \<Longrightarrow> Socket_reconnect sys t s n = Inr (b, s', n') \<Longrightarrow> sock_step sys (ss, n) (ss(p \<mapsto> s'), n')"
| step_close: "ss p = Some s \<Longrightarrow> Socket_close_fd sys s n = Inr (b, s', n') \<Longrightarrow> sock_step sys (ss, n) (ss(p \<mapsto> s'), n')"
| step_destroy: "ss p = Some s \<Longrightarrow> Socket_close_fd sys s n = Inr (b, s', n') \<Longrightarrow> sock_step sys (ss, n) (ss(p := None), n')"
| step_accept: "ss p = Some s \<Longrightarrow> ss q = None \<Longrightarrow> Socket_accept sys s n = Inr (Some s', n') \<Longrightarrow> sock_step sys (ss, n) (ss(q \<mapsto> s'), n')"
| step_no_accept: "sy_accept sys (nt_open n) (sk_sock s) = - 1 \<Longrightarrow> Socket_accept sys s n = Inr (None, n') \<Longrightarrow> sock_step sys (ss, n) (ss, n')"
| step_timeout: "setTimeout ty v s n = Inr n' \<Longrightarrow> sock_step sys (ss, n) (ss, n')"

text \<open>The open descriptors are those of the sockets, and no two sockets share one.\<close>

definition accounted :: "'cb world \<Rightarrow> bool" where
  "accounted w \<longleftrightarrow> nt_open (snd w) = (\<Union>s \<in> ran (fst w). owned s) \<and>
     (\<forall>p q s t. fst w p = Some s \<longrightarrow> fst w q = Some t \<longrightarrow> p \<noteq> q \<longrightarrow> owned s \<inter> owned t = {})"

lemma accounted_frame:
  assumes "accounted (ss, n)" and "ss p = Some s" and "frames (s, n) (s', n')"
  shows "accounted (ss(p \<mapsto> s'), n')"
proof -
  define rest where "rest = (\<Union>s \<in> ran (ss(p := None)). owned s)"
  have ran: "ran (ss(p \<mapsto> t)) = insert t (ran (ss(p := None)))" for t
    using ran_map_upd [of "ss(p := None)" p t] by simp
  have "ss(p \<mapsto> s) = ss" using assms(2) by auto
  then have "nt_open n = owned s \<union> rest"
    using assms(1) ran [of s] by (simp add: accounted_def rest_def)
  moreover have "owned s \<inter> rest = {}"
    using assms(1,2) by (auto simp: accounted_def rest_def ran_def split: if_splits) (metis disjoint_iff)
  ultimately have rest: "nt_open n' = owned s' \<union> rest" "owned s' \<inter> rest = {}"
    using assms(3) unfolding frames_def fst_conv snd_conv by blast+
  moreover have "(\<Union>s \<in> ran (ss(p \<mapsto> s')). owned s) = owned s' \<union> rest" by (simp add: ran rest_def)
  moreover have "owned t \<inter> owned s' = {}" if "ss q = Some t" "q \<noteq> p" for q t
  proof -
    have "t \<in> ran (ss(p := None))" using that by (auto simp: ran_def)
    then have "owned t \<subseteq> rest" by (auto simp: rest_def)
    with rest(2) show ?thesis by blast
  qed
  ultimately show ?thesis using assms(1) by (auto simp: accounted_def Int_commute)
qed

lemma accounted_new:
  assumes "accounted (ss, n)" and "ss p = None" and "nt_open n' = nt_open n \<union> owned s'" and "owned s' \<inter> nt_open n = {}"
  shows "accounted (ss(p \<mapsto> s'), n')"
proof -
  have "ran (ss(p \<mapsto> s')) = insert s' (ran ss)" using assms(2) by (rule ran_map_upd)
  moreover have "owned t \<inter> owned s' = {}" if "ss q = Some t" for q t
    using assms(1,4) that by (auto simp: accounted_def ran_def)
  ultimately show ?thesis using assms(1,3) by (auto simp: accounted_def Int_commute)
qed

lemma init_open:
  "Socket_init sys fd s n = Inr (ok, s', n') \<Longrightarrow> nt_open n' = nt_open n \<and> (if ok then owned s' = owned (s\<lparr>sk_sock := fd\<rparr>) else s' = s)"
proof -
  assume 1: "Socket_init sys fd s n = Inr (ok, s', n')"
  then obtain c where c: "hk_get (nt_hook n) fd = Inr c" by (auto simp: Socket_init_def res_simps)
  show ?thesis
  proof (cases "\<exists>a ctx. c = Some (a, ctx) \<and> fd_isSocket ctx \<and> \<not> fd_isClosed ctx")
    case True
    have "owned (snd (getRemoteAddress sys (snd (getLocalAddress sys (s\<lparr>sk_sock := fd, sk_isConnected := True\<rparr>))))) = owned (s\<lparr>sk_sock := fd\<rparr>)"
      by (simp add: owned_def [of "_\<lparr>sk_isConnected := True\<rparr>"])
    then show ?thesis using 1 c True by (auto simp: Socket_init_def Let_def)
  next
    case False
    then show ?thesis using 1 c by (auto simp: Socket_init_def split: option.splits if_splits)
  qed
qed

lemma accept_cases:
  assumes "Socket_accept sys s n = Inr (r, n')"
  defines "fd \<equiv> sy_accept sys (nt_open n) (sk_sock s)"
  shows "if fd = - 1 then r = None \<and> nt_open n' = nt_open n
    else nt_open n' = insert fd (nt_open n) \<and> (case r of None \<Rightarrow> True | Some s' \<Rightarrow> owned s' = {fd})"
proof -
  obtain h where h: "hook_accept (nt_next n) (nt_hook n) fd = Inr (fd, h)"
    using assms(1) by (auto simp: Socket_accept_def res_simps fd_def dest: hook_accept_fd)
  show ?thesis
  proof (cases "fd = - 1")
    case True
    then show ?thesis using assms(1) h by (auto simp: Socket_accept_def fd_def [symmetric])
  next
    case False
    then obtain ok sock where i: "Socket_init sys fd (newSocket (sk_family s) (sk_type s) (sk_protocol s))
        (n\<lparr>nt_hook := h, nt_next := Suc (nt_next n), nt_open := insert fd (nt_open n)\<rparr>) = Inr (ok, sock, n')"
        "r = (if ok then Some sock else None)"
      using assms(1) h by (auto simp: Socket_accept_def fd_def [symmetric] res_simps Let_def)
    then show ?thesis using False init_open [OF i(1)] by (cases ok) (simp_all add: owned_def [of "newSocket _ _ _\<lparr>sk_sock := fd\<rparr>"])
  qed
qed

lemma accept_owned:
  assumes "fresh_fds sys" and "Socket_accept sys s n = Inr (r, n')"
  shows "case r of Some s' \<Rightarrow> nt_open n' = nt_open n \<union> owned s' \<and> owned s' \<inter> nt_open n = {}
    | None \<Rightarrow> sy_accept sys (nt_open n) (sk_sock s) = - 1 \<longrightarrow> nt_open n' = nt_open n"
proof -
  have "sy_accept sys (nt_open n) (sk_sock s) = - 1 \<or> sy_accept sys (nt_open n) (sk_sock s) \<notin> nt_open n"
    using assms(1) by (simp add: fresh_fds_def)
  then show ?thesis using accept_cases [OF assms(2)] by (auto split: option.splits if_splits)
qed

lemma step_accounted:
  assumes "sock_step sys w w'" and "fresh_fds sys" and "accounted w"
  shows "accounted w'"
  using assms
proof (induction rule: sock_step.induct)
  case (step_udp ss p f n s n')
  then obtain s0 where "newSock sys (newSocket f SOCK_DGRAM 0) n = Inr (s0, n')" "s = s0\<lparr>sk_isConnected := True\<rparr>"
    by (auto simp: CreateUDP_family_def res_simps)
  moreover have "\<not> isValid (newSocket f SOCK_DGRAM 0)" by (simp add: isValid_def newSocket_def)
  ultimately have "frames (newSocket f SOCK_DGRAM 0, n) (s, n')"
    using newSock_frames [OF step_udp(3), of "newSocket f SOCK_DGRAM 0" n s0 n'] by (simp add: frames_def)
  with step_udp show ?case by (intro accounted_new) (auto simp: frames_def)
next
  case (step_destroy ss p s n b s' n')
  have "accounted (ss(p \<mapsto> s'), n')" "owned s' = {}"
    using accounted_frame [OF step_destroy(4,1)] close_frames [OF step_destroy(2)] by auto
  moreover have "(\<Union>s \<in> ran (ss(p \<mapsto> s')). owned s) = owned s' \<union> (\<Union>s \<in> ran (ss(p := None)). owned s)"
    using ran_map_upd [of "ss(p := None)" p s'] by simp
  ultimately have "nt_open n' = (\<Union>s \<in> ran (ss(p := None)). owned s)" by (simp add: accounted_def)
  moreover have "owned a \<inter> owned b = {}" if "(ss(p := None)) x = Some a" "(ss(p := None)) y = Some b" "x \<noteq> y" for x y a b
    using that step_destroy(4) by (simp add: accounted_def split: if_splits)
  ultimately show ?case by (simp add: accounted_def)
next
  case (step_accept ss p s q n s' n')
  then show ?case using accept_owned [OF step_accept(4,3)] by (intro accounted_new) auto
next
  case (step_no_accept n s n' ss)
  then show ?case using accept_owned [OF step_no_accept(3,2)] by (simp add: accounted_def)
next
  case (step_timeout ty v s n n' ss)
  then show ?case by (auto simp: setTimeout_def res_simps accounted_def)
qed (auto intro: accounted_new accounted_frame bind_frames connect_frames reconnect_frames dest: close_frames simp: CreateUnixUDPSocket_def)

section \<open>Properties\<close>


text \<open>A timeout from 0 to the largest that fits the seconds is kept in the descriptor table and read back as it was set,
  for the two directions independently; \<open>-1\<close> is kept as no timeout.\<close>

theorem timeout_roundtrip:
  assumes "hk_enable (nt_hook n)" and "managed (nt_hook n) fd a" and "sk_sock s = int fd" and "- 1 \<le> v" and "v < 2 ^ 31 * 1000"
  shows "\<exists>n'. setTimeout ty v s n = Inr n' \<and> getTimeout ty s n' = Inr v \<and> (\<forall>ty'. ty' \<noteq> ty \<longrightarrow> getTimeout ty' s n' = getTimeout ty' s n)"
proof -
  have small: "to_int x = x" if "- (2 ^ 31) \<le> x" "x < 2 ^ 31" for x
    using that by (simp add: to_int_def sint_sbintrunc' signed_take_bit_int_eq_self)
  have ms: "timeval_ms (to_int (c_div v 1000)) (to_int (c_mod v 1000 * 1000)) = word_of_int v"
  proof (cases "v = - 1")
    case True
    have "c_div v 1000 = 0" "c_mod v 1000 * 1000 = - 1000" using True by (simp_all add: c_div_def c_mod_def)
    then show ?thesis using True small by (simp add: timeval_ms_def c_div_def)
  next
    case False
    then have "c_div v 1000 = v div 1000" "c_mod v 1000 = v mod 1000"
      using assms(4) by (cases "v = 0"; simp add: c_div_def c_mod_def minus_div_mult_eq_mod)+
    moreover have "v div 1000 < 2 ^ 31" "0 \<le> v div 1000" "0 \<le> v mod 1000" "v mod 1000 < 1000" using assms(4,5) False by simp_all
    moreover have "c_div (v mod 1000 * 1000) 1000 = v mod 1000"
      using \<open>0 \<le> v mod 1000\<close> by (cases "v mod 1000 = 0") (simp_all add: c_div_def)
    ultimately show ?thesis by (simp add: timeval_ms_def small)
  qed
  have get: "hk_get (nt_hook n) (int fd) = Inr (Some (a, fm_heap (hk_fm (nt_hook n)) a))" using assms(2) by (rule hk_get_managed)
  let ?ctx = "FdCtx_setTimeout (fm_heap (hk_fm (nt_hook n)) a) ty (word_of_int v)" and ?h = "hk_set (nt_hook n) a"
  have set: "setTimeout ty v s n = Inr (n\<lparr>nt_hook := ?h ?ctx\<rparr>)" by (simp add: setTimeout_def hook_setsockopt_def assms(1,3) get ms)
  have "hk_get (?h ?ctx) (int fd) = Inr (Some (a, ?ctx))"
    using assms(2) by (simp add: hk_get_def hk_set_def managed_def FdManager_look_def)
  moreover have "sint (word_of_int v :: u64) = v" using assms(4,5) by (simp add: sint_sbintrunc' signed_take_bit_int_eq_self)
  ultimately have "getTimeout ty s (n\<lparr>nt_hook := ?h ?ctx\<rparr>) = Inr v"
      "ty' \<noteq> ty \<longrightarrow> getTimeout ty' s (n\<lparr>nt_hook := ?h ?ctx\<rparr>) = getTimeout ty' s n" for ty'
    by (cases ty; cases ty'; simp add: getTimeout_def assms(3) get FdCtx_getTimeout_def FdCtx_setTimeout_def)+
  with set show ?thesis by blast
qed

text \<open>A socket that is bound goes by the address it was given, whatever address the kernel has chosen for it; and an accepted
  descriptor that is not known as a socket stays open although no object owns it.\<close>

theorem bind_and_accept_flaws:
  "(Socket_bind sys a s n = Inr (True, s', n') \<longrightarrow> sk_localAddress s' = Some a) \<and>
   (fresh_fds sys \<longrightarrow> Socket_accept sys s n = Inr (None, n') \<longrightarrow> sy_accept sys (nt_open n) (sk_sock s) \<noteq> - 1 \<longrightarrow>
      nt_open n' = insert (sy_accept sys (nt_open n) (sk_sock s)) (nt_open n) \<and> sy_accept sys (nt_open n) (sk_sock s) \<notin> nt_open n)"
proof -
  have 1: "sk_localAddress s1 = sk_localAddress s0" if "(if \<not> isValid s0 then newSock sys s0 n else Inr (s0, n)) = Inr (s1, n1)" for s0 s1 n1
    using that by (auto simp: newSock_def res_simps Let_def split: if_splits)
  have 2: "sk_localAddress (snd (getLocalAddress sys s1)) = sk_localAddress s1" if "sk_localAddress s1 \<noteq> None" for s1
    using that by (auto simp: getLocalAddress_def)
  have "sk_localAddress s' = Some a" if bound: "Socket_bind sys a s n = Inr (True, s', n')"
  proof -
    let ?s = "s\<lparr>sk_localAddress := Some a\<rparr>"
    obtain s1 n1 where c: "(if \<not> isValid ?s then newSock sys ?s n else Inr (?s, n)) = Inr (s1, n1)"
      using bound by (auto simp: Socket_bind_def res_simps Let_def)
    then have "s' = snd (getLocalAddress sys s1)"
      using bound by (auto simp: Socket_bind_def Let_def res_simps split: if_splits)
    then show ?thesis using 1 [OF c] 2 [of s1] by simp
  qed
  moreover have "nt_open n' = insert (sy_accept sys (nt_open n) (sk_sock s)) (nt_open n)"
    if "Socket_accept sys s n = Inr (None, n')" "sy_accept sys (nt_open n) (sk_sock s) \<noteq> - 1"
    using accept_cases [OF that(1)] that(2) by simp
  moreover have "sy_accept sys (nt_open n) (sk_sock s) \<notin> nt_open n" if "fresh_fds sys" "sy_accept sys (nt_open n) (sk_sock s) \<noteq> - 1"
    using that by (auto simp: fresh_fds_def)
  ultimately show ?thesis by blast
qed

section \<open>Witnesses\<close>

definition sample_sys :: sock_sys where
  "sample_sys =
     \<lparr>sy_socket = (\<lambda>A _ _ _. if 3 \<notin> A then 3 else if 4 \<notin> A then 4 else - 1), sy_accept = (\<lambda>A _. if 5 \<notin> A then 5 else - 1),
      sy_bind = (\<lambda>_ _. 0), sy_connect = (\<lambda>_ _ _. 0), sy_listen = (\<lambda>_ _. 0), sy_setsockopt = (\<lambda>_ _ _. 0), sy_getsockopt = (\<lambda>_ _ _. None),
      sy_getsockname = (\<lambda>_. None), sy_getpeername = (\<lambda>_. None), sy_sendmsg = (\<lambda>_ m _. int (length (concat (msg_iov m)))),
      sy_recvmsg = (\<lambda>_ _ _. (0, \<lparr>msg_iov = [], msg_name = None\<rparr>)), sy_epoll = 0, sy_errno = 0\<rparr>"

definition sample_net :: "unit net" where
  "sample_net = \<lparr>nt_hook = set_hook_enable blank_hook False, nt_io = None, nt_open = {}, nt_next = 0, nt_opts = (\<lambda>_. None), nt_unlinked = []\<rparr>"

definition local_address :: address where
  "local_address = IPv4Address \<lparr>sin_port = 0, s_addr = 0, sin_zero = replicate 8 0\<rparr>"

lemma sample_sys_fresh: "fresh_fds sample_sys"
  by (simp add: fresh_fds_def sample_sys_def)


theorem timeout_roundtrip_witness:
  "\<exists>n'. setTimeout SO_SNDTIMEO 2500 (CreateTCPSocket\<lparr>sk_sock := 3\<rparr>) (sample_net\<lparr>nt_hook := sample_hook\<rparr>) = Inr n' \<and>
     getTimeout SO_SNDTIMEO (CreateTCPSocket\<lparr>sk_sock := 3\<rparr>) n' = Inr 2500"
  using timeout_roundtrip [of "sample_net\<lparr>nt_hook := sample_hook\<rparr>" 3 9 "CreateTCPSocket\<lparr>sk_sock := 3\<rparr>" 2500 SO_SNDTIMEO] sample_hook_facts
  by auto

theorem bind_and_accept_flaws_witness:
  "\<exists>s n. Socket_bind sample_sys local_address CreateTCPSocket sample_net = Inr (True, s, n) \<and> sk_localAddress s = Some local_address"
proof -
  obtain s n where "Socket_bind sample_sys local_address CreateTCPSocket sample_net = Inr (True, s, n)"
    by (simp add: Socket_bind_def isValid_def CreateTCPSocket_def newSocket_def newSock_def hook_socket_def sample_net_def set_hook_enable_def
        sample_sys_def local_address_def getLocalAddress_def Let_def families)
  then show ?thesis using bind_and_accept_flaws [of sample_sys local_address CreateTCPSocket sample_net s n] by blast
qed

end
