(* ===== verification/Lamb_Thread.thy ===== *)
theory Lamb_Thread
  imports Lamb_Prelude
begin

text \<open>
  \<open>lamb/include/mutex.h\<close>, \<open>lamb/mutex.cc\<close> and \<open>lamb/thread.cc\<close>: locks with their guards, the semaphore and the start of a thread. The
  state of a lock of pthread is who holds it. Acquiring gives nothing while it blocks. The guards call the locks of the class
  they are given; threads interleave by the step relations.
\<close>

section \<open>Locks\<close>

text \<open>An exclusive lock is taken or not. Releasing a lock of pthread that is not taken is undefined; a flag is just cleared.\<close>

definition Mutex_lock :: "bool \<Rightarrow> bool option" where
  "Mutex_lock l = (if l then None else Some True)"

definition Mutex_unlock :: "bool \<Rightarrow> bool res" where
  "Mutex_unlock l = (if l then Inr False else Inl (Undefined ''pthread_mutex_unlock''))"

definition Spinlock_lock :: "bool \<Rightarrow> bool option" where
  "Spinlock_lock l = (if l then None else Some True)"

definition Spinlock_unlock :: "bool \<Rightarrow> bool res" where
  "Spinlock_unlock l = (if l then Inr False else Inl (Undefined ''pthread_spin_unlock''))"

text \<open>The loop of \<open>CASLock::lock\<close> ends when the flag it sets was clear.\<close>

definition test_and_set :: "bool \<Rightarrow> bool \<times> bool" where
  "test_and_set flag = (flag, True)"

definition CASLock_lock :: "bool \<Rightarrow> bool option" where
  "CASLock_lock flag = (case test_and_set flag of (old, new) \<Rightarrow> if old then None else Some new)"

definition CASLock_unlock :: "bool \<Rightarrow> bool res" where
  "CASLock_unlock flag = Inr False"

text \<open>\<open>RWMutex\<close>: the thread that holds it for writing, or the number of readers. The result of the calls is not looked at: a
  thread that already writes may be refused at once (\<open>EDEADLK\<close>), if the library finds that out, and goes on without the lock.\<close>

record rwlock =
  rw_writer :: "nat option"
  rw_readers :: nat

definition RWMutex_rdlock :: "bool \<Rightarrow> nat \<Rightarrow> rwlock \<Rightarrow> rwlock option" where
  "RWMutex_rdlock detects t l =
     (if detects \<and> rw_writer l = Some t then Some l
      else if rw_writer l = None then Some (l\<lparr>rw_readers := Suc (rw_readers l)\<rparr>) else None)"

definition RWMutex_wrlock :: "bool \<Rightarrow> nat \<Rightarrow> rwlock \<Rightarrow> rwlock option" where
  "RWMutex_wrlock detects t l =
     (if detects \<and> rw_writer l = Some t then Some l
      else if rw_writer l = None \<and> rw_readers l = 0 then Some (l\<lparr>rw_writer := Some t\<rparr>) else None)"

definition RWMutex_unlock :: "nat \<Rightarrow> rwlock \<Rightarrow> rwlock res" where
  "RWMutex_unlock t l =
     (if rw_writer l = Some t then Inr (l\<lparr>rw_writer := None\<rparr>)
      else if rw_writer l = None \<and> 0 < rw_readers l then Inr (l\<lparr>rw_readers := rw_readers l - 1\<rparr>)
      else Inl (Undefined ''pthread_rwlock_unlock''))"

section \<open>Guards\<close>

text \<open>\<open>ScopedLockImpl<T>\<close>: the guard is \<open>m_locked\<close>; \<open>lock\<close> and \<open>unlock\<close> are those of \<open>T\<close>.\<close>

definition newScopedLock :: "('l \<Rightarrow> 'l option) \<Rightarrow> 'l \<Rightarrow> (bool \<times> 'l) option" where
  "newScopedLock lock l = map_option (\<lambda>l. (True, l)) (lock l)"

definition ScopedLock_lock :: "('l \<Rightarrow> 'l option) \<Rightarrow> bool \<Rightarrow> 'l \<Rightarrow> (bool \<times> 'l) option" where
  "ScopedLock_lock lock m_locked l = (if \<not> m_locked then map_option (\<lambda>l. (True, l)) (lock l) else Some (m_locked, l))"

definition ScopedLock_unlock :: "('l \<Rightarrow> 'l res) \<Rightarrow> bool \<Rightarrow> 'l \<Rightarrow> (bool \<times> 'l) res" where
  "ScopedLock_unlock unlock m_locked l = (if m_locked then bindR (unlock l) (\<lambda>l. Inr (False, l)) else Inr (m_locked, l))"

text \<open>\<open>ReadScopedLockImpl\<close> and \<open>WriteScopedLockImpl\<close>, used by a thread.\<close>

record guard =
  gd_thread :: nat
  gd_write :: bool
  gd_locked :: bool

definition rw_acquire :: "bool \<Rightarrow> guard \<Rightarrow> rwlock \<Rightarrow> rwlock option" where
  "rw_acquire detects g l = (if gd_write g then RWMutex_wrlock detects (gd_thread g) l else RWMutex_rdlock detects (gd_thread g) l)"

definition newReadScopedLock :: "bool \<Rightarrow> nat \<Rightarrow> rwlock \<Rightarrow> (guard \<times> rwlock) option" where
  "newReadScopedLock detects t l =
     map_option (\<lambda>l. (\<lparr>gd_thread = t, gd_write = False, gd_locked = True\<rparr>, l)) (RWMutex_rdlock detects t l)"

definition newWriteScopedLock :: "bool \<Rightarrow> nat \<Rightarrow> rwlock \<Rightarrow> (guard \<times> rwlock) option" where
  "newWriteScopedLock detects t l =
     map_option (\<lambda>l. (\<lparr>gd_thread = t, gd_write = True, gd_locked = True\<rparr>, l)) (RWMutex_wrlock detects t l)"

definition RWScopedLock_lock :: "bool \<Rightarrow> guard \<Rightarrow> rwlock \<Rightarrow> (guard \<times> rwlock) option" where
  "RWScopedLock_lock detects g l =
     (if \<not> gd_locked g then map_option (\<lambda>l. (g\<lparr>gd_locked := True\<rparr>, l)) (rw_acquire detects g l) else Some (g, l))"

definition RWScopedLock_unlock :: "guard \<Rightarrow> rwlock \<Rightarrow> (guard \<times> rwlock) res" where
  "RWScopedLock_unlock g l =
     (if gd_locked g then bindR (RWMutex_unlock (gd_thread g) l) (\<lambda>l. Inr (g\<lparr>gd_locked := False\<rparr>, l)) else Inr (g, l))"

section \<open>The semaphore\<close>

definition SEM_VALUE_MAX :: nat where "SEM_VALUE_MAX = 2147483647"

definition newSemaphore :: "u32 \<Rightarrow> nat res" where
  "newSemaphore count = (if SEM_VALUE_MAX < unat count then Inl (Logic_error ''sem_init error'') else Inr (unat count))"

text \<open>The wait, once it is over: \<open>None\<close> while it blocks. A signal may end it early.\<close>

definition Semaphore_wait :: "bool \<Rightarrow> nat \<Rightarrow> nat res option" where
  "Semaphore_wait interrupted v =
     (if interrupted then Some (Inl (Logic_error ''sem_wait error'')) else case v of 0 \<Rightarrow> None | Suc v \<Rightarrow> Some (Inr v))"

definition Semaphore_notify :: "nat \<Rightarrow> nat res" where
  "Semaphore_notify v = (if v = SEM_VALUE_MAX then Inl (Logic_error ''sem_post error'') else Inr (Suc v))"

section \<open>Threads\<close>

text \<open>The object, shared by the thread that makes it and the new one; it is gone when it has been destroyed. Its identifier is not
  set at first.\<close>

record 'cb Thread =
  th_id :: "int option"
  th_thread :: int
  th_cb :: "'cb option"
  th_name :: string
  th_sem :: nat

text \<open>The points of \<open>Thread::run\<close>, and of the maker after \<open>pthread_create\<close>.\<close>

datatype 'cb run_pc = Run_start | Run_notify "'cb option" | Run_cb "'cb option" | Run_end

datatype maker_pc = In_constructor | Constructed | Destroyed

record 'cb thread_state =
  ts_obj :: "'cb Thread option"
  ts_run :: "'cb run_pc"
  ts_maker :: maker_pc
  ts_t_thread :: bool
  ts_t_name :: string
  ts_kernel_name :: string
  ts_called :: "'cb list"

definition thread_name :: "string \<Rightarrow> string" where
  "thread_name name = (if name = [] then ''UNKNOW'' else name)"

definition newThread :: "int \<Rightarrow> 'cb \<Rightarrow> string \<Rightarrow> int \<Rightarrow> 'cb thread_state res" where
  "newThread rt cb name pthread =
     (if rt \<noteq> 0 then Inl (Logic_error ''pthread_create error'')
      else Inr \<lparr>ts_obj = Some \<lparr>th_id = None, th_thread = pthread, th_cb = Some cb, th_name = thread_name name, th_sem = 0\<rparr>,
                ts_run = Run_start, ts_maker = In_constructor, ts_t_thread = False, ts_t_name = ''UNKNOW'', ts_kernel_name = [], ts_called = []\<rparr>)"

text \<open>The part of \<open>run\<close> before the notification: the thread-local variables, the identifier, the name of the kernel, and the
  callback, which is moved out of the object.\<close>

definition run_prepare :: "int \<Rightarrow> 'cb thread_state \<Rightarrow> 'cb thread_state res" where
  "run_prepare tid s =
     (case ts_obj s of
        None \<Rightarrow> Inl (Bad_access ''thread'')
      | Some th \<Rightarrow> Inr (s\<lparr>ts_obj := Some (th\<lparr>th_id := Some tid, th_cb := None\<rparr>), ts_run := Run_notify (th_cb th), ts_t_thread := True,
          ts_t_name := th_name th, ts_kernel_name := take 15 (th_name th)\<rparr>))"

definition run_notify :: "'cb option \<Rightarrow> 'cb thread_state \<Rightarrow> 'cb thread_state res" where
  "run_notify cb s =
     (case ts_obj s of
        None \<Rightarrow> Inl (Bad_access ''thread'')
      | Some th \<Rightarrow> bindR (Semaphore_notify (th_sem th)) (\<lambda>v. Inr (s\<lparr>ts_obj := Some (th\<lparr>th_sem := v\<rparr>), ts_run := Run_cb cb\<rparr>)))"

definition run_call :: "'cb option \<Rightarrow> 'cb thread_state \<Rightarrow> 'cb thread_state res" where
  "run_call cb s =
     (case cb of None \<Rightarrow> Inl (Logic_error ''bad_function_call'') | Some cb \<Rightarrow> Inr (s\<lparr>ts_called := ts_called s @ [cb], ts_run := Run_end\<rparr>))"

text \<open>The end of the constructor; if the wait is interrupted, it throws, and the object is gone.\<close>

definition constructor_wait :: "bool \<Rightarrow> 'cb thread_state \<Rightarrow> (exn option \<times> 'cb thread_state) option" where
  "constructor_wait interrupted s =
     (case ts_obj s of
        None \<Rightarrow> Some (Some (Bad_access ''thread''), s)
      | Some th \<Rightarrow> (case Semaphore_wait interrupted (th_sem th) of
          None \<Rightarrow> None
        | Some (Inl e) \<Rightarrow> Some (Some e, s\<lparr>ts_obj := None, ts_maker := Destroyed\<rparr>)
        | Some (Inr v) \<Rightarrow> Some (None, s\<lparr>ts_obj := Some (th\<lparr>th_sem := v\<rparr>), ts_maker := Constructed\<rparr>)))"

definition destroy_thread :: "'cb thread_state \<Rightarrow> 'cb thread_state" where
  "destroy_thread s = s\<lparr>ts_obj := None, ts_maker := Destroyed\<rparr>"

definition Thread_join :: "int \<Rightarrow> 'cb Thread \<Rightarrow> 'cb Thread res" where
  "Thread_join rt th =
     (if th_thread th \<noteq> 0 \<and> rt \<noteq> 0 then Inl (Logic_error ''pthread_create error'') else Inr (th\<lparr>th_thread := 0\<rparr>))"

text \<open>Called by the new thread: \<open>t_thread\<close> still points to the object when that is gone.\<close>

definition Thread_SetName :: "string \<Rightarrow> 'cb thread_state \<Rightarrow> 'cb thread_state res" where
  "Thread_SetName name s =
     (if ts_t_thread s
      then case ts_obj s of None \<Rightarrow> Inl (Bad_access ''t_thread'') | Some th \<Rightarrow> Inr (s\<lparr>ts_obj := Some (th\<lparr>th_name := name\<rparr>), ts_t_name := name\<rparr>)
      else Inr (s\<lparr>ts_t_name := name\<rparr>))"

section \<open>Exclusive locks\<close>

text \<open>Any number of guards of one lock, made, locked, unlocked and destroyed in any order.\<close>

inductive excl_step :: "('l \<Rightarrow> 'l option) \<Rightarrow> ('l \<Rightarrow> 'l res) \<Rightarrow> 'l \<times> (nat \<rightharpoonup> bool) \<Rightarrow> 'l \<times> (nat \<rightharpoonup> bool) \<Rightarrow> bool" for lock unlock where
  excl_new: "gs i = None \<Longrightarrow> newScopedLock lock l = Some (b, l') \<Longrightarrow> excl_step lock unlock (l, gs) (l', gs(i \<mapsto> b))"
| excl_lock: "gs i = Some b \<Longrightarrow> ScopedLock_lock lock b l = Some (b', l') \<Longrightarrow> excl_step lock unlock (l, gs) (l', gs(i \<mapsto> b'))"
| excl_unlock: "gs i = Some b \<Longrightarrow> ScopedLock_unlock unlock b l = Inr (b', l') \<Longrightarrow> excl_step lock unlock (l, gs) (l', gs(i \<mapsto> b'))"
| excl_destroy: "gs i = Some b \<Longrightarrow> ScopedLock_unlock unlock b l = Inr (b', l') \<Longrightarrow> excl_step lock unlock (l, gs) (l', gs(i := None))"

definition excl_ok :: "('l \<Rightarrow> bool) \<Rightarrow> 'l \<times> (nat \<rightharpoonup> bool) \<Rightarrow> bool" where
  "excl_ok held = (\<lambda>(l, gs). (held l \<longleftrightarrow> (\<exists>i. gs i = Some True)) \<and> (\<forall>i j. gs i = Some True \<longrightarrow> gs j = Some True \<longrightarrow> i = j))"

locale exclusive_lock =
  fixes lock :: "'l \<Rightarrow> 'l option" and unlock :: "'l \<Rightarrow> 'l res" and held :: "'l \<Rightarrow> bool"
  assumes lock_held: "held l \<Longrightarrow> lock l = None"
    and lock_free: "\<not> held l \<Longrightarrow> \<exists>l'. lock l = Some l' \<and> held l'"
    and unlock_held: "held l \<Longrightarrow> \<exists>l'. unlock l = Inr l' \<and> \<not> held l'"
begin

lemma lock_Some: "lock l = Some l' \<Longrightarrow> \<not> held l \<and> held l'"
  using lock_held lock_free by (metis option.distinct(1) option.inject)

lemma step_ok: "excl_step lock unlock c c' \<Longrightarrow> excl_ok held c \<Longrightarrow> excl_ok held c'"
proof (induction rule: excl_step.induct)
  case (excl_new gs i l b l')
  then show ?case using lock_Some by (auto simp: excl_ok_def newScopedLock_def)
next
  case (excl_lock gs i b l b' l')
  then show ?case using lock_Some by (auto simp: excl_ok_def ScopedLock_lock_def split: if_splits)
next
  case (excl_unlock gs i b l b' l')
  show ?case
  proof (cases b)
    case True
    then have "held l" using excl_unlock(1,3) by (auto simp: excl_ok_def)
    then show ?thesis using excl_unlock True unlock_held [of l] by (auto simp: excl_ok_def ScopedLock_unlock_def)
  next
    case False
    then have *: "(gs(i \<mapsto> b')) j = Some True \<longleftrightarrow> gs j = Some True" for j using excl_unlock(1,2) by (auto simp: ScopedLock_unlock_def)
    have "l' = l" using excl_unlock(2) False by (simp add: ScopedLock_unlock_def)
    then show ?thesis using excl_unlock(3) by (simp add: excl_ok_def * del: fun_upd_apply)
  qed
next
  case (excl_destroy gs i b l b' l')
  show ?case
  proof (cases b)
    case True
    then have "held l" using excl_destroy(1,3) by (auto simp: excl_ok_def)
    then show ?thesis using excl_destroy True unlock_held [of l] by (auto simp: excl_ok_def ScopedLock_unlock_def)
  next
    case False
    then have *: "(gs(i := None)) j = Some True \<longleftrightarrow> gs j = Some True" for j using excl_destroy(1) by auto
    have "l' = l" using excl_destroy(2) False by (simp add: ScopedLock_unlock_def)
    then show ?thesis using excl_destroy(3) by (simp add: excl_ok_def * del: fun_upd_apply)
  qed
qed

lemma exclusion:
  assumes "(excl_step lock unlock)\<^sup>*\<^sup>* (l0, Map.empty) (l, gs)" and "\<not> held l0"
  shows "(gs i = Some True \<longrightarrow> gs j = Some True \<longrightarrow> i = j) \<and> (gs i = Some b \<longrightarrow> (\<exists>r. ScopedLock_unlock unlock b l = Inr r)) \<and>
    (newScopedLock lock l = None \<longleftrightarrow> (\<exists>i. gs i = Some True))"
proof -
  have "excl_ok held (l, gs)"
    using assms(1)
  proof (induction rule: rtranclp_induct)
    case base
    then show ?case using assms(2) by (simp add: excl_ok_def)
  qed (blast intro: step_ok)
  then have held: "held l \<longleftrightarrow> (\<exists>i. gs i = Some True)" and one: "gs i = Some True \<longrightarrow> gs j = Some True \<longrightarrow> i = j"
    by (auto simp: excl_ok_def)
  have "\<exists>r. ScopedLock_unlock unlock b l = Inr r" if i: "gs i = Some b"
  proof (cases b)
    case True
    then obtain l' where "unlock l = Inr l'" using unlock_held [of l] held i by auto
    then show ?thesis using True by (auto simp: ScopedLock_unlock_def)
  qed (auto simp: ScopedLock_unlock_def)
  moreover have "newScopedLock lock l = None \<longleftrightarrow> held l" using lock_held [of l] lock_free [of l] by (cases "held l") (auto simp: newScopedLock_def)
  ultimately show ?thesis using one held by simp
qed

end

interpretation mutex: exclusive_lock Mutex_lock Mutex_unlock "\<lambda>l. l"
  by unfold_locales (auto simp: Mutex_lock_def Mutex_unlock_def)

interpretation spin: exclusive_lock Spinlock_lock Spinlock_unlock "\<lambda>l. l"
  by unfold_locales (auto simp: Spinlock_lock_def Spinlock_unlock_def)

interpretation cas: exclusive_lock CASLock_lock CASLock_unlock "\<lambda>l. l"
  by unfold_locales (auto simp: CASLock_lock_def CASLock_unlock_def test_and_set_def)

section \<open>Guards of a read-write lock\<close>

text \<open>A thread holds one guard of the lock at a time: it makes or locks one when none of its guards is locked.\<close>

definition idle_thread :: "(nat \<rightharpoonup> guard) \<Rightarrow> nat \<Rightarrow> bool" where
  "idle_thread gs t \<longleftrightarrow> (\<forall>i g. gs i = Some g \<longrightarrow> gd_thread g = t \<longrightarrow> \<not> gd_locked g)"

inductive rw_step :: "bool \<Rightarrow> rwlock \<times> (nat \<rightharpoonup> guard) \<Rightarrow> rwlock \<times> (nat \<rightharpoonup> guard) \<Rightarrow> bool" for detects where
  rw_read: "gs i = None \<Longrightarrow> idle_thread gs t \<Longrightarrow> newReadScopedLock detects t l = Some (g, l') \<Longrightarrow> rw_step detects (l, gs) (l', gs(i \<mapsto> g))"
| rw_write: "gs i = None \<Longrightarrow> idle_thread gs t \<Longrightarrow> newWriteScopedLock detects t l = Some (g, l') \<Longrightarrow> rw_step detects (l, gs) (l', gs(i \<mapsto> g))"
| rw_lock: "gs i = Some g \<Longrightarrow> idle_thread gs (gd_thread g) \<Longrightarrow> RWScopedLock_lock detects g l = Some (g', l') \<Longrightarrow>
    rw_step detects (l, gs) (l', gs(i \<mapsto> g'))"
| rw_unlock: "gs i = Some g \<Longrightarrow> RWScopedLock_unlock g l = Inr (g', l') \<Longrightarrow> rw_step detects (l, gs) (l', gs(i \<mapsto> g'))"
| rw_destroy: "gs i = Some g \<Longrightarrow> RWScopedLock_unlock g l = Inr (g', l') \<Longrightarrow> rw_step detects (l, gs) (l', gs(i := None))"

definition locked_as :: "bool \<Rightarrow> (nat \<rightharpoonup> guard) \<Rightarrow> nat set" where
  "locked_as w gs = {i. \<exists>g. gs i = Some g \<and> gd_locked g \<and> gd_write g = w}"

definition rw_ok :: "rwlock \<times> (nat \<rightharpoonup> guard) \<Rightarrow> bool" where
  "rw_ok = (\<lambda>(l, gs). finite (locked_as False gs) \<and> rw_readers l = card (locked_as False gs) \<and>
     (case rw_writer l of
        None \<Rightarrow> locked_as True gs = {}
      | Some t \<Rightarrow> locked_as False gs = {} \<and> (\<exists>i g. locked_as True gs = {i} \<and> gs i = Some g \<and> gd_thread g = t)))"

definition rw_free :: rwlock where
  "rw_free = \<lparr>rw_writer = None, rw_readers = 0\<rparr>"

lemma locked_as_upd:
  "locked_as w (gs(i \<mapsto> g)) = (if gd_locked g \<and> gd_write g = w then insert i (locked_as w gs) else locked_as w gs - {i})"
  by (auto simp: locked_as_def)

lemma locked_as_del: "locked_as w (gs(i := None)) = locked_as w gs - {i}"
  by (auto simp: locked_as_def)

lemma locked_as_fresh: "gs i = None \<or> gs i = Some g \<and> \<not> gd_locked g \<Longrightarrow> i \<notin> locked_as w gs"
  by (auto simp: locked_as_def)

text \<open>An idle thread that acquires the lock finds it free for what it wants.\<close>

lemma rw_ok_acquire:
  assumes ok: "rw_ok (l, gs)" and idle: "idle_thread gs (gd_thread g)" and acq: "rw_acquire detects g l = Some l'"
    and fresh: "i \<notin> locked_as True gs" "i \<notin> locked_as False gs" and g: "gd_locked g'" "gd_write g' = gd_write g" "gd_thread g' = gd_thread g"
  shows "rw_ok (l', gs(i \<mapsto> g'))"
proof -
  have "rw_writer l \<noteq> Some (gd_thread g)"
  proof
    assume "rw_writer l = Some (gd_thread g)"
    then obtain j h where jh: "locked_as True gs = {j}" "gs j = Some h" "gd_thread h = gd_thread g" using ok by (auto simp: rw_ok_def)
    then have "j \<in> locked_as True gs" by simp
    then have "gd_locked h" using jh by (simp add: locked_as_def)
    then show False using jh idle by (auto simp: idle_thread_def)
  qed
  then have "rw_writer l = None" using acq by (auto simp: rw_acquire_def RWMutex_wrlock_def RWMutex_rdlock_def split: if_splits)
  then show ?thesis using ok acq fresh g
    by (auto simp: rw_ok_def rw_acquire_def RWMutex_wrlock_def RWMutex_rdlock_def locked_as_upd split: if_splits)
qed

lemma rw_ok_release:
  assumes ok: "rw_ok (l, gs)" and g: "gs i = Some g" "gd_locked g"
  shows "\<exists>l'. RWMutex_unlock (gd_thread g) l = Inr l' \<and> (\<forall>gs'. (\<forall>w. locked_as w gs' = locked_as w gs - {i}) \<longrightarrow> rw_ok (l', gs'))"
proof (cases "gd_write g")
  case True
  then have "i \<in> locked_as True gs" using g by (simp add: locked_as_def)
  then have w: "rw_writer l = Some (gd_thread g)" "locked_as True gs = {i}" "locked_as False gs = {}"
    using ok g by (auto simp: rw_ok_def split: option.splits)
  show ?thesis
    by (rule exI [of _ "l\<lparr>rw_writer := None\<rparr>"]) (use w ok in \<open>simp_all add: RWMutex_unlock_def rw_ok_def\<close>)
next
  case False
  then have i: "i \<in> locked_as False gs" using g by (simp add: locked_as_def)
  then have w: "rw_writer l = None" "locked_as True gs = {}" "finite (locked_as False gs)" "rw_readers l = card (locked_as False gs)"
    using ok by (auto simp: rw_ok_def split: option.splits)
  moreover have "0 < rw_readers l" using w i by (auto simp: card_gt_0_iff)
  ultimately show ?thesis using i
    by (intro exI [of _ "l\<lparr>rw_readers := rw_readers l - 1\<rparr>"]) (simp_all add: RWMutex_unlock_def rw_ok_def)
qed

lemma rw_unlock_unlocked:
  assumes a: "rw_ok (l, gs)" "gs i = Some g" "\<not> gd_locked g" and l: "\<And>w. locked_as w gs' = locked_as w gs - {i}"
    and e: "\<And>j. j \<noteq> i \<Longrightarrow> gs' j = gs j"
  shows "rw_ok (l, gs')"
proof -
  have i: "i \<notin> locked_as w gs" for w using a by (simp add: locked_as_fresh)
  then have l: "locked_as w gs' = locked_as w gs" for w using l by simp
  have "gs' j = gs j" if "locked_as True gs = {j}" for j using e [of j] i [of True] that by auto
  then show ?thesis using a(1) by (auto simp: rw_ok_def l split: option.splits)
qed

lemma rw_ok_unlock:
  assumes "rw_ok (l, gs)" "gs i = Some g" "RWScopedLock_unlock g l = Inr (g', l')"
  shows "rw_ok (l', gs(i \<mapsto> g'))" and "rw_ok (l', gs(i := None))"
proof -
  have *: "\<not> gd_locked g'" using assms(3) by (auto simp: RWScopedLock_unlock_def bindR_Inr_iff split: if_splits)
  have "rw_ok (l', gs')" if "gs' = gs(i \<mapsto> g') \<or> gs' = gs(i := None)" for gs'
  proof (cases "gd_locked g")
    case True
    obtain l'' where l'': "RWMutex_unlock (gd_thread g) l = Inr l''"
      and ok: "\<forall>gs'. (\<forall>w. locked_as w gs' = locked_as w gs - {i}) \<longrightarrow> rw_ok (l'', gs')"
      using rw_ok_release [OF assms(1,2) True] by blast
    have "l' = l''" using l'' True assms(3) by (simp add: RWScopedLock_unlock_def)
    moreover have "locked_as w gs' = locked_as w gs - {i}" for w using that * by (auto simp: locked_as_upd locked_as_del)
    ultimately show ?thesis using ok by simp
  next
    case False
    then have "l' = l" using assms(3) by (simp add: RWScopedLock_unlock_def)
    then show ?thesis using rw_unlock_unlocked [OF assms(1,2) False, of gs'] that * by (auto simp: locked_as_upd locked_as_del)
  qed
  then show "rw_ok (l', gs(i \<mapsto> g'))" and "rw_ok (l', gs(i := None))" by simp_all
qed

lemma rw_step_ok: "rw_step detects c c' \<Longrightarrow> rw_ok c \<Longrightarrow> rw_ok c'"
proof (induction rule: rw_step.induct)
  case (rw_read gs i t l g l')
  then have g: "g = \<lparr>gd_thread = t, gd_write = False, gd_locked = True\<rparr>" and "rw_acquire detects g l = Some l'"
    by (auto simp: newReadScopedLock_def rw_acquire_def)
  then show ?case using rw_read by (intro rw_ok_acquire [of l gs g detects l' i g]) (simp_all add: locked_as_fresh)
next
  case (rw_write gs i t l g l')
  then have g: "g = \<lparr>gd_thread = t, gd_write = True, gd_locked = True\<rparr>" and "rw_acquire detects g l = Some l'"
    by (auto simp: newWriteScopedLock_def rw_acquire_def)
  then show ?case using rw_write by (intro rw_ok_acquire [of l gs g detects l' i g]) (simp_all add: locked_as_fresh)
next
  case (rw_lock gs i g l g' l')
  then have "\<not> gd_locked g" by (auto simp: idle_thread_def)
  then have "rw_acquire detects g l = Some l'" and "g' = g\<lparr>gd_locked := True\<rparr>" using rw_lock(3) by (auto simp: RWScopedLock_lock_def)
  then show ?case using rw_lock \<open>\<not> gd_locked g\<close>
    by (intro rw_ok_acquire [of l gs g detects l' i g']) (auto intro!: locked_as_fresh)
qed (simp_all add: rw_ok_unlock)

lemma rw_reachable_ok: "(rw_step detects)\<^sup>*\<^sup>* (rw_free, Map.empty) c \<Longrightarrow> rw_ok c"
proof (induction rule: rtranclp_induct)
  case base
  then show ?case by (simp add: rw_ok_def rw_free_def locked_as_def)
qed (blast intro: rw_step_ok)

lemma rw_ok_excludes:
  assumes "rw_ok (l, gs)" "gs i = Some g" "gs j = Some h" "gd_locked g" "gd_locked h" "gd_write g"
  shows "j = i"
proof -
  have "i \<in> locked_as True gs" using assms by (simp add: locked_as_def)
  moreover have "j \<in> locked_as (gd_write h) gs" using assms by (simp add: locked_as_def)
  ultimately show ?thesis using assms(1) by (cases "gd_write h") (auto simp: rw_ok_def split: option.splits)
qed

lemma rw_ok_unlock_defined: "rw_ok (l, gs) \<Longrightarrow> gs i = Some g \<Longrightarrow> \<exists>g' l'. RWScopedLock_unlock g l = Inr (g', l')"
  using rw_ok_release [of l gs i g] by (cases "gd_locked g") (auto simp: RWScopedLock_unlock_def)

section \<open>The start of a thread\<close>

text \<open>The two threads interleave: the new one runs, its maker waits in the constructor and may destroy the object afterwards. No
  signal interrupts the wait.\<close>

inductive start_step :: "'cb thread_state res \<Rightarrow> 'cb thread_state res \<Rightarrow> bool" where
  start_prepare: "ts_run s = Run_start \<Longrightarrow> start_step (Inr s) (run_prepare tid s)"
| start_notify: "ts_run s = Run_notify cb \<Longrightarrow> start_step (Inr s) (run_notify cb s)"
| start_call: "ts_run s = Run_cb cb \<Longrightarrow> start_step (Inr s) (run_call cb s)"
| start_wait: "ts_maker s = In_constructor \<Longrightarrow> constructor_wait False s = Some (None, s') \<Longrightarrow> start_step (Inr s) (Inr s')"
| start_throw: "ts_maker s = In_constructor \<Longrightarrow> constructor_wait False s = Some (Some e, s') \<Longrightarrow> start_step (Inr s) (Inl e)"
| start_destroy: "ts_maker s = Constructed \<Longrightarrow> start_step (Inr s) (Inr (destroy_thread s))"

text \<open>What holds at each point of the new thread: until it has notified, the object is there and its maker waits.\<close>

definition start_ok :: "'cb \<Rightarrow> 'cb thread_state \<Rightarrow> bool" where
  "start_ok cb s \<longleftrightarrow>
     (case ts_run s of
        Run_start \<Rightarrow> ts_maker s = In_constructor \<and> (\<exists>th. ts_obj s = Some th \<and> th_cb th = Some cb \<and> th_sem th = 0) \<and> ts_called s = []
      | Run_notify c \<Rightarrow> c = Some cb \<and> ts_maker s = In_constructor \<and>
          (\<exists>th. ts_obj s = Some th \<and> th_cb th = None \<and> th_id th \<noteq> None \<and> th_sem th = 0) \<and> ts_called s = []
      | Run_cb c \<Rightarrow> c = Some cb \<and> ts_called s = []
      | Run_end \<Rightarrow> ts_called s = [cb]) \<and>
     (case ts_maker s of
        In_constructor \<Rightarrow> ts_run s \<in> {Run_start, Run_notify (Some cb)} \<or>
          (\<exists>th. ts_obj s = Some th \<and> th_cb th = None \<and> th_id th \<noteq> None \<and> th_sem th = 1)
      | Constructed \<Rightarrow> (\<exists>th. ts_obj s = Some th \<and> th_cb th = None \<and> th_id th \<noteq> None \<and> th_sem th = 0)
      | Destroyed \<Rightarrow> ts_obj s = None)"

lemma start_step_ok:
  "start_step c c' \<Longrightarrow> c = Inr s \<Longrightarrow> start_ok cb s \<Longrightarrow> \<exists>s'. c' = Inr s' \<and> start_ok cb s'"
proof (induction rule: start_step.induct)
  case (start_prepare s' tid)
  then show ?case by (auto simp: start_ok_def run_prepare_def split: maker_pc.splits)
next
  case (start_notify s' c)
  then show ?case by (auto simp: start_ok_def run_notify_def Semaphore_notify_def SEM_VALUE_MAX_def)
next
  case (start_call s' c)
  then show ?case by (auto simp: start_ok_def run_call_def split: maker_pc.splits)
next
  case (start_wait s' s'')
  then show ?case by (auto simp: start_ok_def constructor_wait_def Semaphore_wait_def split: run_pc.splits option.splits sum.splits nat.splits)
next
  case (start_throw s' e s'')
  then show ?case by (auto simp: start_ok_def constructor_wait_def Semaphore_wait_def split: run_pc.splits option.splits sum.splits nat.splits)
next
  case (start_destroy s')
  then show ?case by (auto simp: start_ok_def destroy_thread_def split: run_pc.splits)
qed

lemma start_reachable_ok:
  assumes "newThread 0 cb name pt = Inr s0" "start_step\<^sup>*\<^sup>* (Inr s0) c"
  shows "\<exists>s. c = Inr s \<and> start_ok cb s"
  using assms(2)
proof (induction rule: rtranclp_induct)
  case base
  then show ?case using assms(1) by (auto simp: start_ok_def newThread_def)
qed (metis start_step_ok)

lemma start_not_stuck:
  assumes ok: "start_ok cb s" and busy: "ts_run s \<noteq> Run_end \<or> ts_maker s = In_constructor"
  shows "\<exists>c. start_step (Inr s) c"
proof (cases "ts_run s")
  case Run_end
  then have "ts_maker s = In_constructor" using busy by simp
  moreover from this obtain th where "ts_obj s = Some th" "th_sem th = 1" using ok Run_end by (auto simp: start_ok_def)
  then have "\<exists>s'. constructor_wait False s = Some (None, s')" by (simp add: constructor_wait_def Semaphore_wait_def)
  ultimately show ?thesis using start_wait by blast
qed (use start_prepare start_notify start_call in blast)+

section \<open>Properties\<close>

text \<open>C23: under any interleaving of constructors, \<open>lock\<close>, \<open>unlock\<close> and destructors of the scoped guards of one \<open>Mutex\<close>, \<open>Spinlock\<close> or
  \<open>CASLock\<close>, at most one guard holds the lock; no guard ever releases a lock that is not held; and a new guard blocks exactly while
  another one holds the lock.
\<close>

theorem scoped_locks_exclusive:
  assumes "(lock, unlock) \<in> {(Mutex_lock, Mutex_unlock), (Spinlock_lock, Spinlock_unlock), (CASLock_lock, CASLock_unlock)}"
    and "(excl_step lock unlock)\<^sup>*\<^sup>* (False, Map.empty) (l, gs)"
  shows "(gs i = Some True \<longrightarrow> gs j = Some True \<longrightarrow> i = j) \<and> (gs i = Some b \<longrightarrow> (\<exists>r. ScopedLock_unlock unlock b l = Inr r)) \<and>
    (newScopedLock lock l = None \<longleftrightarrow> (\<exists>i. gs i = Some True))"
  using assms mutex.exclusion [of False l gs i j b] spin.exclusion [of False l gs i j b] cas.exclusion [of False l gs i j b] by auto

theorem scoped_locks_exclusive_witness:
  "(\<exists>r. ScopedLock_unlock Mutex_unlock True True = Inr r) \<and> newScopedLock Mutex_lock True = None"
proof -
  have "excl_step Mutex_lock Mutex_unlock (False, Map.empty) (True, [7 \<mapsto> True])"
    by (rule excl_new) (simp_all add: newScopedLock_def Mutex_lock_def)
  then have "(excl_step Mutex_lock Mutex_unlock)\<^sup>*\<^sup>* (False, Map.empty) (True, [7 \<mapsto> True])" ..
  from scoped_locks_exclusive [of Mutex_lock Mutex_unlock True "[7 \<mapsto> True]" 7 7 True, OF _ this] show ?thesis by auto
qed

text \<open>C24: while every thread uses one guard of a \<open>RWMutex\<close> at a time, a locked write guard excludes every other locked guard, and every guard
  may be unlocked and destroyed: the lock is then held by the guard, in the way the guard has it.
\<close>

theorem rw_guards_exclude:
  assumes "(rw_step detects)\<^sup>*\<^sup>* (rw_free, Map.empty) (l, gs)" and "gs i = Some g"
  shows "(\<exists>g' l'. RWScopedLock_unlock g l = Inr (g', l')) \<and>
    (gd_locked g \<longrightarrow> rw_writer l = (if gd_write g then Some (gd_thread g) else None)) \<and>
    (gs j = Some h \<longrightarrow> gd_locked g \<longrightarrow> gd_locked h \<longrightarrow> gd_write g \<longrightarrow> j = i)"
proof -
  have ok: "rw_ok (l, gs)" by (rule rw_reachable_ok) (rule assms(1))
  have "rw_writer l = (if gd_write g then Some (gd_thread g) else None)" if "gd_locked g"
  proof -
    have "i \<in> locked_as (gd_write g) gs" using assms(2) that by (simp add: locked_as_def)
    then show ?thesis using ok assms(2) by (cases "gd_write g") (auto simp: rw_ok_def split: option.splits)
  qed
  then show ?thesis using rw_ok_unlock_defined [OF ok assms(2)] rw_ok_excludes [OF ok assms(2)] by blast
qed

theorem rw_guards_exclude_witness:
  "\<exists>g' l'. RWScopedLock_unlock \<lparr>gd_thread = 3, gd_write = True, gd_locked = True\<rparr> \<lparr>rw_writer = Some 3, rw_readers = 0\<rparr> = Inr (g', l')"
proof -
  let ?g = "\<lparr>gd_thread = 3, gd_write = True, gd_locked = True\<rparr>" and ?l = "\<lparr>rw_writer = Some 3, rw_readers = 0\<rparr>"
  have "rw_step True (rw_free, Map.empty) (?l, [0 \<mapsto> ?g])"
    by (rule rw_write [where t = 3]) (simp_all add: idle_thread_def newWriteScopedLock_def RWMutex_wrlock_def rw_free_def)
  then have "(rw_step True)\<^sup>*\<^sup>* (rw_free, Map.empty) (?l, [0 \<mapsto> ?g])" ..
  from rw_guards_exclude [OF this, of 0 ?g] show ?thesis by simp
qed



text \<open>Results of \<open>pthread_rwlock_wrlock\<close> are not looked at: a second write guard of the same thread is refused, believes it holds the lock, and
  its release is that of the outer guard, so that another thread writes beside it.\<close>

lemma rw_nested_guard_flaw:
  "\<exists>g l h l'. newWriteScopedLock True 1 rw_free = Some (g, l) \<and> newWriteScopedLock True 1 l = Some (h, l) \<and>
     RWScopedLock_unlock h l = Inr (h\<lparr>gd_locked := False\<rparr>, rw_free) \<and> gd_locked g \<and> newWriteScopedLock True 2 rw_free \<noteq> None \<and>
     RWScopedLock_unlock g rw_free = Inl (Undefined ''pthread_rwlock_unlock'')"
  by (simp add: newWriteScopedLock_def RWMutex_wrlock_def RWScopedLock_unlock_def RWMutex_unlock_def rw_free_def)

text \<open>After the maker destroyed the object, \<open>SetName\<close> of the running thread writes to it.\<close>

lemma SetName_after_destroy:
  "ts_t_thread s \<Longrightarrow> Thread_SetName name (destroy_thread s) = Inl (Bad_access ''t_thread'')"
  by (simp add: Thread_SetName_def destroy_thread_def)

end
