(* ===== verification/Lamb_FileUtil.thy ===== *)
theory Lamb_FileUtil
  imports Lamb_HttpClient
begin

unbundle bit_operations_syntax

text \<open>
  The file functions of \<open>lamb/util.cc\<close> (\<open>FSUtil\<close>) and its conversions (\<open>TypeUtil\<close>, wide strings, backtraces). The file
  system is a state \<open>'fs\<close>; the calls of the kernel are the argument \<open>ops\<close>, a call that changes the file system returns whether it has
  succeeded and the new state.
\<close>

section \<open>Files and directories\<close>

record 'fs fs_ops =
  fo_access :: "'fs \<Rightarrow> string \<Rightarrow> bool"
  fo_lstat :: "'fs \<Rightarrow> string \<Rightarrow> u32 option"
  fo_opendir :: "'fs \<Rightarrow> string \<Rightarrow> string list option"
  fo_realpath :: "'fs \<Rightarrow> string \<Rightarrow> string option"
  fo_getline :: "'fs \<Rightarrow> string \<Rightarrow> string option"
  fo_mkdir :: "string \<Rightarrow> 'fs \<Rightarrow> bool \<times> 'fs"
  fo_unlink :: "string \<Rightarrow> 'fs \<Rightarrow> bool \<times> 'fs"
  fo_rmdir :: "string \<Rightarrow> 'fs \<Rightarrow> bool \<times> 'fs"
  fo_rename :: "string \<Rightarrow> string \<Rightarrow> 'fs \<Rightarrow> bool \<times> 'fs"
  fo_symlink :: "string \<Rightarrow> string \<Rightarrow> 'fs \<Rightarrow> bool \<times> 'fs"
  fo_open_write :: "string \<Rightarrow> 'fs \<Rightarrow> bool \<times> 'fs"

definition make_dir :: "'fs fs_ops \<Rightarrow> string \<Rightarrow> 'fs \<Rightarrow> bool \<times> 'fs" where
  "make_dir ops dirname fs = (if fo_access ops fs dirname then (True, fs) else fo_mkdir ops dirname fs)"

text \<open>\<open>strchr (path + i, '/')\<close>, as an index into the text.\<close>

definition strchr_slash :: "string \<Rightarrow> nat \<Rightarrow> nat option" where
  "strchr_slash path i = str_find path CHR ''/'' i"

text \<open>The loop of \<open>Mkdir\<close> over the slashes: it cuts the text at each, makes that directory, and restores the slash.\<close>

function mkdir_loop :: "'fs fs_ops \<Rightarrow> string \<Rightarrow> nat option \<Rightarrow> 'fs \<Rightarrow> bool \<times> 'fs" where
  "mkdir_loop ops path None fs = (True, fs)"
| "mkdir_loop ops path (Some i) fs =
     (let (ok, fs') = make_dir ops (take i path) fs in
      if ok then mkdir_loop ops path (strchr_slash path (Suc i)) fs' else (False, fs'))"
  by pat_completeness auto

termination
proof (relation "measure (\<lambda>(ops, path, ptr, fs). case ptr of None \<Rightarrow> 0 | Some i \<Rightarrow> Suc (length path - i))", goal_cases)
  case (2 ops path i fs x ok fs')
  then show ?case by (auto simp: strchr_slash_def split: option.split dest!: str_find_bounds)
qed simp

text \<open>The copy of an empty name has one byte: \<open>path + 1\<close> is behind it.\<close>

definition Mkdir :: "'fs fs_ops \<Rightarrow> string \<Rightarrow> 'fs \<Rightarrow> (bool \<times> 'fs) res" where
  "Mkdir ops dirname fs =
     (let path = c_str dirname in
      if fo_lstat ops fs path \<noteq> None then Inr (True, fs)
      else if path = [] then Inl (Bad_access ''path + 1'')
      else let (ok, fs) = mkdir_loop ops path (strchr_slash path 1) fs in
           if ok then Inr (make_dir ops path fs) else Inr (False, fs))"

definition S_IFDIR :: u32 where "S_IFDIR = 0x4000"

definition Unlink :: "'fs fs_ops \<Rightarrow> string \<Rightarrow> bool \<Rightarrow> 'fs \<Rightarrow> bool \<times> 'fs" where
  "Unlink ops filename exist fs =
     (if \<not> exist \<and> fo_lstat ops fs (c_str filename) = None then (True, fs) else fo_unlink ops (c_str filename) fs)"

text \<open>\<open>Rm\<close> goes as deep as \<open>fuel\<close>; \<open>None\<close> if that does not do. The result of the last entry is what the loop returns.\<close>

fun Rm :: "'fs fs_ops \<Rightarrow> nat \<Rightarrow> string \<Rightarrow> 'fs \<Rightarrow> (bool \<times> 'fs) option"
  and rm_entries :: "'fs fs_ops \<Rightarrow> nat \<Rightarrow> string \<Rightarrow> string list \<Rightarrow> bool \<Rightarrow> 'fs \<Rightarrow> (bool \<times> 'fs) option" where
  "Rm ops fuel path fs =
     (case fo_lstat ops fs (c_str path) of
        None \<Rightarrow> Some (True, fs)
      | Some st_mode \<Rightarrow>
          if st_mode AND S_IFDIR = 0 then Some (Unlink ops path False fs)
          else case fo_opendir ops fs (c_str path) of
                 None \<Rightarrow> Some (False, fs)
               | Some names \<Rightarrow> map_option (\<lambda>(ret, fs). let (ok, fs) = fo_rmdir ops (c_str path) fs in (if ok then ret else False, fs))
                   (rm_entries ops fuel path names True fs))"
| "rm_entries ops fuel path [] ret fs = Some (ret, fs)"
| "rm_entries ops fuel path (name # names) ret fs =
     (if name = ''.'' \<or> name = ''..'' then rm_entries ops fuel path names ret fs
      else case fuel of
             0 \<Rightarrow> None
           | Suc n \<Rightarrow> (case Rm ops n (path @ ''/'' @ name) fs of
               None \<Rightarrow> None
             | Some (ret, fs) \<Rightarrow> rm_entries ops fuel path names ret fs))"

definition Mv :: "'fs fs_ops \<Rightarrow> nat \<Rightarrow> string \<Rightarrow> string \<Rightarrow> 'fs \<Rightarrow> (bool \<times> 'fs) option" where
  "Mv ops fuel src dst fs =
     map_option (\<lambda>(ok, fs). if \<not> ok then (False, fs) else fo_rename ops (c_str src) (c_str dst) fs) (Rm ops fuel dst fs)"

definition Symlink :: "'fs fs_ops \<Rightarrow> nat \<Rightarrow> string \<Rightarrow> string \<Rightarrow> 'fs \<Rightarrow> (bool \<times> 'fs) option" where
  "Symlink ops fuel src dst fs =
     map_option (\<lambda>(ok, fs). if \<not> ok then (False, fs) else fo_symlink ops (c_str src) (c_str dst) fs) (Rm ops fuel dst fs)"

definition Realpath :: "'fs fs_ops \<Rightarrow> string \<Rightarrow> string \<Rightarrow> 'fs \<Rightarrow> bool \<times> string" where
  "Realpath ops path rpath fs =
     (if fo_lstat ops fs (c_str path) = None then (False, rpath)
      else case fo_realpath ops fs (c_str path) of None \<Rightarrow> (False, rpath) | Some p \<Rightarrow> (True, p))"

definition OpenForWrite :: "'fs fs_ops \<Rightarrow> string \<Rightarrow> 'fs \<Rightarrow> (bool \<times> 'fs) res" where
  "OpenForWrite ops filename fs =
     (let (opened, fs) = fo_open_write ops (c_str filename) fs in
      if opened then Inr (True, fs)
      else bindR (Mkdir ops (Dirname filename) fs) (\<lambda>(made, fs). Inr (fo_open_write ops (c_str filename) fs)))"

text \<open>\<open>atoi\<close>: blanks, a sign, digits; a number that does not fit is undefined.\<close>

definition signed_digits :: "string \<Rightarrow> bool \<times> nat" where
  "signed_digits str =
     (case dropWhile is_space (c_str str) of
        [] \<Rightarrow> (False, 0)
      | c # cs \<Rightarrow> if c = CHR ''-'' then (True, digits_val (takeWhile is_digit cs))
                 else if c = CHR ''+'' then (False, digits_val (takeWhile is_digit cs))
                 else (False, digits_val (takeWhile is_digit (c # cs))))"

definition c_atoi :: "string \<Rightarrow> int res" where
  "c_atoi str =
     (let (neg, v) = signed_digits str; n = (if neg then - int v else int v) in
      if - (2 ^ 31) \<le> n \<and> n < 2 ^ 31 then Inr n else Inl (Undefined ''atoi''))"

text \<open>\<open>kill (pid, 0)\<close> says whether there is a process the caller may signal.\<close>

definition IsRunningPidfile :: "'fs fs_ops \<Rightarrow> (int \<Rightarrow> bool) \<Rightarrow> string \<Rightarrow> 'fs \<Rightarrow> bool res" where
  "IsRunningPidfile ops kill pidfile fs =
     (if fo_lstat ops fs (c_str pidfile) = None then Inr False
      else case fo_getline ops fs (c_str pidfile) of
             None \<Rightarrow> Inr False
           | Some line \<Rightarrow> if line = [] then Inr False
               else bindR (c_atoi line) (\<lambda>pid. Inr (if pid \<le> 1 then False else kill pid)))"

section \<open>Conversions\<close>

definition strtoull :: "string \<Rightarrow> u64" where
  "strtoull str =
     (let (neg, v) = signed_digits str in
      if 2 ^ 64 \<le> v then - 1 else if neg then - of_nat v else of_nat v)"

definition TypeUtil_ToChar :: "string \<Rightarrow> int" where
  "TypeUtil_ToChar str = (case str of [] \<Rightarrow> 0 | c # _ \<Rightarrow> sint (of_char c :: u8))"

text \<open>\<open>strtoull\<close> is unsigned; its result is converted to \<open>int64_t\<close>.\<close>

definition TypeUtil_Atoi :: "string \<Rightarrow> int" where
  "TypeUtil_Atoi str = (if str = [] then 0 else sint (strtoull str))"

text \<open>The functions on a pointer, which may be null.\<close>

definition TypeUtil_ToChar_ptr :: "string option \<Rightarrow> int" where
  "TypeUtil_ToChar_ptr str = (case str of None \<Rightarrow> 0 | Some s \<Rightarrow> (case c_str s of [] \<Rightarrow> 0 | c # _ \<Rightarrow> sint (of_char c :: u8)))"

definition TypeUtil_Atoi_ptr :: "string option \<Rightarrow> int" where
  "TypeUtil_Atoi_ptr str = (case str of None \<Rightarrow> 0 | Some s \<Rightarrow> sint (strtoull s))"

text \<open>\<open>WStringToString\<close>: the text and the locale of the process afterwards. \<open>wcstombs\<close> fails on what the locale has no character for;
  the size is then \<open>(size_t) -1 + 1 = 0\<close>, and the text is read from an array without elements. \<open>setlocale (LC_ALL, "")\<close> returns the name of
  the locale it has just set, the one of the environment.\<close>

definition WStringToString :: "string option \<Rightarrow> ('w list \<Rightarrow> string option) \<Rightarrow> 'w list \<Rightarrow> string \<Rightarrow> (string \<times> string) res" where
  "WStringToString env_locale wcstombs ws loc =
     (case env_locale of
        None \<Rightarrow> Inl (Logic_error ''basic_string: construction from null'')
      | Some str_locale \<Rightarrow> (case wcstombs ws of
          None \<Rightarrow> Inl (Bad_access ''ch_dest'')
        | Some ch_dest \<Rightarrow> Inr (c_str ch_dest, str_locale)))"

definition StringToWString :: "string option \<Rightarrow> (string \<Rightarrow> 'w list option) \<Rightarrow> string \<Rightarrow> string \<Rightarrow> ('w list \<times> string) res" where
  "StringToWString env_locale mbstowcs s loc =
     (case env_locale of
        None \<Rightarrow> Inl (Logic_error ''basic_string: construction from null'')
      | Some str_locale \<Rightarrow> (case mbstowcs (c_str s) of
          None \<Rightarrow> Inl (Bad_access ''wch_dest'')
        | Some wch_dest \<Rightarrow> Inr (wch_dest, str_locale)))"

text \<open>The frames of the stack and their texts are given; \<open>backtrace_symbols\<close> may fail.\<close>

definition Backtrace :: "'a list \<Rightarrow> ('a list \<Rightarrow> string list option) \<Rightarrow> string list \<Rightarrow> nat \<Rightarrow> nat \<Rightarrow> string list" where
  "Backtrace frames symbols bt size_arg skip = (case symbols (take size_arg frames) of None \<Rightarrow> bt | Some strings \<Rightarrow> bt @ drop skip strings)"

definition BacktraceToString :: "'a list \<Rightarrow> ('a list \<Rightarrow> string list option) \<Rightarrow> nat \<Rightarrow> nat \<Rightarrow> string \<Rightarrow> string" where
  "BacktraceToString frames symbols size_arg skip prefix =
     concat (map (\<lambda>b. prefix @ b @ [CHR 0x0A]) (Backtrace frames symbols [] size_arg skip))"

section \<open>What is relied on of the file system\<close>

text \<open>A name of a directory entry, the path of an entry, and the paths below one.\<close>

definition real_name :: "string \<Rightarrow> bool" where
  "real_name c \<longleftrightarrow> c \<noteq> [] \<and> c \<noteq> ''.'' \<and> c \<noteq> ''..'' \<and> CHR ''/'' \<notin> set c \<and> CHR 0x00 \<notin> set c"

definition is_dir :: "u32 \<Rightarrow> bool" where
  "is_dir m \<longleftrightarrow> m AND 0xF000 = S_IFDIR"

inductive below :: "string \<Rightarrow> string \<Rightarrow> bool" for p where
  below_refl: "below p p"
| below_entry: "below p q \<Longrightarrow> real_name c \<Longrightarrow> below p (q @ ''/'' @ c)"

text \<open>What a file system shows under the paths that name its files, \<open>N\<close>, and what the calls of a process that may change it do: a path is found as it
  is, a directory lists each of its entries once, files and empty directories can be removed, and entries are in directories.\<close>

definition removable :: "'fs fs_ops \<Rightarrow> ('fs \<Rightarrow> string \<rightharpoonup> u32) \<Rightarrow> bool" where
  "removable ops N \<longleftrightarrow>
     (\<forall>fs p m. N fs p = Some m \<longrightarrow> fo_lstat ops fs p = Some m) \<and>
     (\<forall>fs p m. N fs p = Some m \<longrightarrow> is_dir m \<longrightarrow>
        (\<exists>names. fo_opendir ops fs p = Some names \<and> distinct names \<and> set names - {''.'', ''..''} = {c. real_name c \<and> N fs (p @ ''/'' @ c) \<noteq> None})) \<and>
     (\<forall>fs p m. N fs p = Some m \<longrightarrow> \<not> is_dir m \<longrightarrow> (\<exists>fs'. fo_unlink ops p fs = (True, fs') \<and> N fs' = (N fs)(p := None))) \<and>
     (\<forall>fs p m. N fs p = Some m \<longrightarrow> is_dir m \<longrightarrow> (\<forall>c. real_name c \<longrightarrow> N fs (p @ ''/'' @ c) = None) \<longrightarrow>
        (\<exists>fs'. fo_rmdir ops p fs = (True, fs') \<and> N fs' = (N fs)(p := None))) \<and>
     (\<forall>fs p c m. N fs (p @ ''/'' @ c) = Some m \<longrightarrow> p \<noteq> [] \<longrightarrow> real_name c \<longrightarrow> (\<exists>d. N fs p = Some d \<and> is_dir d))"

text \<open>The tree at a path is no deeper than \<open>n\<close>, and what has the bit of a directory is one (a socket and a block device have it, too).\<close>

fun fits :: "(string \<rightharpoonup> u32) \<Rightarrow> nat \<Rightarrow> string \<Rightarrow> bool" where
  "fits N n p \<longleftrightarrow> (\<forall>m. N p = Some m \<longrightarrow> m AND S_IFDIR \<noteq> 0 \<longrightarrow> is_dir m \<and>
     (\<forall>c. real_name c \<longrightarrow> N (p @ ''/'' @ c) \<noteq> None \<longrightarrow> (case n of 0 \<Rightarrow> False | Suc k \<Rightarrow> fits N k (p @ ''/'' @ c))))"

declare fits.simps [simp del]

definition without :: "string set \<Rightarrow> (string \<rightharpoonup> u32) \<Rightarrow> (string \<rightharpoonup> u32)" where
  "without P N = (\<lambda>q. if \<exists>p \<in> P. below p q then None else N q)"

section \<open>Removing a tree\<close>

lemma below_trans: "below p q \<Longrightarrow> below r p \<Longrightarrow> below r q"
  by (induction rule: below.induct) (auto intro: below_entry [simplified])

lemma below_prefix: "below p q \<Longrightarrow> \<exists>s. q = p @ s \<and> takeWhile (\<lambda>x. x \<noteq> CHR ''/'') s = []"
proof (induction rule: below.induct)
  case (below_entry q c)
  then obtain s where "q = p @ s" "takeWhile (\<lambda>x. x \<noteq> CHR ''/'') s = []" by blast
  then show ?case by (cases s) (auto split: if_splits)
qed simp

lemma below_step: "below p q \<longleftrightarrow> q = p \<or> (\<exists>c. real_name c \<and> below (p @ ''/'' @ c) q)"
proof
  show "below p q \<Longrightarrow> q = p \<or> (\<exists>c. real_name c \<and> below (p @ ''/'' @ c) q)"
    by (induction rule: below.induct) (auto intro: below.intros below_entry [simplified])
next
  show "q = p \<or> (\<exists>c. real_name c \<and> below (p @ ''/'' @ c) q) \<Longrightarrow> below p q"
    using below_trans below_entry [OF below_refl] below_refl by blast
qed

lemma below_entries_disjoint:
  assumes "real_name c" "real_name d" "below (p @ ''/'' @ c) q" "below (p @ ''/'' @ d) q"
  shows "c = d"
proof -
  have name: "takeWhile (\<lambda>x. x \<noteq> CHR ''/'') (c @ s) = c" if "CHR ''/'' \<notin> set c" "takeWhile (\<lambda>x. x \<noteq> CHR ''/'') s = []" for c s :: string
  proof -
    have "takeWhile (\<lambda>x. x \<noteq> CHR ''/'') (c @ s) = c @ takeWhile (\<lambda>x. x \<noteq> CHR ''/'') s" by (rule takeWhile_append2) (use that in auto)
    then show ?thesis using that by simp
  qed
  obtain s t where "q = (p @ ''/'' @ c) @ s" "q = (p @ ''/'' @ d) @ t"
    and st: "takeWhile (\<lambda>x. x \<noteq> CHR ''/'') s = []" "takeWhile (\<lambda>x. x \<noteq> CHR ''/'') t = []"
    using below_prefix [OF assms(3)] below_prefix [OF assms(4)] by blast
  then have "c @ s = d @ t" by simp
  then show ?thesis using name [of c s] name [of d t] st assms(1,2) by (simp add: real_name_def)
qed

lemma not_below_parent: "\<not> below (p @ ''/'' @ c) p"
  using below_prefix [of "p @ ''/'' @ c" p] by auto

lemma fits_cong: "(\<And>q. below p q \<Longrightarrow> N q = N' q) \<Longrightarrow> fits N n p = fits N' n p"
proof (induction n arbitrary: p)
  case 0
  have "N p = N' p" "real_name c \<Longrightarrow> N (p @ ''/'' @ c) = N' (p @ ''/'' @ c)" for c
    using 0 below_refl below_entry [OF below_refl] by blast+
  then show ?case by (simp add: fits.simps [of _ 0])
next
  case (Suc n)
  have eq: "N p = N' p" "real_name c \<Longrightarrow> N (p @ ''/'' @ c) = N' (p @ ''/'' @ c)" for c
    using Suc(2) below_refl below_entry [OF below_refl] by blast+
  have "fits N n (p @ ''/'' @ c) = fits N' n (p @ ''/'' @ c)" if "real_name c" for c
    by (rule Suc(1)) (use Suc(2) that below_step in blast)
  then show ?case using eq by (simp add: fits.simps [of _ "Suc n"])
qed

lemma without_without: "without P (without Q N) = without (P \<union> Q) N"
  by (rule ext) (auto simp: without_def)

lemma without_absorb: "(\<And>a. a \<in> A \<Longrightarrow> below p a) \<Longrightarrow> without {p} (without A N) = without {p} N"
  using below_trans by (auto simp: without_def fun_eq_iff)

lemma without_entry: "real_name c \<Longrightarrow> real_name d \<Longrightarrow> c \<noteq> d \<Longrightarrow> below (p @ ''/'' @ d) q \<Longrightarrow> without {p @ ''/'' @ c} N q = N q"
  using below_entries_disjoint by (auto simp: without_def)

lemma rm_entries_removes:
  assumes step: "\<And>k fs c. n = Suc k \<Longrightarrow> N fs (p @ ''/'' @ c) \<noteq> None \<Longrightarrow> fits (N fs) k (p @ ''/'' @ c) \<Longrightarrow> real_name c \<Longrightarrow>
      \<exists>fs'. Rm ops k (p @ ''/'' @ c) fs = Some (True, fs') \<and> N fs' = without {p @ ''/'' @ c} (N fs)"
    and "distinct names"
    and "\<And>c. c \<in> set names - {''.'', ''..''} \<Longrightarrow> real_name c \<and> N fs (p @ ''/'' @ c) \<noteq> None \<and> (\<exists>k. n = Suc k \<and> fits (N fs) k (p @ ''/'' @ c))"
  shows "\<exists>fs'. rm_entries ops n p names True fs = Some (True, fs') \<and>
      N fs' = without ((\<lambda>c. p @ ''/'' @ c) ` (set names - {''.'', ''..''})) (N fs)"
  using assms(2,3)
proof (induction names arbitrary: fs)
  case Nil
  then show ?case by (simp add: without_def)
next
  case (Cons c names)
  show ?case
  proof (cases "c = ''.'' \<or> c = ''..''")
    case True
    then have "set (c # names) - {''.'', ''..''} = set names - {''.'', ''..''}" by auto
    then show ?thesis using Cons.IH [of fs] Cons.prems True by simp
  next
    case False
    then obtain k where k: "n = Suc k" "fits (N fs) k (p @ ''/'' @ c)" "N fs (p @ ''/'' @ c) \<noteq> None" "real_name c"
      using Cons.prems(2) [of c] by auto
    then obtain fs1 where fs1: "Rm ops k (p @ ''/'' @ c) fs = Some (True, fs1)" "N fs1 = without {p @ ''/'' @ c} (N fs)"
      using step by blast
    have "real_name d \<and> N fs1 (p @ ''/'' @ d) \<noteq> None \<and> (\<exists>k. n = Suc k \<and> fits (N fs1) k (p @ ''/'' @ d))"
      if d: "d \<in> set names - {''.'', ''..''}" for d
    proof -
      have d': "real_name d" "N fs (p @ ''/'' @ d) \<noteq> None" "fits (N fs) k (p @ ''/'' @ d)" "c \<noteq> d"
        using Cons.prems(1) Cons.prems(2) [of d] d k(1) by auto
      have same: "N fs1 q = N fs q" if "below (p @ ''/'' @ d) q" for q using without_entry [OF k(4) d'(1,4) that] fs1(2) by simp
      then have "fits (N fs1) k (p @ ''/'' @ d)" using fits_cong [of "p @ ''/'' @ d" "N fs1" "N fs" k] d'(3) by blast
      then show ?thesis using d' same [OF below_refl] k(1) by simp
    qed
    then obtain fs' where fs': "rm_entries ops n p names True fs1 = Some (True, fs')"
        "N fs' = without ((\<lambda>c. p @ ''/'' @ c) ` (set names - {''.'', ''..''})) (N fs1)"
      using Cons.IH [of fs1] Cons.prems(1) by auto
    have "set (c # names) - {''.'', ''..''} = insert c (set names - {''.'', ''..''})" using False by auto
    then have "N fs' = without ((\<lambda>c. p @ ''/'' @ c) ` (set (c # names) - {''.'', ''..''})) (N fs)"
      by (simp add: fs'(2) fs1(2) without_without)
    then show ?thesis using fs'(1) fs1(1) False k(1) by simp
  qed
qed

text \<open>What the laws say of a path with its tree.\<close>

lemma removable_lstat: "removable ops N \<Longrightarrow> N fs p = Some m \<Longrightarrow> fo_lstat ops fs p = Some m"
  unfolding removable_def by (drule conjunct1) blast

lemma removable_opendir:
  "removable ops N \<Longrightarrow> N fs p = Some m \<Longrightarrow> is_dir m \<Longrightarrow>
     \<exists>names. fo_opendir ops fs p = Some names \<and> distinct names \<and> set names - {''.'', ''..''} = {c. real_name c \<and> N fs (p @ ''/'' @ c) \<noteq> None}"
  unfolding removable_def by (drule conjunct2, drule conjunct1) blast

lemma removable_unlink:
  "removable ops N \<Longrightarrow> N fs p = Some m \<Longrightarrow> \<not> is_dir m \<Longrightarrow> \<exists>fs'. fo_unlink ops p fs = (True, fs') \<and> N fs' = (N fs)(p := None)"
  unfolding removable_def by (drule conjunct2, drule conjunct2, drule conjunct1) blast

lemma removable_rmdir:
  "removable ops N \<Longrightarrow> N fs p = Some m \<Longrightarrow> is_dir m \<Longrightarrow> (\<And>c. real_name c \<Longrightarrow> N fs (p @ ''/'' @ c) = None) \<Longrightarrow>
     \<exists>fs'. fo_rmdir ops p fs = (True, fs') \<and> N fs' = (N fs)(p := None)"
  unfolding removable_def by (drule conjunct2, drule conjunct2, drule conjunct2, drule conjunct1) blast

lemma removable_parent:
  "removable ops N \<Longrightarrow> N fs (p @ ''/'' @ c) = Some m \<Longrightarrow> p \<noteq> [] \<Longrightarrow> real_name c \<Longrightarrow> \<exists>d. N fs p = Some d \<and> is_dir d"
  unfolding removable_def by (drule conjunct2, drule conjunct2, drule conjunct2, drule conjunct2) blast

lemma removable_ancestors:
  assumes "removable ops N" and "below p q" and "p \<noteq> []" and "N fs q \<noteq> None"
  shows "N fs p \<noteq> None"
  using assms(2,4)
proof (induction rule: below.induct)
  case (below_entry q c)
  have "q \<noteq> []" using below_prefix [OF below_entry(1)] assms(3) by auto
  moreover obtain m where "N fs (q @ ''/'' @ c) = Some m" using below_entry(4) by blast
  ultimately have "N fs q \<noteq> None" using removable_parent [OF assms(1) _ _ below_entry(2)] by fastforce
  then show ?case by (rule below_entry(3))
qed simp

lemma without_leaf:
  assumes "removable ops N" and "p \<noteq> []" and "\<And>c. real_name c \<Longrightarrow> N fs (p @ ''/'' @ c) = None"
  shows "without {p} (N fs) = (N fs)(p := None)"
proof
  fix q
  have "N fs q = None" if q: "below p q" "q \<noteq> p"
  proof -
    obtain c where c: "real_name c" "below (p @ ''/'' @ c) q" using q below_step [of p q] by blast
    show ?thesis using removable_ancestors [OF assms(1) c(2), of fs] assms(3) [OF c(1)] by (cases "N fs q") auto
  qed
  then show "without {p} (N fs) q = ((N fs)(p := None)) q" using below_refl by (auto simp: without_def)
qed

lemma is_dir_bit: "is_dir m \<Longrightarrow> m AND S_IFDIR \<noteq> 0"
proof -
  assume "is_dir m"
  then have "(m AND 0xF000) AND S_IFDIR = S_IFDIR" by (simp add: is_dir_def)
  moreover have "(m AND 0xF000) AND S_IFDIR = m AND S_IFDIR" by (simp add: S_IFDIR_def and.assoc)
  ultimately show ?thesis by (simp add: S_IFDIR_def)
qed

lemma Rm_tree:
  assumes laws: "removable ops N"
  shows "N fs p \<noteq> None \<Longrightarrow> p \<noteq> [] \<Longrightarrow> CHR 0x00 \<notin> set p \<Longrightarrow> fits (N fs) n p \<Longrightarrow>
    \<exists>fs'. Rm ops n p fs = Some (True, fs') \<and> N fs' = without {p} (N fs)"
proof (induction n arbitrary: p fs rule: less_induct)
  case (less n)
  then obtain m where m: "N fs p = Some m" by blast
  have [simp]: "c_str p = p" using less(4) by (auto simp: c_str_def takeWhile_eq_all_conv)
  have st: "fo_lstat ops fs p = Some m" by (rule removable_lstat [OF laws m])
  show ?case
  proof (cases "m AND S_IFDIR = 0")
    case True
    then have nd: "\<not> is_dir m" using is_dir_bit by blast
    then obtain fs' where fs': "fo_unlink ops p fs = (True, fs')" "N fs' = (N fs)(p := None)"
      using removable_unlink [OF laws m] by blast
    have "N fs (p @ ''/'' @ c) = None" if c: "real_name c" for c
    proof (rule ccontr)
      assume "N fs (p @ ''/'' @ c) \<noteq> None"
      then obtain d where "N fs p = Some d" "is_dir d" using removable_parent [OF laws _ less(3) c] by auto
      then show False using m nd by simp
    qed
    then have "without {p} (N fs) = (N fs)(p := None)" by (intro without_leaf [OF laws less(3)])
    then have "N fs' = without {p} (N fs)" using fs'(2) by simp
    then show ?thesis using st True fs'(1) by (simp add: Unlink_def)
  next
    case False
    then have dir: "is_dir m" using less(5) m by (auto simp: fits.simps [of _ n])
    then obtain names where names: "fo_opendir ops fs p = Some names" "distinct names"
        "set names - {''.'', ''..''} = {c. real_name c \<and> N fs (p @ ''/'' @ c) \<noteq> None}"
      using removable_opendir [OF laws m] by blast
    have entries: "real_name c \<and> N fs (p @ ''/'' @ c) \<noteq> None \<and> (\<exists>k. n = Suc k \<and> fits (N fs) k (p @ ''/'' @ c))"
      if "c \<in> set names - {''.'', ''..''}" for c
    proof -
      have "\<forall>c. real_name c \<longrightarrow> N fs (p @ ''/'' @ c) \<noteq> None \<longrightarrow> (case n of 0 \<Rightarrow> False | Suc k \<Rightarrow> fits (N fs) k (p @ ''/'' @ c))"
        using less(5) m False by (simp add: fits.simps [of _ n])
      moreover have "real_name c \<and> N fs (p @ ''/'' @ c) \<noteq> None" using that unfolding names(3) by blast
      ultimately show ?thesis by (cases n) auto
    qed
    have "\<exists>fs'. Rm ops k (p @ ''/'' @ c) fs = Some (True, fs') \<and> N fs' = without {p @ ''/'' @ c} (N fs)"
      if "n = Suc k" "N fs (p @ ''/'' @ c) \<noteq> None" "fits (N fs) k (p @ ''/'' @ c)" "real_name c" for k fs c
      using less(1) [of k fs "p @ ''/'' @ c"] that less(4) by (auto simp: real_name_def)
    from rm_entries_removes [of n N p ops names fs, OF this names(2) entries]
    obtain fs1 where fs1: "rm_entries ops n p names True fs = Some (True, fs1)"
        "N fs1 = without ((\<lambda>c. p @ ''/'' @ c) ` {c. real_name c \<and> N fs (p @ ''/'' @ c) \<noteq> None}) (N fs)"
      unfolding names(3) by blast
    have "N fs1 p = Some m" using not_below_parent m by (auto simp: fs1(2) without_def)
    moreover have none: "N fs1 (p @ ''/'' @ c) = None" if "real_name c" for c using that below_refl by (auto simp: fs1(2) without_def)
    ultimately obtain fs' where fs': "fo_rmdir ops p fs1 = (True, fs')" "N fs' = (N fs1)(p := None)"
      using removable_rmdir [OF laws _ dir, of fs1 p] by blast
    have "N fs' = without {p} (N fs1)" using without_leaf [OF laws less(3) none] fs'(2) by simp
    moreover have "without {p} (N fs1) = without {p} (N fs)"
      unfolding fs1(2) by (rule without_absorb) (auto intro: below_entry [OF below_refl, simplified])
    ultimately show ?thesis using st False names(1) fs1(1) fs'(1) by simp
  qed
qed

section \<open>Making the directories of a path\<close>

definition makes_dirs :: "'fs fs_ops \<Rightarrow> bool" where
  "makes_dirs ops \<longleftrightarrow>
     (\<forall>fs p fs'. fo_mkdir ops p fs = (True, fs') \<longrightarrow> fo_access ops fs' p) \<and>
     (\<forall>fs p ok fs' q. fo_mkdir ops p fs = (ok, fs') \<longrightarrow> fo_access ops fs q \<longrightarrow> fo_access ops fs' q)"

lemma str_find_reaches: "str_find s f i = r \<Longrightarrow> i \<le> k \<Longrightarrow> k < length s \<Longrightarrow> s ! k = f \<Longrightarrow> \<exists>j. r = Some j \<and> j \<le> k"
proof (induction s f i arbitrary: k r rule: str_find.induct)
  case (2 c cs f i)
  show ?case
  proof (cases k)
    case 0
    then show ?thesis using 2 by auto
  next
    case (Suc l)
    show ?thesis
    proof (cases "i = 0 \<and> c = f")
      case False
      then have "\<exists>j. str_find cs f (i - 1) = Some j \<and> j \<le> l" using 2 Suc by (cases "i = 0") auto
      then show ?thesis using 2(3) False Suc by (cases "i = 0") auto
    qed (use 2(3) in auto)
  qed
qed simp

lemma make_dir_made:
  "makes_dirs ops \<Longrightarrow> make_dir ops p fs = (ok, fs') \<Longrightarrow> (ok \<longrightarrow> fo_access ops fs' p) \<and> (fo_access ops fs q \<longrightarrow> fo_access ops fs' q)"
  unfolding makes_dirs_def make_dir_def by (cases ok) (auto split: if_splits)

lemma mkdir_loop_made:
  "makes_dirs ops \<Longrightarrow> mkdir_loop ops path ptr fs = (True, fs') \<Longrightarrow>
    (\<forall>q. fo_access ops fs q \<longrightarrow> fo_access ops fs' q) \<and>
    (\<forall>i k. ptr = Some i \<longrightarrow> i \<le> k \<longrightarrow> k < length path \<longrightarrow> path ! k = CHR ''/'' \<longrightarrow> fo_access ops fs' (take k path))"
proof (induction ops path ptr fs rule: mkdir_loop.induct)
  case (2 ops path i fs)
  obtain fs1 where fs1: "make_dir ops (take i path) fs = (True, fs1)" "mkdir_loop ops path (strchr_slash path (Suc i)) fs1 = (True, fs')"
    using 2(3) by (auto split: prod.splits if_splits)
  note IH = 2(1) [OF fs1(1) [symmetric] refl TrueI 2(2) fs1(2)]
  have made: "fo_access ops fs1 (take i path)" "fo_access ops fs q \<Longrightarrow> fo_access ops fs1 q" for q
    using make_dir_made [OF 2(2) fs1(1)] by blast+
  have "fo_access ops fs' (take k path)" if k: "i \<le> k" "k < length path" "path ! k = CHR ''/''" for k
  proof (cases "k = i")
    case False
    then obtain j where "strchr_slash path (Suc i) = Some j" "j \<le> k"
      using str_find_reaches [of path "CHR ''/''" "Suc i" _ k] k by (auto simp: strchr_slash_def)
    then show ?thesis using IH k by blast
  qed (use made IH in blast)
  then show ?case using made IH by blast
qed simp

lemma mkdir_loop_succeeds:
  "(\<And>p fs. fst (make_dir ops p fs)) \<Longrightarrow> fst (mkdir_loop ops path ptr fs)"
proof (induction ops path ptr fs rule: mkdir_loop.induct)
  case (2 ops path i fs)
  obtain fs1 where fs1: "make_dir ops (take i path) fs = (True, fs1)" using 2(2) [of "take i path" fs] by (metis prod.collapse)
  then show ?case using 2(1) [OF fs1 [symmetric] refl TrueI 2(2)] by simp
qed simp

section \<open>Properties\<close>

text \<open>C30: \<open>Rm\<close> on a path removes exactly the tree below it and reports success, however deep the tree is, if what has the bit of a
  directory in the tree is one and the process may change the file system.\<close>

theorem rm_removes_tree:
  assumes "removable ops N" and "N fs p \<noteq> None" and "p \<noteq> []" and "CHR 0x00 \<notin> set p" and "fits (N fs) fuel p"
  shows "\<exists>fs'. Rm ops fuel p fs = Some (True, fs') \<and> (\<forall>q. N fs' q = (if below p q then None else N fs q))"
  using Rm_tree [OF assms] by (auto simp: without_def)

text \<open>The bit of a directory is also set in the type of a socket and of a block device: \<open>Rm\<close> of such a file fails, the file stays.\<close>

lemma rm_socket_fails:
  assumes "fo_lstat ops fs (c_str p) = Some m" and "m AND 0xF000 \<in> {0xC000, 0x6000}" and "fo_opendir ops fs (c_str p) = None"
  shows "Rm ops fuel p fs = Some (False, fs)"
proof -
  have "(m AND 0xF000) AND S_IFDIR = m AND S_IFDIR" by (simp add: S_IFDIR_def and.assoc)
  moreover have "(m AND 0xF000) AND S_IFDIR \<noteq> 0" using assms(2) by (auto simp: S_IFDIR_def)
  ultimately show ?thesis using assms(1,3) by simp
qed

text \<open>\<open>Mv\<close> removes its target first: if renaming then fails, the target is lost.\<close>

lemma mv_loses_target:
  assumes "removable ops N" "N fs p \<noteq> None" "p \<noteq> []" "CHR 0x00 \<notin> set p" "fits (N fs) fuel p"
    and "\<And>fs. fo_rename ops (c_str src) p fs = (False, fs)"
  shows "\<exists>fs'. Mv ops fuel src p fs = Some (False, fs') \<and> N fs' p = None"
proof -
  obtain fs' where fs': "Rm ops fuel p fs = Some (True, fs')" "N fs' = without {p} (N fs)" using Rm_tree [OF assms(1-5)] by blast
  have "c_str p = p" using assms(4) by (auto simp: c_str_def takeWhile_eq_all_conv)
  then show ?thesis using fs' assms(6) [of fs'] below_refl by (simp add: Mv_def without_def)
qed

text \<open>If \<open>Mkdir\<close> reports success for a path that was not there, the path and the part before each of its slashes are there; it
  reports success if no directory is refused; the empty path is read behind its end.\<close>

theorem mkdir_makes_path:
  assumes "makes_dirs ops" and "fo_lstat ops fs (c_str d) = None"
  shows "(Mkdir ops d fs = Inr (True, fs') \<longrightarrow> fo_access ops fs' (c_str d) \<and>
      (\<forall>i. 0 < i \<longrightarrow> i < length (c_str d) \<longrightarrow> c_str d ! i = CHR ''/'' \<longrightarrow> fo_access ops fs' (take i (c_str d)))) \<and>
    (c_str d \<noteq> [] \<longrightarrow> (\<forall>p fs. fst (make_dir ops p fs)) \<longrightarrow> (\<exists>fs'. Mkdir ops d fs = Inr (True, fs'))) \<and>
    (c_str d = [] \<longrightarrow> Mkdir ops d fs = Inl (Bad_access ''path + 1''))"
proof (intro conjI impI)
  show "Mkdir ops d fs = Inl (Bad_access ''path + 1'')" if "c_str d = []" using assms(2) that by (simp add: Mkdir_def)
  show "\<exists>fs'. Mkdir ops d fs = Inr (True, fs')" if d: "c_str d \<noteq> []" and all: "\<forall>p fs. fst (make_dir ops p fs)"
  proof -
    obtain fs1 where "mkdir_loop ops (c_str d) (strchr_slash (c_str d) 1) fs = (True, fs1)"
      using mkdir_loop_succeeds [of ops "c_str d" "strchr_slash (c_str d) 1" fs] all by (metis prod.collapse)
    moreover obtain fs2 where "make_dir ops (c_str d) fs1 = (True, fs2)" using all by (metis prod.collapse)
    ultimately show ?thesis using assms(2) d by (simp add: Mkdir_def Let_def)
  qed
  assume "Mkdir ops d fs = Inr (True, fs')"
  then obtain fs1 where fs1: "mkdir_loop ops (c_str d) (strchr_slash (c_str d) 1) fs = (True, fs1)" "make_dir ops (c_str d) fs1 = (True, fs')"
    using assms(2) by (auto simp: Mkdir_def Let_def split: if_splits prod.splits)
  note loop = mkdir_loop_made [OF assms(1) fs1(1)] and last_dir = make_dir_made [OF assms(1) fs1(2)]
  show "fo_access ops fs' (c_str d)" using last_dir by blast
  show "\<forall>i. 0 < i \<longrightarrow> i < length (c_str d) \<longrightarrow> c_str d ! i = CHR ''/'' \<longrightarrow> fo_access ops fs' (take i (c_str d))"
  proof (intro allI impI)
    fix i assume i: "0 < i" "i < length (c_str d)" "c_str d ! i = CHR ''/''"
    then obtain j where "strchr_slash (c_str d) 1 = Some j" "j \<le> i"
      using str_find_reaches [of "c_str d" "CHR ''/''" 1 _ i] by (auto simp: strchr_slash_def)
    then show "fo_access ops fs' (take i (c_str d))" using loop i last_dir by blast
  qed
qed

lemma signed_digits_show_nat: "signed_digits (show_nat n) = (False, n)" and signed_digits_minus: "signed_digits (CHR ''-'' # show_nat n) = (True, n)"
proof -
  obtain c cs where c: "show_nat n = c # cs" by (cases "show_nat n") auto
  have d: "is_digit c" using digits_only [of n] c by simp
  have "CHR 0x00 \<notin> set (show_nat n)" using digits_only [of n] by (auto simp: list_all_iff is_digit_def)
  then have [simp]: "c_str (c # cs) = c # cs" "c_str (show_nat n) = show_nat n" "c_str (CHR ''-'' # show_nat n) = CHR ''-'' # show_nat n"
    unfolding c [symmetric] by (auto simp: c_str_def takeWhile_eq_all_conv)
  have [simp]: "takeWhile is_digit (c # cs) = c # cs" "takeWhile is_digit (show_nat n) = show_nat n" unfolding c [symmetric] using digits_only [of n] by (simp_all add: takeWhile_eq_all_conv list_all_iff)
  have "\<not> is_space c" "c \<noteq> CHR ''-''" "c \<noteq> CHR ''+''" using d by (auto simp: is_digit_def is_space_def)
  then show "signed_digits (show_nat n) = (False, n)" using c d digits_show_nat [of n] by (simp add: signed_digits_def del: takeWhile.simps)
  show "signed_digits (CHR ''-'' # show_nat n) = (True, n)" by (simp add: signed_digits_def is_space_def digits_show_nat)
qed

lemma sint_u64: "- (2 ^ 63) \<le> v \<Longrightarrow> v < 2 ^ 63 \<Longrightarrow> sint (word_of_int v :: u64) = v"
  by (simp add: sint_sbintrunc' signed_take_bit_int_eq_self)

lemma strtoull_show_nat: "strtoull (show_nat n) = (if n < 2 ^ 64 then of_nat n else - 1)"
  by (simp add: strtoull_def signed_digits_show_nat)

text \<open>\<open>TypeUtil::Atoi\<close> reads back every 64-bit number that is printed; a number from \<open>2 ^ 63\<close> on becomes negative, and one from
  \<open>2 ^ 64\<close> on becomes \<open>-1\<close>.\<close>

theorem atoi_roundtrip:
  assumes "- (2 ^ 63) \<le> v"
  shows "TypeUtil_Atoi (show_int v) = (if v < 2 ^ 63 then v else if v < 2 ^ 64 then v - 2 ^ 64 else - 1)"
proof (cases "v < 0")
  case True
  then have "nat (- v) < 2 ^ 64" using assms by simp
  then have "strtoull (show_int v) = word_of_int v"
    using True by (simp add: show_int_def strtoull_def signed_digits_minus)
  then show ?thesis using True assms sint_u64 [of v] by (simp add: TypeUtil_Atoi_def show_int_def)
next
  case False
  then have s: "strtoull (show_int v) = (if v < 2 ^ 64 then word_of_int v else - 1)"
    by (simp add: show_int_def strtoull_show_nat nat_less_iff)
  have w: "(word_of_int v :: u64) = word_of_int (v - 2 ^ 64)" by (simp add: word_of_int_eq_iff take_bit_eq_mod)
  have "sint (word_of_int v :: u64) = v - 2 ^ 64" if "2 ^ 63 \<le> v" "v < 2 ^ 64"
    unfolding w by (rule sint_u64) (use that in simp_all)
  then show ?thesis using False s sint_u64 [of v] by (simp add: TypeUtil_Atoi_def show_int_def)
qed

section \<open>Witnesses\<close>

text \<open>A file system with a directory and a file in it; its states are counted by what is still there.\<close>

definition small_nodes :: "nat \<Rightarrow> string \<rightharpoonup> u32" where
  "small_nodes k p = (if p = ''d'' \<and> 1 \<le> k \<and> k \<le> 2 then Some 0x41ED else if p = ''d/a'' \<and> k = 2 then Some 0x81A4 else None)"

definition small_ops :: "nat fs_ops" where
  "small_ops = \<lparr>fo_access = (\<lambda>k p. small_nodes k p \<noteq> None), fo_lstat = small_nodes,
     fo_opendir = (\<lambda>k p. if p = ''d'' then Some ([''.'', ''..''] @ (if k = 2 then [''a''] else [])) else None),
     fo_realpath = (\<lambda>k p. Some p), fo_getline = (\<lambda>k p. None),
     fo_mkdir = (\<lambda>p k. if p = ''d'' \<and> k = 0 then (True, 1) else (False, k)),
     fo_unlink = (\<lambda>p k. if p = ''d/a'' \<and> k = 2 then (True, 1) else (False, k)),
     fo_rmdir = (\<lambda>p k. if p = ''d'' \<and> k = 1 then (True, 0) else (False, k)),
     fo_rename = (\<lambda>p q k. (False, k)), fo_symlink = (\<lambda>p q k. (False, k)), fo_open_write = (\<lambda>p k. (False, k))\<rparr>"

lemma small_modes [simp]: "is_dir 0x41ED" "\<not> is_dir 0x81A4" "real_name ''a''" "(0x41ED :: u32) AND S_IFDIR \<noteq> 0" "(0x81A4 :: u32) AND S_IFDIR = 0"
  by (simp_all add: is_dir_def S_IFDIR_def real_name_def)

lemma small_entry: "small_nodes k (p @ ''/'' @ c) \<noteq> None \<longleftrightarrow> k = 2 \<and> p @ ''/'' @ c = ''d/a''"
  by (cases p) (auto simp: small_nodes_def)

lemma small_removable: "removable small_ops small_nodes"
  unfolding removable_def
proof (intro conjI allI impI)
  fix fs p m assume "small_nodes fs p = Some m"
  then show "fo_lstat small_ops fs p = Some m" by (simp add: small_ops_def)
next
  fix fs p m assume m: "small_nodes fs p = Some m" "is_dir m"
  then have "p = ''d''" by (auto simp: small_nodes_def split: if_splits)
  moreover have "{c. real_name c \<and> small_nodes fs (''d'' @ ''/'' @ c) \<noteq> None} = (if fs = 2 then {''a''} else {})"
    unfolding small_entry by auto
  ultimately show "\<exists>names. fo_opendir small_ops fs p = Some names \<and> distinct names \<and>
      set names - {''.'', ''..''} = {c. real_name c \<and> small_nodes fs (p @ ''/'' @ c) \<noteq> None}"
    by (simp add: small_ops_def)
next
  fix fs p m assume m: "small_nodes fs p = Some m" "\<not> is_dir m"
  then have "p = ''d/a''" "fs = 2" by (auto simp: small_nodes_def split: if_splits)
  then show "\<exists>fs'. fo_unlink small_ops p fs = (True, fs') \<and> small_nodes fs' = (small_nodes fs)(p := None)"
    by (auto simp: small_ops_def small_nodes_def fun_eq_iff)
next
  fix fs p m assume m: "small_nodes fs p = Some m" "is_dir m" "\<forall>c. real_name c \<longrightarrow> small_nodes fs (p @ ''/'' @ c) = None"
  then have p: "p = ''d''" "1 \<le> fs" "fs \<le> 2" by (auto simp: small_nodes_def split: if_splits)
  moreover have "fs \<noteq> 2" using m(3) [rule_format, of "''a''"] p(1) by (auto simp: small_nodes_def)
  ultimately have "fs = 1" by simp
  then show "\<exists>fs'. fo_rmdir small_ops p fs = (True, fs') \<and> small_nodes fs' = (small_nodes fs)(p := None)"
    using p(1) by (auto simp: small_ops_def small_nodes_def fun_eq_iff)
next
  fix fs p c m assume m: "small_nodes fs (p @ ''/'' @ c) = Some m" "p \<noteq> []" "real_name c"
  then have "fs = 2" "p @ ''/'' @ c = ''d/a''" using small_entry [of fs p c] by auto
  then have "p = ''d''" using m(2) by (cases p) (auto simp: append_eq_Cons_conv)
  then show "\<exists>d. small_nodes fs p = Some d \<and> is_dir d" using \<open>fs = 2\<close> by (simp add: small_nodes_def)
qed

theorem rm_removes_tree_witness:
  "\<exists>fs'. Rm small_ops 1 ''d'' 2 = Some (True, fs') \<and> small_nodes fs' ''d/a'' = None \<and> small_nodes 2 ''d/a'' \<noteq> None"
proof -
  have "fits (small_nodes 2) 0 ''d/a''" by (auto simp: fits.simps [of _ 0] small_nodes_def)
  then have "fits (small_nodes 2) (Suc 0) ''d''"
    unfolding fits.simps [of _ "Suc 0"] using small_entry [of 2 "''d''"] by (simp add: small_nodes_def)
  moreover have "below ''d'' ''d/a''" using below_entry [OF below_refl, of "''a''" "''d''"] by simp
  moreover have "small_nodes 2 ''d'' \<noteq> None" "CHR 0x00 \<notin> set ''d''" by (simp_all add: small_nodes_def)
  ultimately obtain fs' where "Rm small_ops 1 ''d'' 2 = Some (True, fs')" "small_nodes fs' ''d/a'' = None"
    using rm_removes_tree [OF small_removable, of 2 "''d''" "Suc 0"] by fastforce
  then show ?thesis by (intro exI [of _ fs']) (simp add: small_nodes_def)
qed

theorem mkdir_makes_path_witness: "fo_access small_ops 1 ''d'' \<and> Mkdir small_ops [] 0 = Inl (Bad_access ''path + 1'')"
proof -
  have laws: "makes_dirs small_ops" by (auto simp: makes_dirs_def small_ops_def small_nodes_def split: if_splits)
  have "Mkdir small_ops ''d'' 0 = Inr (True, 1)"
    by (simp add: Mkdir_def small_ops_def small_nodes_def c_str_def strchr_slash_def make_dir_def)
  then show ?thesis
    using mkdir_makes_path [OF laws, of 0 "''d''" 1] mkdir_makes_path [OF laws, of 0 "[]" 1] by (simp add: small_ops_def small_nodes_def c_str_def)
qed

theorem atoi_roundtrip_witness: "TypeUtil_Atoi (show_int 18446744073709551615) = - 1"
  using atoi_roundtrip [of 18446744073709551615] by simp

end
