(* ===== verification/Lamb_Settings.thy ===== *)
theory Lamb_Settings
  imports Lamb_Config
begin

text \<open>
  The variables of the configuration that the program copies: the sizes of \<open>lamb/http/http_parser.cc\<close> and the timeout of
  \<open>lamb/hook.cc\<close>. Static initialisers register them and add listeners that keep the copies up to date; the users read the copies only.
  Conversions of single values (\<open>boost::lexical_cast\<close>) are arguments.
\<close>

section \<open>Variables and copies\<close>

datatype cfg_val = CInt int | CU64 u64

record lex_lib =
  lx_int :: "string \<Rightarrow> int res"
  lx_u64 :: "string \<Rightarrow> u64 res"
  lx_show_int :: "int \<Rightarrow> string res"
  lx_show_u64 :: "u64 \<Rightarrow> string res"

definition int_type :: "lex_lib \<Rightarrow> cfg_val config_type" where
  "int_type lx = \<lparr>ct_name = ''int'', ct_from = (\<lambda>t. bindR (lx_int lx t) (\<lambda>i. Inr (CInt i))),
     ct_to = (\<lambda>v. case v of CInt i \<Rightarrow> lx_show_int lx i | CU64 _ \<Rightarrow> Inl (Undefined ''type''))\<rparr>"

definition u64_type :: "lex_lib \<Rightarrow> cfg_val config_type" where
  "u64_type lx = \<lparr>ct_name = ''unsigned long'', ct_from = (\<lambda>t. bindR (lx_u64 lx t) (\<lambda>n. Inr (CU64 n))),
     ct_to = (\<lambda>v. case v of CU64 n \<Rightarrow> lx_show_u64 lx n | CInt _ \<Rightarrow> Inl (Undefined ''type''))\<rparr>"

record settings =
  s_http_request_buffer_size :: u64
  s_http_request_max_body_size :: u64
  s_http_response_buffer_size :: u64
  s_http_response_max_body_size :: u64
  s_connect_timeout :: u64

type_synonym registry = "(cfg_val, settings) ConfigVarMap"

definition initial_settings :: settings where
  "initial_settings = \<lparr>s_http_request_buffer_size = 0, s_http_request_max_body_size = 0, s_http_response_buffer_size = 0,
     s_http_response_max_body_size = 0, s_connect_timeout = - 1\<rparr>"

definition g_http_request_buffer_size :: "lex_lib \<Rightarrow> registry \<Rightarrow> registry res" where
  "g_http_request_buffer_size lx datas =
     bindR (Config_Lookup (u64_type lx) ''http.request.buffer_size'' (CU64 (4 * 1024)) ''http request buffer size'' datas) (\<lambda>(var, datas). Inr datas)"

definition g_http_request_max_body_size :: "lex_lib \<Rightarrow> registry \<Rightarrow> registry res" where
  "g_http_request_max_body_size lx datas =
     bindR (Config_Lookup (u64_type lx) ''http.request.max_body_size'' (CU64 (64 * 1024 * 1024)) ''http request max body size'' datas) (\<lambda>(var, datas). Inr datas)"

definition g_http_response_buffer_size :: "lex_lib \<Rightarrow> registry \<Rightarrow> registry res" where
  "g_http_response_buffer_size lx datas =
     bindR (Config_Lookup (u64_type lx) ''http.response.buffer_size'' (CU64 (4 * 1024)) ''http response buffer size'' datas) (\<lambda>(var, datas). Inr datas)"

definition g_http_response_max_body_size :: "lex_lib \<Rightarrow> registry \<Rightarrow> registry res" where
  "g_http_response_max_body_size lx datas =
     bindR (Config_Lookup (u64_type lx) ''http.response.max_body_size'' (CU64 (64 * 1024 * 1024)) ''http response max body size'' datas) (\<lambda>(var, datas). Inr datas)"

definition g_tcp_connect_timeout :: "lex_lib \<Rightarrow> registry \<Rightarrow> registry res" where
  "g_tcp_connect_timeout lx datas =
     bindR (Config_Lookup (int_type lx) ''tcp.connect.timeout'' (CInt 5000) ''tcp connect timeout'' datas) (\<lambda>(var, datas). Inr datas)"

text \<open>\<open>getValue\<close> and \<open>addListener\<close> through the pointer that \<open>Lookup\<close> returned.\<close>

definition get_u64 :: "string \<Rightarrow> registry \<Rightarrow> u64 res" where
  "get_u64 name datas =
     (case datas name of None \<Rightarrow> Inl Null_deref
      | Some var \<Rightarrow> (case cv_val var of CU64 n \<Rightarrow> Inr n | CInt _ \<Rightarrow> Inl (Undefined ''type'')))"

definition get_int :: "string \<Rightarrow> registry \<Rightarrow> int res" where
  "get_int name datas =
     (case datas name of None \<Rightarrow> Inl Null_deref
      | Some var \<Rightarrow> (case cv_val var of CInt i \<Rightarrow> Inr i | CU64 _ \<Rightarrow> Inl (Undefined ''type'')))"

definition listen :: "string \<Rightarrow> (cfg_val, settings) on_change_cb \<Rightarrow> u64 \<times> registry \<Rightarrow> (u64 \<times> registry) res" where
  "listen name cb = (\<lambda>(ids, datas).
     case datas name of None \<Rightarrow> Inl Null_deref
     | Some var \<Rightarrow> (case addListener cb ids var of (ids, var) \<Rightarrow> Inr (ids, datas(name \<mapsto> var))))"

definition u64_cb :: "(u64 \<Rightarrow> settings \<Rightarrow> settings) \<Rightarrow> (cfg_val, settings) on_change_cb" where
  "u64_cb upd = (\<lambda>ov nv s. case nv of CU64 n \<Rightarrow> Inr (upd n s, None) | CInt _ \<Rightarrow> Inl (Undefined ''type''))"

text \<open>The new value is an \<open>int\<close>; the copy is a \<open>uint64_t\<close>, so \<open>-1\<close> is no timeout.\<close>

definition timeout_cb :: "(cfg_val, settings) on_change_cb" where
  "timeout_cb = (\<lambda>ov nv s. case nv of CInt i \<Rightarrow> Inr (s\<lparr>s_connect_timeout := word_of_int i\<rparr>, None) | CU64 _ \<Rightarrow> Inl (Undefined ''type''))"

definition RequestSizeIniter :: "u64 \<times> registry \<times> settings \<Rightarrow> (u64 \<times> registry \<times> settings) res" where
  "RequestSizeIniter = (\<lambda>(ids, datas, s).
     bindR (get_u64 ''http.request.buffer_size'' datas) (\<lambda>a.
     bindR (get_u64 ''http.request.max_body_size'' datas) (\<lambda>b.
     bindR (get_u64 ''http.response.buffer_size'' datas) (\<lambda>c.
     bindR (get_u64 ''http.response.max_body_size'' datas) (\<lambda>d.
     bindR (listen ''http.request.buffer_size'' (u64_cb (\<lambda>n. s_http_request_buffer_size_update (\<lambda>_. n))) (ids, datas)) (\<lambda>r.
     bindR (listen ''http.request.max_body_size'' (u64_cb (\<lambda>n. s_http_request_max_body_size_update (\<lambda>_. n))) r) (\<lambda>r.
     bindR (listen ''http.response.buffer_size'' (u64_cb (\<lambda>n. s_http_response_buffer_size_update (\<lambda>_. n))) r) (\<lambda>r.
     bindR (listen ''http.response.max_body_size'' (u64_cb (\<lambda>n. s_http_response_max_body_size_update (\<lambda>_. n))) r) (\<lambda>(ids, datas).
       Inr (ids, datas, s\<lparr>s_http_request_buffer_size := a, s_http_request_max_body_size := b, s_http_response_buffer_size := c,
         s_http_response_max_body_size := d\<rparr>))))))))))"

definition HookIniter :: "u64 \<times> registry \<times> settings \<Rightarrow> (u64 \<times> registry \<times> settings) res" where
  "HookIniter = (\<lambda>(ids, datas, s).
     bindR (get_int ''tcp.connect.timeout'' datas) (\<lambda>i.
     bindR (listen ''tcp.connect.timeout'' timeout_cb (ids, datas)) (\<lambda>(ids, datas).
       Inr (ids, datas, s\<lparr>s_connect_timeout := word_of_int i\<rparr>))))"

text \<open>The static initialisers of the two files. The counters of listeners are those of the two types.\<close>

definition static_init :: "lex_lib \<Rightarrow> registry \<Rightarrow> (registry \<times> settings) res" where
  "static_init lx datas =
     bindR (g_tcp_connect_timeout lx datas) (\<lambda>datas.
     bindR (HookIniter (0, datas, initial_settings)) (\<lambda>(int_ids, datas, s).
     bindR (g_http_request_buffer_size lx datas) (\<lambda>datas.
     bindR (g_http_request_max_body_size lx datas) (\<lambda>datas.
     bindR (g_http_response_buffer_size lx datas) (\<lambda>datas.
     bindR (g_http_response_max_body_size lx datas) (\<lambda>datas.
     bindR (RequestSizeIniter (0, datas, s)) (\<lambda>(u64_ids, datas, s). Inr (datas, s))))))))"

section \<open>The copies follow the variables\<close>

definition copies :: "(string \<times> (settings \<Rightarrow> u64)) list" where
  "copies = [(''tcp.connect.timeout'', s_connect_timeout), (''http.request.buffer_size'', s_http_request_buffer_size),
     (''http.request.max_body_size'', s_http_request_max_body_size), (''http.response.buffer_size'', s_http_response_buffer_size),
     (''http.response.max_body_size'', s_http_response_max_body_size)]"

fun u64_of :: "cfg_val \<Rightarrow> u64" where
  "u64_of (CU64 n) = n"
| "u64_of (CInt i) = word_of_int i"

fun is_int :: "cfg_val \<Rightarrow> bool" where
  "is_int (CU64 n) = False"
| "is_int (CInt i) = True"

text \<open>A variable whose one listener updates its copy and no other.\<close>

definition copied :: "string \<Rightarrow> (settings \<Rightarrow> u64) \<Rightarrow> (cfg_val, settings) ConfigVar \<Rightarrow> bool" where
  "copied name g var \<longleftrightarrow>
     (\<forall>t v. cv_from var t = Inr v \<longrightarrow> is_int v = is_int (cv_val var)) \<and>
     (\<exists>k cb. cv_cbs var = [(k, cb)] \<and> (\<forall>ov nv s. is_int nv = is_int (cv_val var) \<longrightarrow>
        (\<exists>s'. cb ov nv s = Inr (s', None) \<and> g s' = u64_of nv \<and> (\<forall>(n', g') \<in> set copies. n' \<noteq> name \<longrightarrow> g' s' = g' s))))"

definition copies_follow :: "registry \<Rightarrow> settings \<Rightarrow> bool" where
  "copies_follow datas s \<longleftrightarrow>
     (\<forall>(name, g) \<in> set copies. \<exists>var. datas name = Some var \<and> copied name g var \<and> g s = u64_of (cv_val var)) \<and>
     (\<forall>name var. datas name = Some var \<longrightarrow> name \<notin> fst ` set copies \<longrightarrow> cv_cbs var = [])"

lemma copies_distinct: "(name, g) \<in> set copies \<Longrightarrow> (name, g') \<in> set copies \<Longrightarrow> g = g'"
  by (auto simp: copies_def)

lemma copied_call:
  assumes "copied name g var" and "is_int v = is_int (cv_val var)"
  shows "\<exists>s'. call_listeners (cv_cbs var) ov v s = Inr (s', None) \<and> g s' = u64_of v \<and> (\<forall>(n', g') \<in> set copies. n' \<noteq> name \<longrightarrow> g' s' = g' s)"
proof -
  obtain k cb where cb: "cv_cbs var = [(k, cb)]" and law: "\<forall>ov nv s. is_int nv = is_int (cv_val var) \<longrightarrow>
      (\<exists>s'. cb ov nv s = Inr (s', None) \<and> g s' = u64_of nv \<and> (\<forall>(n', g') \<in> set copies. n' \<noteq> name \<longrightarrow> g' s' = g' s))"
    using assms(1) unfolding copied_def by (elim conjE exE)
  from law [rule_format, OF assms(2), of ov s] show ?thesis by (elim exE conjE) (simp add: cb)
qed

lemma copies_follow_upd:
  assumes f: "copies_follow datas s"
    and "\<And>n' g'. (n', g') \<in> set copies \<Longrightarrow> n' \<noteq> name \<Longrightarrow> g' s' = g' s"
    and "\<And>g. (name, g) \<in> set copies \<Longrightarrow> copied name g var' \<and> g s' = u64_of (cv_val var')"
    and "name \<notin> fst ` set copies \<Longrightarrow> cv_cbs var' = []"
  shows "copies_follow (datas(name \<mapsto> var')) s'"
  unfolding copies_follow_def
proof (intro conjI ballI allI impI; (clarify)?)
  fix n g assume n: "(n, g) \<in> set copies"
  then obtain var where "datas n = Some var" "copied n g var" "g s = u64_of (cv_val var)" using f by (auto simp: copies_follow_def)
  then show "\<exists>var. (datas(name \<mapsto> var')) n = Some var \<and> copied n g var \<and> g s' = u64_of (cv_val var)"
    using assms(2) [OF n] assms(3) [of g] n by (cases "n = name") auto
next
  fix n var assume "(datas(name \<mapsto> var')) n = Some var" "n \<notin> fst ` set copies"
  then show "cv_cbs var = []" using f assms(4) by (cases "n = name") (auto simp: copies_follow_def)
qed

lemma copies_follow_fromString:
  assumes f: "copies_follow datas s" and var: "datas name = Some var"
  shows "\<exists>var' s'. fromString t var s = Inr (False, var', s') \<and> copies_follow (datas(name \<mapsto> var')) s'"
proof (cases "cv_from var t")
  case (Inl e)
  then show ?thesis using f var by (auto simp: fromString_def fun_upd_idem)
next
  case (Inr v)
  consider "v = cv_val var" | g where "v \<noteq> cv_val var" "(name, g) \<in> set copies" | "v \<noteq> cv_val var" "name \<notin> fst ` set copies" by force
  then show ?thesis
  proof cases
    case 1
    then show ?thesis using f var Inr by (auto simp: fromString_def setValue_def fun_upd_idem)
  next
    case 2
    then have c: "copied name g var" using f var by (auto simp: copies_follow_def)
    then have ty: "is_int v = is_int (cv_val var)" using Inr by (simp add: copied_def)
    obtain s' where cb: "call_listeners (cv_cbs var) (cv_val var) v s = Inr (s', None)" "g s' = u64_of v"
        "\<forall>(n', g') \<in> set copies. n' \<noteq> name \<longrightarrow> g' s' = g' s"
      using copied_call [OF c ty] by blast
    have "copied name g (var\<lparr>cv_val := v\<rparr>)" using c ty by (simp add: copied_def)
    then have "copied name h (var\<lparr>cv_val := v\<rparr>) \<and> h s' = u64_of (cv_val (var\<lparr>cv_val := v\<rparr>))" if "(name, h) \<in> set copies" for h
      using cb(2) copies_distinct [OF 2(2) that] by simp
    moreover have "g' s' = g' s" if "(n', g') \<in> set copies" "n' \<noteq> name" for n' g' using bspec [OF cb(3) that(1)] that(2) by simp
    moreover have "name \<in> fst ` set copies" using 2(2) by force
    ultimately have "copies_follow (datas(name \<mapsto> var\<lparr>cv_val := v\<rparr>)) s'" using copies_follow_upd [OF f] by blast
    then show ?thesis using Inr 2(1) cb(1) by (auto simp: fromString_def setValue_def simp del: fun_upd_apply)
  next
    case 3
    then have cbs: "cv_cbs var = []" using f var by (auto simp: copies_follow_def)
    then have "copies_follow (datas(name \<mapsto> var\<lparr>cv_val := v\<rparr>)) s" using 3(2) by (intro copies_follow_upd [OF f]) force+
    moreover have "fromString t var s = Inr (False, var\<lparr>cv_val := v\<rparr>, s)" using Inr 3(1) cbs by (simp add: fromString_def setValue_def)
    ultimately show ?thesis by blast
  qed
qed

lemma copies_follow_load: "copies_follow datas s \<Longrightarrow> \<exists>datas' s'. load_nodes lib ns (datas, s) = Inr (datas', s') \<and> copies_follow datas' s'"
proof (induction ns arbitrary: datas s)
  case (Cons kn ns)
  obtain key n where kn: "kn = (key, n)" by (cases kn)
  show ?case
  proof (cases "key = [] \<or> datas (map to_lower key) = None")
    case True
    then show ?thesis using Cons kn by (auto simp: LookupBase_def Let_def)
  next
    case False
    then obtain var where var: "datas (map to_lower key) = Some var" by blast
    obtain var' s' where v: "fromString (node_text lib n) var s = Inr (False, var', s')" "copies_follow (datas(map to_lower key \<mapsto> var')) s'"
      using copies_follow_fromString [OF Cons.prems var] by blast
    show ?thesis using Cons.IH [OF v(2)] v(1) False var kn by (simp add: LookupBase_def Let_def del: fun_upd_apply)
  qed
qed simp

section \<open>The initialisers\<close>

lemma Lookup_fresh:
  assumes "datas name = None" "valid_name name"
  shows "Config_Lookup T name v desc datas = Inr (Some (newConfigVar T name v desc), datas(name \<mapsto> newConfigVar T name v desc))"
  using assms by (simp add: Config_Lookup_def Let_def)

definition u64_var :: "lex_lib \<Rightarrow> string \<Rightarrow> u64 \<Rightarrow> string \<Rightarrow> u64 \<Rightarrow> (u64 \<Rightarrow> settings \<Rightarrow> settings) \<Rightarrow> (cfg_val, settings) ConfigVar" where
  "u64_var lx name v desc k upd = (newConfigVar (u64_type lx) name (CU64 v) desc)\<lparr>cv_cbs := [(k, u64_cb upd)]\<rparr>"

lemma u64_var_copied:
  assumes "\<And>n s. g (upd n s) = n" and "\<And>n s n' g'. (n', g') \<in> set copies \<Longrightarrow> n' \<noteq> name \<Longrightarrow> g' (upd n s) = g' s"
  shows "copied name g (u64_var lx name v desc k upd)"
proof -
  have "\<exists>s'. u64_cb upd ov nv s = Inr (s', None) \<and> g s' = u64_of nv \<and> (\<forall>(n', g') \<in> set copies. n' \<noteq> name \<longrightarrow> g' s' = g' s)" if "\<not> is_int nv" for ov nv s
    using that assms by (cases nv) (auto simp: u64_cb_def)
  then show ?thesis by (auto simp: copied_def u64_var_def newConfigVar_def u64_type_def res_simps)
qed

definition timeout_var :: "lex_lib \<Rightarrow> (cfg_val, settings) ConfigVar" where
  "timeout_var lx = (newConfigVar (int_type lx) ''tcp.connect.timeout'' (CInt 5000) ''tcp connect timeout'')\<lparr>cv_cbs := [(1, timeout_cb)]\<rparr>"

lemma timeout_var_copied: "copied ''tcp.connect.timeout'' s_connect_timeout (timeout_var lx)"
proof -
  have "\<exists>s'. timeout_cb ov nv s = Inr (s', None) \<and> s_connect_timeout s' = u64_of nv \<and> (\<forall>(n', g') \<in> set copies. n' \<noteq> ''tcp.connect.timeout'' \<longrightarrow> g' s' = g' s)"
    if "is_int nv" for ov nv s
    using that by (cases nv) (auto simp: timeout_cb_def copies_def)
  then show ?thesis by (auto simp: copied_def timeout_var_def newConfigVar_def int_type_def res_simps)
qed

definition started :: "lex_lib \<Rightarrow> registry \<Rightarrow> registry" where
  "started lx datas = datas(
     ''tcp.connect.timeout'' \<mapsto> timeout_var lx,
     ''http.request.buffer_size'' \<mapsto> u64_var lx ''http.request.buffer_size'' 4096 ''http request buffer size'' 1 (\<lambda>n. s_http_request_buffer_size_update (\<lambda>_. n)),
     ''http.request.max_body_size'' \<mapsto> u64_var lx ''http.request.max_body_size'' 67108864 ''http request max body size'' 2 (\<lambda>n. s_http_request_max_body_size_update (\<lambda>_. n)),
     ''http.response.buffer_size'' \<mapsto> u64_var lx ''http.response.buffer_size'' 4096 ''http response buffer size'' 3 (\<lambda>n. s_http_response_buffer_size_update (\<lambda>_. n)),
     ''http.response.max_body_size'' \<mapsto> u64_var lx ''http.response.max_body_size'' 67108864 ''http response max body size'' 4 (\<lambda>n. s_http_response_max_body_size_update (\<lambda>_. n)))"

definition started_settings :: settings where
  "started_settings = \<lparr>s_http_request_buffer_size = 4096, s_http_request_max_body_size = 67108864, s_http_response_buffer_size = 4096,
     s_http_response_max_body_size = 67108864, s_connect_timeout = 5000\<rparr>"

lemmas lookup_defs = g_tcp_connect_timeout_def g_http_request_buffer_size_def g_http_request_max_body_size_def
  g_http_response_buffer_size_def g_http_response_max_body_size_def

lemma valid_settings [simp]:
  "valid_name ''tcp.connect.timeout''" "valid_name ''http.request.buffer_size''" "valid_name ''http.request.max_body_size''"
  "valid_name ''http.response.buffer_size''" "valid_name ''http.response.max_body_size''"
  by (simp_all add: valid_name_def config_chars_def)

lemma cv_val_new [simp]: "cv_val (newConfigVar T name v desc) = v" "cv_cbs (newConfigVar T name v desc) = []"
  by (simp_all add: newConfigVar_def)

lemma static_init_started:
  assumes "\<forall>name \<in> fst ` set copies. datas name = None"
  shows "static_init lx datas = Inr (started lx datas, started_settings)"
proof -
  have fresh: "datas ''tcp.connect.timeout'' = None" "datas ''http.request.buffer_size'' = None" "datas ''http.request.max_body_size'' = None"
    "datas ''http.response.buffer_size'' = None" "datas ''http.response.max_body_size'' = None"
    using assms by (simp_all add: copies_def)
  have 1: "bindR (g_tcp_connect_timeout lx datas) (\<lambda>datas. HookIniter (0, datas, initial_settings)) =
      Inr (1, datas(''tcp.connect.timeout'' \<mapsto> timeout_var lx), initial_settings\<lparr>s_connect_timeout := 5000\<rparr>)"
    by (simp add: lookup_defs Lookup_fresh fresh HookIniter_def get_int_def listen_def addListener_def cbs_put_def timeout_var_def Let_def)
  define d1 where "d1 = datas(''tcp.connect.timeout'' \<mapsto> timeout_var lx)"
  have d1: "d1 ''http.request.buffer_size'' = None" "d1 ''http.request.max_body_size'' = None"
    "d1 ''http.response.buffer_size'' = None" "d1 ''http.response.max_body_size'' = None"
    using fresh by (simp_all add: d1_def)
  have 2: "bindR (g_http_request_buffer_size lx d1) (\<lambda>datas. bindR (g_http_request_max_body_size lx datas) (\<lambda>datas.
      bindR (g_http_response_buffer_size lx datas) (\<lambda>datas. bindR (g_http_response_max_body_size lx datas) (\<lambda>datas.
      RequestSizeIniter (0, datas, initial_settings\<lparr>s_connect_timeout := 5000\<rparr>))))) = Inr (4, started lx datas, started_settings)"
    unfolding started_def d1_def [symmetric]
    by (simp add: lookup_defs Lookup_fresh d1 RequestSizeIniter_def get_u64_def listen_def addListener_def cbs_put_def u64_var_def Let_def
        started_settings_def initial_settings_def fun_upd_twist)
  obtain da where a: "g_tcp_connect_timeout lx datas = Inr da"
      "HookIniter (0, da, initial_settings) = Inr (1, d1, initial_settings\<lparr>s_connect_timeout := 5000\<rparr>)"
    using 1 unfolding d1_def [symmetric] by (auto simp: res_simps)
  show ?thesis using arg_cong [OF 2, of "\<lambda>r. bindR r (\<lambda>(u, d, s). Inr (d, s))"] by (simp add: static_init_def a bindR_assoc)
qed

lemma size_vars_copied:
  "copied ''http.request.buffer_size'' s_http_request_buffer_size (u64_var lx ''http.request.buffer_size'' v desc k (\<lambda>n. s_http_request_buffer_size_update (\<lambda>_. n)))"
  "copied ''http.request.max_body_size'' s_http_request_max_body_size (u64_var lx ''http.request.max_body_size'' v desc k (\<lambda>n. s_http_request_max_body_size_update (\<lambda>_. n)))"
  "copied ''http.response.buffer_size'' s_http_response_buffer_size (u64_var lx ''http.response.buffer_size'' v desc k (\<lambda>n. s_http_response_buffer_size_update (\<lambda>_. n)))"
  "copied ''http.response.max_body_size'' s_http_response_max_body_size (u64_var lx ''http.response.max_body_size'' v desc k (\<lambda>n. s_http_response_max_body_size_update (\<lambda>_. n)))"
  by (rule u64_var_copied; auto simp: copies_def)+

lemma started_copies:
  assumes "\<forall>name var. datas name = Some var \<longrightarrow> cv_cbs var = []"
  shows "copies_follow (started lx datas) started_settings"
proof -
  have u: "cv_val (u64_var lx name v desc k upd) = CU64 v" for name v desc k upd by (simp add: u64_var_def)
  have t: "cv_val (timeout_var lx) = CInt 5000" by (simp add: timeout_var_def)
  have "\<exists>var. started lx datas name = Some var \<and> copied name g var \<and> g started_settings = u64_of (cv_val var)" if "(name, g) \<in> set copies" for name g
  proof -
    have c: "\<And>name g P. (name, g) \<in> set copies \<Longrightarrow> list_all (\<lambda>(n, g). P n g) copies \<Longrightarrow> P name g" by (auto simp: list_all_iff)
    show ?thesis
      by (rule c [OF that, of "\<lambda>name g. \<exists>var. started lx datas name = Some var \<and> copied name g var \<and> g started_settings = u64_of (cv_val var)"])
        (simp add: copies_def started_def started_settings_def u t timeout_var_copied size_vars_copied)
  qed
  moreover have "cv_cbs var = []" if "started lx datas name = Some var" "name \<notin> fst ` set copies" for name var
    using that assms by (auto simp: copies_def started_def)
  ultimately show ?thesis by (auto simp: copies_follow_def)
qed

section \<open>Properties\<close>

text \<open>C29: from the start on, and whatever documents are loaded, the sizes the HTTP parsers use and the timeout of the hooked \<open>connect\<close>
  are the values of their configuration variables (a negative timeout as its 64-bit value, so that \<open>-1\<close> is none).\<close>

theorem settings_follow_config:
  assumes "\<forall>name \<in> fst ` set copies. datas name = None" and "\<forall>name var. datas name = Some var \<longrightarrow> cv_cbs var = []"
  shows "\<exists>datas' s'. fold (\<lambda>root r. bindR r (LoadFromYaml lib root)) roots (static_init lx datas) = Inr (datas', s') \<and>
    (\<forall>(name, g) \<in> set copies. \<exists>var. datas' name = Some var \<and> g s' = u64_of (cv_val var))"
proof -
  have "\<exists>datas' s'. fold (\<lambda>root r. bindR r (LoadFromYaml lib root)) roots (Inr (d, s)) = Inr (datas', s') \<and> copies_follow datas' s'"
    if "copies_follow d s" for d s
    using that
  proof (induction roots arbitrary: d s)
    case (Cons root roots)
    obtain d' s' where "LoadFromYaml lib root (d, s) = Inr (d', s')" "copies_follow d' s'"
      using copies_follow_load [OF Cons.prems, of lib "ListAllMember [] root"] by (auto simp: LoadFromYaml_def)
    then show ?case using Cons.IH [of d' s'] by simp
  qed simp
  from this [OF started_copies [OF assms(2), of lx]] obtain datas' s'
    where r: "fold (\<lambda>root r. bindR r (LoadFromYaml lib root)) roots (static_init lx datas) = Inr (datas', s')" "copies_follow datas' s'"
    unfolding static_init_started [OF assms(1)] by blast
  then show ?thesis unfolding copies_follow_def by (intro exI [of _ datas'] exI [of _ s']) auto
qed

theorem settings_follow_config_witness:
  "\<exists>datas' s'. bindR (static_init \<lparr>lx_int = (\<lambda>t. Inr (if t = ''-1'' then - 1 else 0)), lx_u64 = (\<lambda>t. Inr 1), lx_show_int = (\<lambda>i. Inr []), lx_show_u64 = (\<lambda>n. Inr [])\<rparr> Map.empty)
     (LoadFromYaml tiny_yaml (YMap [(YScalar ''tcp'', YMap [(YScalar ''connect'', YMap [(YScalar ''timeout'', YScalar ''-1'')])])])) = Inr (datas', s') \<and>
     (\<exists>var. datas' ''tcp.connect.timeout'' = Some var \<and> s_connect_timeout s' = u64_of (cv_val var))"
  using settings_follow_config [of Map.empty tiny_yaml
    "[YMap [(YScalar ''tcp'', YMap [(YScalar ''connect'', YMap [(YScalar ''timeout'', YScalar ''-1'')])])]]"
    "\<lparr>lx_int = (\<lambda>t. Inr (if t = ''-1'' then - 1 else 0)), lx_u64 = (\<lambda>t. Inr 1), lx_show_int = (\<lambda>i. Inr []), lx_show_u64 = (\<lambda>n. Inr [])\<rparr>"]
  by (auto simp: copies_def)

end
