(* ===== verification/Spec2Isabelle.thy ===== *)
theory Spec2Isabelle
  imports Lamb_Codec Lamb_IOManager Lamb_WebSocket Lamb_WSServer Lamb_Hook Lamb_Address Lamb_LogConfig Lamb_Env Lamb_Socket Lamb_Thread Lamb_FileUtil Lamb_Settings
begin

text \<open>
  A model of \<open>lamb\<close>, a C++ framework of fibers, event-driven input and output and HTTP services
  (everything under \<open>src/lamb/\<close>).

  \<^bold>\<open>The parts of the program.\<close> A scheduler runs fibers on a pool of threads. The event manager is a
  scheduler that owns a table of waiting fibers and an \<open>epoll\<close> instance, and, as a timer manager, a set of
  timers. The hooked system calls turn a call that would block into a registration of the calling fiber with the event
  manager, with a timer for the timeout. On top of them are sockets with their addresses, streams, the growing byte buffer with
  its encodings, and the services: HTTP messages, the glue to the vendored HTTP parser, sessions, servers, the dispatcher of
  requests, clients with their pool of connections, and WebSocket sessions. Beside them are logging, configuration, the
  environment with the daemon, and utilities for strings, hashes, files, locks and threads.

  \<^bold>\<open>The theories\<close>, each after the source it models.

  Shared:
  \<^item> \<open>Lamb_Prelude\<close>: errors (\<open>exn\<close>, with a constructor per kind of exception, failed assertion, null
    dereference, out-of-range access and undefined behaviour), the result type \<open>res\<close> with its bind, machine
    words, \<open>size_t\<close> subtraction, ordered sets of \<open>std::set\<close>, and shared lemmas.
  \<^item> \<open>Lamb_Thread\<close> (\<open>mutex.h\<close>, \<open>mutex.cc\<close>, \<open>thread.cc\<close>): the locks and their guards, semaphores and the start of a thread. Guards exclude
    each other, and a thread never uses its object after its maker may have destroyed it.

  Fibers and events:
  \<^item> \<open>Lamb_Fiber\<close> (\<open>fiber.cc\<close>): the states of a fiber and the switches between fibers of a thread.
  \<^item> \<open>Lamb_Scheduler\<close> (\<open>scheduler.cc\<close>): the queue and the loop of each thread as a step relation over all
    threads; no task is lost or run twice, and a discipline under which no assertion fails.
  \<^item> \<open>Lamb_Timer\<close> (\<open>timer.cc\<close>): the set of timers ordered by deadline and address; exactly the due callbacks run.
  \<^item> \<open>Lamb_IOManager\<close> (\<open>iomanager.cc\<close>): registration, removal and triggering of events, the event loop, and the
    invariant that ties the table, the count of pending events and the kernel's masks together.
  \<^item> \<open>Lamb_FdManager\<close> and \<open>Lamb_Hook\<close> (\<open>fd_manager.cc\<close>, \<open>hook.cc\<close>): descriptors and the hooked calls. A call
    in \<open>do_io\<close> is a state machine that runs among events, timers and everybody else; what it does up to a point where others can
    run is one step.

  Data and transport:
  \<^item> \<open>Lamb_ByteArray\<close> (\<open>bytearray.cc\<close>): the linked blocks with position, size and capacity; every read and write, the
    two arrays of \<open>iovec\<close>, files. A sequence of calls refines a flat buffer.
  \<^item> \<open>Lamb_Codec\<close> (\<open>bytearray.cc\<close>, \<open>endian.h\<close>): integers of fixed width in both byte orders, base 128, zigzag and strings
    over the buffer; what is written is read.
  \<^item> \<open>Lamb_Address\<close> (\<open>address.cc\<close>): addresses of the four families, masks and subnets, texts, the order of addresses.
  \<^item> \<open>Lamb_Socket\<close> (\<open>socket.cc\<close>): the socket objects over descriptors and the kernel; every open descriptor belongs to exactly one
    socket.
  \<^item> \<open>Lamb_Stream\<close> (\<open>stream.cc\<close>, \<open>socket_stream.cc\<close>): exact reads and writes under any segmentation.

  Services:
  \<^item> \<open>Lamb_Http\<close> (\<open>http.cc\<close>, \<open>http.h\<close>): requests and responses, their maps, parameters and text.
  \<^item> \<open>Lamb_HttpParser\<close> (\<open>http_parser.cc\<close>, \<open>http_session.cc\<close>): the callbacks of the vendored parser and the loops that feed it; what is
    received is what a single call on all bytes would give.
  \<^item> \<open>Lamb_Servlet\<close> (\<open>servlet.cc\<close>): the dispatcher, refined from the history of registrations.
  \<^item> \<open>Lamb_HttpServer\<close> (\<open>tcp_server.cc\<close>, \<open>http_server.cc\<close>): listening sockets and the service of a connection, request by request.
  \<^item> \<open>Lamb_HttpClient\<close> (\<open>uri.cc\<close>, \<open>http_connection.cc\<close>): URIs, requests and the accounts of the pool of connections.
  \<^item> \<open>Lamb_WebSocket\<close> (\<open>ws_session.cc\<close>, \<open>ws_connection.cc\<close>): frames in both directions; a message cut into
    fragments with control frames between them arrives as it was sent.
  \<^item> \<open>Lamb_WSServer\<close> (\<open>ws_server.cc\<close>, \<open>ws_servlet.cc\<close> and the handshakes): the handshake and the loop of a session.

  Around them:
  \<^item> \<open>Lamb_StringUtil\<close> and \<open>Lamb_FileUtil\<close> (\<open>util.cc\<close>), \<open>Lamb_Hash\<close> (\<open>hash_util.cc\<close>): URL encoding, trimming, file names; making and
    removing trees of files; base 64.
  \<^item> \<open>Lamb_Log\<close> and \<open>Lamb_Logger\<close> (\<open>log.cc\<close>): the patterns of the formatter with their errors; appenders, loggers, the manager.
  \<^item> \<open>Lamb_Config\<close> (\<open>config.cc\<close>, \<open>config.h\<close>): conversions of containers, variables with listeners, the registry and the loading of
    documents. \<open>Lamb_LogConfig\<close> ties it to the loggers, \<open>Lamb_Settings\<close> to the HTTP parsers and the hooked \<open>connect\<close>.
  \<^item> \<open>Lamb_Env\<close> (\<open>env.cc\<close>, \<open>daemon.cc\<close>): the command line, paths, the configuration directory and the daemon.

  This theory composes the last three: a directory of configuration files reaches the settings.

  \<^bold>\<open>How state and effects are modelled.\<close> A class is a record with its members, a method a function that
  returns the new record; pointers into shared structures are addresses of a heap (timers, descriptor
  contexts, appenders, connections) or indices (blocks of the buffer). Exceptions, assertions, accesses out of range and undefined
  behaviour are values of \<open>exn\<close>. \<open>size_t\<close>, \<open>uint32_t\<close> and the others are words, or numbers with the wrap-around written
  out. Concurrency is interleaving: each step is what a thread does under one lock, or between two points where
  others can run.

  \<^bold>\<open>Interfaces.\<close> The locales state what one part relies on in another: orders of ordered sets (\<open>total_cmp\<close>, interpreted
  on the comparisons of timers and of strings), the buffer that the codecs write to (\<open>byte_buffer\<close>, interpreted on the linked
  blocks), streams of bytes (\<open>byte_source\<close> and \<open>byte_sink\<close>, joined in \<open>duplex_stream\<close>, interpreted on socket streams), maps with a
  comparison of keys (\<open>key_order\<close>, interpreted on the case-insensitive one), changes of byte order (\<open>bit_permutation\<close>,
  interpreted for ports and IPv4 addresses), and locks (\<open>exclusive_lock\<close>, interpreted on the three classes of locks).

  \<^bold>\<open>Loops.\<close> Loops over data are recursive functions with a termination proof. The loops that depend on the peer
  run on what the peer has sent, a finite list of segments. Those that may run for ever (\<open>WSRecvMessage_loop\<close>, \<open>ws_loop\<close>,
  \<open>HttpServer_handleClient\<close>) are partial functions into options, and that they return is proved (\<open>ws_recv_returns\<close>,
  \<open>ws_session_served\<close>, \<open>client_served\<close>). Directories are visited with a fuel that bounds the depth; the depth of the tree is
  enough (\<open>conf_dir_loaded\<close>, \<open>rm_removes_tree\<close>). The daemon runs on the list of the results of \<open>fork\<close>.

  \<^bold>\<open>Code outside the model\<close> is an argument of the definitions that use it: the kernel (results of \<open>epoll_ctl\<close>,
  \<open>recv\<close>, \<open>accept\<close>, \<open>fstat\<close>, \<open>fork\<close> and the like, as functions or records of functions), \<open>getaddrinfo\<close>, clocks and random numbers, \<open>fnmatch\<close>,
  \<open>lexical_cast\<close>, the formatting of times, the vendored \<open>http-parser\<close> (its execution as the argument \<open>lib\<close>, with the contract of
  its callbacks as a hypothesis, and its tables of methods and reasons), OpenSSL's SHA-1, and yaml-cpp (the record \<open>yaml_lib\<close>).

  \<^bold>\<open>Not modelled\<close>: the vendored \<open>http-parser\<close> itself and the tests; log lines of the library about itself; functions that only pass
  their arguments to the system (clocks, \<open>vasprintf\<close>, \<open>strptime\<close>, looking up the original functions with \<open>dlsym\<close>); getters of
  members; and the copy-and-paste parts of headers that declare what the sources above define.
\<close>

section \<open>From a configuration directory to the settings\<close>

lemma load_files_copies:
  "\<forall>i \<in> set files. lstat (c_str i) \<noteq> None \<Longrightarrow> copies_follow datas s \<Longrightarrow>
     \<exists>mt' datas' s'. load_files lib lstat LoadFile force files (mt, datas, s) = Inr (mt', datas', s') \<and> copies_follow datas' s'"
proof (induction files arbitrary: mt datas s)
  case (Cons i files)
  obtain t where t: "lstat (c_str i) = Some t" using Cons.prems(1) by auto
  have rest: "\<forall>i \<in> set files. lstat (c_str i) \<noteq> None" using Cons.prems(1) by simp
  show ?case
  proof (cases "LoadFile i")
    case (Inl e)
    then show ?thesis using Cons.IH [OF rest Cons.prems(2), of "mt(i \<mapsto> t)"] t by (cases force) (simp_all add: Let_def del: fun_upd_apply)
  next
    case (Inr root)
    obtain datas1 s1 where "LoadFromYaml lib root (datas, s) = Inr (datas1, s1)" "copies_follow datas1 s1"
      using copies_follow_load [OF Cons.prems(2), of lib "ListAllMember [] root"] by (auto simp: LoadFromYaml_def)
    then show ?thesis
      using Cons.IH [OF rest Cons.prems(2), of "mt(i \<mapsto> t)"] Cons.IH [OF rest, of datas1 s1 "mt(i \<mapsto> t)"] t Inr
      by (cases force) (simp_all add: Let_def del: fun_upd_apply)
  qed
qed simp

text \<open>C28: loading the configuration directory after the start of the program returns, whatever its files hold, if the files it lists can
  be stat'ed; and then the sizes of the HTTP parsers and the timeout of \<open>connect\<close> are the values of their variables.\<close>

theorem conf_dir_settings:
  assumes "getAbsolutePath path env = dir @ ''/'' @ n" and "tree_at dirs dir (Dir n ts)" and "tree_depth (Dir n ts) \<le> Suc fuel"
    and "\<forall>i \<in> set (tree_files dir ''.yml'' (Dir n ts)). lstat (c_str i) \<noteq> None"
    and "\<forall>name \<in> fst ` set copies. datas name = None" and "\<forall>name var. datas name = Some var \<longrightarrow> cv_cbs var = []"
  shows "\<exists>datas1 s1 mt' datas' s'. static_init lx datas = Inr (datas1, s1) \<and>
    LoadFromConfDir lib dirs fuel lstat LoadFile env path force (mt, datas1, s1) = Some (Inr (mt', datas', s')) \<and>
    (\<forall>(name, g) \<in> set copies. \<exists>var. datas' name = Some var \<and> g s' = u64_of (cv_val var))"
proof -
  obtain mt' datas' s' where r: "load_files lib lstat LoadFile force (tree_files dir ''.yml'' (Dir n ts)) (mt, started lx datas, started_settings) =
      Inr (mt', datas', s')" "copies_follow datas' s'"
    using load_files_copies [OF assms(4) started_copies [OF assms(6)], of lib LoadFile force mt lx] by blast
  have "LoadFromConfDir lib dirs fuel lstat LoadFile env path force (mt, started lx datas, started_settings) = Some (Inr (mt', datas', s'))"
    using ListAllFile_tree [OF assms(2,3), of "''.yml''"] r(1) by (simp only: LoadFromConfDir_def assms(1) option.map)
  moreover have "\<forall>(name, g) \<in> set copies. \<exists>var. datas' name = Some var \<and> g s' = u64_of (cv_val var)"
    using r(2) unfolding copies_follow_def by blast
  ultimately show ?thesis using static_init_started [OF assms(5), of lx] by blast
qed

theorem conf_dir_settings_witness:
  "\<exists>datas1 s1 mt' datas' s' var.
     static_init \<lparr>lx_int = (\<lambda>t. Inr 7), lx_u64 = (\<lambda>t. Inr 1), lx_show_int = (\<lambda>i. Inr []), lx_show_u64 = (\<lambda>n. Inr [])\<rparr> Map.empty = Inr (datas1, s1) \<and>
     LoadFromConfDir tiny_yaml sample_dirs 1 (\<lambda>_. Some 7) (\<lambda>_. Inr sample_doc) empty_env ''conf'' False (Map.empty, datas1, s1) = Some (Inr (mt', datas', s')) \<and>
     datas' ''tcp.connect.timeout'' = Some var \<and> s_connect_timeout s' = u64_of (cv_val var)"
proof -
  let ?t = "Dir ''conf'' [File ''a.yml'', Dir ''sub'' [File ''c.yml''], File ''b.txt'']"
  have "c_str ''/x/conf'' = ''/x/conf''" "c_str ''/x/conf/sub'' = ''/x/conf/sub''" by (simp_all add: c_str_def)
  then have tree: "tree_at sample_dirs ''/x'' ?t" by (simp add: sample_dirs_def real_entry_def)
  have path: "getAbsolutePath ''conf'' empty_env = ''/x'' @ ''/'' @ ''conf''" by (simp add: getAbsolutePath_def empty_env_def)
  have copy: "(''tcp.connect.timeout'', s_connect_timeout) \<in> set copies" by (simp add: copies_def)
  have depth: "tree_depth ?t \<le> Suc 1" by simp
  from conf_dir_settings [OF path tree depth, of "\<lambda>_. Some 7" Map.empty
      "\<lparr>lx_int = (\<lambda>t. Inr 7), lx_u64 = (\<lambda>t. Inr 1), lx_show_int = (\<lambda>i. Inr []), lx_show_u64 = (\<lambda>n. Inr [])\<rparr>" tiny_yaml "\<lambda>_. Inr sample_doc" False Map.empty]
  show ?thesis using copy by fastforce
qed

end
